(* ===== verification/Prelude.thy ===== *)
theory Prelude
  imports Main "HOL-Library.Word" "HOL-Library.Product_Lexorder"
begin

text \<open>
  Shared vocabulary of the development: the C integer types as words, the outcome of a kernel
  routine (it returns, it panics, or it does not come back by itself), sequencing and counted
  loops over outcomes, and the generic facts about lists and words that the components use.
\<close>

unbundle bit_operations_syntax

type_synonym u8 = "8 word"
type_synonym u16 = "16 word"
type_synonym u32 = "32 word"
type_synonym u64 = "64 word"

named_theorems result_simps \<open>rewriting of outcomes and of counted loops\<close>

section \<open>Outcomes of kernel code\<close>

text \<open>
  \<open>Ok\<close> is a normal return, \<open>Panic\<close> a call of \<^verbatim>\<open>panic()\<close> with its message, \<open>Hang\<close>
  a call that cannot continue on its own: it spins on a lock that another hart holds.
\<close>

datatype 'a result = Ok 'a | Panic string | Hang

fun rbind :: "'a result \<Rightarrow> ('a \<Rightarrow> 'b result) \<Rightarrow> 'b result" where
  "rbind (Ok a) f = f a"
| "rbind (Panic m) f = Panic m"
| "rbind Hang f = Hang"

lemma rbind_cong [fundef_cong]:
  "r = r' \<Longrightarrow> (\<And>a. r' = Ok a \<Longrightarrow> f a = f' a) \<Longrightarrow> rbind r f = rbind r' f'"
  by (cases r') simp_all

lemma rbind_eq_Ok [result_simps]: "rbind r f = Ok b \<longleftrightarrow> (\<exists>a. r = Ok a \<and> f a = Ok b)"
  by (cases r) simp_all

lemma rbind_OkE [elim]:
  assumes "rbind r f = Ok b"
  obtains a where "r = Ok a" and "f a = Ok b"
  using assms by (auto simp: rbind_eq_Ok)

lemma rbind_assoc [result_simps]: "rbind (rbind r f) g = rbind r (\<lambda>a. rbind (f a) g)"
  by (cases r) simp_all

lemma rbind_Ok_right [simp]: "rbind r Ok = r"
  by (cases r) simp_all

lemma rbind_if: "rbind (if b then r else r') f = (if b then rbind r f else rbind r' f)"
  by simp

text \<open>A counted loop whose body cannot leave the loop early.\<close>

fun foldR :: "('x \<Rightarrow> 's \<Rightarrow> 's result) \<Rightarrow> 'x list \<Rightarrow> 's \<Rightarrow> 's result" where
  "foldR f [] s = Ok s"
| "foldR f (x # xs) s = rbind (f x s) (foldR f xs)"

lemma foldR_append: "foldR f (xs @ ys) s = rbind (foldR f xs s) (foldR f ys)"
  by (induction xs arbitrary: s) (auto simp: rbind_assoc intro: rbind_cong)

lemma foldR_invariant:
  assumes "\<And>x s s'. x \<in> set xs \<Longrightarrow> P s \<Longrightarrow> f x s = Ok s' \<Longrightarrow> P s'"
    and "P s" and "foldR f xs s = Ok s'"
  shows "P s'"
  using assms by (induction xs arbitrary: s) (auto, blast)

lemma foldR_total:
  assumes "\<And>x s. x \<in> set xs \<Longrightarrow> P s \<Longrightarrow> \<exists>s'. f x s = Ok s' \<and> P s'"
    and "P s"
  shows "\<exists>s'. foldR f xs s = Ok s' \<and> P s'"
  using assms
proof (induction xs arbitrary: s)
  case Nil
  then show ?case by simp
next
  case (Cons x xs)
  then obtain s1 where "f x s = Ok s1" and "P s1" by (meson list.set_intros(1))
  moreover have "\<exists>s'. foldR f xs s1 = Ok s' \<and> P s'"
    using Cons.IH Cons.prems(1) \<open>P s1\<close> by simp
  ultimately show ?case by simp
qed

section \<open>Unsigned subtraction\<close>

lemma unat_sub_wrap:
  fixes a b :: u64
  shows "unat (a - b) = (if unat b \<le> unat a then unat a - unat b else 2 ^ 64 - (unat b - unat a))"
proof (cases "unat b \<le> unat a")
  case True
  then show ?thesis by (simp add: unat_sub_if')
next
  case False
  have sz: "size a = 64" by (simp add: word_size)
  have arith: "x + n - y = n - (y - x)" if "\<not> y \<le> x" for x y n :: nat using that by arith
  have "unat (a - b) = unat a + 2 ^ 64 - unat b"
    using unat_sub_if_size [of a b] unfolding sz if_not_P [OF False] .
  also have "... = 2 ^ 64 - (unat b - unat a)" using False by (rule arith)
  finally show ?thesis using False by simp
qed

section \<open>Scans for a minimum\<close>

text \<open>
  The library's \<open>arg_min_list\<close> returns the first position of a minimum. A scan that replaces
  its candidate only by a strictly smaller one computes it.
\<close>

lemma arg_min_list_snoc:
  fixes f :: "'a \<Rightarrow> 'b :: linorder"
  assumes "xs \<noteq> []"
  shows "arg_min_list f (xs @ [x]) =
    (if f x < f (arg_min_list f xs) then x else arg_min_list f xs)"
  using assms
proof (induction f xs rule: arg_min_list.induct)
  case (2 f x y zs)
  then show ?case by (simp add: Let_def) (auto simp: not_less not_le)
qed (auto simp: not_less)

definition first_min :: "('a \<Rightarrow> 'b :: linorder) \<Rightarrow> 'a list \<Rightarrow> 'a option" where
  "first_min f xs = (if xs = [] then None else Some (arg_min_list f xs))"

lemma first_min_simps [simp]: "first_min f [] = None" "first_min f [x] = Some x"
  by (simp_all add: first_min_def)

lemma first_min_snoc:
  "first_min f (xs @ [x]) = (case first_min f xs of
     None \<Rightarrow> Some x | Some m \<Rightarrow> if f x < f m then Some x else Some m)"
  by (simp add: first_min_def arg_min_list_snoc)

lemma first_min_None [simp]: "first_min f xs = None \<longleftrightarrow> xs = []"
  by (simp add: first_min_def)

lemma first_min_Some:
  assumes "first_min f xs = Some m"
  shows "m \<in> set xs" and "\<forall>x \<in> set xs. f m \<le> f x"
  using assms by (auto simp: first_min_def arg_min_list_in f_arg_min_list_f split: if_splits)

text \<open>A minimum by level first is a minimum of the lowest level.\<close>

lemma first_min_level:
  fixes lv :: "'a \<Rightarrow> 'k :: linorder" and f :: "'a \<Rightarrow> 'b :: linorder"
  assumes "filter (\<lambda>i. lv i = k) xs \<noteq> []" and "\<forall>i \<in> set xs. k \<le> lv i"
  shows "first_min (\<lambda>i. (lv i, f i)) xs = first_min f (filter (\<lambda>i. lv i = k) xs)"
  using assms
proof (induction xs rule: rev_induct)
  case (snoc x xs)
  show ?case
  proof (cases "filter (\<lambda>i. lv i = k) xs = []")
    case True
    then have x: "lv x = k" using snoc.prems(1) by (auto split: if_splits)
    have "k < lv m" if "first_min (\<lambda>i. (lv i, f i)) xs = Some m" for m
      using first_min_Some(1) [OF that] snoc.prems(2) True by (fastforce simp: filter_empty_conv)
    then show ?thesis using True x by (auto simp: first_min_snoc split: option.split)
  next
    case False
    then have ih: "first_min (\<lambda>i. (lv i, f i)) xs = first_min f (filter (\<lambda>i. lv i = k) xs)"
      using snoc by simp
    obtain m where m: "first_min f (filter (\<lambda>i. lv i = k) xs) = Some m"
      using False by (cases "first_min f (filter (\<lambda>i. lv i = k) xs)") auto
    have "lv m = k" using first_min_Some(1) [OF m] by simp
    then show ?thesis using m ih snoc.prems(2) by (auto simp: first_min_snoc)
  qed
qed simp

end
