(* ===== verification/Spinlock.thy ===== *)
theory Spinlock
  imports Prelude
begin

text \<open>
  The hart-level state and the spin locks: \<^verbatim>\<open>kernel/spinlock.c\<close>, the interrupt enable
  bit and the clock of \<^verbatim>\<open>kernel/riscv.h\<close>, and the per-CPU record of
  \<^verbatim>\<open>kernel/proc.h\<close>. A hart is named by its number (the value of \<^verbatim>\<open>tp\<close>, which
  \<^verbatim>\<open>mycpu()\<close> uses to index \<^verbatim>\<open>cpus[]\<close>). The operations are polymorphic in the
  record's extension, so that the larger kernel states use them unchanged. The second half
  is the lock as a multi-hart protocol at the granularity of its memory accesses.
\<close>

section \<open>State\<close>

text \<open>Callee-saved registers: \<open>ctx_s\<close> holds s0 to s11.\<close>

record kcontext =
  ctx_ra :: u64
  ctx_sp :: u64
  ctx_s :: "u64 list"

record cpu =
  cpu_proc :: "nat option"
  cpu_context :: kcontext
  noff :: int
  intena :: bool

record spinlock =
  locked :: bool
  lk_name :: string
  lk_cpu :: "nat option"

text \<open>
  \<open>sstatus\<close> is the supervisor status register of each hart. \<open>clk\<close> is what successive
  reads of the hardware clock return, \<open>nclk\<close> the number of reads so far.
\<close>

record hw =
  cpus :: "nat \<Rightarrow> cpu"
  sstatus :: "nat \<Rightarrow> u64"
  clk :: "nat \<Rightarrow> u64"
  nclk :: nat

definition getTime :: "'a hw_scheme \<Rightarrow> u64 \<times> 'a hw_scheme" where
  "getTime s = (clk s (nclk s), s\<lparr>nclk := Suc (nclk s)\<rparr>)"

definition SSTATUS_SIE :: u64 where
  "SSTATUS_SIE = push_bit 1 1"

definition intr_on :: "nat \<Rightarrow> 'a hw_scheme \<Rightarrow> 'a hw_scheme" where
  "intr_on c s = s\<lparr>sstatus := (sstatus s)(c := sstatus s c OR SSTATUS_SIE)\<rparr>"

definition intr_off :: "nat \<Rightarrow> 'a hw_scheme \<Rightarrow> 'a hw_scheme" where
  "intr_off c s = s\<lparr>sstatus := (sstatus s)(c := sstatus s c AND NOT SSTATUS_SIE)\<rparr>"

definition intr_get :: "nat \<Rightarrow> 'a hw_scheme \<Rightarrow> bool" where
  "intr_get c s \<longleftrightarrow> sstatus s c AND SSTATUS_SIE \<noteq> 0"

section \<open>Operations of spinlock.c\<close>

definition initlock :: "string \<Rightarrow> spinlock" where
  "initlock nm = \<lparr>locked = False, lk_name = nm, lk_cpu = None\<rparr>"

definition holding :: "nat \<Rightarrow> spinlock \<Rightarrow> bool" where
  "holding c lk \<longleftrightarrow> locked lk \<and> lk_cpu lk = Some c"

definition set_cpu :: "nat \<Rightarrow> (cpu \<Rightarrow> cpu) \<Rightarrow> 'a hw_scheme \<Rightarrow> 'a hw_scheme" where
  "set_cpu c f s = s\<lparr>cpus := (cpus s)(c := f (cpus s c))\<rparr>"

definition push_off :: "nat \<Rightarrow> 'a hw_scheme \<Rightarrow> 'a hw_scheme" where
  "push_off c s =
     (let old = intr_get c s;
          s1 = intr_off c s;
          s2 = (if noff (cpus s1 c) = 0 then set_cpu c (intena_update (\<lambda>_. old)) s1 else s1)
      in set_cpu c (noff_update (\<lambda>n. n + 1)) s2)"

definition pop_off :: "nat \<Rightarrow> 'a hw_scheme \<Rightarrow> 'a hw_scheme result" where
  "pop_off c s =
     (if intr_get c s then Panic ''pop_off - interruptible''
      else if noff (cpus s c) < 1 then Panic ''pop_off''
      else let s1 = set_cpu c (noff_update (\<lambda>n. n - 1)) s
           in Ok (if noff (cpus s1 c) = 0 \<and> intena (cpus s1 c) then intr_on c s1 else s1))"

text \<open>
  \<^verbatim>\<open>acquire\<close> spins while the lock is taken; on one hart alone that never ends, which is
  the outcome \<open>Hang\<close>. The lock is returned; the caller stores it back where it lives.
\<close>

definition acquire :: "nat \<Rightarrow> spinlock \<Rightarrow> 'a hw_scheme \<Rightarrow> (spinlock \<times> 'a hw_scheme) result" where
  "acquire c lk s =
     (let s1 = push_off c s
      in if holding c lk then Panic ''acquire''
         else if locked lk then Hang
         else Ok (lk\<lparr>locked := True, lk_cpu := Some c\<rparr>, s1))"

definition release :: "nat \<Rightarrow> spinlock \<Rightarrow> 'a hw_scheme \<Rightarrow> (spinlock \<times> 'a hw_scheme) result" where
  "release c lk s =
     (if \<not> holding c lk then Panic ''release''
      else rbind (pop_off c s) (\<lambda>s1. Ok (lk\<lparr>lk_cpu := None, locked := False\<rparr>, s1)))"

subsection \<open>The interrupt bit\<close>

lemma and_SIE_iff: "x AND SSTATUS_SIE \<noteq> 0 \<longleftrightarrow> bit x 1"
  unfolding SSTATUS_SIE_def by (simp add: bit_iff_and_push_bit_not_eq_0)

lemma intr_get_bit: "intr_get c s \<longleftrightarrow> bit (sstatus s c) 1"
  by (simp add: intr_get_def and_SIE_iff)

lemma bit_or_SIE: "bit (x OR SSTATUS_SIE) n \<longleftrightarrow> bit x n \<or> n = 1"
  by (cases "n = 1") (auto simp: SSTATUS_SIE_def bit_simps)

lemma bit_andnot_SIE: "bit (x AND NOT SSTATUS_SIE) n \<longleftrightarrow> bit x n \<and> n \<noteq> 1"
  by (cases "n = 1") (auto simp: SSTATUS_SIE_def bit_simps dest: bit_imp_le_length)

lemma SIE_off_on [simp]: "bit x 1 \<Longrightarrow> (x AND NOT SSTATUS_SIE) OR SSTATUS_SIE = x"
  by (rule bit_eqI) (auto simp: bit_or_SIE bit_andnot_SIE)

lemma SIE_off_id [simp]: "\<not> bit x 1 \<Longrightarrow> x AND NOT SSTATUS_SIE = x"
  by (rule bit_eqI) (auto simp: bit_andnot_SIE)

lemma intr_get_simps [simp]:
  "intr_get c (intr_on c s)" "\<not> intr_get c (intr_off c s)"
  "d \<noteq> c \<Longrightarrow> intr_get d (intr_on c s) = intr_get d s"
  "d \<noteq> c \<Longrightarrow> intr_get d (intr_off c s) = intr_get d s"
  "intr_get d (set_cpu c f s) = intr_get d s"
  by (simp_all add: intr_get_bit intr_on_def intr_off_def set_cpu_def bit_or_SIE bit_andnot_SIE)

lemma cpus_simps [simp]:
  "cpus (intr_on c s) = cpus s" "cpus (intr_off c s) = cpus s"
  "cpus (set_cpu c f s) = (cpus s)(c := f (cpus s c))"
  "sstatus (set_cpu c f s) = sstatus s"
  by (simp_all add: intr_on_def intr_off_def set_cpu_def)

subsection \<open>push_off and pop_off are matched\<close>

text \<open>
  What the code keeps true of a hart: the nesting depth is not negative, and while it is
  positive interrupts are off.
\<close>

definition hart_ok :: "nat \<Rightarrow> 'a hw_scheme \<Rightarrow> bool" where
  "hart_ok c s \<longleftrightarrow> 0 \<le> noff (cpus s c) \<and> (0 < noff (cpus s c) \<longrightarrow> \<not> intr_get c s)"

lemma push_off_noff [simp]: "noff (cpus (push_off c s) c) = noff (cpus s c) + 1"
  by (simp add: push_off_def Let_def)

lemma push_off_intr [simp]: "\<not> intr_get c (push_off c s)"
  by (simp add: push_off_def Let_def)

lemma push_off_sstatus:
  "sstatus (push_off c s) = (sstatus s)(c := sstatus s c AND NOT SSTATUS_SIE)"
  by (simp add: push_off_def Let_def intr_off_def set_cpu_def)

lemma push_off_intena:
  "intena (cpus (push_off c s) c) =
     (if noff (cpus s c) = 0 then intr_get c s else intena (cpus s c))"
  by (simp add: push_off_def Let_def)

lemma push_off_hart_ok [simp]: "hart_ok c s \<Longrightarrow> hart_ok c (push_off c s)"
  by (simp add: hart_ok_def)

lemma pop_off_hart_ok: "hart_ok c s \<Longrightarrow> pop_off c s = Ok s' \<Longrightarrow> hart_ok c s'"
  by (auto simp: hart_ok_def pop_off_def Let_def split: if_splits)

text \<open>What one matched pair leaves behind: only the saved enable bit may have changed.\<close>

definition settle :: "nat \<Rightarrow> 'a hw_scheme \<Rightarrow> 'a hw_scheme" where
  "settle c s =
     set_cpu c (\<lambda>p. p\<lparr>intena := if noff p = 0 then intr_get c s else intena p\<rparr>) s"

lemma noff_update_id [simp]: "noff_update (\<lambda>n. n) p = p"
  by (cases p) simp

lemma pop_push:
  assumes "hart_ok c s"
  shows "pop_off c (push_off c s) = Ok (settle c s)"
proof -
  have sst: "(sstatus s)(c := sstatus s c AND NOT SSTATUS_SIE) = sstatus s" if "\<not> intr_get c s"
    using that by (simp add: intr_get_bit fun_eq_iff)
  show ?thesis
  proof (cases "noff (cpus s c) = 0 \<and> intr_get c s")
    case True
    then show ?thesis
      by (simp add: pop_off_def push_off_def settle_def Let_def set_cpu_def intr_on_def intr_off_def
          intr_get_bit bit_andnot_SIE o_def)
  next
    case False
    with assms have off: "\<not> intr_get c s" by (auto simp: hart_ok_def)
    with assms sst show ?thesis
      by (auto simp: pop_off_def push_off_def settle_def Let_def set_cpu_def intr_off_def
          intr_get_bit hart_ok_def o_def)
  qed
qed

lemma settle_simps [simp]:
  "sstatus (settle c s) = sstatus s" "noff (cpus (settle c s) d) = noff (cpus s d)"
  "intr_get d (settle c s) = intr_get d s" "clk (settle c s) = clk s" "nclk (settle c s) = nclk s"
  "cpu_proc (cpus (settle c s) d) = cpu_proc (cpus s d)"
  by (simp_all add: settle_def set_cpu_def intr_get_def)

lemma hart_ok_settle [simp]: "hart_ok d (settle c s) = hart_ok d s"
  by (simp add: hart_ok_def)

datatype intr_op = PushOff | PopOff

fun run_intr :: "nat \<Rightarrow> intr_op list \<Rightarrow> 'a hw_scheme \<Rightarrow> 'a hw_scheme result" where
  "run_intr c [] s = Ok s"
| "run_intr c (PushOff # ops) s = run_intr c ops (push_off c s)"
| "run_intr c (PopOff # ops) s = rbind (pop_off c s) (run_intr c ops)"

text \<open>Every \<open>PopOff\<close> has an earlier \<open>PushOff\<close> of its own, \<open>d\<close> of them outstanding.\<close>

fun matched :: "nat \<Rightarrow> intr_op list \<Rightarrow> bool" where
  "matched d [] \<longleftrightarrow> d = 0"
| "matched d (PushOff # ops) \<longleftrightarrow> matched (Suc d) ops"
| "matched d (PopOff # ops) \<longleftrightarrow> 0 < d \<and> matched (d - 1) ops"

text \<open>The state \<open>s\<close> is \<open>d\<close> levels of \<^verbatim>\<open>push_off\<close> inside the state \<open>s0\<close>.\<close>

definition nested :: "nat \<Rightarrow> 'a hw_scheme \<Rightarrow> nat \<Rightarrow> 'a hw_scheme \<Rightarrow> bool" where
  "nested c s0 d s \<longleftrightarrow>
     noff (cpus s c) = noff (cpus s0 c) + int d \<and>
     (if d = 0 then sstatus s = sstatus s0
      else sstatus s = (sstatus s0)(c := sstatus s0 c AND NOT SSTATUS_SIE) \<and>
           (noff (cpus s0 c) = 0 \<longrightarrow> intena (cpus s c) = intr_get c s0))"

lemma nested_push:
  assumes "hart_ok c s0" and "nested c s0 d s"
  shows "nested c s0 (Suc d) (push_off c s)"
  using assms
  by (cases "d = 0")
    (auto simp: nested_def hart_ok_def push_off_sstatus push_off_intena intr_get_bit
      bit_andnot_SIE)

lemma nested_pop:
  assumes "hart_ok c s0" and "nested c s0 (Suc d) s"
  shows "\<exists>s'. pop_off c s = Ok s' \<and> nested c s0 d s'"
proof -
  from assms have off: "\<not> intr_get c s" and depth: "noff (cpus s c) = noff (cpus s0 c) + int d + 1"
    by (auto simp: nested_def intr_get_bit bit_andnot_SIE)
  with assms(1) have ok: "pop_off c s = Ok (let s1 = set_cpu c (noff_update (\<lambda>n. n - 1)) s
      in if noff (cpus s1 c) = 0 \<and> intena (cpus s1 c) then intr_on c s1 else s1)"
    by (simp add: pop_off_def hart_ok_def Let_def)
  then show ?thesis
    using assms depth
    by (auto simp: nested_def hart_ok_def Let_def intr_on_def set_cpu_def intr_get_bit
        bit_andnot_SIE fun_eq_iff)
qed

lemma run_intr_nested:
  assumes "hart_ok c s0" and "nested c s0 d s" and "matched d ops"
  shows "\<exists>s'. run_intr c ops s = Ok s' \<and> nested c s0 0 s'"
  using assms(2,3)
proof (induction ops arbitrary: d s)
  case Nil
  then show ?case by simp
next
  case (Cons op ops)
  show ?case
  proof (cases op)
    case PushOff
    with Cons.prems have "nested c s0 (Suc d) (push_off c s)" and "matched (Suc d) ops"
      using nested_push [OF assms(1)] by simp_all
    with PushOff show ?thesis using Cons.IH by simp
  next
    case PopOff
    with Cons.prems obtain d' where "d = Suc d'" and "matched d' ops"
      by (cases d) auto
    with Cons.prems nested_pop [OF assms(1)] obtain s1
      where "pop_off c s = Ok s1" and "nested c s0 d' s1" by blast
    with PopOff \<open>matched d' ops\<close> Cons.IH show ?thesis by simp
  qed
qed

text \<open>
  C18: push_off and pop_off are matched: after any properly nested sequence of them the hart has
  the status register (so the interrupt enable bit) and the nesting depth it started with, and
  none of the calls panics.
\<close>

theorem push_pop_matched:
  assumes "hart_ok c s" and "matched 0 ops"
  shows "\<exists>s'. run_intr c ops s = Ok s' \<and> sstatus s' = sstatus s \<and>
    noff (cpus s' c) = noff (cpus s c)"
proof -
  have "nested c s 0 s" by (simp add: nested_def)
  with run_intr_nested [OF assms(1) _ assms(2)] show ?thesis
    by (force simp: nested_def)
qed

definition boot_hw :: hw where
  "boot_hw = \<lparr>cpus = (\<lambda>_. \<lparr>cpu_proc = None, cpu_context = \<lparr>ctx_ra = 0, ctx_sp = 0, ctx_s = []\<rparr>,
       noff = 0, intena = False\<rparr>),
     sstatus = (\<lambda>_. SSTATUS_SIE), clk = (\<lambda>n. of_nat n), nclk = 0\<rparr>"

theorem push_pop_matched_witness:
  "hart_ok 0 boot_hw \<and> matched 0 [PushOff, PushOff, PopOff, PopOff] \<and>
   (\<exists>s'. run_intr 0 [PushOff, PushOff, PopOff, PopOff] boot_hw = Ok s' \<and>
     sstatus s' = sstatus boot_hw \<and> noff (cpus s' 0) = noff (cpus boot_hw 0))"
proof -
  have ok: "hart_ok 0 boot_hw" by (simp add: hart_ok_def boot_hw_def)
  have m: "matched 0 [PushOff, PushOff, PopOff, PopOff]" by simp
  show ?thesis using ok m push_pop_matched [OF ok m] by simp
qed

subsection \<open>A critical section on one hart\<close>

lemma holding_acquired: "acquire c lk s = Ok (lk', s') \<Longrightarrow> holding c lk'"
  by (auto simp: acquire_def holding_def Let_def split: if_splits)

lemma acquire_free:
  "\<not> locked lk \<Longrightarrow> acquire c lk s = Ok (lk\<lparr>locked := True, lk_cpu := Some c\<rparr>, push_off c s)"
  by (simp add: acquire_def holding_def Let_def)

lemma acquire_twice_panics:
  "holding c lk \<Longrightarrow> acquire c lk s = Panic ''acquire''"
  by (simp add: acquire_def Let_def)

lemma release_not_held_panics:
  "\<not> holding c lk \<Longrightarrow> release c lk s = Panic ''release''"
  by (simp add: release_def)

section \<open>The lock as a protocol between harts\<close>

text \<open>
  Each hart is at one point of \<^verbatim>\<open>acquire\<close> or \<^verbatim>\<open>release\<close>: outside, in the spin
  loop, past the successful atomic swap but before \<^verbatim>\<open>lk->cpu = mycpu()\<close>, inside the
  critical section, or past \<^verbatim>\<open>lk->cpu = 0\<close> but before the releasing swap. One step is
  one access to the lock by one hart, and any hart may be the next to move.
\<close>

datatype lock_pc = Outside | Spinning | Swapped | Inside | Leaving

record lock_sys =
  sys_lock :: spinlock
  sys_pc :: "nat \<Rightarrow> lock_pc"

inductive lock_step :: "lock_sys \<Rightarrow> lock_sys \<Rightarrow> bool" where
  enter: "sys_pc s c = Outside \<Longrightarrow> \<not> holding c (sys_lock s) \<Longrightarrow>
    lock_step s (s\<lparr>sys_pc := (sys_pc s)(c := Spinning)\<rparr>)"
| spin: "sys_pc s c = Spinning \<Longrightarrow> locked (sys_lock s) \<Longrightarrow> lock_step s s"
| swap: "sys_pc s c = Spinning \<Longrightarrow> \<not> locked (sys_lock s) \<Longrightarrow>
    lock_step s (s\<lparr>sys_lock := (sys_lock s)\<lparr>locked := True\<rparr>,
      sys_pc := (sys_pc s)(c := Swapped)\<rparr>)"
| record_cpu: "sys_pc s c = Swapped \<Longrightarrow>
    lock_step s (s\<lparr>sys_lock := (sys_lock s)\<lparr>lk_cpu := Some c\<rparr>,
      sys_pc := (sys_pc s)(c := Inside)\<rparr>)"
| clear_cpu: "sys_pc s c = Inside \<Longrightarrow> holding c (sys_lock s) \<Longrightarrow>
    lock_step s (s\<lparr>sys_lock := (sys_lock s)\<lparr>lk_cpu := None\<rparr>,
      sys_pc := (sys_pc s)(c := Leaving)\<rparr>)"
| unlock: "sys_pc s c = Leaving \<Longrightarrow>
    lock_step s (s\<lparr>sys_lock := (sys_lock s)\<lparr>locked := False\<rparr>,
      sys_pc := (sys_pc s)(c := Outside)\<rparr>)"

definition lock_init :: "string \<Rightarrow> lock_sys" where
  "lock_init nm = \<lparr>sys_lock = initlock nm, sys_pc = (\<lambda>_. Outside)\<rparr>"

inductive lock_reachable :: "string \<Rightarrow> lock_sys \<Rightarrow> bool" for nm where
  start: "lock_reachable nm (lock_init nm)"
| step: "lock_reachable nm s \<Longrightarrow> lock_step s t \<Longrightarrow> lock_reachable nm t"

definition owns :: "lock_sys \<Rightarrow> nat \<Rightarrow> bool" where
  "owns s c \<longleftrightarrow> sys_pc s c \<in> {Swapped, Inside, Leaving}"

lemma owns_upd [simp]:
  "owns (s\<lparr>sys_pc := (sys_pc s)(c := p)\<rparr>) d = (if d = c then p \<in> {Swapped, Inside, Leaving} else owns s d)"
  "owns (s\<lparr>sys_lock := l, sys_pc := (sys_pc s)(c := p)\<rparr>) d =
     (if d = c then p \<in> {Swapped, Inside, Leaving} else owns s d)"
  by (simp_all add: owns_def)

text \<open>
  The strengthened invariant: either the lock is free, nobody owns it and no hart is recorded,
  or it is taken, it has exactly one owner, and the owner is recorded just while inside.
\<close>

definition lock_free :: "lock_sys \<Rightarrow> bool" where
  "lock_free s \<longleftrightarrow>
     \<not> locked (sys_lock s) \<and> (\<forall>c. \<not> owns s c) \<and> lk_cpu (sys_lock s) = None"

definition lock_taken :: "nat \<Rightarrow> lock_sys \<Rightarrow> bool" where
  "lock_taken h s \<longleftrightarrow> locked (sys_lock s) \<and> (\<forall>c. owns s c \<longleftrightarrow> c = h) \<and>
     lk_cpu (sys_lock s) = (if sys_pc s h = Inside then Some h else None)"

definition lock_inv :: "lock_sys \<Rightarrow> bool" where
  "lock_inv s \<longleftrightarrow> lock_free s \<or> (\<exists>h. lock_taken h s)"

lemma pc_owns:
  "sys_pc s c = Swapped \<Longrightarrow> owns s c" "sys_pc s c = Inside \<Longrightarrow> owns s c"
  "sys_pc s c = Leaving \<Longrightarrow> owns s c" "sys_pc s c = Outside \<Longrightarrow> \<not> owns s c"
  "sys_pc s c = Spinning \<Longrightarrow> \<not> owns s c"
  by (simp_all add: owns_def)

lemma lock_inv_owner: "lock_inv s \<Longrightarrow> owns s c \<Longrightarrow> lock_taken c s"
  unfolding lock_inv_def lock_free_def lock_taken_def by metis

lemma lock_step_taken:
  "lock_step s t \<Longrightarrow> lock_taken h s \<Longrightarrow> lock_taken h t \<or> lock_free t"
proof (induction rule: lock_step.induct)
  case (enter s c)
  then have "c \<noteq> h" using pc_owns(4) [of s c] by (auto simp: lock_taken_def)
  with enter show ?case by (simp add: lock_taken_def)
next
  case (record_cpu s c)
  then have "c = h" using pc_owns(1) [of s c] by (auto simp: lock_taken_def)
  with record_cpu show ?case by (simp add: lock_taken_def)
next
  case (clear_cpu s c)
  then have "c = h" using pc_owns(2) [of s c] by (auto simp: lock_taken_def)
  with clear_cpu show ?case by (simp add: lock_taken_def)
next
  case (unlock s c)
  then have "c = h" using pc_owns(3) [of s c] by (auto simp: lock_taken_def)
  with unlock show ?case by (simp add: lock_taken_def lock_free_def)
qed (simp_all add: lock_taken_def)

lemma lock_step_free:
  "lock_step s t \<Longrightarrow> lock_free s \<Longrightarrow> lock_inv t"
proof (induction rule: lock_step.induct)
  case (swap s c)
  then have "lock_taken c (s\<lparr>sys_lock := (sys_lock s)\<lparr>locked := True\<rparr>,
      sys_pc := (sys_pc s)(c := Swapped)\<rparr>)"
    by (simp add: lock_taken_def lock_free_def)
  then show ?case unfolding lock_inv_def by blast
next
  case (record_cpu s c)
  then show ?case using pc_owns(1) by (auto simp: lock_free_def)
next
  case (unlock s c)
  then show ?case using pc_owns(3) by (auto simp: lock_free_def)
qed (simp_all add: lock_inv_def lock_free_def holding_def)

lemma lock_inv_step: "lock_step s t \<Longrightarrow> lock_inv s \<Longrightarrow> lock_inv t"
  unfolding lock_inv_def [of s] using lock_step_free lock_step_taken [of s t]
  by (auto simp: lock_inv_def)

lemma lock_inv_reachable: "lock_reachable nm s \<Longrightarrow> lock_inv s"
proof (induction rule: lock_reachable.induct)
  case start
  show ?case by (simp add: lock_inv_def lock_free_def owns_def lock_init_def initlock_def)
next
  case (step s t)
  then show ?case by (blast intro: lock_inv_step)
qed

text \<open>
  C9: in every interleaving of the harts' accesses, at most one hart is between its successful
  swap and its releasing swap, and \<^verbatim>\<open>holding()\<close> is exact: it is true on a hart precisely
  while that hart is in its critical section.
\<close>

theorem spinlock_mutual_exclusion:
  assumes "lock_reachable nm s"
  shows "(owns s c \<and> owns s d \<longrightarrow> c = d) \<and> (holding c (sys_lock s) \<longleftrightarrow> sys_pc s c = Inside)"
proof -
  have inv: "lock_inv s" using assms by (rule lock_inv_reachable)
  have "c = d" if "owns s c" and "owns s d"
    using that lock_inv_owner [OF inv] by (simp add: lock_taken_def)
  moreover have "holding c (sys_lock s) \<longleftrightarrow> sys_pc s c = Inside"
  proof
    assume "holding c (sys_lock s)"
    with inv show "sys_pc s c = Inside"
      by (auto simp: holding_def lock_inv_def lock_free_def lock_taken_def split: if_splits)
  next
    assume "sys_pc s c = Inside"
    moreover from this have "lock_taken c s" using lock_inv_owner [OF inv] pc_owns(2) by blast
    ultimately show "holding c (sys_lock s)" by (simp add: lock_taken_def holding_def)
  qed
  ultimately show ?thesis by blast
qed

theorem spinlock_mutual_exclusion_witness:
  "lock_reachable ''proc'' ((lock_init ''proc'')\<lparr>sys_pc := (\<lambda>_. Outside)(3 := Spinning)\<rparr>) \<and>
   \<not> holding 3 (sys_lock ((lock_init ''proc'')\<lparr>sys_pc := (\<lambda>_. Outside)(3 := Spinning)\<rparr>))"
  (is "lock_reachable _ ?s \<and> _")
proof -
  have "lock_step (lock_init ''proc'') ?s"
    using lock_step.enter [of "lock_init ''proc''" 3]
    by (simp add: lock_init_def initlock_def holding_def)
  then have r: "lock_reachable ''proc'' ?s"
    by (rule lock_reachable.step [OF lock_reachable.start])
  show ?thesis using r spinlock_mutual_exclusion [OF r, of 3 3] by simp
qed

end
