(* ===== verification/Cmem.thy ===== *)
theory Cmem
  imports Prelude
begin

text \<open>
  Byte-addressed memory and the C string routines of \<^verbatim>\<open>kernel/string.c\<close>. Memory maps
  64-bit addresses to bytes; a pointer is an address, and pointer arithmetic wraps as the
  machine's does. Each routine is the loop of the source over that memory. The lemmas give the
  loops their closed form: what every byte holds afterwards.
\<close>

type_synonym mem = "u64 \<Rightarrow> u8"

section \<open>Address arithmetic\<close>

lemma addr_inj:
  assumes "i < 2 ^ 64" and "j < 2 ^ 64"
  shows "(p :: u64) + word_of_nat i = p + word_of_nat j \<longleftrightarrow> i = j"
  using assms by (simp add: word_of_nat_eq_iff take_bit_nat_eq_self)

lemma addr_Suc: "(p :: u64) + 1 + word_of_nat i = p + word_of_nat (Suc i)"
  by (simp add: add.assoc)

lemma addr_0 [simp]: "i < 2 ^ 64 \<Longrightarrow> (p :: u64) + word_of_nat i = p \<longleftrightarrow> i = 0"
  using addr_inj [of i 0 p] by simp

lemma unat_u32: "unat (n :: u32) < 2 ^ 64"
proof -
  have "unat n < 2 ^ LENGTH(32)" by (rule unsigned_less)
  then show ?thesis by simp
qed

section \<open>memset\<close>

primrec memset_loop :: "nat \<Rightarrow> u64 \<Rightarrow> u8 \<Rightarrow> mem \<Rightarrow> mem" where
  "memset_loop 0 d c m = m"
| "memset_loop (Suc n) d c m = memset_loop n (d + 1) c (m(d := c))"

definition memset :: "u64 \<Rightarrow> u8 \<Rightarrow> u32 \<Rightarrow> mem \<Rightarrow> mem" where
  "memset dst c n m = memset_loop (unat n) dst c m"

text \<open>The addresses \<open>d, d + 1, ..., d + n - 1\<close>.\<close>

definition in_range :: "u64 \<Rightarrow> nat \<Rightarrow> u64 \<Rightarrow> bool" where
  "in_range d n a \<longleftrightarrow> unat (a - d) < n"

lemma in_range_0 [simp]: "\<not> in_range d 0 a"
  by (simp add: in_range_def)

lemma unat_diff_1: "a \<noteq> (d :: u64) \<Longrightarrow> unat (a - (d + 1)) = unat (a - d) - 1"
  using unat_minus_one [of "a - d"] by (simp add: diff_diff_eq)

lemma in_range_Suc: "n < 2 ^ 64 \<Longrightarrow> in_range d (Suc n) a \<longleftrightarrow> a = d \<or> in_range (d + 1) n a"
proof (cases "a = d")
  case False
  then have "a - d \<noteq> 0" by simp
  then have "0 < unat (a - d)" by (simp add: unat_gt_0)
  with False show ?thesis by (auto simp: in_range_def unat_diff_1)
qed (simp add: in_range_def)

lemma in_range_start: "n < 2 ^ 64 \<Longrightarrow> \<not> in_range (d + 1) n d"
  by (simp add: in_range_def unsigned_minus_1_eq_mask mask_eq_exp_minus_1)

lemma in_range_offset: "i < 2 ^ 64 \<Longrightarrow> in_range d n (d + word_of_nat i) \<longleftrightarrow> i < n"
  by (simp add: in_range_def unat_of_nat)

lemma memset_loop_eq:
  "n < 2 ^ 64 \<Longrightarrow> memset_loop n d c m = (\<lambda>a. if in_range d n a then c else m a)"
proof (induction n arbitrary: d m)
  case 0
  then show ?case by simp
next
  case (Suc n)
  then show ?case by (auto simp: fun_eq_iff in_range_Suc)
qed

lemma memset_eq: "memset dst c n m = (\<lambda>a. if in_range dst (unat n) a then c else m a)"
proof -
  have "unat n < 2 ^ 64" by (rule unat_u32)
  then show ?thesis by (simp add: memset_def memset_loop_eq)
qed

section \<open>memmove\<close>

primrec copy_fwd :: "nat \<Rightarrow> u64 \<Rightarrow> u64 \<Rightarrow> mem \<Rightarrow> mem" where
  "copy_fwd 0 d s m = m"
| "copy_fwd (Suc n) d s m = copy_fwd n (d + 1) (s + 1) (m(d := m s))"

primrec copy_bwd :: "nat \<Rightarrow> u64 \<Rightarrow> u64 \<Rightarrow> mem \<Rightarrow> mem" where
  "copy_bwd 0 d s m = m"
| "copy_bwd (Suc n) d s m = copy_bwd n (d - 1) (s - 1) (m(d - 1 := m (s - 1)))"

definition memmove :: "u64 \<Rightarrow> u64 \<Rightarrow> u32 \<Rightarrow> mem \<Rightarrow> mem" where
  "memmove dst src n m =
     (if n = 0 then m
      else if src < dst \<and> dst < src + ucast n
      then copy_bwd (unat n) (dst + ucast n) (src + ucast n) m
      else copy_fwd (unat n) dst src m)"

definition memcpy :: "u64 \<Rightarrow> u64 \<Rightarrow> u32 \<Rightarrow> mem \<Rightarrow> mem" where
  "memcpy dst src n m = memmove dst src n m"

lemma copy_fwd_miss:
  "n < 2 ^ 64 \<Longrightarrow> \<not> in_range d n a \<Longrightarrow> copy_fwd n d s m a = m a"
  by (induction n arbitrary: d s m) (simp_all add: in_range_Suc)

lemma copy_fwd_hit:
  assumes "n < 2 ^ 64" and "k < n"
    and "\<And>i j. i < j \<Longrightarrow> j < n \<Longrightarrow> d + word_of_nat i \<noteq> s + word_of_nat j"
  shows "copy_fwd n d s m (d + word_of_nat k) = m (s + word_of_nat k)"
  using assms
proof (induction n arbitrary: d s m k)
  case 0
  then show ?case by simp
next
  case (Suc n)
  show ?case
  proof (cases k)
    case 0
    with Suc.prems(1) show ?thesis by (simp add: copy_fwd_miss in_range_start)
  next
    case (Suc k')
    have "copy_fwd n (d + 1) (s + 1) (m(d := m s)) (d + 1 + word_of_nat k') =
        (m(d := m s)) (s + 1 + word_of_nat k')"
    proof (rule Suc.IH)
      fix i j :: nat
      assume "i < j" and "j < n"
      then show "d + 1 + word_of_nat i \<noteq> s + 1 + word_of_nat j"
        using Suc.prems(3) [of "Suc i" "Suc j"] by (simp only: addr_Suc) simp
    qed (use Suc.prems Suc in simp_all)
    moreover have "d \<noteq> s + word_of_nat k"
      using Suc.prems(3) [of 0 k] Suc.prems(2) Suc by simp
    ultimately show ?thesis using Suc by (simp only: addr_Suc copy_fwd.simps) simp
  qed
qed

lemma copy_bwd_miss:
  "n < 2 ^ 64 \<Longrightarrow> \<not> in_range d n a \<Longrightarrow>
   copy_bwd n (d + word_of_nat n) (s + word_of_nat n) m a = m a"
proof (induction n arbitrary: m)
  case 0
  then show ?case by simp
next
  case (Suc n)
  then have "\<not> in_range d n a" and "a \<noteq> d + word_of_nat n"
    by (auto simp: in_range_def unat_of_nat)
  with Suc show ?case by simp
qed

lemma copy_bwd_hit:
  assumes "n < 2 ^ 64" and "k < n"
    and "\<And>i j. j < i \<Longrightarrow> i < n \<Longrightarrow> d + word_of_nat i \<noteq> s + word_of_nat j"
  shows "copy_bwd n (d + word_of_nat n) (s + word_of_nat n) m (d + word_of_nat k) =
    m (s + word_of_nat k)"
  using assms
proof (induction n arbitrary: m)
  case 0
  then show ?case by simp
next
  case (Suc n)
  show ?case
  proof (cases "k = n")
    case True
    with Suc.prems(1) show ?thesis
      by (simp add: copy_bwd_miss in_range_offset)
  next
    case False
    with Suc have "s + word_of_nat k \<noteq> d + word_of_nat n" by (metis less_SucE lessI)
    with Suc False show ?thesis by simp
  qed
qed

text \<open>Without wrap-around at the end of the address space, address order is offset order.\<close>

lemma unat_addr:
  "unat (p :: u64) + k < 2 ^ 64 \<Longrightarrow> unat (p + word_of_nat k) = unat p + k"
  by (simp add: unat_word_ariths unat_of_nat)

text \<open>
  C19: memmove copies correctly whether or not the two regions overlap: every byte of the
  destination is the byte the source held before the call, and nothing else changes.
\<close>

theorem memmove_correct:
  assumes "unat dst + unat n < 2 ^ 64" and "unat src + unat n < 2 ^ 64"
  shows "(\<forall>k < unat n. memmove dst src n m (dst + word_of_nat k) = m (src + word_of_nat k)) \<and>
    (\<forall>a. \<not> in_range dst (unat n) a \<longrightarrow> memmove dst src n m a = m a)"
proof -
  have n64: "unat n < 2 ^ 64" by (rule unat_u32)
  have un: "(ucast n :: u64) = word_of_nat (unat n)" by simp
  show ?thesis
  proof (cases "src < dst \<and> dst < src + ucast n")
    case True
    then have lt: "unat src < unat dst" by (simp add: word_less_nat_alt)
    have ne: "dst + word_of_nat i \<noteq> src + word_of_nat j" if "j < i" "i < unat n" for i j
    proof
      assume "dst + word_of_nat i = src + word_of_nat j"
      then have "unat dst + i = unat src + j"
        using assms that unat_addr [of dst i] unat_addr [of src j] by simp
      with lt that show False by simp
    qed
    have eq: "memmove dst src n m =
        copy_bwd (unat n) (dst + word_of_nat (unat n)) (src + word_of_nat (unat n)) m"
      using True unfolding memmove_def un by auto
    show ?thesis unfolding eq using copy_bwd_hit [OF n64 _ ne] copy_bwd_miss [OF n64] by blast
  next
    case False
    have ne: "dst + word_of_nat i \<noteq> src + word_of_nat j" if "i < j" "j < unat n" for i j
    proof
      assume "dst + word_of_nat i = src + word_of_nat j"
      then have e: "unat dst + i = unat src + j"
        using assms that unat_addr [of dst i] unat_addr [of src j] by simp
      moreover have "unat (src + ucast n) = unat src + unat n"
        using unat_addr [OF assms(2)] by simp
      ultimately show False using False that by (simp add: word_less_nat_alt)
    qed
    have eq: "memmove dst src n m = copy_fwd (unat n) dst src m"
      using False unfolding memmove_def by auto
    show ?thesis unfolding eq using copy_fwd_hit [OF n64 _ ne] copy_fwd_miss [OF n64] by blast
  qed
qed

definition mem16 :: mem where
  "mem16 a = ucast a"

theorem memmove_correct_witness:
  "memmove 102 100 8 mem16 105 = 103 \<and> memmove 102 100 8 mem16 110 = 110"
proof -
  have r: "unat (102 :: u64) + unat (8 :: u32) < 2 ^ 64" "unat (100 :: u64) + unat (8 :: u32) < 2 ^ 64"
    by simp_all
  have r_lt: "3 < unat (8 :: u32)" by simp
  have "memmove 102 100 8 mem16 (102 + word_of_nat 3) = mem16 (100 + word_of_nat 3)"
    using memmove_correct [OF r, of mem16] r_lt by blast
  moreover have "memmove 102 100 8 mem16 110 = mem16 110"
    using memmove_correct [OF r, of mem16] by (simp add: in_range_def)
  ultimately show ?thesis by (simp add: mem16_def)
qed

section \<open>Comparison\<close>

primrec memcmp_loop :: "nat \<Rightarrow> u64 \<Rightarrow> u64 \<Rightarrow> mem \<Rightarrow> int" where
  "memcmp_loop 0 s1 s2 m = 0"
| "memcmp_loop (Suc n) s1 s2 m =
     (if m s1 \<noteq> m s2 then uint (m s1) - uint (m s2) else memcmp_loop n (s1 + 1) (s2 + 1) m)"

definition memcmp :: "u64 \<Rightarrow> u64 \<Rightarrow> u32 \<Rightarrow> mem \<Rightarrow> int" where
  "memcmp v1 v2 n m = memcmp_loop (unat n) v1 v2 m"

primrec strncmp_loop :: "nat \<Rightarrow> u64 \<Rightarrow> u64 \<Rightarrow> mem \<Rightarrow> int" where
  "strncmp_loop 0 p q m = 0"
| "strncmp_loop (Suc n) p q m =
     (if m p \<noteq> 0 \<and> m p = m q then strncmp_loop n (p + 1) (q + 1) m
      else uint (m p) - uint (m q))"

definition strncmp :: "u64 \<Rightarrow> u64 \<Rightarrow> u32 \<Rightarrow> mem \<Rightarrow> int" where
  "strncmp p q n m = strncmp_loop (unat n) p q m"

lemma uint_eq [simp]: "uint (x :: u8) = uint y \<longleftrightarrow> x = y"
  by (simp add: word_uint_eq_iff)

lemma uint_eq_0 [simp]: "uint (x :: u8) = 0 \<longleftrightarrow> x = 0"
  by (simp add: unsigned_eq_0_iff)

lemma memcmp_loop_0:
  "memcmp_loop n p q m = 0 \<longleftrightarrow> (\<forall>i < n. m (p + word_of_nat i) = m (q + word_of_nat i))"
proof (induction n arbitrary: p q)
  case 0
  then show ?case by simp
next
  case (Suc n)
  then show ?case
    by (auto simp: All_less_Suc2 addr_Suc simp del: of_nat_Suc)
qed

text \<open>
  Two strings agree up to \<open>n\<close> bytes: scanning both, every position reached before the end of
  the first string holds the same byte.
\<close>

definition str_agree :: "nat \<Rightarrow> u64 \<Rightarrow> u64 \<Rightarrow> mem \<Rightarrow> bool" where
  "str_agree n p q m \<longleftrightarrow>
     (\<forall>i < n. (\<forall>j < i. m (p + word_of_nat j) \<noteq> 0) \<longrightarrow>
        m (p + word_of_nat i) = m (q + word_of_nat i))"

lemma str_agree_Suc:
  "str_agree (Suc n) p q m \<longleftrightarrow>
     m p = m q \<and> (m p \<noteq> 0 \<longrightarrow> str_agree n (p + 1) (q + 1) m)"
  unfolding str_agree_def
  by (auto simp: All_less_Suc2 addr_Suc simp del: of_nat_Suc)

lemma strncmp_loop_0: "strncmp_loop n p q m = 0 \<longleftrightarrow> str_agree n p q m"
  by (induction n arbitrary: p q) (auto simp: str_agree_Suc str_agree_def [of 0])

text \<open>Bytes of an object outside this memory, stored to it and loaded from it.\<close>

primrec put_bytes :: "u64 \<Rightarrow> u8 list \<Rightarrow> mem \<Rightarrow> mem" where
  "put_bytes a [] m = m"
| "put_bytes a (x # xs) m = put_bytes (a + 1) xs (m(a := x))"

definition get_bytes :: "mem \<Rightarrow> u64 \<Rightarrow> nat \<Rightarrow> u8 list" where
  "get_bytes m a n = map (\<lambda>i. m (a + of_nat i)) [0..<n]"

lemma length_get_bytes [simp]: "length (get_bytes m a n) = n"
  by (simp add: get_bytes_def)

section \<open>Copying strings\<close>

primrec strncpy_loop :: "nat \<Rightarrow> u64 \<Rightarrow> u64 \<Rightarrow> mem \<Rightarrow> mem" where
  "strncpy_loop 0 s t m = m"
| "strncpy_loop (Suc n) s t m =
     (if m t \<noteq> 0 then strncpy_loop n (s + 1) (t + 1) (m(s := m t))
      else memset_loop n (s + 1) 0 (m(s := m t)))"

definition strncpy :: "u64 \<Rightarrow> u64 \<Rightarrow> int \<Rightarrow> mem \<Rightarrow> mem" where
  "strncpy s t n m = strncpy_loop (nat n) s t m"

text \<open>
  \<open>r\<close> is what \<^verbatim>\<open>--n\<close> yields at the loop test. When the copied byte is NUL the loop has
  already advanced \<^verbatim>\<open>s\<close>, so the final store writes a second NUL after it.
\<close>

primrec safestrcpy_loop :: "nat \<Rightarrow> u64 \<Rightarrow> u64 \<Rightarrow> mem \<Rightarrow> mem" where
  "safestrcpy_loop 0 s t m = m(s := 0)"
| "safestrcpy_loop (Suc r) s t m =
     (if m t \<noteq> 0 then safestrcpy_loop r (s + 1) (t + 1) (m(s := m t))
      else (m(s := m t))(s + 1 := 0))"

definition safestrcpy :: "u64 \<Rightarrow> u64 \<Rightarrow> int \<Rightarrow> mem \<Rightarrow> mem" where
  "safestrcpy s t n m = (if n \<le> 0 then m else safestrcpy_loop (nat (n - 1)) s t m)"

partial_function (option) strlen_loop :: "mem \<Rightarrow> u64 \<Rightarrow> nat \<Rightarrow> nat option" where
  "strlen_loop m s n = (if m (s + word_of_nat n) = 0 then Some n else strlen_loop m s (Suc n))"

definition strlen :: "mem \<Rightarrow> u64 \<Rightarrow> nat option" where
  "strlen m s = strlen_loop m s 0"

text \<open>The NUL-terminated string at an address.\<close>

fun string_at :: "mem \<Rightarrow> u64 \<Rightarrow> u8 list \<Rightarrow> bool" where
  "string_at m p [] \<longleftrightarrow> m p = 0"
| "string_at m p (x # xs) \<longleftrightarrow> m p = x \<and> x \<noteq> 0 \<and> string_at m (p + 1) xs"

lemma string_at_cong:
  "(\<And>i. i \<le> length xs \<Longrightarrow> m (p + word_of_nat i) = m' (p + word_of_nat i)) \<Longrightarrow>
   string_at m p xs = string_at m' p xs"
proof (induction xs arbitrary: p)
  case Nil
  from Nil [of 0] show ?case by simp
next
  case (Cons x xs)
  have "string_at m (p + 1) xs = string_at m' (p + 1) xs"
  proof (rule Cons.IH)
    fix i
    assume "i \<le> length xs"
    then show "m (p + 1 + word_of_nat i) = m' (p + 1 + word_of_nat i)"
      using Cons.prems [of "Suc i"] by (simp add: addr_Suc del: of_nat_Suc)
  qed
  moreover have "m p = m' p" using Cons.prems [of 0] by simp
  ultimately show ?case by simp
qed

lemma strlen_loop_string_at:
  "string_at m (s + word_of_nat n) xs \<Longrightarrow> strlen_loop m s n = Some (n + length xs)"
proof (induction xs arbitrary: n)
  case Nil
  then show ?case by (subst strlen_loop.simps) simp
next
  case (Cons x xs)
  then show ?case by (subst strlen_loop.simps) (auto simp: add.assoc add.commute [of 1])
qed

lemma strlen_string_at: "string_at m s xs \<Longrightarrow> strlen m s = Some (length xs)"
  using strlen_loop_string_at [of m s 0 xs] by (simp add: strlen_def)

lemma safestrcpy_loop_miss:
  "Suc r < 2 ^ 64 \<Longrightarrow> \<not> in_range s (Suc r) a \<Longrightarrow> safestrcpy_loop r s t m a = m a"
proof (induction r arbitrary: s t m)
  case 0
  then show ?case by (simp add: in_range_Suc)
next
  case (Suc r)
  then have "a \<noteq> s" and "\<not> in_range (s + 1) (Suc r) a" and "a \<noteq> s + 1"
    by (auto simp: in_range_Suc)
  with Suc show ?case by simp
qed

lemma safestrcpy_loop_string:
  assumes "string_at m t xs" and "length xs + r < 2 ^ 63"
    and "\<And>i j. i \<le> length xs \<Longrightarrow> j \<le> r \<Longrightarrow> t + word_of_nat i \<noteq> s + word_of_nat j"
  shows "string_at (safestrcpy_loop r s t m) s (take r xs)"
  using assms
proof (induction r arbitrary: s t xs m)
  case 0
  then show ?case by simp
next
  case (Suc r)
  show ?case
  proof (cases xs)
    case Nil
    with Suc.prems show ?thesis by simp
  next
    case (Cons x xs')
    let ?m = "m(s := m t)"
    have ts: "t + word_of_nat i \<noteq> s" if "i \<le> length xs" for i
      using Suc.prems(3) [of i 0] that by simp
    have "string_at ?m (t + 1) xs'"
      using Suc.prems(1) Cons ts
      by (subst string_at_cong [of _ _ _ m]) (simp_all add: addr_Suc del: of_nat_Suc)
    then have "string_at (safestrcpy_loop r (s + 1) (t + 1) ?m) (s + 1) (take r xs')"
    proof (rule Suc.IH)
      fix i j
      assume "i \<le> length xs'" and "j \<le> r"
      then show "t + 1 + word_of_nat i \<noteq> s + 1 + word_of_nat j"
        using Suc.prems(3) [of "Suc i" "Suc j"] Cons by (simp only: addr_Suc) simp
    qed (use Suc.prems(2) Cons in simp)
    moreover have "safestrcpy_loop r (s + 1) (t + 1) ?m s = ?m s"
      using Suc.prems(2) by (intro safestrcpy_loop_miss in_range_start) simp_all
    ultimately show ?thesis using Suc.prems(1) Cons by simp
  qed
qed

text \<open>
  C20: safestrcpy always leaves a NUL-terminated string inside the buffer: for a buffer of
  \<open>n > 0\<close> bytes that does not overlap the source string \<open>xs\<close>, it holds the first \<open>n - 1\<close>
  bytes of \<open>xs\<close>, and no byte outside the buffer changes.
\<close>

theorem safestrcpy_correct:
  assumes "string_at m t xs" and "0 < n" and "length xs + nat n < 2 ^ 63"
    and "\<forall>i \<le> length xs. \<not> in_range s (nat n) (t + word_of_nat i)"
  shows "string_at (safestrcpy s t n m) s (take (nat n - 1) xs) \<and>
    (\<forall>a. \<not> in_range s (nat n) a \<longrightarrow> safestrcpy s t n m a = m a)"
proof -
  define r where "r = nat (n - 1)"
  have n: "nat n = Suc r" and eq: "safestrcpy s t n m = safestrcpy_loop r s t m"
    using assms(2) by (simp_all add: r_def safestrcpy_def)
  have "string_at (safestrcpy_loop r s t m) s (take r xs)"
  proof (rule safestrcpy_loop_string [OF assms(1)])
    fix i j
    assume "i \<le> length xs" and "j \<le> r"
    then show "t + word_of_nat i \<noteq> s + word_of_nat j"
      using assms(3,4) n in_range_offset [of j s "Suc r"] by force
  qed (use assms(3) n in simp)
  moreover have "safestrcpy_loop r s t m a = m a" if "\<not> in_range s (nat n) a" for a
    using that assms(3) n by (simp add: safestrcpy_loop_miss)
  ultimately show ?thesis using n eq by simp
qed

theorem safestrcpy_correct_witness:
  "string_at (safestrcpy 200 100 4 ((\<lambda>_. 0)(100 := 115, 101 := 104, 102 := 33, 103 := 33))) 200
     [115, 104, 33]"
proof -
  let ?m = "(\<lambda>_. 0)(100 := 115, 101 := 104, 102 := 33, 103 := 33) :: mem"
  have s: "string_at ?m 100 [115, 104, 33, 33]" by simp
  have d: "\<forall>i \<le> length [115, 104, 33, 33 :: u8]. \<not> in_range 200 (nat 4) (100 + word_of_nat i)"
  proof (intro allI impI)
    fix i
    assume "i \<le> length [115, 104, 33, 33 :: u8]"
    then have "i = 0 \<or> i = 1 \<or> i = 2 \<or> i = 3 \<or> i = 4" by auto
    then show "\<not> in_range 200 (nat 4) (100 + word_of_nat i)" by (auto simp: in_range_def)
  qed
  show ?thesis using safestrcpy_correct [OF s _ _ d] by simp
qed

section \<open>Little-endian words in memory\<close>

text \<open>RISC-V loads and stores of \<open>n\<close> bytes, least significant byte first.\<close>

primrec loadn :: "nat \<Rightarrow> mem \<Rightarrow> u64 \<Rightarrow> u64" where
  "loadn 0 m a = 0"
| "loadn (Suc n) m a = ucast (m a) OR push_bit 8 (loadn n m (a + 1))"

primrec storen :: "nat \<Rightarrow> u64 \<Rightarrow> u64 \<Rightarrow> mem \<Rightarrow> mem" where
  "storen 0 a v m = m"
| "storen (Suc n) a v m = storen n (a + 1) (drop_bit 8 v) (m(a := ucast v))"

definition load64 :: "mem \<Rightarrow> u64 \<Rightarrow> u64" where
  "load64 m a = loadn 8 m a"

definition store64 :: "u64 \<Rightarrow> u64 \<Rightarrow> mem \<Rightarrow> mem" where
  "store64 a v m = storen 8 a v m"

lemma storen_miss: "n < 2 ^ 64 \<Longrightarrow> \<not> in_range a n b \<Longrightarrow> storen n a v m b = m b"
  by (induction n arbitrary: a v m) (simp_all add: in_range_Suc)

lemma loadn_cong:
  "(\<And>i. i < n \<Longrightarrow> m (a + word_of_nat i) = m' (a + word_of_nat i)) \<Longrightarrow> loadn n m a = loadn n m' a"
proof (induction n arbitrary: a)
  case 0
  then show ?case by simp
next
  case (Suc n)
  have "loadn n m (a + 1) = loadn n m' (a + 1)"
  proof (rule Suc.IH)
    fix i
    assume "i < n"
    then show "m (a + 1 + word_of_nat i) = m' (a + 1 + word_of_nat i)"
      using Suc.prems [of "Suc i"] by (simp add: addr_Suc del: of_nat_Suc)
  qed
  moreover have "m a = m' a" using Suc.prems [of 0] by simp
  ultimately show ?case by simp
qed

lemma loadn_storen: "n < 2 ^ 64 \<Longrightarrow> loadn n (storen n a v m) a = take_bit (8 * n) v"
proof (induction n arbitrary: a v m)
  case 0
  then show ?case by simp
next
  case (Suc n)
  have "storen n (a + 1) (drop_bit 8 v) (m(a := ucast v)) a = ucast v"
    using Suc.prems by (simp add: storen_miss in_range_start)
  moreover have "loadn n (storen n (a + 1) (drop_bit 8 v) (m(a := ucast v))) (a + 1) =
      take_bit (8 * n) (drop_bit 8 v)"
    using Suc by simp
  moreover have "ucast (ucast v :: u8) OR push_bit 8 (take_bit (8 * n) (drop_bit 8 v)) =
      take_bit (8 * Suc n) v"
    by (rule bit_eqI) (auto simp: bit_simps)
  ultimately show ?case by simp
qed

lemma load64_store64 [simp]: "load64 (store64 a v m) a = v"
  using loadn_storen [of 8 a v m] by (simp add: load64_def store64_def take_bit_word_eq_self)

lemma store64_miss: "\<not> in_range a 8 b \<Longrightarrow> store64 a v m b = m b"
  by (simp add: store64_def storen_miss)

lemma load64_cong:
  "(\<And>i. i < 8 \<Longrightarrow> m (a + word_of_nat i) = m' (a + word_of_nat i)) \<Longrightarrow> load64 m a = load64 m' a"
  unfolding load64_def by (rule loadn_cong)

end
