(* ===== verification/Layout.thy ===== *)
theory Layout
  imports Prelude
begin

text \<open>
  The constants and address macros of \<^verbatim>\<open>kernel/param.h\<close>, \<^verbatim>\<open>kernel/memlayout.h\<close>,
  \<^verbatim>\<open>kernel/riscv.h\<close>, and those user programs share with the kernel: table sizes, the physical and virtual memory maps, page
  rounding and the Sv39 page-table encoding.
\<close>

section \<open>Limits (param.h)\<close>

definition NPROC :: nat where "NPROC = 64"
definition NCPU :: nat where "NCPU = 8"
definition NOFILE :: nat where "NOFILE = 16"
definition NFILE :: nat where "NFILE = 100"
definition NINODE :: nat where "NINODE = 50"
definition NDEV :: nat where "NDEV = 10"
definition MAXARG :: nat where "MAXARG = 32"
definition MAXOPBLOCKS :: nat where "MAXOPBLOCKS = 10"
definition LOGBLOCKS :: nat where "LOGBLOCKS = MAXOPBLOCKS * 3"
definition NBUF :: nat where "NBUF = MAXOPBLOCKS * 3"

lemma NPROC_slots: "[0..<NPROC] \<noteq> []" "set [0..<NPROC] \<subseteq> {..<NPROC}"
  by (auto simp: NPROC_def)

section \<open>Constants shared with user programs (fcntl.h, stat.h, fs.h)\<close>

definition O_RDONLY :: u32 where "O_RDONLY = 0x000"
definition O_WRONLY :: u32 where "O_WRONLY = 0x001"
definition O_RDWR :: u32 where "O_RDWR = 0x002"
definition O_CREATE :: u32 where "O_CREATE = 0x200"
definition O_TRUNC :: u32 where "O_TRUNC = 0x400"
definition T_DIR :: u16 where "T_DIR = 1"
definition T_FILE :: u16 where "T_FILE = 2"
definition T_DEVICE :: u16 where "T_DEVICE = 3"
definition DIRSIZ :: nat where "DIRSIZ = 14"

section \<open>Memory maps (memlayout.h)\<close>

definition PGSIZE :: u64 where "PGSIZE = 4096"
definition KERNBASE :: u64 where "KERNBASE = 0x80000000"
definition PHYSTOP :: u64 where "PHYSTOP = KERNBASE + 128 * 1024 * 1024"
definition MAXVA :: u64 where "MAXVA = push_bit (9 + 9 + 9 + 12 - 1) 1"
definition TRAMPOLINE :: u64 where "TRAMPOLINE = MAXVA - PGSIZE"
definition TRAPFRAME :: u64 where "TRAPFRAME = TRAMPOLINE - PGSIZE"

definition KSTACK :: "nat \<Rightarrow> u64" where
  "KSTACK p = TRAMPOLINE - word_of_nat (p + 1) * 2 * PGSIZE"

section \<open>Page rounding (riscv.h)\<close>

definition PGROUNDUP :: "u64 \<Rightarrow> u64" where
  "PGROUNDUP sz = (sz + PGSIZE - 1) AND NOT (PGSIZE - 1)"

definition PGROUNDDOWN :: "u64 \<Rightarrow> u64" where
  "PGROUNDDOWN a = a AND NOT (PGSIZE - 1)"

lemma PGSIZE_mask: "PGSIZE - 1 = mask 12"
  by (simp add: PGSIZE_def mask_eq_exp_minus_1)

lemma andnot_mask12: "(a :: u64) AND NOT (mask 12) = push_bit 12 (drop_bit 12 a)"
  by (rule bit_eqI) (auto simp: bit_simps)

lemma unat_drop12: "unat (drop_bit 12 (a :: u64)) = unat a div 4096"
  by (simp add: drop_bit_eq_div unat_div)

lemma unat_PGROUNDDOWN: "unat (PGROUNDDOWN a) = unat a div 4096 * 4096"
proof -
  have "unat a < 2 ^ LENGTH(64)" by (rule unsigned_less)
  then have "unat a div 4096 * 4096 < 2 ^ 64"
    using div_times_less_eq_dividend [of "unat a" 4096] by simp
  then have "unat (drop_bit 12 a * 4096) = unat a div 4096 * 4096"
    by (simp add: unat_word_ariths unat_drop12)
  moreover have "PGROUNDDOWN a = drop_bit 12 a * 4096"
    unfolding PGROUNDDOWN_def PGSIZE_mask andnot_mask12 by (simp add: push_bit_eq_mult)
  ultimately show ?thesis by simp
qed

lemma unat_mod_PGSIZE: "unat (a mod PGSIZE) = unat a mod 4096"
  by (simp add: PGSIZE_def unat_mod)

lemma aligned_iff: "a mod PGSIZE = 0 \<longleftrightarrow> unat a mod 4096 = 0"
  unfolding unat_mod_PGSIZE [symmetric] by (simp add: unsigned_eq_0_iff)

lemma PGROUNDDOWN_aligned [simp]: "PGROUNDDOWN a mod PGSIZE = 0"
  by (simp add: aligned_iff unat_PGROUNDDOWN)

lemma PGROUNDDOWN_le: "PGROUNDDOWN a \<le> a"
  by (simp add: word_le_nat_alt unat_PGROUNDDOWN)

lemma PGROUNDDOWN_offset: "unat (a - PGROUNDDOWN a) = unat a mod 4096"
proof -
  have "unat (a - PGROUNDDOWN a) = unat a - unat (PGROUNDDOWN a)"
    using PGROUNDDOWN_le by (rule unat_sub)
  then show ?thesis by (simp add: unat_PGROUNDDOWN minus_div_mult_eq_mod)
qed

lemma PGROUNDUP_down: "PGROUNDUP a = PGROUNDDOWN (a + (PGSIZE - 1))"
  by (simp add: PGROUNDUP_def PGROUNDDOWN_def add_diff_eq)

lemma PGROUNDUP_aligned [simp]: "PGROUNDUP a mod PGSIZE = 0"
  by (simp add: PGROUNDUP_down)

lemma unat_PGROUNDUP:
  "unat a + 4095 < 2 ^ 64 \<Longrightarrow> unat (PGROUNDUP a) = (unat a + 4095) div 4096 * 4096"
  by (simp add: PGROUNDUP_down unat_PGROUNDDOWN PGSIZE_def unat_word_ariths)

section \<open>Sv39 page-table entries (riscv.h)\<close>

definition PTE_V :: u64 where "PTE_V = push_bit 0 1"
definition PTE_R :: u64 where "PTE_R = push_bit 1 1"
definition PTE_W :: u64 where "PTE_W = push_bit 2 1"
definition PTE_X :: u64 where "PTE_X = push_bit 3 1"
definition PTE_U :: u64 where "PTE_U = push_bit 4 1"

definition PA2PTE :: "u64 \<Rightarrow> u64" where
  "PA2PTE pa = push_bit 10 (drop_bit 12 pa)"

definition PTE2PA :: "u64 \<Rightarrow> u64" where
  "PTE2PA pte = push_bit 12 (drop_bit 10 pte)"

definition PTE_FLAGS :: "u64 \<Rightarrow> u64" where
  "PTE_FLAGS pte = pte AND 0x3FF"

definition PX :: "nat \<Rightarrow> u64 \<Rightarrow> u64" where
  "PX level va = drop_bit (12 + 9 * level) va AND 0x1FF"

text \<open>The physical address and the ten flag bits of an entry do not disturb each other.\<close>

lemma high_bit_clear:
  assumes "unat (w :: u64) < 2 ^ n" and "n \<le> k"
  shows "\<not> bit w k"
proof -
  have "unat w < 2 ^ k" using assms by (meson less_le_trans one_le_numeral power_increasing)
  then have "\<not> bit (unat w) k" by (simp add: bit_iff_odd)
  then show ?thesis by (simp add: bit_unsigned_iff)
qed

lemma low_bit_clear:
  assumes "w mod PGSIZE = 0" and "k < 12"
  shows "\<not> bit w k"
proof -
  have "take_bit 12 (unat w) = 0" using assms(1) by (simp add: aligned_iff take_bit_eq_mod)
  then have "\<not> bit (take_bit 12 (unat w)) k" by simp
  with assms(2) have "\<not> bit (unat w) k" by (simp add: bit_take_bit_iff)
  then show ?thesis by (simp add: bit_unsigned_iff)
qed

lemma PTE2PA_PA2PTE:
  assumes "pa mod PGSIZE = 0" and "unat pa < 2 ^ 56" and "unat flags < 2 ^ 10"
  shows "PTE2PA (PA2PTE pa OR flags) = pa"
proof (rule bit_eqI)
  fix n
  assume "possible_bit TYPE(u64) n"
  then have n: "n < 64" by simp
  show "bit (PTE2PA (PA2PTE pa OR flags)) n \<longleftrightarrow> bit pa n"
  proof (cases "n < 12")
    case True
    then show ?thesis using low_bit_clear [OF assms(1)] by (simp add: PTE2PA_def bit_simps)
  next
    case False
    then have "\<not> bit flags (n - 12 + 10)" by (intro high_bit_clear [OF assms(3)]) simp
    moreover have "\<not> bit pa n" if "56 \<le> n" using high_bit_clear [OF assms(2) that] .
    ultimately show ?thesis using False n
      by (auto simp: PTE2PA_def PA2PTE_def bit_simps)
  qed
qed

lemma PTE_FLAGS_take_bit: "PTE_FLAGS x = take_bit 10 x"
proof -
  have "(0x3FF :: u64) = mask 10" by (simp add: mask_eq_exp_minus_1)
  then show ?thesis by (simp only: PTE_FLAGS_def take_bit_eq_mask)
qed

lemma PTE_FLAGS_PA2PTE:
  assumes "unat flags < 2 ^ 10"
  shows "PTE_FLAGS (PA2PTE pa OR flags) = flags"
proof (rule bit_eqI)
  fix n
  assume "possible_bit TYPE(u64) n"
  then show "bit (PTE_FLAGS (PA2PTE pa OR flags)) n \<longleftrightarrow> bit flags n"
    using high_bit_clear [OF assms, of n]
    by (auto simp: PTE_FLAGS_take_bit PA2PTE_def bit_take_bit_iff bit_or_iff bit_push_bit_iff)
qed

end
