(* ===== verification/Kalloc.thy ===== *)
theory Kalloc
  imports Spinlock Cmem Layout
begin

text \<open>
  The physical page allocator of \<^verbatim>\<open>kernel/kalloc.c\<close>. The free list is threaded through
  the free pages themselves: the first eight bytes of a free page hold the address of the next
  one. \<open>kend\<close> is the linker symbol \<^verbatim>\<open>end\<close>, the first address after the kernel.
\<close>

section \<open>State and operations\<close>

record km = hw +
  kmem_lock :: spinlock
  freelist :: u64
  memory :: mem
  kend :: u64

definition kfree :: "nat \<Rightarrow> u64 \<Rightarrow> 'a km_scheme \<Rightarrow> 'a km_scheme result" where
  "kfree c pa s =
     (if pa mod PGSIZE \<noteq> 0 \<or> pa < kend s \<or> pa \<ge> PHYSTOP then Panic ''kfree''
      else let s1 = s\<lparr>memory := memset pa 1 (ucast PGSIZE) (memory s)\<rparr>
        in rbind (acquire c (kmem_lock s1) s1) (\<lambda>(lk, s2).
           let s3 = s2\<lparr>kmem_lock := lk, memory := store64 pa (freelist s2) (memory s2)\<rparr>;
               s4 = s3\<lparr>freelist := pa\<rparr>
           in rbind (release c (kmem_lock s4) s4) (\<lambda>(lk, s5). Ok (s5\<lparr>kmem_lock := lk\<rparr>))))"

definition kalloc :: "nat \<Rightarrow> 'a km_scheme \<Rightarrow> (u64 \<times> 'a km_scheme) result" where
  "kalloc c s =
     rbind (acquire c (kmem_lock s) s) (\<lambda>(lk, s1).
       let s2 = s1\<lparr>kmem_lock := lk\<rparr>;
           r = freelist s2;
           s3 = (if r \<noteq> 0 then s2\<lparr>freelist := load64 (memory s2) r\<rparr> else s2)
       in rbind (release c (kmem_lock s3) s3) (\<lambda>(lk, s4).
            let s5 = s4\<lparr>kmem_lock := lk\<rparr>
            in Ok (r, if r \<noteq> 0 then s5\<lparr>memory := memset r 5 (ucast PGSIZE) (memory s5)\<rparr> else s5)))"

partial_function (option) freerange_loop ::
  "nat \<Rightarrow> u64 \<Rightarrow> u64 \<Rightarrow> 'a km_scheme \<Rightarrow> 'a km_scheme result option" where
  "freerange_loop c p pa_end s =
     (if p + PGSIZE \<le> pa_end
      then (case kfree c p s of
              Ok s' \<Rightarrow> freerange_loop c (p + PGSIZE) pa_end s'
            | Panic m \<Rightarrow> Some (Panic m)
            | Hang \<Rightarrow> Some Hang)
      else Some (Ok s))"

definition freerange ::
  "nat \<Rightarrow> u64 \<Rightarrow> u64 \<Rightarrow> 'a km_scheme \<Rightarrow> 'a km_scheme result option" where
  "freerange c pa_start pa_end s = freerange_loop c (PGROUNDUP pa_start) pa_end s"

definition kinit :: "nat \<Rightarrow> 'a km_scheme \<Rightarrow> 'a km_scheme result option" where
  "kinit c s =
     (let s1 = s\<lparr>kmem_lock := initlock ''kmem''\<rparr>
      in freerange c (kend s1) PHYSTOP s1)"

section \<open>The free list as a list of pages\<close>

fun flist :: "mem \<Rightarrow> u64 \<Rightarrow> u64 list \<Rightarrow> bool" where
  "flist m p [] \<longleftrightarrow> p = 0"
| "flist m p (x # xs) \<longleftrightarrow> p = x \<and> p \<noteq> 0 \<and> flist m (load64 m p) xs"

definition page_ok :: "'a km_scheme \<Rightarrow> u64 \<Rightarrow> bool" where
  "page_ok s p \<longleftrightarrow> p mod PGSIZE = 0 \<and> kend s \<le> p \<and> p < PHYSTOP \<and> p \<noteq> 0"

text \<open>
  The allocator is at rest on hart \<open>c\<close> with free pages \<open>xs\<close>: the lock is free, the hart's
  interrupt nesting is sound, and the list in memory is \<open>xs\<close>, all distinct proper pages.
\<close>

definition kmem_inv :: "nat \<Rightarrow> 'a km_scheme \<Rightarrow> u64 list \<Rightarrow> bool" where
  "kmem_inv c s xs \<longleftrightarrow> hart_ok c s \<and> \<not> locked (kmem_lock s) \<and>
     flist (memory s) (freelist s) xs \<and> distinct xs \<and> (\<forall>p \<in> set xs. page_ok s p)"

subsection \<open>Pages do not overlap\<close>

lemma aligned_diff:
  assumes "p mod PGSIZE = 0" and "x mod PGSIZE = 0"
  shows "(x - p) mod PGSIZE = 0"
proof -
  have p: "4096 dvd unat p" and x: "4096 dvd unat x"
    using assms by (simp_all add: aligned_iff dvd_eq_mod_eq_0)
  have d: "4096 dvd unat x + 2 ^ LENGTH(64)" using x by (rule dvd_add) simp
  have "4096 dvd unat (x - p)"
  proof (cases "p \<le> x")
    case True
    then have "unat (x - p) = unat x - unat p" by (rule unat_sub)
    then show ?thesis using dvd_diff_nat [OF x p] by (simp only:)
  next
    case False
    then have "unat (x - p) = unat x + 2 ^ LENGTH(64) - unat p"
      by (simp only: unat_sub_if' word_le_nat_alt if_False)
    then show ?thesis using dvd_diff_nat [OF d p] by (simp only:)
  qed
  then show ?thesis by (simp add: aligned_iff dvd_eq_mod_eq_0)
qed

lemma page_disjoint:
  assumes "p mod PGSIZE = 0" and "x mod PGSIZE = 0" and "p \<noteq> x" and "i < 4096"
  shows "\<not> in_range p 4096 (x + word_of_nat i)"
proof -
  define d where "d = x - p"
  have "4096 dvd unat d"
    using aligned_diff [OF assms(1,2)] by (simp add: d_def aligned_iff dvd_eq_mod_eq_0)
  then obtain q where q: "unat d = 4096 * q" by (rule dvdE)
  moreover have "unat d \<noteq> 0" using assms(3) by (simp add: d_def unsigned_eq_0_iff)
  moreover have "unat d < 2 ^ LENGTH(64)" by (rule unsigned_less)
  ultimately have "4096 \<le> unat d" and "unat d + 4096 \<le> 2 ^ 64" by simp_all
  then have "unat (d + word_of_nat i) = unat d + i" using assms(4) by (intro unat_addr) simp
  moreover have "x + word_of_nat i - p = d + word_of_nat i" by (simp add: d_def)
  ultimately have "\<not> unat (x + word_of_nat i - p) < 4096"
    using \<open>4096 \<le> unat d\<close> by (metis not_less trans_le_add1)
  then show ?thesis unfolding in_range_def .
qed

lemma in_range_mono: "in_range a n b \<Longrightarrow> n \<le> n' \<Longrightarrow> in_range a n' b"
  by (simp add: in_range_def)

lemma flist_cong:
  assumes "\<And>x i. x \<in> set xs \<Longrightarrow> i < 8 \<Longrightarrow> m (x + word_of_nat i) = m' (x + word_of_nat i)"
  shows "flist m p xs = flist m' p xs"
  using assms
proof (induction xs arbitrary: p)
  case Nil
  then show ?case by simp
next
  case (Cons x xs)
  have "load64 m x = load64 m' x" by (rule load64_cong) (rule Cons.prems; simp)
  moreover have "flist m q xs = flist m' q xs" for q
    by (rule Cons.IH) (rule Cons.prems; simp)
  ultimately show ?case by (cases "p = x") simp_all
qed

lemma unat_PGSIZE32 [simp]: "unat (ucast PGSIZE :: u32) = 4096"
  by (simp add: PGSIZE_def)

lemma flist_memset_other:
  assumes "p mod PGSIZE = 0" and "\<forall>x \<in> set xs. x mod PGSIZE = 0 \<and> x \<noteq> p"
  shows "flist (memset p v (ucast PGSIZE) m) q xs = flist m q xs"
proof (rule flist_cong)
  fix x i
  assume "x \<in> set xs" and "i < (8 :: nat)"
  with assms have "\<not> in_range p 4096 (x + word_of_nat i)" by (intro page_disjoint) auto
  then show "memset p v (ucast PGSIZE) m (x + word_of_nat i) = m (x + word_of_nat i)"
    by (simp add: memset_eq)
qed

lemma flist_store_other:
  assumes "p mod PGSIZE = 0" and "\<forall>x \<in> set xs. x mod PGSIZE = 0 \<and> x \<noteq> p"
  shows "flist (store64 p v m) q xs = flist m q xs"
proof (rule flist_cong)
  fix x i
  assume "x \<in> set xs" and "i < (8 :: nat)"
  with assms have "\<not> in_range p 4096 (x + word_of_nat i)" by (intro page_disjoint) auto
  then have "\<not> in_range p 8 (x + word_of_nat i)" 
    by (rule contrapos_nn) (erule in_range_mono, simp)
  then show "store64 p v m (x + word_of_nat i) = m (x + word_of_nat i)"
    by (rule store64_miss)
qed

subsection \<open>Effect of the operations\<close>

lemma push_off_km [simp]:
  "push_off c (s\<lparr>kmem_lock := l\<rparr>) = (push_off c s)\<lparr>kmem_lock := l\<rparr>"
  "push_off c (s\<lparr>freelist := p\<rparr>) = (push_off c s)\<lparr>freelist := p\<rparr>"
  "push_off c (s\<lparr>memory := m\<rparr>) = (push_off c s)\<lparr>memory := m\<rparr>"
  "kmem_lock (push_off c s) = kmem_lock s" "freelist (push_off c s) = freelist s"
  "memory (push_off c s) = memory s" "kend (push_off c s) = kend s"
  by (simp_all add: push_off_def set_cpu_def intr_off_def intr_get_def Let_def)

lemma pop_off_km [simp]:
  "pop_off c (s\<lparr>kmem_lock := l\<rparr>) = rbind (pop_off c s) (\<lambda>s'. Ok (s'\<lparr>kmem_lock := l\<rparr>))"
  "pop_off c (s\<lparr>freelist := p\<rparr>) = rbind (pop_off c s) (\<lambda>s'. Ok (s'\<lparr>freelist := p\<rparr>))"
  "pop_off c (s\<lparr>memory := m\<rparr>) = rbind (pop_off c s) (\<lambda>s'. Ok (s'\<lparr>memory := m\<rparr>))"
  by (simp_all add: pop_off_def set_cpu_def intr_on_def intr_get_def Let_def)

lemma settle_km [simp]:
  "kmem_lock (settle c s) = kmem_lock s" "freelist (settle c s) = freelist s"
  "memory (settle c s) = memory s" "kend (settle c s) = kend s"
  by (simp_all add: settle_def set_cpu_def)

lemma hart_ok_km [simp]:
  "hart_ok c (s\<lparr>kmem_lock := l\<rparr>) = hart_ok c s" "hart_ok c (s\<lparr>freelist := p\<rparr>) = hart_ok c s"
  "hart_ok c (s\<lparr>memory := m\<rparr>) = hart_ok c s"
  by (simp_all add: hart_ok_def intr_get_def)

text \<open>A lock after one critical section.\<close>

definition unlocked :: "spinlock \<Rightarrow> spinlock" where
  "unlocked l = l\<lparr>locked := False, lk_cpu := None\<rparr>"

lemma locked_unlocked [simp]: "\<not> locked (unlocked l)"
  by (simp add: unlocked_def)

lemma kalloc_effect:
  assumes "hart_ok c s" and "\<not> locked (kmem_lock s)"
  shows "kalloc c s = Ok (freelist s,
    (let s1 = (settle c s)\<lparr>kmem_lock := unlocked (kmem_lock s)\<rparr>
     in if freelist s = 0 then s1
        else s1\<lparr>freelist := load64 (memory s) (freelist s),
                memory := memset (freelist s) 5 (ucast PGSIZE) (memory s)\<rparr>))"
  using assms
  by (simp add: kalloc_def acquire_free release_def holding_def pop_push Let_def unlocked_def)

lemma kfree_effect:
  assumes "hart_ok c s" and "\<not> locked (kmem_lock s)" and "page_ok s pa"
  shows "kfree c pa s = Ok ((settle c s)\<lparr>kmem_lock := unlocked (kmem_lock s), freelist := pa,
    memory := store64 pa (freelist s) (memset pa 1 (ucast PGSIZE) (memory s))\<rparr>)"
  using assms
  by (auto simp: kfree_def page_ok_def acquire_free release_def holding_def pop_push Let_def
      unlocked_def)

lemma kfree_bad_page_panics:
  "pa mod PGSIZE \<noteq> 0 \<or> pa < kend s \<or> PHYSTOP \<le> pa \<Longrightarrow> kfree c pa s = Panic ''kfree''"
  by (auto simp: kfree_def)

section \<open>The allocator's contract\<close>

text \<open>
  A client's run: allocate (\<open>None\<close>), or free the \<open>k\<close>-th page it holds (\<open>Some k\<close>). \<open>live\<close>
  are the pages the client holds.
\<close>

fun client :: "('s \<Rightarrow> ('p \<times> 's) result) \<Rightarrow> ('p \<Rightarrow> 's \<Rightarrow> 's result) \<Rightarrow> 'p \<Rightarrow>
    nat option list \<Rightarrow> 'p list \<Rightarrow> 's \<Rightarrow> ('p list \<times> 's) result" where
  "client alloc free null [] live s = Ok (live, s)"
| "client alloc free null (None # ops) live s =
     rbind (alloc s) (\<lambda>(p, s').
       client alloc free null ops (if p = null then live else p # live) s')"
| "client alloc free null (Some k # ops) live s =
     (if k < length live
      then rbind (free (live ! k) s)
        (client alloc free null ops (take k live @ drop (Suc k) live))
      else client alloc free null ops live s)"

text \<open>
  What clients rely on: pages come off a list of free pages and go back on it. \<open>repr s xs\<close>
  says that the free pages of state \<open>s\<close> are \<open>xs\<close>.
\<close>

locale page_allocator =
  fixes alloc :: "'s \<Rightarrow> ('p \<times> 's) result"
    and free :: "'p \<Rightarrow> 's \<Rightarrow> 's result"
    and null :: 'p
    and valid :: "'s \<Rightarrow> 'p \<Rightarrow> bool"
    and repr :: "'s \<Rightarrow> 'p list \<Rightarrow> bool"
  assumes alloc_Nil: "repr s [] \<Longrightarrow> \<exists>s'. alloc s = Ok (null, s') \<and> repr s' [] \<and> valid s' = valid s"
    and alloc_Cons: "repr s (p # ps) \<Longrightarrow>
      \<exists>s'. alloc s = Ok (p, s') \<and> p \<noteq> null \<and> repr s' ps \<and> valid s' = valid s"
    and free_Ok: "repr s ps \<Longrightarrow> valid s p \<Longrightarrow> p \<notin> set ps \<Longrightarrow>
      \<exists>s'. free p s = Ok s' \<and> repr s' (p # ps) \<and> valid s' = valid s"
    and repr_pages: "repr s ps \<Longrightarrow> distinct ps \<and> (\<forall>p \<in> set ps. valid s p)"
begin

definition accounted :: "'p list \<Rightarrow> 's \<Rightarrow> 'p list \<Rightarrow> bool" where
  "accounted live s ps \<longleftrightarrow> repr s ps \<and> distinct (live @ ps) \<and> (\<forall>p \<in> set live. valid s p)"

lemma accounted_alloc:
  assumes "accounted live s (p # ps)"
  shows "\<exists>s'. alloc s = Ok (p, s') \<and> p \<noteq> null \<and> accounted (p # live) s' ps"
proof -
  have r: "repr s (p # ps)" using assms by (simp add: accounted_def)
  from alloc_Cons [OF this] obtain s' where
    "alloc s = Ok (p, s')" "p \<noteq> null" "repr s' ps" "valid s' = valid s" by blast
  moreover from r have "valid s p" using repr_pages by simp
  ultimately show ?thesis using assms by (auto simp: accounted_def)
qed

lemma accounted_free:
  assumes "accounted live s ps" and "k < length live"
  shows "\<exists>s'. free (live ! k) s = Ok s' \<and>
    accounted (take k live @ drop (Suc k) live) s' (live ! k # ps)"
proof -
  have split: "live = take k live @ live ! k # drop (Suc k) live"
    using assms(2) by (rule id_take_nth_drop)
  have d: "distinct ((take k live @ live ! k # drop (Suc k) live) @ ps)"
    using assms(1) split by (simp add: accounted_def)
  have "live ! k \<in> set live" using assms(2) by simp
  with assms(1) have "valid s (live ! k)" and "repr s ps" and "live ! k \<notin> set ps"
    by (auto simp: accounted_def)
  from free_Ok [OF this(2,1,3)] obtain s' where
    s': "free (live ! k) s = Ok s'" "repr s' (live ! k # ps)" "valid s' = valid s" by blast
  have "set (take k live @ drop (Suc k) live) \<subseteq> set live"
    by (auto dest: in_set_takeD in_set_dropD)
  with s' d assms(1) have "accounted (take k live @ drop (Suc k) live) s' (live ! k # ps)"
    by (auto simp: accounted_def)
  with s'(1) show ?thesis by blast
qed

lemma client_conserves:
  assumes "accounted live s ps"
  shows "\<exists>live' s' ps'. client alloc free null ops live s = Ok (live', s') \<and>
    accounted live' s' ps' \<and> set live' \<union> set ps' = set live \<union> set ps"
  using assms
proof (induction ops arbitrary: live s ps)
  case Nil
  then show ?case by auto
next
  case (Cons op ops)
  note IH = Cons.IH and acc = Cons.prems
  consider (empty) "op = None" "ps = []" | (alloc) p ps' where "op = None" "ps = p # ps'"
    | (skip) k where "op = Some k" "\<not> k < length live" | (free) k where "op = Some k" "k < length live"
    by (cases op; cases ps) auto
  then show ?case
  proof cases
    case empty
    with acc obtain s' where s': "alloc s = Ok (null, s')" "repr s' []" "valid s' = valid s"
      using alloc_Nil [of s] by (auto simp: accounted_def)
    with acc empty have "accounted live s' []" by (simp add: accounted_def)
    from IH [OF this] show ?thesis using empty s' by simp
  next
    case alloc
    with acc accounted_alloc obtain s' where
      s': "alloc s = Ok (p, s')" "p \<noteq> null" "accounted (p # live) s' ps'" by blast
    from IH [OF s'(3)] show ?thesis using alloc s' by simp
  next
    case skip
    then show ?thesis using IH [OF acc] by simp
  next
    case free
    with acc accounted_free obtain s' where s': "free (live ! k) s = Ok s'"
      "accounted (take k live @ drop (Suc k) live) s' (live ! k # ps)" by blast
    have "set live = insert (live ! k) (set (take k live @ drop (Suc k) live))"
      by (subst id_take_nth_drop [OF free(2)]) auto
    then show ?thesis using IH [OF s'(2)] free s'(1) by simp
  qed
qed

end

lemma kmem_inv_kalloc_Nil:
  assumes "kmem_inv c s []"
  shows "\<exists>s'. kalloc c s = Ok (0, s') \<and> kmem_inv c s' [] \<and> page_ok s' = page_ok s"
  using assms by (auto simp: kmem_inv_def kalloc_effect Let_def page_ok_def fun_eq_iff)

lemma kmem_inv_kalloc_Cons:
  assumes "kmem_inv c s (p # ps)"
  shows "\<exists>s'. kalloc c s = Ok (p, s') \<and> p \<noteq> 0 \<and> kmem_inv c s' ps \<and> page_ok s' = page_ok s"
proof -
  have p: "freelist s = p" "p \<noteq> 0" "flist (memory s) (load64 (memory s) p) ps" "p mod PGSIZE = 0"
    and ps: "\<forall>x \<in> set ps. x mod PGSIZE = 0 \<and> x \<noteq> p"
    using assms by (auto simp: kmem_inv_def page_ok_def)
  show ?thesis
    using assms p flist_memset_other [OF p(4) ps]
    by (simp add: kmem_inv_def kalloc_effect Let_def page_ok_def fun_eq_iff)
qed

lemma kmem_inv_kfree:
  assumes "kmem_inv c s ps" and "page_ok s p" and "p \<notin> set ps"
  shows "\<exists>s'. kfree c p s = Ok s' \<and> kmem_inv c s' (p # ps) \<and> page_ok s' = page_ok s"
proof -
  have p: "p \<noteq> 0" "p mod PGSIZE = 0" and ps: "\<forall>x \<in> set ps. x mod PGSIZE = 0 \<and> x \<noteq> p"
    using assms by (auto simp: kmem_inv_def page_ok_def)
  show ?thesis
    using assms p flist_memset_other [OF p(2) ps] flist_store_other [OF p(2) ps]
    by (simp add: kmem_inv_def kfree_effect page_ok_def fun_eq_iff)
qed

interpretation ka: page_allocator "kalloc c" "kfree c" 0 page_ok "kmem_inv c" for c
proof unfold_locales
  fix s ps
  assume "kmem_inv c s ps"
  then show "distinct ps \<and> (\<forall>p \<in> set ps. page_ok s p)" by (simp add: kmem_inv_def)
qed (rule kmem_inv_kalloc_Nil kmem_inv_kalloc_Cons kmem_inv_kfree; assumption)+

section \<open>Properties\<close>

text \<open>
  C12: no page is handed out twice. Whatever sequence of kalloc and kfree calls a client makes,
  freeing only pages it holds, no call panics, and at every end of such a run the pages it holds
  and the pages on the free list are all distinct and together are exactly the pages that were
  free at the start.
\<close>

theorem kalloc_conserves_pages:
  assumes "kmem_inv c s ps"
  shows "\<exists>live s' ps'. client (kalloc c) (kfree c) 0 ops [] s = Ok (live, s') \<and>
    kmem_inv c s' ps' \<and> distinct (live @ ps') \<and> set live \<union> set ps' = set ps"
proof -
  have "ka.accounted c [] s ps"
    using assms by (simp add: ka.accounted_def kmem_inv_def)
  from ka.client_conserves [OF this, of ops] show ?thesis
    by (auto simp: ka.accounted_def)
qed

definition boot_km :: "u64 \<Rightarrow> u64 \<Rightarrow> km" where
  "boot_km fl e = hw.extend boot_hw
     \<lparr>kmem_lock = initlock ''kmem'', freelist = fl, memory = (\<lambda>_. 0), kend = e\<rparr>"

lemma boot_km_simps [simp]:
  "kmem_lock (boot_km fl e) = initlock ''kmem''" "freelist (boot_km fl e) = fl"
  "memory (boot_km fl e) = (\<lambda>_. 0)" "kend (boot_km fl e) = e" "hart_ok c (boot_km fl e)"
  by (simp_all add: boot_km_def hw.defs km.defs hart_ok_def boot_hw_def)

lemma load64_zero [simp]: "load64 (\<lambda>_. 0) a = 0"
proof -
  have "loadn n (\<lambda>_. 0) b = 0" for n b by (induction n arbitrary: b) simp_all
  then show ?thesis by (simp add: load64_def)
qed

theorem kalloc_conserves_pages_witness:
  "kmem_inv 0 (boot_km 0x80001000 0x80000800) [0x80001000] \<and>
   (\<exists>live s' ps'. client (kalloc 0) (kfree 0) 0 [None, None, Some 0, None] []
       (boot_km 0x80001000 0x80000800) = Ok (live, s') \<and>
     kmem_inv 0 s' ps' \<and> distinct (live @ ps') \<and> set live \<union> set ps' = set [0x80001000])"
proof -
  have i: "kmem_inv 0 (boot_km 0x80001000 0x80000800) [0x80001000]"
    by (simp add: kmem_inv_def page_ok_def initlock_def PGSIZE_def PHYSTOP_def KERNBASE_def)
  show ?thesis
    using i kalloc_conserves_pages [OF i, of "[None, None, Some 0, None]"] by simp
qed

fun page_run :: "u64 \<Rightarrow> nat \<Rightarrow> u64 list" where
  "page_run p 0 = []"
| "page_run p (Suc n) = p # page_run (p + PGSIZE) n"

lemma unat_PHYSTOP: "unat PHYSTOP = 0x88000000"
  by (simp add: PHYSTOP_def KERNBASE_def)

lemma unat_next_page: "unat p < 0x88000000 \<Longrightarrow> unat (p + PGSIZE) = unat p + 4096"
  using unat_addr [of p 4096] by (simp add: PGSIZE_def)

lemma whole_pages:
  assumes "(a :: nat) \<le> b"
  shows "a + 4096 * ((b - a) div 4096) \<le> b" and "b < a + 4096 * Suc ((b - a) div 4096)"
proof -
  define q r where "q = (b - a) div 4096" and "r = (b - a) mod 4096"
  have "b = a + 4096 * q + r" and "r < 4096"
    using assms by (simp_all add: q_def r_def)
  then show "a + 4096 * ((b - a) div 4096) \<le> b" "b < a + 4096 * Suc ((b - a) div 4096)"
    unfolding q_def [symmetric] by simp_all
qed

lemma freerange_loop_pages:
  assumes "kmem_inv c s xs" and "p mod PGSIZE = 0" and "kend s \<le> p" and "p \<noteq> 0"
    and "unat p + 4096 * n \<le> 0x88000000" and "0x88000000 < unat p + 4096 * Suc n"
    and "\<forall>x \<in> set xs. x < p"
  shows "\<exists>s'. freerange_loop c p PHYSTOP s = Some (Ok s') \<and> kmem_inv c s' (rev (page_run p n) @ xs)"
  using assms
proof (induction n arbitrary: p s xs)
  case 0
  then have "unat p \<le> 0x88000000" by simp
  then have "unat (p + PGSIZE) = unat p + 4096"
    using unat_addr [of p 4096] by (simp add: PGSIZE_def)
  with 0 have "\<not> p + PGSIZE \<le> PHYSTOP" by (simp add: word_le_nat_alt unat_PHYSTOP)
  with 0 show ?case by (subst freerange_loop.simps) simp
next
  case (Suc n)
  then have lt: "unat p < 0x88000000" by simp
  have nxt: "unat (p + PGSIZE) = unat p + 4096" by (rule unat_next_page [OF lt])
  have le: "p + PGSIZE \<le> PHYSTOP" using Suc.prems(5) nxt
    by (simp add: word_le_nat_alt unat_PHYSTOP)
  have ok: "page_ok s p" using Suc.prems lt
    by (simp add: page_ok_def word_less_nat_alt unat_PHYSTOP)
  have "p \<notin> set xs" using Suc.prems(7) by auto
  with kmem_inv_kfree [OF Suc.prems(1) ok] obtain s' where
    s': "kfree c p s = Ok s'" "kmem_inv c s' (p # xs)" "page_ok s' = page_ok s" by blast
  have ke: "kend s' = kend s"
    using s'(1) ok Suc.prems(1) by (auto simp: kmem_inv_def kfree_effect)
  have plt: "p < p + PGSIZE" using nxt by (simp add: word_less_nat_alt)
  have al: "(p + PGSIZE) mod PGSIZE = 0"
    using Suc.prems(2) by (simp add: aligned_iff nxt)
  have nz: "p + PGSIZE \<noteq> 0" using nxt by (metis add_is_0 unat_0 zero_neq_numeral)
  have "\<exists>s''. freerange_loop c (p + PGSIZE) PHYSTOP s' = Some (Ok s'') \<and>
      kmem_inv c s'' (rev (page_run (p + PGSIZE) n) @ p # xs)"
  proof (rule Suc.IH [OF s'(2) al _ nz])
    show "kend s' \<le> p + PGSIZE" using Suc.prems(3) plt ke by simp
    show "\<forall>x \<in> set (p # xs). x < p + PGSIZE" using Suc.prems(7) plt by auto
  qed (use Suc.prems(5,6) nxt in simp_all)
  then show ?case using le s'(1) by (subst freerange_loop.simps) simp
qed

text \<open>
  C15: kinit terminates without a panic and puts exactly the whole pages between the end of the
  kernel and PHYSTOP on the free list, each once.
\<close>

theorem kinit_frees_all_pages:
  assumes "hart_ok c s" and "freelist s = 0" and "0 < kend s" and "kend s \<le> PHYSTOP"
  shows "\<exists>s'. kinit c s = Some (Ok s') \<and>
    kmem_inv c s' (rev (page_run (PGROUNDUP (kend s))
      ((unat PHYSTOP - unat (PGROUNDUP (kend s))) div 4096)))"
proof -
  let ?s = "s\<lparr>kmem_lock := initlock ''kmem''\<rparr>" and ?p = "PGROUNDUP (kend s)"
  let ?n = "(unat PHYSTOP - unat ?p) div 4096"
  have ke: "0 < unat (kend s)" "unat (kend s) \<le> 0x88000000"
    using assms(3,4) by (simp_all add: word_less_nat_alt word_le_nat_alt unat_PHYSTOP)
  then have up: "unat ?p = (unat (kend s) + 4095) div 4096 * 4096"
    by (simp add: unat_PGROUNDUP)
  have inv: "kmem_inv c ?s []" using assms(1,2) by (simp add: kmem_inv_def initlock_def)
  have "(unat (kend s) + 4095) div 4096 < 557057"
    using ke by (intro less_mult_imp_div_less) simp
  then have le: "unat ?p \<le> 0x88000000" unfolding up by linarith
  have ge: "unat (kend s) \<le> unat ?p" using ke unfolding up by linarith
  have "kend ?s \<le> ?p" using ge by (simp add: word_le_nat_alt)
  moreover have "?p \<noteq> 0" using ge ke(1) by auto
  moreover have "unat ?p + 4096 * ?n \<le> 0x88000000" "0x88000000 < unat ?p + 4096 * Suc ?n"
    unfolding unat_PHYSTOP using whole_pages [OF le] by blast+
  ultimately have "\<exists>s'. freerange_loop c ?p PHYSTOP ?s = Some (Ok s') \<and>
      kmem_inv c s' (rev (page_run ?p ?n) @ [])"
    by (intro freerange_loop_pages [OF inv]) simp_all
  then show ?thesis by (simp add: kinit_def freerange_def Let_def)
qed

theorem kinit_frees_all_pages_witness:
  "\<exists>s'. kinit 0 (boot_km 0 0x87ffe100) = Some (Ok s') \<and> kmem_inv 0 s' [0x87fff000]"
proof -
  have "\<exists>s'. kinit 0 (boot_km 0 0x87ffe100) = Some (Ok s') \<and>
    kmem_inv 0 s' (rev (page_run (PGROUNDUP (kend (boot_km 0 0x87ffe100)))
      ((unat PHYSTOP - unat (PGROUNDUP (kend (boot_km 0 0x87ffe100)))) div 4096)))"
    by (rule kinit_frees_all_pages) (simp_all add: PHYSTOP_def KERNBASE_def)
  then show ?thesis
    by (simp add: PGROUNDUP_def PGSIZE_def PHYSTOP_def KERNBASE_def)
qed

end
