(* ===== verification/Proc.thy ===== *)
theory Proc
  imports Kalloc
begin

text \<open>
  The process table and the synchronisation half of \<^verbatim>\<open>kernel/proc.c\<close>: the structures of
  \<^verbatim>\<open>kernel/proc.h\<close>, \<^verbatim>\<open>myproc\<close>, \<^verbatim>\<open>allocpid\<close>, \<^verbatim>\<open>sched\<close>,
  \<^verbatim>\<open>yield\<close>, \<^verbatim>\<open>sleep\<close>, \<^verbatim>\<open>wakeup\<close>, \<^verbatim>\<open>kkill\<close>,
  \<^verbatim>\<open>setkilled\<close>, \<^verbatim>\<open>killed\<close> and \<^verbatim>\<open>getproc\<close>. A process is named by its
  slot in \<^verbatim>\<open>proc[]\<close>; a null \<^verbatim>\<open>struct proc *\<close> is \<open>None\<close>.
\<close>

section \<open>Data (proc.h)\<close>

datatype sched_policy = RR | FIFO | SJF | STCF | MLFQ

datatype procstate = UNUSED | USED | SLEEPING | RUNNABLE | RUNNING | ZOMBIE

text \<open>
  Sleep channels are addresses of kernel objects; distinct objects have distinct addresses, so
  a channel is the object it is the address of.
\<close>

datatype chan = NullChan | ProcChan nat | TicksChan | LogChan | PipeReadChan u64
  | PipeWriteChan u64 | BufLockChan nat | InodeLockChan nat | ConsChan | UartTxChan
  | DiskFreeChan | DiskBufChan nat

record proc =
  p_lock :: spinlock
  p_state :: procstate
  p_chan :: chan
  p_killed :: int
  p_xstate :: int
  p_pid :: int
  p_parent :: "nat option"
  p_kstack :: u64
  p_sz :: u64
  p_pagetable :: u64
  p_trapframe :: u64
  p_context :: kcontext
  p_ofile :: "nat option list"
  p_cwd :: "nat option"
  p_name :: "u8 list"
  p_ctime :: u64
  p_etime :: u64
  p_rtime :: u64
  p_stime :: u64
  p_ltime :: u64
  p_time_left :: u64
  p_expected_runtime :: u64
  p_priority :: int
  p_queue_level :: int
  p_time_slice :: u64
  p_demote :: int

record kern = km +
  procs :: "nat \<Rightarrow> proc"
  initproc :: "nat option"
  nextpid :: int
  pid_lock :: spinlock
  wait_lock :: spinlock
  tickslock :: spinlock
  ticks :: u32

section \<open>Access to the table\<close>

definition upd_proc :: "nat \<Rightarrow> (proc \<Rightarrow> proc) \<Rightarrow> 'a kern_scheme \<Rightarrow> 'a kern_scheme" where
  "upd_proc i f s = s\<lparr>procs := (procs s)(i := f (procs s i))\<rparr>"

text \<open>Locks live in fields of the state: the operations take how to read and store one.\<close>

definition acquire_at :: "('a kern_scheme \<Rightarrow> spinlock) \<Rightarrow>
    (spinlock \<Rightarrow> 'a kern_scheme \<Rightarrow> 'a kern_scheme) \<Rightarrow> nat \<Rightarrow> 'a kern_scheme \<Rightarrow>
    'a kern_scheme result" where
  "acquire_at rd st c s = rbind (acquire c (rd s) s) (\<lambda>(lk, s'). Ok (st lk s'))"

definition release_at :: "('a kern_scheme \<Rightarrow> spinlock) \<Rightarrow>
    (spinlock \<Rightarrow> 'a kern_scheme \<Rightarrow> 'a kern_scheme) \<Rightarrow> nat \<Rightarrow> 'a kern_scheme \<Rightarrow>
    'a kern_scheme result" where
  "release_at rd st c s = rbind (release c (rd s) s) (\<lambda>(lk, s'). Ok (st lk s'))"

definition acquire_p :: "nat \<Rightarrow> nat \<Rightarrow> 'a kern_scheme \<Rightarrow> 'a kern_scheme result" where
  "acquire_p c i = acquire_at (\<lambda>s. p_lock (procs s i))
     (\<lambda>lk. upd_proc i (p_lock_update (\<lambda>_. lk))) c"

definition release_p :: "nat \<Rightarrow> nat \<Rightarrow> 'a kern_scheme \<Rightarrow> 'a kern_scheme result" where
  "release_p c i = release_at (\<lambda>s. p_lock (procs s i))
     (\<lambda>lk. upd_proc i (p_lock_update (\<lambda>_. lk))) c"

section \<open>Operations\<close>

definition procinit :: "'a kern_scheme \<Rightarrow> 'a kern_scheme" where
  "procinit s =
     fold (\<lambda>i. upd_proc i (\<lambda>p. p\<lparr>p_lock := initlock ''proc'', p_state := UNUSED,
         p_kstack := KSTACK i\<rparr>)) [0..<NPROC]
       (s\<lparr>pid_lock := initlock ''nextpid'', wait_lock := initlock ''wait_lock''\<rparr>)"

definition myproc :: "nat \<Rightarrow> 'a kern_scheme \<Rightarrow> (nat option \<times> 'a kern_scheme) result" where
  "myproc c s =
     (let s1 = push_off c s;
          p = cpu_proc (cpus s1 c)
      in rbind (pop_off c s1) (\<lambda>s2. Ok (p, s2)))"

text \<open>Using the result of \<^verbatim>\<open>myproc()\<close> as a process faults in the kernel when it is null.\<close>

definition the_proc :: "nat option \<times> 's \<Rightarrow> (nat \<Rightarrow> 's \<Rightarrow> 'b result) \<Rightarrow> 'b result" where
  "the_proc ps f = (case ps of (Some p, s) \<Rightarrow> f p s | (None, s) \<Rightarrow> Panic ''kerneltrap'')"

definition allocpid :: "nat \<Rightarrow> 'a kern_scheme \<Rightarrow> (int \<times> 'a kern_scheme) result" where
  "allocpid c s =
     rbind (acquire_at pid_lock (\<lambda>lk. pid_lock_update (\<lambda>_. lk)) c s) (\<lambda>s1.
       let pid = nextpid s1;
           s2 = s1\<lparr>nextpid := nextpid s1 + 1\<rparr>
       in rbind (release_at pid_lock (\<lambda>lk. pid_lock_update (\<lambda>_. lk)) c s2) (\<lambda>s3. Ok (pid, s3)))"

text \<open>
  \<open>sw\<close> is what happens between this thread's \<^verbatim>\<open>swtch\<close> into the scheduler and its
  return: the state it resumes in, and the hart it resumes on.
\<close>

type_synonym 's away = "nat \<Rightarrow> 's \<Rightarrow> nat \<times> 's"

definition sched ::
  "'a kern_scheme away \<Rightarrow> nat \<Rightarrow> 'a kern_scheme \<Rightarrow> (nat \<times> 'a kern_scheme) result" where
  "sched sw c s =
     rbind (myproc c s) (\<lambda>ps. the_proc ps (\<lambda>p s1.
       if \<not> holding c (p_lock (procs s1 p)) then Panic ''sched p->lock''
       else if noff (cpus s1 c) \<noteq> 1 then Panic ''sched locks''
       else if p_state (procs s1 p) = RUNNING then Panic ''sched RUNNING''
       else if intr_get c s1 then Panic ''sched interruptible''
       else let saved = intena (cpus s1 c);
                (c', s2) = sw c s1
            in Ok (c', set_cpu c' (intena_update (\<lambda>_. saved)) s2)))"

definition yield ::
  "'a kern_scheme away \<Rightarrow> nat \<Rightarrow> 'a kern_scheme \<Rightarrow> (nat \<times> 'a kern_scheme) result" where
  "yield sw c s =
     rbind (myproc c s) (\<lambda>ps. the_proc ps (\<lambda>p s1.
       rbind (acquire_p c p s1) (\<lambda>s2.
       rbind (sched sw c (upd_proc p (p_state_update (\<lambda>_. RUNNABLE)) s2)) (\<lambda>(c', s3).
       rbind (release_p c' p s3) (\<lambda>s4. Ok (c', s4))))))"

definition sleep :: "'a kern_scheme away \<Rightarrow> chan \<Rightarrow> ('a kern_scheme \<Rightarrow> spinlock) \<Rightarrow>
    (spinlock \<Rightarrow> 'a kern_scheme \<Rightarrow> 'a kern_scheme) \<Rightarrow> nat \<Rightarrow> 'a kern_scheme \<Rightarrow>
    (nat \<times> 'a kern_scheme) result" where
  "sleep sw ch rd st c s =
     rbind (myproc c s) (\<lambda>ps. the_proc ps (\<lambda>p s1.
       rbind (acquire_p c p s1) (\<lambda>s2.
       rbind (release_at rd st c s2) (\<lambda>s3.
       rbind (sched sw c (upd_proc p (\<lambda>q. q\<lparr>p_chan := ch, p_state := SLEEPING\<rparr>) s3)) (\<lambda>(c', s4).
       rbind (release_p c' p (upd_proc p (p_chan_update (\<lambda>_. NullChan)) s4)) (\<lambda>s5.
       rbind (acquire_at rd st c' s5) (\<lambda>s6. Ok (c', s6))))))))"

definition wakeup_body :: "nat \<Rightarrow> chan \<Rightarrow> nat \<Rightarrow> 'a kern_scheme \<Rightarrow> 'a kern_scheme result" where
  "wakeup_body c ch i s =
     rbind (myproc c s) (\<lambda>(me, s1).
       if Some i \<noteq> me then
         rbind (acquire_p c i s1) (\<lambda>s2.
           let p = procs s2 i;
               s3 = (if p_state p = SLEEPING \<and> p_chan p = ch
                     then upd_proc i (p_state_update (\<lambda>_. RUNNABLE)) s2 else s2)
           in release_p c i s3)
       else Ok s1)"

definition wakeup :: "nat \<Rightarrow> chan \<Rightarrow> 'a kern_scheme \<Rightarrow> 'a kern_scheme result" where
  "wakeup c ch s = foldR (wakeup_body c ch) [0..<NPROC] s"

fun kkill_loop :: "nat \<Rightarrow> int \<Rightarrow> nat list \<Rightarrow> 'a kern_scheme \<Rightarrow> (int \<times> 'a kern_scheme) result" where
  "kkill_loop c pid [] s = Ok (-1, s)"
| "kkill_loop c pid (i # is) s =
     rbind (acquire_p c i s) (\<lambda>s1.
       if p_pid (procs s1 i) = pid then
         let s2 = upd_proc i (p_killed_update (\<lambda>_. 1)) s1;
             s3 = (if p_state (procs s2 i) = SLEEPING
                   then upd_proc i (p_state_update (\<lambda>_. RUNNABLE)) s2 else s2)
         in rbind (release_p c i s3) (\<lambda>s4. Ok (0, s4))
       else rbind (release_p c i s1) (kkill_loop c pid is))"

definition kkill :: "nat \<Rightarrow> int \<Rightarrow> 'a kern_scheme \<Rightarrow> (int \<times> 'a kern_scheme) result" where
  "kkill c pid s = kkill_loop c pid [0..<NPROC] s"

definition setkilled :: "nat \<Rightarrow> nat \<Rightarrow> 'a kern_scheme \<Rightarrow> 'a kern_scheme result" where
  "setkilled c p s =
     rbind (acquire_p c p s) (\<lambda>s1. release_p c p (upd_proc p (p_killed_update (\<lambda>_. 1)) s1))"

definition killed :: "nat \<Rightarrow> nat \<Rightarrow> 'a kern_scheme \<Rightarrow> (int \<times> 'a kern_scheme) result" where
  "killed c p s =
     rbind (acquire_p c p s) (\<lambda>s1.
       let k = p_killed (procs s1 p)
       in rbind (release_p c p s1) (\<lambda>s2. Ok (k, s2)))"

fun getproc_loop ::
  "nat \<Rightarrow> int \<Rightarrow> nat list \<Rightarrow> 'a kern_scheme \<Rightarrow> (nat option \<times> 'a kern_scheme) result" where
  "getproc_loop c pid [] s = Ok (None, s)"
| "getproc_loop c pid (i # is) s =
     rbind (acquire_p c i s) (\<lambda>s1.
       if p_pid (procs s1 i) = pid
       then rbind (release_p c i s1) (\<lambda>s2. Ok (Some i, s2))
       else rbind (release_p c i s1) (getproc_loop c pid is))"

definition getproc :: "nat \<Rightarrow> int \<Rightarrow> 'a kern_scheme \<Rightarrow> (nat option \<times> 'a kern_scheme) result" where
  "getproc c pid s = getproc_loop c pid [0..<NPROC] s"

section \<open>Critical sections on one process\<close>

lemma procs_upd [simp]:
  "procs (upd_proc i f s) = (procs s)(i := f (procs s i))"
  "cpus (upd_proc i f s) = cpus s" "sstatus (upd_proc i f s) = sstatus s"
  "clk (upd_proc i f s) = clk s" "nclk (upd_proc i f s) = nclk s"
  "intr_get c (upd_proc i f s) = intr_get c s" "hart_ok c (upd_proc i f s) = hart_ok c s"
  by (simp_all add: upd_proc_def intr_get_def hart_ok_def)

lemma upd_proc_twice [simp]: "upd_proc i f (upd_proc i g s) = upd_proc i (f \<circ> g) s"
  by (simp add: upd_proc_def)

lemmas hw_defs = push_off_def pop_off_def settle_def set_cpu_def intr_on_def intr_off_def
  intr_get_def Let_def

lemma procs_hw [simp]:
  "procs (push_off c s) = procs s" "procs (settle c s) = procs s" "procs (set_cpu c f s) = procs s"
  "procs (intr_on c s) = procs s" "procs (intr_off c s) = procs s"
  "initproc (settle c s) = initproc s"
  by (simp_all add: hw_defs)

lemma push_off_proc: "cpu_proc (cpus (push_off c s) d) = cpu_proc (cpus s d)"
  by (simp add: hw_defs)

lemma push_off_upd_proc: "push_off c (upd_proc i f s) = upd_proc i f (push_off c s)"
  by (simp add: hw_defs upd_proc_def)

lemma pop_off_upd_proc:
  "pop_off c (upd_proc i f s) = rbind (pop_off c s) (\<lambda>s'. Ok (upd_proc i f s'))"
  by (simp add: hw_defs upd_proc_def)

lemma push_off_procs: "push_off c (s\<lparr>procs := ps\<rparr>) = (push_off c s)\<lparr>procs := ps\<rparr>"
  by (simp add: hw_defs)

lemma pop_off_procs:
  "pop_off c (s\<lparr>procs := ps\<rparr>) = rbind (pop_off c s) (\<lambda>s'. Ok (s'\<lparr>procs := ps\<rparr>))"
  by (simp add: hw_defs)

lemma settle_upd_proc: "settle c (upd_proc i f s) = upd_proc i f (settle c s)"
  by (simp add: hw_defs upd_proc_def)

lemma settle_procs: "settle c (s\<lparr>procs := ps\<rparr>) = (settle c s)\<lparr>procs := ps\<rparr>"
  by (simp add: hw_defs)

lemma settle_settle [simp]: "settle c (settle c s) = settle c s"
  by (simp add: hw_defs)

lemma hart_ok_procs [simp]: "hart_ok c (s\<lparr>procs := ps\<rparr>) = hart_ok c s"
  by (simp add: hart_ok_def intr_get_def)

text \<open>A released lock, as \<^verbatim>\<open>initlock\<close> and \<^verbatim>\<open>release\<close> leave it.\<close>

definition lock_clean :: "spinlock \<Rightarrow> bool" where
  "lock_clean l \<longleftrightarrow> \<not> locked l \<and> lk_cpu l = None"

text \<open>Hart \<open>c\<close> is between critical sections and no process lock is held by anyone.\<close>

definition quiet :: "nat \<Rightarrow> 'a kern_scheme \<Rightarrow> bool" where
  "quiet c s \<longleftrightarrow> hart_ok c s \<and> (\<forall>i < NPROC. lock_clean (p_lock (procs s i)))"

lemma quiet_settle [simp]: "quiet d (settle c s) = quiet d s"
  by (simp add: quiet_def)

lemma quiet_upd_proc:
  "quiet c s \<Longrightarrow> lock_clean (p_lock (f (procs s i))) \<or> \<not> i < NPROC \<Longrightarrow> quiet c (upd_proc i f s)"
  by (auto simp: quiet_def)

lemma lock_clean_relock:
  "lock_clean l \<Longrightarrow> l\<lparr>lk_cpu := None, locked := False\<rparr> = l"
  by (simp add: lock_clean_def)

lemma acquire_p_Ok:
  assumes "\<not> locked (p_lock (procs s i))"
  shows "acquire_p c i s =
    Ok (upd_proc i (p_lock_update (\<lambda>_. (p_lock (procs s i))\<lparr>locked := True, lk_cpu := Some c\<rparr>))
      (push_off c s))"
  using assms by (simp add: acquire_p_def acquire_at_def acquire_free upd_proc_def)

lemma release_p_Ok:
  assumes "holding c (p_lock (procs s i))"
  shows "release_p c i s = rbind (pop_off c s) (\<lambda>s'.
    Ok (upd_proc i (p_lock_update (\<lambda>_. (p_lock (procs s i))\<lparr>lk_cpu := None, locked := False\<rparr>)) s'))"
  using assms by (simp add: release_p_def release_at_def release_def rbind_assoc)

lemma p_lock_update_collapse [simp]:
  "p_lock_update (\<lambda>_. p_lock p) p = p"
  by (cases p) simp

text \<open>One process updated under its lock; \<open>f\<close> leaves the lock itself alone.\<close>

lemma p_section:
  assumes "hart_ok c s" and "lock_clean (p_lock (procs s i))"
    and "\<And>l. f (p_lock_update (\<lambda>_. l) (procs s i)) = p_lock_update (\<lambda>_. l) (f (procs s i))"
    and "p_lock (f (procs s i)) = p_lock (procs s i)"
  shows "rbind (acquire_p c i s) (\<lambda>s1. release_p c i (upd_proc i f s1)) =
    Ok (settle c (upd_proc i f s))"
proof -
  let ?l = "(p_lock (procs s i))\<lparr>locked := True, lk_cpu := Some c\<rparr>"
  have acq: "acquire_p c i s = Ok (upd_proc i (p_lock_update (\<lambda>_. ?l)) (push_off c s))"
    using assms(2) by (simp add: lock_clean_def acquire_p_Ok upd_proc_def)
  have hold: "holding c (p_lock (f (p_lock_update (\<lambda>_. ?l) (procs s i))))"
    by (simp add: assms(3) holding_def)
  have clean: "(p_lock (procs s i))\<lparr>lk_cpu := None, locked := False\<rparr> = p_lock (procs s i)"
    using assms(2) by (rule lock_clean_relock)
  have fin: "p_lock_update (\<lambda>_. p_lock (procs s i)) (f (procs s i)) = f (procs s i)"
    using p_lock_update_collapse [of "f (procs s i)"] by (simp only: assms(4))
  show ?thesis
    using assms(1) hold clean fin
    by (simp add: acq release_p_Ok pop_off_procs pop_push settle_procs upd_proc_def assms(3))
qed

lemma upd_proc_id [simp]: "upd_proc i (\<lambda>p. p) s = s"
  by (simp add: upd_proc_def)

lemma p_section_read:
  assumes "hart_ok c s" and "lock_clean (p_lock (procs s i))"
  shows "rbind (acquire_p c i s) (release_p c i) = Ok (settle c s)"
  using p_section [of c s i "\<lambda>p. p"] assms by simp

lemma myproc_Ok: "hart_ok c s \<Longrightarrow> myproc c s = Ok (cpu_proc (cpus s c), settle c s)"
proof -
  have "cpu_proc (cpus (push_off c s) c) = cpu_proc (cpus s c)" by (simp add: hw_defs)
  then show "hart_ok c s \<Longrightarrow> ?thesis" by (simp add: myproc_def Let_def pop_push)
qed

section \<open>Loops over the table\<close>

lemma quiet_procs:
  "quiet c s \<Longrightarrow> (\<And>i. i < NPROC \<Longrightarrow> p_lock (ps i) = p_lock (procs s i)) \<Longrightarrow>
   quiet c (s\<lparr>procs := ps\<rparr>)"
  by (simp add: quiet_def)

text \<open>A loop whose body updates the process it visits, under that process's lock.\<close>

lemma foldR_procs:
  assumes "\<And>i s. i \<in> set is \<Longrightarrow> quiet c s \<Longrightarrow> cpu_proc (cpus s c) = me \<Longrightarrow>
      body i s = Ok (settle c (upd_proc i (g i) s))"
    and "\<And>i p. p_lock (g i p) = p_lock p"
    and "distinct is" and "quiet c s" and "cpu_proc (cpus s c) = me"
  shows "foldR body is s = Ok (if is = [] then s
    else settle c (s\<lparr>procs := \<lambda>i. if i \<in> set is then g i (procs s i) else procs s i\<rparr>))"
  using assms(1,3-5)
proof (induction "is" arbitrary: s)
  case Nil
  then show ?case by simp
next
  case (Cons i "is")
  define s1 where "s1 = settle c (upd_proc i (g i) s)"
  have q: "quiet c s1"
    using Cons.prems(3) assms(2) by (simp add: s1_def upd_proc_def quiet_procs)
  have b: "body i s = Ok s1" using Cons.prems by (simp add: s1_def)
  have ih: "foldR body is s1 = Ok (if is = [] then s1
      else settle c (s1\<lparr>procs := \<lambda>j. if j \<in> set is then g j (procs s1 j) else procs s1 j\<rparr>))"
    by (rule Cons.IH) (use Cons.prems q in \<open>auto simp: s1_def\<close>)
  have ps: "(\<lambda>j. if j \<in> set is then g j (procs s1 j) else procs s1 j) =
      (\<lambda>j. if j \<in> set (i # is) then g j (procs s j) else procs s j)"
    using Cons.prems(2) by (auto simp: s1_def fun_eq_iff)
  have one: "s1 = settle c (s\<lparr>procs := \<lambda>j. if j \<in> set [i] then g j (procs s j) else procs s j\<rparr>)"
    unfolding s1_def upd_proc_def by (rule arg_cong [of _ _ "\<lambda>ps. settle c (s\<lparr>procs := ps\<rparr>)"]) auto
  have over: "settle c (s1\<lparr>procs := ps\<rparr>) = settle c (s\<lparr>procs := ps\<rparr>)" for ps
    by (simp add: s1_def settle_procs upd_proc_def)
  show ?case
  proof (cases "is = []")
    case True
    then show ?thesis using b one by simp
  next
    case False
    then show ?thesis using b ih ps over by simp
  qed
qed

subsection \<open>wakeup\<close>

definition wake :: "nat option \<Rightarrow> chan \<Rightarrow> nat \<Rightarrow> proc \<Rightarrow> proc" where
  "wake me ch i p =
     (if Some i \<noteq> me \<and> p_state p = SLEEPING \<and> p_chan p = ch then p\<lparr>p_state := RUNNABLE\<rparr> else p)"

lemma wake_lock [simp]: "p_lock (wake me ch i p) = p_lock p"
  by (simp add: wake_def)

lemma wakeup_body_effect:
  assumes "quiet c s" and "i < NPROC" and "cpu_proc (cpus s c) = me"
  shows "wakeup_body c ch i s = Ok (settle c (upd_proc i (wake me ch i) s))"
proof (cases "Some i = me")
  case True
  moreover have "wake me ch i = (\<lambda>p. p)" using True by (simp add: wake_def fun_eq_iff)
  ultimately show ?thesis using assms by (simp add: wakeup_body_def myproc_Ok quiet_def)
next
  case False
  let ?s = "settle c s"
  have h: "hart_ok c ?s" "lock_clean (p_lock (procs ?s i))" using assms by (simp_all add: quiet_def)
  have "rbind (acquire_p c i ?s) (\<lambda>s2. release_p c i (upd_proc i (wake me ch i) s2)) =
      Ok (settle c (upd_proc i (wake me ch i) ?s))"
    by (rule p_section [OF h]) (simp_all add: wake_def)
  moreover have "(if p_state (procs s2 i) = SLEEPING \<and> p_chan (procs s2 i) = ch
      then upd_proc i (p_state_update (\<lambda>_. RUNNABLE)) s2 else s2) = upd_proc i (wake me ch i) s2"
    for s2 :: "'a kern_scheme"
    using False by (auto simp: wake_def upd_proc_def)
  ultimately show ?thesis
    using assms False by (simp add: wakeup_body_def myproc_Ok quiet_def Let_def settle_upd_proc)
qed

definition wake_all :: "nat option \<Rightarrow> chan \<Rightarrow> 'a kern_scheme \<Rightarrow> 'a kern_scheme" where
  "wake_all me ch s = s\<lparr>procs := \<lambda>i. if i < NPROC then wake me ch i (procs s i) else procs s i\<rparr>"

lemma wakeup_effect:
  assumes "quiet c s"
  shows "wakeup c ch s = Ok (settle c (wake_all (cpu_proc (cpus s c)) ch s))"
proof -
  let ?me = "cpu_proc (cpus s c)"
  have "foldR (wakeup_body c ch) [0..<NPROC] s = Ok (if [0..<NPROC] = [] then s
    else settle c (s\<lparr>procs := \<lambda>i. if i \<in> set [0..<NPROC] then wake ?me ch i (procs s i) else procs s i\<rparr>))"
    by (rule foldR_procs) (use assms in \<open>simp_all add: wakeup_body_effect\<close>)
  moreover have "[0..<NPROC] \<noteq> []" by (simp add: NPROC_def)
  moreover have "(\<lambda>i. if i \<in> set [0..<NPROC] then wake ?me ch i (procs s i) else procs s i) =
    (\<lambda>i. if i < NPROC then wake ?me ch i (procs s i) else procs s i)" by (simp add: fun_eq_iff)
  ultimately show ?thesis by (simp only: wakeup_def wake_all_def if_False)
qed

text \<open>
  C13: wakeup makes runnable exactly the processes that sleep on the given channel, the caller
  excepted, and changes nothing else in the process table; it never panics and leaves every
  lock and the hart's interrupt state as it found them.
\<close>

theorem wakeup_exact:
  assumes "quiet c s"
  shows "wakeup c ch s = Ok (settle c (s\<lparr>procs := \<lambda>i.
    if i < NPROC \<and> Some i \<noteq> cpu_proc (cpus s c) \<and> p_state (procs s i) = SLEEPING \<and>
       p_chan (procs s i) = ch
    then (procs s i)\<lparr>p_state := RUNNABLE\<rparr> else procs s i\<rparr>))"
proof -
  have "(\<lambda>i. if i < NPROC then wake (cpu_proc (cpus s c)) ch i (procs s i) else procs s i) =
    (\<lambda>i. if i < NPROC \<and> Some i \<noteq> cpu_proc (cpus s c) \<and> p_state (procs s i) = SLEEPING \<and> p_chan (procs s i) = ch
      then (procs s i)\<lparr>p_state := RUNNABLE\<rparr> else procs s i)"
    by (auto simp: wake_def fun_eq_iff)
  then show ?thesis using wakeup_effect [OF assms] by (simp only: wake_all_def)
qed

subsection \<open>kkill, killed, getproc\<close>

definition kill_proc :: "proc \<Rightarrow> proc" where
  "kill_proc p = p\<lparr>p_killed := 1, p_state := (if p_state p = SLEEPING then RUNNABLE else p_state p)\<rparr>"

lemma kkill_loop_Cons:
  "kkill_loop c pid (i # is) s = rbind (acquire_p c i s) (\<lambda>s1.
     if p_pid (procs s1 i) = pid
     then rbind (release_p c i (upd_proc i kill_proc s1)) (\<lambda>s2. Ok (0, s2))
     else rbind (release_p c i s1) (kkill_loop c pid is))"
proof -
  have "(let s2 = upd_proc i (p_killed_update (\<lambda>_. 1)) s1
         in if p_state (procs s2 i) = SLEEPING
            then upd_proc i (p_state_update (\<lambda>_. RUNNABLE)) s2 else s2) = upd_proc i kill_proc s1"
    for s1 :: "'a kern_scheme"
    by (auto simp: kill_proc_def upd_proc_def Let_def)
  then show ?thesis by (simp only: kkill_loop.simps Let_def)
qed

lemma kkill_loop_effect:
  assumes "quiet c s" and "set is \<subseteq> {..<NPROC}"
  shows "kkill_loop c pid is s =
    (case find (\<lambda>i. p_pid (procs s i) = pid) is of
       None \<Rightarrow> Ok (-1, if is = [] then s else settle c s)
     | Some i \<Rightarrow> Ok (0, settle c (upd_proc i kill_proc s)))"
  using assms
proof (induction "is" arbitrary: s)
  case Nil
  then show ?case by simp
next
  case (Cons i "is")
  have h: "hart_ok c s" "lock_clean (p_lock (procs s i))" using Cons.prems by (auto simp: quiet_def)
  then have nl: "\<not> locked (p_lock (procs s i))" by (simp add: lock_clean_def)
  let ?s1 = "upd_proc i (p_lock_update (\<lambda>_. (p_lock (procs s i))\<lparr>locked := True, lk_cpu := Some c\<rparr>))
      (push_off c s)"
  have acq: "acquire_p c i s = Ok ?s1" using nl by (rule acquire_p_Ok)
  show ?case
  proof (cases "p_pid (procs s i) = pid")
    case True
    have "release_p c i (upd_proc i kill_proc ?s1) = Ok (settle c (upd_proc i kill_proc s))"
      using p_section [OF h, of kill_proc] by (simp add: acq kill_proc_def)
    then show ?thesis using True
      by (simp only: kkill_loop_Cons acq rbind.simps) simp
  next
    case False
    have rel: "release_p c i ?s1 = Ok (settle c s)" using p_section_read [OF h] by (simp add: acq)
    have "find (\<lambda>i. p_pid (procs (settle c s) i) = pid) is = find (\<lambda>i. p_pid (procs s i) = pid) is"
      by simp
    with False Cons show ?thesis
      by (simp add: kkill_loop_Cons acq rel settle_upd_proc del: kkill_loop.simps(2) split: option.split)
  qed
qed

text \<open>
  C14: kkill marks the first slot whose pid matches as killed, waking it if it sleeps, and
  returns 0; it returns -1 and changes no process when no slot matches.
\<close>

theorem kkill_exact:
  assumes "quiet c s"
  shows "kkill c pid s =
    (case find (\<lambda>i. p_pid (procs s i) = pid) [0..<NPROC] of
       None \<Rightarrow> Ok (-1, settle c s)
     | Some i \<Rightarrow> Ok (0, settle c (s\<lparr>procs := (procs s)(i := (procs s i)\<lparr>p_killed := 1,
         p_state := if p_state (procs s i) = SLEEPING then RUNNABLE else p_state (procs s i)\<rparr>)\<rparr>)))"
  using kkill_loop_effect [OF assms NPROC_slots(2), of pid] NPROC_slots(1)
  by (simp add: kkill_def upd_proc_def kill_proc_def split: option.splits)

lemma killed_effect:
  assumes "hart_ok c s" and "lock_clean (p_lock (procs s p))"
  shows "killed c p s = Ok (p_killed (procs s p), settle c s)"
  using p_section_read [OF assms] assms(2)
  by (simp add: killed_def acquire_p_Ok lock_clean_def Let_def)

lemma setkilled_effect:
  assumes "hart_ok c s" and "lock_clean (p_lock (procs s p))"
  shows "setkilled c p s = Ok (settle c (upd_proc p (p_killed_update (\<lambda>_. 1)) s))"
  unfolding setkilled_def by (rule p_section [OF assms]) simp_all

lemma getproc_loop_effect:
  assumes "quiet c s" and "set is \<subseteq> {..<NPROC}"
  shows "getproc_loop c pid is s =
    Ok (find (\<lambda>i. p_pid (procs s i) = pid) is, if is = [] then s else settle c s)"
  using assms
proof (induction "is" arbitrary: s)
  case Nil
  then show ?case by simp
next
  case (Cons i "is")
  have h: "hart_ok c s" "lock_clean (p_lock (procs s i))" using Cons.prems by (auto simp: quiet_def)
  let ?s1 = "upd_proc i (p_lock_update (\<lambda>_. (p_lock (procs s i))\<lparr>locked := True, lk_cpu := Some c\<rparr>))
      (push_off c s)"
  have acq: "acquire_p c i s = Ok ?s1" using h(2) by (simp add: acquire_p_Ok lock_clean_def)
  have rel: "release_p c i ?s1 = Ok (settle c s)" using p_section_read [OF h] by (simp add: acq)
  have "getproc_loop c pid is (settle c s) =
      Ok (find (\<lambda>i. p_pid (procs s i) = pid) is, settle c s)"
    using Cons by simp
  then show ?case by (simp add: acq rel)
qed

lemma getproc_effect:
  "quiet c s \<Longrightarrow> getproc c pid s = Ok (find (\<lambda>i. p_pid (procs s i) = pid) [0..<NPROC], settle c s)"
  using getproc_loop_effect [OF _ NPROC_slots(2), of c s pid] NPROC_slots(1)
  by (simp add: getproc_def)

section \<open>Giving up the CPU\<close>

text \<open>
  The state in which a process may switch to its scheduler: its own lock held and no other,
  interrupts off, and its state no longer RUNNING.
\<close>

definition handoff :: "nat \<Rightarrow> nat \<Rightarrow> 'a kern_scheme \<Rightarrow> bool" where
  "handoff c p s \<longleftrightarrow> holding c (p_lock (procs s p)) \<and> noff (cpus s c) = 1 \<and> \<not> intr_get c s \<and>
     p_state (procs s p) \<noteq> RUNNING \<and>
     (\<forall>i < NPROC. i \<noteq> p \<longrightarrow> lock_clean (p_lock (procs s i)))"

lemma settle_nested: "0 < noff (cpus s c) \<Longrightarrow> settle c s = s"
  by (simp add: settle_def set_cpu_def)

lemma sched_Ok:
  assumes "handoff c p s" and "cpu_proc (cpus s c) = Some p"
  shows "sched sw c s = (let (c', s2) = sw c s
    in Ok (c', set_cpu c' (intena_update (\<lambda>_. intena (cpus s c))) s2))"
proof -
  have "hart_ok c s" using assms(1) by (simp add: handoff_def hart_ok_def)
  moreover have "settle c s = s" using assms(1) by (simp add: handoff_def settle_nested)
  ultimately show ?thesis
    using assms by (simp add: sched_def myproc_Ok the_proc_def handoff_def)
qed

lemma sched_panics:
  assumes "hart_ok c s" and "cpu_proc (cpus s c) = Some p"
    and "\<not> holding c (p_lock (procs s p)) \<or> noff (cpus s c) \<noteq> 1 \<or> p_state (procs s p) = RUNNING"
  shows "\<exists>m. sched sw c s = Panic m"
  using assms by (auto simp: sched_def myproc_Ok the_proc_def)

lemma pop_off_last:
  assumes "noff (cpus s c) = 1" and "\<not> intr_get c s"
  shows "\<exists>s'. pop_off c s = Ok s' \<and> noff (cpus s' c) = 0 \<and> intr_get c s' = intena (cpus s c) \<and>
    procs s' = procs s"
  using assms by (simp add: pop_off_def Let_def)

text \<open>What a thread may rely on when it is resumed: it has its lock again, on its new hart.\<close>

definition resumes :: "'a kern_scheme away \<Rightarrow> nat \<Rightarrow> bool" where
  "resumes sw p \<longleftrightarrow> (\<forall>c s. handoff c p s \<longrightarrow>
     (let (c', s') = sw c s
      in holding c' (p_lock (procs s' p)) \<and> noff (cpus s' c') = 1 \<and> \<not> intr_get c' s'))"

lemma release_after_resume:
  assumes "holding c (p_lock (procs s p))" and "noff (cpus s c) = 1" and "\<not> intr_get c s"
  shows "\<exists>s'. release_p c p (set_cpu c (intena_update (\<lambda>_. b)) s) = Ok s' \<and>
    intr_get c s' = b \<and> noff (cpus s' c) = 0"
proof -
  let ?s = "set_cpu c (intena_update (\<lambda>_. b)) s"
  have "noff (cpus ?s c) = 1" and "\<not> intr_get c ?s" using assms by simp_all
  from pop_off_last [OF this] obtain s' where "pop_off c ?s = Ok s'" "noff (cpus s' c) = 0"
    "intr_get c s' = intena (cpus ?s c)" by blast
  then show ?thesis using assms(1) by (simp add: release_p_Ok)
qed

text \<open>
  C11: yield gives the CPU away in a proper state (its lock held and no other, interrupts off,
  state RUNNABLE, every other process untouched), and when it is resumed, on whichever hart, it
  returns without a panic with the interrupt state its caller had.
\<close>

theorem yield_correct:
  assumes "quiet c s" and "noff (cpus s c) = 0" and "cpu_proc (cpus s c) = Some p" and "p < NPROC"
    and "resumes sw p"
  shows "\<exists>s1 c' s2 s'. handoff c p s1 \<and> p_state (procs s1 p) = RUNNABLE \<and>
    (\<forall>i. i \<noteq> p \<longrightarrow> procs s1 i = procs s i) \<and> sw c s1 = (c', s2) \<and>
    yield sw c s = Ok (c', s') \<and> intr_get c' s' = intr_get c s \<and> noff (cpus s' c') = 0"
proof -
  let ?l = "(p_lock (procs s p))\<lparr>locked := True, lk_cpu := Some c\<rparr>"
  define s1 where "s1 = upd_proc p (\<lambda>q. q\<lparr>p_lock := ?l, p_state := RUNNABLE\<rparr>) (push_off c (settle c s))"
  have cl: "\<not> locked (p_lock (procs s p))" using assms(1,4) by (auto simp: quiet_def lock_clean_def)
  have acq: "acquire_p c p (settle c s) = Ok (upd_proc p (p_lock_update (\<lambda>_. ?l)) (push_off c (settle c s)))"
    using cl acquire_p_Ok [of "settle c s" p c] by simp
  have h: "handoff c p s1"
    using assms(1,2) by (auto simp: handoff_def s1_def holding_def quiet_def push_off_def Let_def)
  have me: "cpu_proc (cpus s1 c) = Some p" using assms(3) by (simp add: s1_def hw_defs)
  have sv: "intena (cpus s1 c) = intr_get c s" using assms(2) by (simp add: s1_def push_off_intena)
  obtain c' s2 where sw: "sw c s1 = (c', s2)" by (cases "sw c s1")
  with assms(5) h have r: "holding c' (p_lock (procs s2 p))" "noff (cpus s2 c') = 1" "\<not> intr_get c' s2"
    unfolding resumes_def by (fastforce simp: Let_def)+
  from release_after_resume [OF r, of "intr_get c s"] obtain s' where
    s': "release_p c' p (set_cpu c' (intena_update (\<lambda>_. intr_get c s)) s2) = Ok s'"
    "intr_get c' s' = intr_get c s" "noff (cpus s' c') = 0" by blast
  have eq: "upd_proc p (p_state_update (\<lambda>_. RUNNABLE))
      (upd_proc p (p_lock_update (\<lambda>_. ?l)) (push_off c (settle c s))) = s1"
    by (simp add: s1_def upd_proc_def)
  have "yield sw c s = Ok (c', s')"
    using assms(1,3) sw s'(1) sv
    by (simp add: yield_def myproc_Ok quiet_def the_proc_def acq eq sched_Ok [OF h me]
        del: upd_proc_twice)
  then show ?thesis using h sw s'(2,3) by (auto simp: s1_def)
qed

subsection \<open>Sleeping on a lock-protected condition\<close>

text \<open>What \<^verbatim>\<open>sleep\<close> needs of the condition lock: it is a field of its own.\<close>

locale lock_field =
  fixes rd :: "'a kern_scheme \<Rightarrow> spinlock"
    and st :: "spinlock \<Rightarrow> 'a kern_scheme \<Rightarrow> 'a kern_scheme"
  assumes rd_st [simp]: "rd (st l s) = l"
    and st_frame [simp]: "procs (st l s) = procs s" "cpus (st l s) = cpus s"
      "sstatus (st l s) = sstatus s"
    and rd_frame [simp]: "rd (s\<lparr>procs := ps\<rparr>) = rd s" "rd (s\<lparr>cpus := cs\<rparr>) = rd s"
      "rd (s\<lparr>sstatus := x\<rparr>) = rd s"
begin

lemma rd_hw [simp]:
  "rd (push_off c s) = rd s" "rd (settle c s) = rd s" "rd (set_cpu c f s) = rd s"
  "rd (upd_proc i g s) = rd s" "rd (intr_on c s) = rd s"
  by (simp_all add: hw_defs upd_proc_def)

lemma st_intr_get [simp]: "intr_get c (st l s) = intr_get c s"
  by (simp add: intr_get_def)

lemma release_inner:
  assumes "holding c (rd s)" and "1 < noff (cpus s c)" and "\<not> intr_get c s"
  shows "release_at rd st c s = Ok (st ((rd s)\<lparr>lk_cpu := None, locked := False\<rparr>)
    (set_cpu c (noff_update (\<lambda>n. n - 1)) s))"
  using assms by (simp add: release_at_def release_def pop_off_def Let_def)

text \<open>
  The process holds its own lock from before the condition lock is released until it is off
  the CPU, asleep on the channel: no wakeup can come in between.
\<close>

lemma sleep_switches:
  assumes "noff (cpus s c) = 1" and "\<not> intr_get c s" and "holding c (rd s)"
    and "cpu_proc (cpus s c) = Some p" and "p < NPROC"
    and "\<forall>i < NPROC. lock_clean (p_lock (procs s i))"
  shows "\<exists>s1. handoff c p s1 \<and> p_state (procs s1 p) = SLEEPING \<and> p_chan (procs s1 p) = ch \<and>
    \<not> locked (rd s1) \<and> (\<forall>i. i \<noteq> p \<longrightarrow> procs s1 i = procs s i) \<and>
    sleep sw ch rd st c s = (let (c', s2) = sw c s1 in
      rbind (release_p c' p (upd_proc p (p_chan_update (\<lambda>_. NullChan))
        (set_cpu c' (intena_update (\<lambda>_. intena (cpus s1 c))) s2))) (\<lambda>s5.
      rbind (acquire_at rd st c' s5) (\<lambda>s6. Ok (c', s6))))"
proof -
  let ?l = "(p_lock (procs s p))\<lparr>locked := True, lk_cpu := Some c\<rparr>"
  define s2 where "s2 = upd_proc p (p_lock_update (\<lambda>_. ?l)) (push_off c s)"
  define s3 where "s3 = st ((rd s)\<lparr>lk_cpu := None, locked := False\<rparr>) (set_cpu c (noff_update (\<lambda>n. n - 1)) s2)"
  define s1 where "s1 = upd_proc p (\<lambda>q. q\<lparr>p_chan := ch, p_state := SLEEPING\<rparr>) s3"
  have ok: "hart_ok c s" "settle c s = s" using assms(1,2) by (simp_all add: hart_ok_def settle_nested)
  have acq: "acquire_p c p s = Ok s2"
    using assms(5,6) by (simp add: acquire_p_Ok lock_clean_def s2_def)
  have s2: "rd s2 = rd s" "noff (cpus s2 c) = 2" "\<not> intr_get c s2" "cpu_proc (cpus s2 c) = Some p"
    using assms(1,4) by (simp_all add: s2_def push_off_proc)
  have rel: "release_at rd st c s2 = Ok s3"
    using release_inner [of c s2] s2 assms(3) by (simp add: s3_def)
  have h: "handoff c p s1" and me: "cpu_proc (cpus s1 c) = Some p"
    using assms(6) s2 by (auto simp: handoff_def s1_def s3_def s2_def holding_def)
  have "sleep sw ch rd st c s = (let (c', s2) = sw c s1 in
      rbind (release_p c' p (upd_proc p (p_chan_update (\<lambda>_. NullChan))
        (set_cpu c' (intena_update (\<lambda>_. intena (cpus s1 c))) s2))) (\<lambda>s5.
      rbind (acquire_at rd st c' s5) (\<lambda>s6. Ok (c', s6))))"
    using assms(4) sched_Ok [OF h me, of sw]
    by (simp add: sleep_def myproc_Ok [OF ok(1)] ok(2) the_proc_def acq rel s1_def [symmetric]
        split: prod.splits)
  moreover have "\<not> locked (rd s1)" by (simp add: s1_def s3_def)
  moreover have "procs s1 i = procs s i" if "i \<noteq> p" for i
    using that by (simp add: s1_def s3_def s2_def)
  moreover have "p_state (procs s1 p) = SLEEPING" "p_chan (procs s1 p) = ch" by (simp_all add: s1_def)
  ultimately show ?thesis using h by blast
qed

end

interpretation wl: lock_field wait_lock "\<lambda>lk. wait_lock_update (\<lambda>_. lk)"
  by unfold_locales simp_all

interpretation tl: lock_field tickslock "\<lambda>lk. tickslock_update (\<lambda>_. lk)"
  by unfold_locales simp_all

text \<open>
  The sequential side of sleep. When the caller gives up the CPU inside sleep, it has
  released the condition lock but holds its own process lock (so a waker must wait for it), and
  it is already marked SLEEPING on the channel; nothing else in the table has changed. When it
  is resumed it clears the channel, releases its lock and takes the condition lock again.
\<close>

theorem sleep_no_gap:
  assumes "noff (cpus s c) = 1" and "\<not> intr_get c s" and "holding c (wait_lock s)"
    and "cpu_proc (cpus s c) = Some p" and "p < NPROC"
    and "\<forall>i < NPROC. lock_clean (p_lock (procs s i))"
  shows "\<exists>s1. handoff c p s1 \<and> p_state (procs s1 p) = SLEEPING \<and> p_chan (procs s1 p) = ch \<and>
    \<not> locked (wait_lock s1) \<and> (\<forall>i. i \<noteq> p \<longrightarrow> procs s1 i = procs s i) \<and>
    sleep sw ch wait_lock (\<lambda>lk. wait_lock_update (\<lambda>_. lk)) c s = (let (c', s2) = sw c s1 in
      rbind (release_p c' p (upd_proc p (p_chan_update (\<lambda>_. NullChan))
        (set_cpu c' (intena_update (\<lambda>_. intena (cpus s1 c))) s2))) (\<lambda>s5.
      rbind (acquire_at wait_lock (\<lambda>lk. wait_lock_update (\<lambda>_. lk)) c' s5) (\<lambda>s6. Ok (c', s6))))"
  by (rule wl.sleep_switches [OF assms])

section \<open>Sample states\<close>

text \<open>A zeroed slot, as the kernel's BSS has it, and a table of such slots.\<close>

definition zero_proc :: proc where
  "zero_proc = \<lparr>p_lock = initlock ''proc'', p_state = UNUSED,
     p_chan = NullChan, p_killed = 0, p_xstate = 0, p_pid = 0, p_parent = None, p_kstack = 0, p_sz = 0,
     p_pagetable = 0, p_trapframe = 0, p_context = \<lparr>ctx_ra = 0, ctx_sp = 0, ctx_s = replicate 12 0\<rparr>,
     p_ofile = replicate 16 None, p_cwd = None, p_name = replicate 16 0, p_ctime = 0, p_etime = 0,
     p_rtime = 0, p_stime = 0, p_ltime = 0, p_time_left = 0, p_expected_runtime = 0,
     p_priority = 0, p_queue_level = 0, p_time_slice = 0, p_demote = 0\<rparr>"

definition kern0 :: kern where
  "kern0 = km.extend (boot_km 0 0x80001000)
     \<lparr>procs = (\<lambda>_. zero_proc), initproc = None, nextpid = 1, pid_lock = initlock ''nextpid'',
      wait_lock = initlock ''wait_lock'', tickslock = initlock ''time'', ticks = 0\<rparr>"

lemma kern0_simps [simp]:
  "procs kern0 = (\<lambda>_. zero_proc)" "cpus kern0 = cpus boot_hw" "sstatus kern0 = sstatus boot_hw"
  "wait_lock kern0 = initlock ''wait_lock''" "intr_get c kern0 = intr_get c boot_hw"
  by (simp_all add: kern0_def boot_km_def km.defs kern.defs hw.defs boot_hw_def intr_get_def)

lemma zero_proc_simps [simp]:
  "p_state zero_proc = UNUSED" "p_pid zero_proc = 0" "p_lock zero_proc = initlock ''proc''"
  "p_chan zero_proc = NullChan" "p_killed zero_proc = 0" "lock_clean (initlock nm)"
  by (simp_all add: zero_proc_def lock_clean_def initlock_def)

lemma quiet_kern0 [simp]: "quiet c kern0"
  by (simp add: quiet_def hart_ok_def boot_hw_def)

definition one_sleeper :: kern where
  "one_sleeper = upd_proc 3 (\<lambda>p. p\<lparr>p_state := SLEEPING, p_chan := TicksChan, p_pid := 7\<rparr>) kern0"

lemma quiet_one_sleeper: "quiet 0 one_sleeper"
  unfolding one_sleeper_def by (rule quiet_upd_proc) simp_all

theorem wakeup_exact_witness:
  "quiet 0 one_sleeper \<and> (\<exists>s'. wakeup 0 TicksChan one_sleeper = Ok s' \<and>
     p_state (procs s' 3) = RUNNABLE \<and> p_state (procs s' 4) = UNUSED)"
  using quiet_one_sleeper wakeup_exact [OF quiet_one_sleeper, of TicksChan]
  by (simp add: one_sleeper_def boot_hw_def NPROC_def)

theorem kkill_exact_witness:
  "quiet 0 one_sleeper \<and> (\<exists>s'. kkill 0 7 one_sleeper = Ok (0, s') \<and>
     p_killed (procs s' 3) = 1 \<and> p_state (procs s' 3) = RUNNABLE)"
proof -
  have "find (\<lambda>i. p_pid (procs one_sleeper i) = 7) [0..<NPROC] = Some 3"
    by (simp add: one_sleeper_def NPROC_def upt_rec)
  then show ?thesis
    using quiet_one_sleeper kkill_exact [OF quiet_one_sleeper, of 7]
    by (simp add: one_sleeper_def)
qed

definition one_running :: kern where
  "one_running = set_cpu 0 (cpu_proc_update (\<lambda>_. Some 2))
     (upd_proc 2 (p_state_update (\<lambda>_. RUNNING)) kern0)"

lemma one_running_simps [simp]:
  "procs one_running = (\<lambda>_. zero_proc)(2 := zero_proc\<lparr>p_state := RUNNING\<rparr>)"
  "noff (cpus one_running 0) = 0" "cpu_proc (cpus one_running 0) = Some 2"
  "intr_get 0 one_running = intr_get 0 boot_hw"
  by (simp_all add: one_running_def boot_hw_def)

lemma resumes_in_place: "resumes (\<lambda>c s. (c, upd_proc p (p_state_update (\<lambda>_. RUNNING)) s)) p"
  by (auto simp: resumes_def handoff_def)

theorem yield_correct_witness:
  "quiet 0 one_running \<and> (\<exists>c' s'. yield (\<lambda>c s. (c, upd_proc 2 (p_state_update (\<lambda>_. RUNNING)) s)) 0
     one_running = Ok (c', s') \<and> intr_get c' s' = intr_get 0 one_running)"
proof -
  have q: "quiet 0 one_running"
    by (simp add: quiet_def hart_ok_def)
  have "(2 :: nat) < NPROC" by (simp add: NPROC_def)
  from yield_correct [OF q _ _ this resumes_in_place] q show ?thesis by auto
qed

end
