(* ===== verification/Sched.thy ===== *)
theory Sched
  imports Proc
begin

text \<open>
  The scheduling policies of \<^verbatim>\<open>kernel/proc.c\<close>: round robin, first in first out,
  shortest job first, shortest time to completion first and the multi-level feedback queue,
  and the per-CPU loop that calls them. \<^verbatim>\<open>swtch\<close> into a process is the parameter
  \<open>run\<close>: what the machine does from the switch until that process switches back to this
  hart's scheduler. \<open>intf\<close> is what other harts do between an unlocked (or already released)
  scan and the lock the policy then takes; \<open>irq\<close> what interrupt handlers do in the window
  the loop opens for them.
\<close>

section \<open>Definitions\<close>

subsection \<open>Starting and accounting a turn\<close>

type_synonym 's turn = "nat \<Rightarrow> nat \<Rightarrow> 's \<Rightarrow> 's"

text \<open>Round robin and FIFO: last-run time first, then the start time of a first run.\<close>

definition start_rr :: "nat \<Rightarrow> nat \<Rightarrow> 'a kern_scheme \<Rightarrow> 'a kern_scheme" where
  "start_rr c i s =
     (let s1 = upd_proc i (p_state_update (\<lambda>_. RUNNING)) s;
          (t, s2) = getTime s1;
          s3 = upd_proc i (p_ltime_update (\<lambda>_. t)) s2;
          s4 = (if p_rtime (procs s3 i) = 0
                then let (t', s') = getTime s3 in upd_proc i (p_stime_update (\<lambda>_. t')) s'
                else s3)
      in set_cpu c (cpu_proc_update (\<lambda>_. Some i)) s4)"

text \<open>SJF and STCF: the other way round.\<close>

definition start_sjf :: "nat \<Rightarrow> nat \<Rightarrow> 'a kern_scheme \<Rightarrow> 'a kern_scheme" where
  "start_sjf c i s =
     (let s1 = upd_proc i (p_state_update (\<lambda>_. RUNNING)) s;
          s2 = (if p_rtime (procs s1 i) = 0
                then let (t', s') = getTime s1 in upd_proc i (p_stime_update (\<lambda>_. t')) s'
                else s1);
          s3 = set_cpu c (cpu_proc_update (\<lambda>_. Some i)) s2;
          (t, s4) = getTime s3
      in upd_proc i (p_ltime_update (\<lambda>_. t)) s4)"

definition account :: "nat \<Rightarrow> 'a kern_scheme \<Rightarrow> 'a kern_scheme" where
  "account i s =
     (let (t, s1) = getTime s
      in upd_proc i (\<lambda>p. p\<lparr>p_rtime := p_rtime p + (t - p_ltime p)\<rparr>) s1)"

subsection \<open>Round robin\<close>

definition rr_body :: "'a kern_scheme turn \<Rightarrow> nat \<Rightarrow> nat \<Rightarrow> int \<times> 'a kern_scheme \<Rightarrow>
    (int \<times> 'a kern_scheme) result" where
  "rr_body run c i fs =
     (let (found, s) = fs in
      rbind (acquire_p c i s) (\<lambda>s1.
        let (found', s2) =
              (if p_state (procs s1 i) = RUNNABLE
               then (1, set_cpu c (cpu_proc_update (\<lambda>_. None)) (account i (run c i (start_rr c i s1))))
               else (found, s1))
        in rbind (release_p c i s2) (\<lambda>s3. Ok (found', s3))))"

definition schedule_rr ::
  "'a kern_scheme turn \<Rightarrow> nat \<Rightarrow> 'a kern_scheme \<Rightarrow> (int \<times> 'a kern_scheme) result" where
  "schedule_rr run c s = foldR (rr_body run c) [0..<NPROC] (0, s)"

subsection \<open>First in, first out\<close>

definition fifo_scan :: "'a kern_scheme \<Rightarrow> nat option" where
  "fifo_scan s = fold (\<lambda>i selected.
     if p_state (procs s i) = RUNNABLE then
       (case selected of
          None \<Rightarrow> Some i
        | Some j \<Rightarrow> if p_ctime (procs s i) < p_ctime (procs s j) then Some i else selected)
     else selected) [0..<NPROC] None"

definition schedule_fifo :: "'a kern_scheme turn \<Rightarrow> ('a kern_scheme \<Rightarrow> 'a kern_scheme) \<Rightarrow> nat \<Rightarrow>
    'a kern_scheme \<Rightarrow> (int \<times> 'a kern_scheme) result" where
  "schedule_fifo run intf c s =
     (case fifo_scan s of
        None \<Rightarrow> Ok (0, s)
      | Some i \<Rightarrow>
          rbind (acquire_p c i (intf s)) (\<lambda>s1.
            let (found, s2) =
                  (if p_state (procs s1 i) = RUNNABLE
                   then (1, set_cpu c (cpu_proc_update (\<lambda>_. None)) (account i (run c i (start_rr c i s1))))
                   else (0, s1))
            in rbind (release_p c i s2) (\<lambda>s3. Ok (found, s3))))"

subsection \<open>Shortest job first, shortest time to completion first\<close>

text \<open>The four local variables of the scan: \<^verbatim>\<open>best, best_key, best_ctime, best_pid\<close>.\<close>

record best =
  b_slot :: "nat option"
  b_key :: u64
  b_ctime :: u64
  b_pid :: int

definition no_best :: best where
  "no_best = \<lparr>b_slot = None, b_key = - 1, b_ctime = - 1, b_pid = 0\<rparr>"

definition sjf_key :: "proc \<Rightarrow> u64" where
  "sjf_key p = (if p_expected_runtime p \<noteq> 0 then p_expected_runtime p else - 1)"

definition stcf_key :: "proc \<Rightarrow> u64" where
  "stcf_key p = (if p_expected_runtime p = 0 then - 1 else p_time_left p)"

definition consider_best :: "(proc \<Rightarrow> u64) \<Rightarrow> nat \<Rightarrow> proc \<Rightarrow> best \<Rightarrow> best" where
  "consider_best keyf i p b =
     (let key = keyf p in
      if b_slot b = None \<or> key < b_key b \<or>
         (key = b_key b \<and> (p_ctime p < b_ctime b \<or> (p_ctime p = b_ctime b \<and> p_pid p < b_pid b)))
      then \<lparr>b_slot = Some i, b_key = key, b_ctime = p_ctime p, b_pid = p_pid p\<rparr>
      else b)"

definition best_body :: "(proc \<Rightarrow> u64) \<Rightarrow> nat \<Rightarrow> nat \<Rightarrow> best \<times> 'a kern_scheme \<Rightarrow>
    (best \<times> 'a kern_scheme) result" where
  "best_body keyf c i bs =
     (let (b, s) = bs in
      rbind (acquire_p c i s) (\<lambda>s1.
        let b' = (if p_state (procs s1 i) = RUNNABLE
                  then consider_best keyf i (procs s1 i) b else b)
        in rbind (release_p c i s1) (\<lambda>s2. Ok (b', s2))))"

definition schedule_sjf :: "'a kern_scheme turn \<Rightarrow> ('a kern_scheme \<Rightarrow> 'a kern_scheme) \<Rightarrow> nat \<Rightarrow>
    'a kern_scheme \<Rightarrow> (int \<times> 'a kern_scheme) result" where
  "schedule_sjf run intf c s =
     rbind (foldR (best_body sjf_key c) [0..<NPROC] (no_best, s)) (\<lambda>(b, s1).
       case b_slot b of
         None \<Rightarrow> Ok (0, s1)
       | Some i \<Rightarrow>
           if b_key b = - 1 then schedule_rr run c s1
           else rbind (acquire_p c i (intf s1)) (\<lambda>s2.
             if p_state (procs s2 i) \<noteq> RUNNABLE
             then rbind (release_p c i s2) (\<lambda>s3. Ok (0, s3))
             else let s3 = account i (run c i (start_sjf c i s2))
                  in rbind (release_p c i (set_cpu c (cpu_proc_update (\<lambda>_. None)) s3)) (\<lambda>s4. Ok (1, s4))))"

text \<open>
  The first update of the remaining time; the second test of the source, for a value below
  zero, is on an unsigned variable and is written out as such.
\<close>

definition account_stcf :: "nat \<Rightarrow> 'a kern_scheme \<Rightarrow> 'a kern_scheme" where
  "account_stcf i s =
     (let s1 = (if p_time_left (procs s i) > 0
                then let (t, s') = getTime s
                     in upd_proc i (\<lambda>p. p\<lparr>p_time_left := p_time_left p - (t - p_ltime p)\<rparr>) s'
                else s)
      in if p_time_left (procs s1 i) < 0 then upd_proc i (p_time_left_update (\<lambda>_. 0)) s1 else s1)"

definition schedule_stcf :: "'a kern_scheme turn \<Rightarrow> ('a kern_scheme \<Rightarrow> 'a kern_scheme) \<Rightarrow> nat \<Rightarrow>
    'a kern_scheme \<Rightarrow> (int \<times> 'a kern_scheme) result" where
  "schedule_stcf run intf c s =
     rbind (foldR (best_body stcf_key c) [0..<NPROC] (no_best, s)) (\<lambda>(b, s1).
       case b_slot b of
         None \<Rightarrow> Ok (0, s1)
       | Some i \<Rightarrow>
           if b_key b = - 1 then schedule_rr run c s1
           else rbind (acquire_p c i (intf s1)) (\<lambda>s2.
             if p_state (procs s2 i) \<noteq> RUNNABLE
             then rbind (release_p c i s2) (\<lambda>s3. Ok (1, s3))
             else let s3 = account_stcf i (account i (run c i (start_sjf c i s2)))
                  in rbind (release_p c i (set_cpu c (cpu_proc_update (\<lambda>_. None)) s3)) (\<lambda>s4. Ok (1, s4))))"

subsection \<open>Multi-level feedback queue\<close>

definition quantum :: "u64 list" where
  "quantum = [5000, 10000, 20000]"

definition starv_cut :: u64 where
  "starv_cut = 1000 * 10000"

definition age :: "u64 \<Rightarrow> proc \<Rightarrow> proc" where
  "age time p =
     (if p_state p = RUNNABLE then
        let waited = time - p_etime p in
        if waited > starv_cut \<and> p_queue_level p > 0
        then p\<lparr>p_queue_level := p_queue_level p - 1, p_time_slice := quantum ! nat (p_queue_level p - 1)\<rparr>
        else p
      else p)"

definition starvation_clean :: "nat \<Rightarrow> 'a kern_scheme \<Rightarrow> 'a kern_scheme result" where
  "starvation_clean c s =
     (let (time, s1) = getTime s in
      foldR (\<lambda>i s2. rbind (acquire_p c i s2) (\<lambda>s3. release_p c i (upd_proc i (age time) s3)))
        [0..<NPROC] s1)"

definition intena_off :: "nat \<Rightarrow> 'a kern_scheme \<Rightarrow> 'a kern_scheme" where
  "intena_off c s = set_cpu c (intena_update (\<lambda>_. False)) s"

text \<open>The scan of one level keeps the lock of the best process found so far.\<close>

definition level_body :: "nat \<Rightarrow> int \<Rightarrow> nat \<Rightarrow> nat option \<times> 'a kern_scheme \<Rightarrow>
    (nat option \<times> 'a kern_scheme) result" where
  "level_body c prty i ms =
     (let (min_p, s) = ms in
      rbind (acquire_p c i s) (\<lambda>s1.
        if p_queue_level (procs s1 i) = prty \<and> p_state (procs s1 i) = RUNNABLE \<and>
           (case min_p of None \<Rightarrow> True | Some m \<Rightarrow> p_ltime (procs s1 i) < p_ltime (procs s1 m))
        then (case min_p of
                None \<Rightarrow> Ok (Some i, s1)
              | Some m \<Rightarrow> rbind (release_p c m (intena_off c s1)) (\<lambda>s2. Ok (Some i, s2)))
        else rbind (release_p c i (intena_off c s1)) (\<lambda>s2. Ok (min_p, s2))))"

definition start_mlfq :: "nat \<Rightarrow> nat \<Rightarrow> 'a kern_scheme \<Rightarrow> 'a kern_scheme" where
  "start_mlfq c i s =
     (let s1 = upd_proc i (p_state_update (\<lambda>_. RUNNING)) s;
          s2 = set_cpu c (cpu_proc_update (\<lambda>_. Some i)) s1;
          (t, s3) = getTime s2;
          s4 = upd_proc i (p_ltime_update (\<lambda>_. t)) s3
      in if p_stime (procs s4 i) = 0
         then upd_proc i (\<lambda>p. p\<lparr>p_stime := p_ltime p\<rparr>) s4 else s4)"

text \<open>The slice is charged; a process that used it up drops a level.\<close>

definition charge :: "u64 \<Rightarrow> proc \<Rightarrow> proc" where
  "charge time p =
     (let elapsed = time - p_ltime p;
          p1 = p\<lparr>p_etime := time\<rparr>;
          p2 = (if elapsed < p_time_slice p1
                then p1\<lparr>p_time_slice := p_time_slice p1 - elapsed\<rparr>
                else p1\<lparr>p_time_slice := 0, p_demote := 1\<rparr>);
          p3 = p2\<lparr>p_rtime := p_rtime p2 + elapsed\<rparr>
      in if p_time_slice p3 = 0 \<and> p_queue_level p3 < 2
         then let p4 = (if p_priority p3 < 2 then p3\<lparr>p_priority := p_priority p3 + 1\<rparr> else p3);
                  p5 = p4\<lparr>p_queue_level := p_queue_level p4 + 1\<rparr>
              in p5\<lparr>p_time_slice := quantum ! nat (p_priority p5), p_demote := 0\<rparr>
         else p3)"

definition account_mlfq :: "nat \<Rightarrow> 'a kern_scheme \<Rightarrow> 'a kern_scheme" where
  "account_mlfq i s = (let (time, s1) = getTime (account i s) in upd_proc i (charge time) s1)"

text \<open>One pass from \<^verbatim>\<open>start_search\<close>: \<open>Again\<close> is the \<^verbatim>\<open>goto\<close>, \<open>Done\<close> the fall through.\<close>

datatype 's search = Again 's | Done 's

fun search_levels :: "'a kern_scheme turn \<Rightarrow> nat \<Rightarrow> int list \<Rightarrow> 'a kern_scheme \<Rightarrow>
    'a kern_scheme search result" where
  "search_levels run c [] s = Ok (Done s)"
| "search_levels run c (prty # prtys) s =
     rbind (foldR (level_body c prty) [0..<NPROC] (None, s)) (\<lambda>(min_p, s1).
       case min_p of
         Some i \<Rightarrow>
           if p_state (procs s1 i) \<noteq> RUNNABLE then Ok (Done s1)
           else let s2 = account_mlfq i (run c i (start_mlfq c i s1));
                    s3 = intena_off c (set_cpu c (cpu_proc_update (\<lambda>_. None)) s2)
                in rbind (release_p c i s3) (\<lambda>s4. Ok (Again s4))
       | None \<Rightarrow> search_levels run c prtys (intena_off c s1))"

definition mlfq_pass ::
  "'a kern_scheme turn \<Rightarrow> nat \<Rightarrow> 'a kern_scheme \<Rightarrow> 'a kern_scheme search result" where
  "mlfq_pass run c s = rbind (starvation_clean c s) (search_levels run c [0, 1, 2])"

partial_function (option) mlfq_loop :: "'a kern_scheme turn \<Rightarrow> nat \<Rightarrow> int \<Rightarrow> 'a kern_scheme \<Rightarrow>
    (int \<times> 'a kern_scheme) result option" where
  "mlfq_loop run c found s =
     (case mlfq_pass run c s of
        Ok r \<Rightarrow> (case r of Again s' \<Rightarrow> mlfq_loop run c 1 s' | Done s' \<Rightarrow> Some (Ok (found, s')))
      | Panic m \<Rightarrow> Some (Panic m)
      | Hang \<Rightarrow> Some Hang)"

definition schedule_mlfq :: "'a kern_scheme turn \<Rightarrow> nat \<Rightarrow> 'a kern_scheme \<Rightarrow>
    (int \<times> 'a kern_scheme) result option" where
  "schedule_mlfq run c s = mlfq_loop run c 0 s"

subsection \<open>The per-CPU loop\<close>

definition scheduler_start :: "nat \<Rightarrow> 'a kern_scheme \<Rightarrow> 'a kern_scheme" where
  "scheduler_start c s = set_cpu c (cpu_proc_update (\<lambda>_. None)) s"

text \<open>One iteration. The flag of the result says whether the hart then waits for an interrupt.\<close>

definition scheduler_iter :: "sched_policy \<Rightarrow> 'a kern_scheme turn \<Rightarrow>
    ('a kern_scheme \<Rightarrow> 'a kern_scheme) \<Rightarrow> ('a kern_scheme \<Rightarrow> 'a kern_scheme) \<Rightarrow> nat \<Rightarrow>
    'a kern_scheme \<Rightarrow> (bool \<times> 'a kern_scheme) result option" where
  "scheduler_iter SCHED_POLICY run intf irq c s =
     (let s1 = intr_off c (irq (intr_on c s));
          r = (case SCHED_POLICY of
                 FIFO \<Rightarrow> Some (schedule_fifo run intf c s1)
               | SJF \<Rightarrow> Some (schedule_sjf run intf c s1)
               | STCF \<Rightarrow> Some (schedule_stcf run intf c s1)
               | MLFQ \<Rightarrow> schedule_mlfq run c s1
               | RR \<Rightarrow> Some (schedule_rr run c s1))
      in map_option (\<lambda>r. rbind r (\<lambda>(found, s2). Ok (found = 0, s2))) r)"

section \<open>A turn on the CPU\<close>

text \<open>Between turns the scheduler's hart holds no lock and has no current process.\<close>

definition sched_inv :: "nat \<Rightarrow> 'a kern_scheme \<Rightarrow> bool" where
  "sched_inv c s \<longleftrightarrow> noff (cpus s c) = 0 \<and> cpu_proc (cpus s c) = None \<and>
     (\<forall>i < NPROC. lock_clean (p_lock (procs s i)))"

text \<open>The scheduler has taken the lock of slot \<open>i\<close> and no other.\<close>

definition claimed :: "nat \<Rightarrow> nat \<Rightarrow> 'a kern_scheme \<Rightarrow> bool" where
  "claimed c i s \<longleftrightarrow> holding c (p_lock (procs s i)) \<and> noff (cpus s c) = 1 \<and> \<not> intr_get c s \<and>
     (\<forall>j < NPROC. j \<noteq> i \<longrightarrow> lock_clean (p_lock (procs s j)))"

definition running :: "nat \<Rightarrow> nat \<Rightarrow> 'a kern_scheme \<Rightarrow> bool" where
  "running c i s \<longleftrightarrow> claimed c i s \<and> p_state (procs s i) = RUNNING \<and> cpu_proc (cpus s c) = Some i"

text \<open>
  What the scheduler relies on when it switches to a process: the process comes back as
  \<open>handoff\<close> says, which is how \<open>yield\<close> and \<open>sleep\<close> switch away.
\<close>

definition returns :: "'a kern_scheme turn \<Rightarrow> bool" where
  "returns run \<longleftrightarrow> (\<forall>c i s. i < NPROC \<longrightarrow> running c i s \<longrightarrow> handoff c i (run c i s))"

lemma handoff_claimed: "handoff c i s \<longleftrightarrow> claimed c i s \<and> p_state (procs s i) \<noteq> RUNNING"
  by (auto simp: handoff_def claimed_def)

lemma getTime_simps [simp]:
  "procs (snd (getTime s)) = procs s" "cpus (snd (getTime s)) = cpus s"
  "sstatus (snd (getTime s)) = sstatus s" "intr_get c (snd (getTime s)) = intr_get c s"
  "fst (getTime s) = clk s (nclk s)" "clk (snd (getTime s)) = clk s" "nclk (snd (getTime s)) = Suc (nclk s)"
  by (simp_all add: getTime_def intr_get_def)

lemma case_getTime: "(case getTime s of (t, s') \<Rightarrow> f t s') = f (clk s (nclk s)) (snd (getTime s))"
  by (simp add: getTime_def)

lemma sched_inv_hart_ok: "sched_inv c s \<Longrightarrow> hart_ok c s"
  by (simp add: sched_inv_def hart_ok_def)

lemma sched_inv_quiet: "sched_inv c s \<Longrightarrow> quiet c s"
  by (simp add: sched_inv_def quiet_def hart_ok_def)

lemma sched_inv_settle [simp]: "sched_inv d (settle c s) = sched_inv d s"
  by (simp add: sched_inv_def settle_def)

text \<open>Everything but the process table, the harts and the clock position.\<close>

definition erase :: "'a kern_scheme \<Rightarrow> 'a kern_scheme" where
  "erase s = s\<lparr>procs := (\<lambda>_. zero_proc), cpus := cpus boot_hw, sstatus := (\<lambda>_. 0), nclk := 0\<rparr>"

lemma erase_simps [simp]:
  "erase (upd_proc i f s) = erase s" "erase (push_off c s) = erase s" "erase (set_cpu c h s) = erase s"
  "erase (snd (getTime s)) = erase s" "erase (settle c s) = erase s" "erase (intr_on c s) = erase s"
  "erase (intr_off c s) = erase s" "erase (s\<lparr>procs := ps\<rparr>) = erase s" "erase (intena_off c s) = erase s"
  by (simp_all add: erase_def upd_proc_def getTime_def hw_defs intena_off_def)

lemma pop_off_erase: "pop_off c s = Ok s' \<Longrightarrow> erase s' = erase s"
  by (auto simp: pop_off_def Let_def split: if_splits)

lemma release_p_erase:
  assumes "release_p c i s = Ok s'"
  shows "erase s' = erase s"
proof (cases "holding c (p_lock (procs s i))")
  case True
  with assms show ?thesis by (cases "pop_off c s") (auto simp: release_p_Ok dest: pop_off_erase)
next
  case False
  with assms show ?thesis by (simp add: release_p_def release_at_def release_def)
qed

lemma claim:
  assumes "sched_inv c s" and "i < NPROC"
  shows "\<exists>s1. acquire_p c i s = Ok s1 \<and> claimed c i s1 \<and> (\<forall>j. j \<noteq> i \<longrightarrow> procs s1 j = procs s j) \<and>
    procs s1 i = p_lock_update (\<lambda>_. p_lock (procs s1 i)) (procs s i) \<and>
    p_state (procs s1 i) = p_state (procs s i) \<and> erase s1 = erase s"
proof -
  have "\<not> locked (p_lock (procs s i))" using assms by (auto simp: sched_inv_def lock_clean_def)
  from acquire_p_Ok [OF this, of c] show ?thesis
    using assms by (simp add: claimed_def holding_def sched_inv_def)
qed

lemma unclaim:
  assumes "claimed c i s" and "cpu_proc (cpus s c) = None"
  shows "\<exists>s'. release_p c i s = Ok s' \<and> sched_inv c s' \<and> (\<forall>j. j \<noteq> i \<longrightarrow> procs s' j = procs s j) \<and>
    procs s' i = p_lock_update (\<lambda>_. p_lock (procs s' i)) (procs s i) \<and>
    intr_get c s' = intena (cpus s c) \<and> intena (cpus s' c) = intena (cpus s c)"
  using assms unfolding claimed_def
  by (auto simp: release_p_Ok pop_off_def Let_def sched_inv_def lock_clean_def)

text \<open>A policy's bookkeeping around the switch.\<close>

locale turn_policy =
  fixes start :: "nat \<Rightarrow> nat \<Rightarrow> 'a kern_scheme \<Rightarrow> 'a kern_scheme"
    and finish :: "nat \<Rightarrow> nat \<Rightarrow> 'a kern_scheme \<Rightarrow> 'a kern_scheme"
  assumes start_running: "claimed c i s \<Longrightarrow> running c i (start c i s)"
    and start_others: "j \<noteq> i \<Longrightarrow> procs (start c i s) j = procs s j"
    and finish_claimed: "claimed c i (finish c i s) = claimed c i s"
    and finish_others: "j \<noteq> i \<Longrightarrow> procs (finish c i s) j = procs s j"
    and finish_state: "p_state (procs (finish c i s) i) = p_state (procs s i)"
begin

lemma turn:
  assumes "claimed c i s" and "i < NPROC" and "returns run"
  defines "s2 \<equiv> run c i (start c i s)"
  shows "\<exists>s'. release_p c i (set_cpu c (cpu_proc_update (\<lambda>_. None)) (finish c i s2)) = Ok s' \<and>
    sched_inv c s' \<and> (\<forall>j. j \<noteq> i \<longrightarrow> procs s' j = procs s2 j) \<and>
    p_state (procs s' i) = p_state (procs s2 i) \<and> p_state (procs s' i) \<noteq> RUNNING \<and>
    procs s' i = p_lock_update (\<lambda>_. p_lock (procs s' i)) (procs (finish c i s2) i) \<and>
    intr_get c s' = intena (cpus (finish c i s2) c) \<and> intena (cpus s' c) = intena (cpus (finish c i s2) c)"
proof -
  let ?f = "set_cpu c (cpu_proc_update (\<lambda>_. None)) (finish c i s2)"
  have "handoff c i s2" using assms start_running by (simp add: returns_def)
  then have h: "claimed c i s2" "p_state (procs s2 i) \<noteq> RUNNING" by (simp_all add: handoff_claimed)
  then have "claimed c i (finish c i s2)" by (simp add: finish_claimed)
  then have "claimed c i ?f" "cpu_proc (cpus ?f c) = None" by (simp_all add: claimed_def)
  from unclaim [OF this] obtain s' where s': "release_p c i ?f = Ok s'" "sched_inv c s'"
    "\<forall>j. j \<noteq> i \<longrightarrow> procs s' j = procs ?f j" "procs s' i = p_lock_update (\<lambda>_. p_lock (procs s' i)) (procs ?f i)"
    "intr_get c s' = intena (cpus ?f c)" "intena (cpus s' c) = intena (cpus ?f c)"
    by blast
  have "p_state (procs s' i) = p_state (procs s2 i)"
    by (subst s'(4)) (simp add: finish_state)
  then show ?thesis using s' h(2) by (simp add: finish_others)
qed

end

lemma claimed_frame [simp]:
  "claimed c i (snd (getTime s)) = claimed c i s"
  "claimed c i (set_cpu c (cpu_proc_update g) s) = claimed c i s"
  "claimed c i (set_cpu c (intena_update h) s) = claimed c i s"
  by (simp_all add: claimed_def)

lemma claimed_upd_proc:
  "(\<And>p. p_lock (f p) = p_lock p) \<Longrightarrow> claimed c i (upd_proc k f s) = claimed c i s"
  by (auto simp: claimed_def)

lemmas turn_defs = start_rr_def start_sjf_def start_mlfq_def account_def account_stcf_def
  account_mlfq_def Let_def case_getTime

lemma charge_frame [simp]: "p_lock (charge t p) = p_lock p" "p_state (charge t p) = p_state p"
  by (simp_all add: charge_def Let_def)

lemma age_frame [simp]: "p_lock (age t p) = p_lock p" "p_state (age t p) = p_state p"
  by (simp_all add: age_def Let_def)

lemma start_rr_running: "claimed c i s \<Longrightarrow> running c i (start_rr c i s)"
  by (simp add: turn_defs running_def claimed_upd_proc)

lemma start_sjf_running: "claimed c i s \<Longrightarrow> running c i (start_sjf c i s)"
  by (simp add: turn_defs running_def claimed_upd_proc)

lemma start_mlfq_running: "claimed c i s \<Longrightarrow> running c i (start_mlfq c i s)"
  by (simp add: turn_defs running_def claimed_upd_proc)

interpretation rr: turn_policy start_rr "\<lambda>c. account"
  by unfold_locales (simp_all add: start_rr_running, simp_all add: turn_defs claimed_upd_proc)

interpretation sjf: turn_policy start_sjf "\<lambda>c. account"
  by unfold_locales (simp_all add: start_sjf_running, simp_all add: turn_defs claimed_upd_proc)

interpretation stcf: turn_policy start_sjf "\<lambda>c i s. account_stcf i (account i s)"
  by unfold_locales (simp_all add: start_sjf_running, simp_all add: turn_defs claimed_upd_proc)

interpretation mlfq: turn_policy start_mlfq "\<lambda>c i s. intena_off c (account_mlfq i s)"
  by unfold_locales (simp_all add: start_mlfq_running intena_off_def, simp_all add: turn_defs claimed_upd_proc)

subsection \<open>What a turn leaves alone\<close>

lemma erase_turn [simp]:
  "erase (start_rr c i s) = erase s" "erase (start_sjf c i s) = erase s" "erase (start_mlfq c i s) = erase s"
  "erase (account i s) = erase s" "erase (account_stcf i s) = erase s" "erase (account_mlfq i s) = erase s"
  by (simp_all add: turn_defs)

text \<open>
  Slot \<open>i\<close> has one turn on hart \<open>c\<close>: it is switched to as the running process with its
  lock held, the other slots and the rest of the kernel as they were, and when it comes back
  nothing but its own slot is changed.
\<close>

definition one_turn :: "'a kern_scheme turn \<Rightarrow> nat \<Rightarrow> nat \<Rightarrow> 'a kern_scheme \<Rightarrow> 'a kern_scheme \<Rightarrow> bool" where
  "one_turn run c i s s' \<longleftrightarrow> (\<exists>s1. running c i s1 \<and> erase s1 = erase s \<and>
     (\<forall>j. j \<noteq> i \<longrightarrow> procs s1 j = procs s j) \<and> sched_inv c s' \<and> erase s' = erase (run c i s1) \<and>
     (\<forall>j. j \<noteq> i \<longrightarrow> procs s' j = procs (run c i s1) j) \<and>
     p_state (procs s' i) = p_state (procs (run c i s1) i))"

lemma one_turn_inv: "one_turn run c i s s' \<Longrightarrow> sched_inv c s'"
  by (auto simp: one_turn_def)

context turn_policy
begin

lemma turn_is_one_turn:
  assumes "claimed c i s1" and "i < NPROC" and "returns run"
    and "\<And>j. j \<noteq> i \<Longrightarrow> procs s1 j = procs s j" and "erase s1 = erase s"
    and start_erase: "\<And>s. erase (start c i s) = erase s" and finish_erase: "\<And>s. erase (finish c i s) = erase s"
  shows "\<exists>s'. release_p c i (set_cpu c (cpu_proc_update (\<lambda>_. None)) (finish c i (run c i (start c i s1)))) = Ok s' \<and>
    one_turn run c i s s'"
proof -
  from turn [OF assms(1-3)] obtain s' where s':
    "release_p c i (set_cpu c (cpu_proc_update (\<lambda>_. None)) (finish c i (run c i (start c i s1)))) = Ok s'"
    "sched_inv c s'" "\<forall>j. j \<noteq> i \<longrightarrow> procs s' j = procs (run c i (start c i s1)) j"
    "p_state (procs s' i) = p_state (procs (run c i (start c i s1)) i)" by blast
  moreover have "erase s' = erase (run c i (start c i s1))"
    using release_p_erase [OF s'(1)] by (simp add: finish_erase)
  moreover have "running c i (start c i s1)" using assms(1) by (rule start_running)
  moreover have "\<forall>j. j \<noteq> i \<longrightarrow> procs (start c i s1) j = procs s j" using assms(4) by (simp add: start_others)
  moreover have "erase (start c i s1) = erase s" using assms(5) by (simp add: start_erase)
  ultimately show ?thesis unfolding one_turn_def by blast
qed

end

lemmas rr_turn = rr.turn_is_one_turn [OF _ _ _ _ _ erase_turn(1,4)]
lemmas sjf_turn = sjf.turn_is_one_turn [OF _ _ _ _ _ erase_turn(2,4)]

lemma stcf_turn:
  assumes "claimed c i s1" and "i < NPROC" and "returns run"
    and "\<And>j. j \<noteq> i \<Longrightarrow> procs s1 j = procs s j" and "erase s1 = erase s"
  shows "\<exists>s'. release_p c i (set_cpu c (cpu_proc_update (\<lambda>_. None))
      (account_stcf i (account i (run c i (start_sjf c i s1))))) = Ok s' \<and> one_turn run c i s s'"
  using assms by (intro stcf.turn_is_one_turn) simp_all

section \<open>Round robin\<close>

lemma rr_body_skip:
  assumes "sched_inv c s" and "i < NPROC" and "p_state (procs s i) \<noteq> RUNNABLE"
  shows "rr_body run c i (f, s) = Ok (f, settle c s)"
proof -
  have h: "hart_ok c s" "lock_clean (p_lock (procs s i))"
    using assms(1,2) by (simp_all add: sched_inv_hart_ok) (simp add: sched_inv_def)
  obtain s1 where s1: "acquire_p c i s = Ok s1" "p_state (procs s1 i) = p_state (procs s i)"
    using claim [OF assms(1,2)] by blast
  moreover have "release_p c i s1 = Ok (settle c s)" using p_section_read [OF h] s1(1) by simp
  ultimately show ?thesis using assms(3) by (simp add: rr_body_def)
qed

lemma rr_body_turn:
  assumes "sched_inv c s" and "i < NPROC" and "p_state (procs s i) = RUNNABLE" and "returns run"
  shows "\<exists>s'. rr_body run c i (f, s) = Ok (1, s') \<and> one_turn run c i s s'"
proof -
  obtain s1 where s1: "acquire_p c i s = Ok s1" "claimed c i s1" "\<And>j. j \<noteq> i \<Longrightarrow> procs s1 j = procs s j"
    "p_state (procs s1 i) = p_state (procs s i)" "erase s1 = erase s"
    using claim [OF assms(1,2)] by blast
  from rr_turn [OF s1(2) assms(2,4) s1(3,5)] show ?thesis
    using s1(1,4) assms(3) by (auto simp: rr_body_def)
qed

text \<open>Slots that are ready to run, in table order.\<close>

definition runnable :: "'a kern_scheme \<Rightarrow> nat list" where
  "runnable s = filter (\<lambda>i. p_state (procs s i) = RUNNABLE) [0..<NPROC]"

lemma rr_safe:
  assumes "sched_inv c s" and "returns run"
  shows "\<exists>f s'. schedule_rr run c s = Ok (f, s') \<and> sched_inv c s'"
proof -
  have "\<exists>fs'. foldR (rr_body run c) [0..<NPROC] (0, s) = Ok fs' \<and> sched_inv c (snd fs')"
  proof (rule foldR_total)
    fix i and fs :: "int \<times> 'a kern_scheme"
    assume i: "i \<in> set [0..<NPROC]" and "sched_inv c (snd fs)"
    then obtain f s where fs: "fs = (f, s)" "sched_inv c s" by (cases fs) auto
    show "\<exists>fs'. rr_body run c i fs = Ok fs' \<and> sched_inv c (snd fs')"
    proof (cases "p_state (procs s i) = RUNNABLE")
      case True
      then show ?thesis using rr_body_turn [OF fs(2) _ True assms(2)] i one_turn_inv by (fastforce simp: fs(1))
    qed (use rr_body_skip [OF fs(2)] i fs in simp)
  qed (use assms in simp)
  then show ?thesis by (auto simp: schedule_rr_def)
qed

text \<open>A kernel state with the sequence of slots that were switched to.\<close>

record tkern = kern +
  trace :: "nat list"

definition logs :: "'a tkern_scheme turn \<Rightarrow> bool" where
  "logs run \<longleftrightarrow> (\<forall>c i s. trace (run c i s) = trace s @ [i])"

text \<open>
  A turn leaves other ready processes ready. On a machine with one hart this holds of the kernel: the
  state of another process is written by \<^verbatim>\<open>wakeup\<close>, \<^verbatim>\<open>kkill\<close>, \<^verbatim>\<open>kfork\<close> and \<^verbatim>\<open>freeproc\<close>,
  none of which takes a process out of \<^verbatim>\<open>RUNNABLE\<close>; only a scheduler does.
\<close>

definition keeps_ready :: "'a kern_scheme turn \<Rightarrow> bool" where
  "keeps_ready run \<longleftrightarrow> (\<forall>c i j s. j \<noteq> i \<and> p_state (procs s j) = RUNNABLE \<longrightarrow> p_state (procs (run c i s) j) = RUNNABLE)"

lemma trace_erase: "trace (erase s) = trace s"
  by (simp add: erase_def)

lemma erase_trace: "erase s = erase s' \<Longrightarrow> trace s = trace s'"
  by (metis trace_erase)

lemma one_turn_trace:
  assumes "one_turn run c i s s'" and "logs run"
  shows "trace s' = trace s @ [i]"
  using assms erase_trace unfolding one_turn_def logs_def by metis

lemma one_turn_ready:
  assumes "one_turn run c i s s'" and "keeps_ready run" and "j \<noteq> i" and "p_state (procs s j) = RUNNABLE"
  shows "p_state (procs s' j) = RUNNABLE"
  using assms unfolding one_turn_def keeps_ready_def by metis

text \<open>
  The visits of a scan of the table: a slot has a turn if its process is ready when the scan reaches it,
  whatever the turns before it did. The turns are collected.
\<close>

inductive rr_visits :: "'a kern_scheme turn \<Rightarrow> nat \<Rightarrow> nat list \<Rightarrow> 'a kern_scheme \<Rightarrow> nat list \<Rightarrow> 'a kern_scheme \<Rightarrow> bool"
  for run :: "'a kern_scheme turn" and c :: nat where
  visit_none: "rr_visits run c [] s [] s"
| visit_skip: "p_state (procs s i) \<noteq> RUNNABLE \<Longrightarrow> rr_visits run c is (settle c s) ts s' \<Longrightarrow> rr_visits run c (i # is) s ts s'"
| visit_turn: "p_state (procs s i) = RUNNABLE \<Longrightarrow> one_turn run c i s s1 \<Longrightarrow> rr_visits run c is s1 ts s' \<Longrightarrow> rr_visits run c (i # is) s (i # ts) s'"

lemma rr_fold:
  assumes "returns run" and "sched_inv c s" and "set is \<subseteq> {..<NPROC}"
  shows "\<exists>ts s'. foldR (rr_body run c) is (f, s) = Ok (if ts = [] then f else 1, s') \<and> rr_visits run c is s ts s' \<and> sched_inv c s'"
  using assms(2,3)
proof (induction "is" arbitrary: s f)
  case Nil
  then show ?case using rr_visits.visit_none by fastforce
next
  case (Cons i "is")
  show ?case
  proof (cases "p_state (procs s i) = RUNNABLE")
    case True
    obtain s1 where s1: "rr_body run c i (f, s) = Ok (1, s1)" "one_turn run c i s s1"
      using rr_body_turn [OF Cons.prems(1) _ True assms(1), of f] Cons.prems(2) by auto
    obtain ts s' where "foldR (rr_body run c) is (1, s1) = Ok (if ts = [] then 1 else 1, s')" "rr_visits run c is s1 ts s'" "sched_inv c s'"
      using Cons.IH [OF one_turn_inv [OF s1(2)], of 1] Cons.prems(2) by auto
    then show ?thesis using s1 visit_turn [OF True s1(2)] by (intro exI [of _ "i # ts"] exI [of _ s']) simp
  next
    case False
    then have "rr_body run c i (f, s) = Ok (f, settle c s)"
      using Cons.prems by (intro rr_body_skip) auto
    moreover obtain ts s' where "foldR (rr_body run c) is (f, settle c s) = Ok (if ts = [] then f else 1, s')" "rr_visits run c is (settle c s) ts s'" "sched_inv c s'"
      using Cons.IH [of "settle c s" f] Cons.prems by auto
    ultimately show ?thesis using visit_skip [OF False] by (intro exI [of _ ts] exI [of _ s']) simp
  qed
qed

lemma visits_trace: "rr_visits run c is s ts s' \<Longrightarrow> logs run \<Longrightarrow> trace s' = trace s @ ts"
proof (induction rule: rr_visits.induct)
  case (visit_skip s i "is" ts s')
  have "trace (settle c s) = trace s" by (rule erase_trace) simp
  then show ?case using visit_skip by simp
qed (simp_all add: one_turn_trace)

lemma visits_subseq: "rr_visits run c is s ts s' \<Longrightarrow> sorted_wrt (<) is \<Longrightarrow> sorted_wrt (<) ts \<and> set ts \<subseteq> set is"
  by (induction rule: rr_visits.induct) auto

lemma visits_ready:
  "rr_visits run c is s ts s' \<Longrightarrow> keeps_ready run \<Longrightarrow> distinct is \<Longrightarrow> j \<in> set is \<Longrightarrow> p_state (procs s j) = RUNNABLE \<Longrightarrow> j \<in> set ts"
proof (induction rule: rr_visits.induct)
  case (visit_turn s i s1 "is" ts s')
  then show ?case using one_turn_ready [OF visit_turn.hyps(2) visit_turn.prems(1), of j] by (cases "j = i") auto
qed auto

text \<open>
  C3: round robin is fair. One call visits the slots in the order of the table and gives a turn to
  exactly those whose process is RUNNABLE when the scan gets there, so no process has two; it reports
  whether there was any and ends with every lock free and no current process. If turns leave other ready
  processes ready, as they do with a single hart, every process that was RUNNABLE at the call has its turn.
\<close>

theorem rr_serves_each_once:
  assumes "sched_inv c s" and "returns run" and "logs run"
  shows "\<exists>ts s'. schedule_rr run c s = Ok (if ts = [] then 0 else 1, s') \<and> rr_visits run c [0..<NPROC] s ts s' \<and>
    trace s' = trace s @ ts \<and> sorted_wrt (<) ts \<and> sched_inv c s' \<and> (keeps_ready run \<longrightarrow> set (runnable s) \<subseteq> set ts)"
proof -
  obtain ts s' where v: "schedule_rr run c s = Ok (if ts = [] then 0 else 1, s')" "rr_visits run c [0..<NPROC] s ts s'" "sched_inv c s'"
    using rr_fold [OF assms(2,1) NPROC_slots(2), of 0] by (auto simp: schedule_rr_def)
  have "set (runnable s) \<subseteq> set ts" if "keeps_ready run" using visits_ready [OF v(2) that] by (auto simp: runnable_def)
  then show ?thesis using v visits_trace [OF v(2) assms(3)] visits_subseq [OF v(2)] by (intro exI [of _ ts] exI [of _ s']) simp
qed

section \<open>First in, first out\<close>

lemma fold_first_min:
  fixes f :: "nat \<Rightarrow> 'k :: linorder"
  shows "fold (\<lambda>i sel. if P i then (case sel of None \<Rightarrow> Some i
      | Some j \<Rightarrow> if f i < f j then Some i else sel) else sel) xs None = first_min f (filter P xs)"
  by (induction xs rule: rev_induct) (auto simp: first_min_snoc split: option.splits)

lemma fifo_scan_eq: "fifo_scan s = first_min (\<lambda>i. p_ctime (procs s i)) (runnable s)"
  unfolding fifo_scan_def runnable_def by (rule fold_first_min)

lemma runnable_slots: "i \<in> set (runnable s) \<longleftrightarrow> i < NPROC \<and> p_state (procs s i) = RUNNABLE"
  by (auto simp: runnable_def)

lemma runnable_settle [simp]: "runnable (settle c s) = runnable s"
  by (simp add: runnable_def)

text \<open>
  What another hart may do in the window between the scan and the lock: anything that leaves
  this hart and the process locks free.
\<close>

definition harmless :: "nat \<Rightarrow> ('a kern_scheme \<Rightarrow> 'a kern_scheme) \<Rightarrow> bool" where
  "harmless c intf \<longleftrightarrow> (\<forall>s. sched_inv c s \<longrightarrow> sched_inv c (intf s))"

lemma skip_section:
  assumes "sched_inv c s" and "i < NPROC"
  shows "\<exists>s1. acquire_p c i s = Ok s1 \<and> claimed c i s1 \<and> p_state (procs s1 i) = p_state (procs s i) \<and>
    (\<forall>j. j \<noteq> i \<longrightarrow> procs s1 j = procs s j) \<and> erase s1 = erase s \<and> release_p c i s1 = Ok (settle c s)"
proof -
  have h: "hart_ok c s" "lock_clean (p_lock (procs s i))"
    using assms by (simp_all add: sched_inv_hart_ok) (simp add: sched_inv_def)
  obtain s1 where s1: "acquire_p c i s = Ok s1 \<and> claimed c i s1 \<and> (\<forall>j. j \<noteq> i \<longrightarrow> procs s1 j = procs s j) \<and>
    p_state (procs s1 i) = p_state (procs s i) \<and> erase s1 = erase s"
    using claim [OF assms] by blast
  moreover have "release_p c i s1 = Ok (settle c s)" using p_section_read [OF h] s1 by simp
  ultimately show ?thesis by blast
qed

text \<open>
  C5: FIFO runs the oldest process. With no RUNNABLE process it returns 0 and changes nothing.
  Otherwise the slot it selects is the first in the table with the least creation time among the
  RUNNABLE ones. If that process is still RUNNABLE once its lock is taken, it and only it has a
  turn and the result is 1; if another hart took it, the result is 0 and no process runs.
\<close>

theorem fifo_runs_oldest:
  assumes "sched_inv c s" and "returns run" and "harmless c intf"
  shows "case first_min (\<lambda>i. p_ctime (procs s i)) (runnable s) of
      None \<Rightarrow> schedule_fifo run intf c s = Ok (0, s)
    | Some i \<Rightarrow> if p_state (procs (intf s) i) = RUNNABLE
        then \<exists>s'. schedule_fifo run intf c s = Ok (1, s') \<and> one_turn run c i (intf s) s'
        else schedule_fifo run intf c s = Ok (0, settle c (intf s))"
proof (cases "first_min (\<lambda>i. p_ctime (procs s i)) (runnable s)")
  case None
  then show ?thesis by (simp add: schedule_fifo_def fifo_scan_eq)
next
  case (Some i)
  then have i: "i < NPROC" using first_min_Some(1) by (fastforce simp: runnable_slots)
  have inv: "sched_inv c (intf s)" using assms(1,3) by (simp add: harmless_def)
  from skip_section [OF inv i] obtain s1 where s1: "acquire_p c i (intf s) = Ok s1" "claimed c i s1"
    "p_state (procs s1 i) = p_state (procs (intf s) i)" "\<And>j. j \<noteq> i \<Longrightarrow> procs s1 j = procs (intf s) j"
    "erase s1 = erase (intf s)" "release_p c i s1 = Ok (settle c (intf s))" by blast
  with rr_turn [OF s1(2) i assms(2) s1(4,5)] Some show ?thesis
    by (auto simp: schedule_fifo_def fifo_scan_eq)
qed

section \<open>Shortest job first and shortest time to completion first\<close>

text \<open>The order of the scan: key, then creation time, then process id.\<close>

definition rank :: "(proc \<Rightarrow> u64) \<Rightarrow> proc \<Rightarrow> u64 \<times> u64 \<times> int" where
  "rank keyf p = (keyf p, p_ctime p, p_pid p)"

definition best_of :: "(proc \<Rightarrow> u64) \<Rightarrow> (nat \<Rightarrow> proc) \<Rightarrow> nat option \<Rightarrow> best" where
  "best_of keyf ps m = (case m of None \<Rightarrow> no_best
     | Some i \<Rightarrow> \<lparr>b_slot = Some i, b_key = keyf (ps i), b_ctime = p_ctime (ps i), b_pid = p_pid (ps i)\<rparr>)"

lemma rank_less: "rank keyf p < rank keyf q \<longleftrightarrow> keyf p < keyf q \<or> (keyf p = keyf q \<and>
    (p_ctime p < p_ctime q \<or> (p_ctime p = p_ctime q \<and> p_pid p < p_pid q)))"
  by (auto simp: rank_def order.order_iff_strict)

lemma no_best_slot [simp]: "b_slot no_best = None"
  by (simp add: no_best_def)

lemma consider_best_of:
  "consider_best keyf i (ps i) (best_of keyf ps m) = best_of keyf ps
     (case m of None \<Rightarrow> Some i | Some j \<Rightarrow> if rank keyf (ps i) < rank keyf (ps j) then Some i else Some j)"
  by (cases m) (auto simp: consider_best_def best_of_def rank_less Let_def)

lemma best_fold:
  "fold (\<lambda>i b. if P i then consider_best keyf i (ps i) b else b) is no_best =
     best_of keyf ps (first_min (\<lambda>i. rank keyf (ps i)) (filter P is))"
proof (induction "is" rule: rev_induct)
  case Nil
  then show ?case by (simp add: best_of_def)
next
  case (snoc x xs)
  then show ?case by (simp add: first_min_snoc consider_best_of)
qed

text \<open>What the scan needs of a key: it does not depend on the lock the scan holds.\<close>

locale job_key =
  fixes keyf :: "proc \<Rightarrow> u64"
  assumes key_lock [simp]: "keyf (p_lock_update (\<lambda>_. l) p) = keyf p"
begin

lemma consider_best_lock [simp]:
  "consider_best keyf i (p_lock_update (\<lambda>_. l) p) b = consider_best keyf i p b"
  by (auto simp: consider_best_def Let_def)

lemma best_body_effect:
  assumes "quiet c s" and "i < NPROC"
  shows "best_body keyf c i (b, s) = Ok (if p_state (procs s i) = RUNNABLE
    then consider_best keyf i (procs s i) b else b, settle c s)"
proof -
  have h: "hart_ok c s" "lock_clean (p_lock (procs s i))" using assms by (simp_all add: quiet_def)
  let ?s1 = "upd_proc i (p_lock_update (\<lambda>_. (p_lock (procs s i))\<lparr>locked := True, lk_cpu := Some c\<rparr>))
      (push_off c s)"
  have acq: "acquire_p c i s = Ok ?s1" using h(2) by (simp add: acquire_p_Ok lock_clean_def)
  have rel: "release_p c i ?s1 = Ok (settle c s)" using p_section_read [OF h] by (simp add: acq)
  show ?thesis by (simp add: best_body_def acq rel)
qed

lemma best_loop:
  assumes "quiet c s" and "set is \<subseteq> {..<NPROC}" and "is \<noteq> []"
  shows "foldR (best_body keyf c) is (b, s) =
    Ok (fold (\<lambda>i b. if p_state (procs s i) = RUNNABLE then consider_best keyf i (procs s i) b else b) is b,
      settle c s)"
  using assms
proof (induction "is" arbitrary: b s)
  case (Cons i "is")
  then have "best_body keyf c i (b, s) = Ok (if p_state (procs s i) = RUNNABLE
    then consider_best keyf i (procs s i) b else b, settle c s)" by (intro best_body_effect) auto
  then show ?case using Cons.IH [of "settle c s", unfolded procs_hw] Cons.prems by (cases "is = []") auto
qed simp

text \<open>The common scan of the two policies, and the fallback when nothing runnable has a key.\<close>

lemma best_scan:
  assumes "sched_inv c s"
  shows "foldR (best_body keyf c) [0..<NPROC] (no_best, s) =
    Ok (best_of keyf (procs s) (first_min (\<lambda>i. rank keyf (procs s i)) (runnable s)), settle c s)"
  using best_loop [OF sched_inv_quiet [OF assms] NPROC_slots(2,1)]
  by (simp add: best_fold runnable_def)

end

interpretation sk: job_key sjf_key
  by unfold_locales (simp add: sjf_key_def)

interpretation tk: job_key stcf_key
  by unfold_locales (simp add: stcf_key_def)

lemma no_key_iff:
  assumes "first_min (\<lambda>i. rank keyf (ps i)) xs = Some i"
  shows "keyf (ps i) = - 1 \<longleftrightarrow> (\<forall>j \<in> set xs. keyf (ps j) = - 1)"
proof
  assume k: "keyf (ps i) = - 1"
  show "\<forall>j \<in> set xs. keyf (ps j) = - 1"
  proof
    fix j assume "j \<in> set xs"
    then have "rank keyf (ps i) \<le> rank keyf (ps j)" using first_min_Some(2) [OF assms] by blast
    then have "- 1 \<le> keyf (ps j)" using k by (auto simp: rank_def)
    then show "keyf (ps j) = - 1" using word_order.extremum_uniqueI by blast
  qed
qed (use first_min_Some(1) [OF assms] in blast)

text \<open>
  C4: SJF runs the shortest job. It returns 0 when nothing is RUNNABLE; it falls back to round
  robin exactly when no RUNNABLE process carries a usable hint; otherwise it selects the first
  slot that is least by hint, then creation time, then pid, and gives it and only it a turn,
  unless another hart took it first, when it returns 0.
\<close>

theorem sjf_runs_shortest:
  assumes "sched_inv c s" and "returns run" and "harmless c intf"
  shows "case first_min (\<lambda>i. rank sjf_key (procs s i)) (runnable s) of
      None \<Rightarrow> schedule_sjf run intf c s = Ok (0, settle c s)
    | Some i \<Rightarrow>
        if \<forall>j \<in> set (runnable s). sjf_key (procs s j) = - 1
        then schedule_sjf run intf c s = schedule_rr run c (settle c s)
        else if p_state (procs (intf (settle c s)) i) = RUNNABLE
        then \<exists>s'. schedule_sjf run intf c s = Ok (1, s') \<and> one_turn run c i (intf (settle c s)) s'
        else schedule_sjf run intf c s = Ok (0, settle c (intf (settle c s)))"
proof (cases "first_min (\<lambda>i. rank sjf_key (procs s i)) (runnable s)")
  case None
  then show ?thesis by (simp add: schedule_sjf_def sk.best_scan [OF assms(1)] best_of_def)
next
  case (Some i)
  let ?s = "intf (settle c s)"
  have i: "i < NPROC" using first_min_Some(1) [OF Some] by (simp add: runnable_slots)
  have inv: "sched_inv c ?s" using assms(1,3) by (simp add: harmless_def)
  from skip_section [OF inv i] obtain s1 where s1: "acquire_p c i ?s = Ok s1" "claimed c i s1"
    "p_state (procs s1 i) = p_state (procs ?s i)" "\<And>j. j \<noteq> i \<Longrightarrow> procs s1 j = procs ?s j"
    "erase s1 = erase ?s" "release_p c i s1 = Ok (settle c ?s)" by blast
  from sjf_turn [OF s1(2) i assms(2) s1(4,5)] obtain s' where "one_turn run c i ?s s'"
    "release_p c i (set_cpu c (cpu_proc_update (\<lambda>_. None)) (account i (run c i (start_sjf c i s1)))) = Ok s'"
    by blast
  with Some s1 show ?thesis
    by (simp add: schedule_sjf_def sk.best_scan [OF assms(1)] best_of_def no_key_iff [OF Some, symmetric])
qed

text \<open>
  C6: STCF runs the process with the least remaining time: as for SJF with the remaining time
  as key, except that losing the selected process to another hart is reported as 1.
\<close>

theorem stcf_runs_least_remaining:
  assumes "sched_inv c s" and "returns run" and "harmless c intf"
  shows "case first_min (\<lambda>i. rank stcf_key (procs s i)) (runnable s) of
      None \<Rightarrow> schedule_stcf run intf c s = Ok (0, settle c s)
    | Some i \<Rightarrow>
        if \<forall>j \<in> set (runnable s). stcf_key (procs s j) = - 1
        then schedule_stcf run intf c s = schedule_rr run c (settle c s)
        else if p_state (procs (intf (settle c s)) i) = RUNNABLE
        then \<exists>s'. schedule_stcf run intf c s = Ok (1, s') \<and> one_turn run c i (intf (settle c s)) s'
        else schedule_stcf run intf c s = Ok (1, settle c (intf (settle c s)))"
proof (cases "first_min (\<lambda>i. rank stcf_key (procs s i)) (runnable s)")
  case None
  then show ?thesis by (simp add: schedule_stcf_def tk.best_scan [OF assms(1)] best_of_def)
next
  case (Some i)
  let ?s = "intf (settle c s)"
  have i: "i < NPROC" using first_min_Some(1) [OF Some] by (simp add: runnable_slots)
  have inv: "sched_inv c ?s" using assms(1,3) by (simp add: harmless_def)
  from skip_section [OF inv i] obtain s1 where s1: "acquire_p c i ?s = Ok s1" "claimed c i s1"
    "p_state (procs s1 i) = p_state (procs ?s i)" "\<And>j. j \<noteq> i \<Longrightarrow> procs s1 j = procs ?s j"
    "erase s1 = erase ?s" "release_p c i s1 = Ok (settle c ?s)" by blast
  from stcf_turn [OF s1(2) i assms(2) s1(4,5)] obtain s' where "one_turn run c i ?s s'"
    "release_p c i (set_cpu c (cpu_proc_update (\<lambda>_. None))
      (account_stcf i (account i (run c i (start_sjf c i s1))))) = Ok s'"
    by blast
  with Some s1 show ?thesis
    by (simp add: schedule_stcf_def tk.best_scan [OF assms(1)] best_of_def no_key_iff [OF Some, symmetric])
qed

text \<open>
  C16: what a turn costs under STCF. The remaining time is reduced by the elapsed time exactly
  while the estimate is not exceeded. Once it is, the unsigned subtraction wraps around and the
  process is left with a remaining time close to the largest value; the source's test for a
  value below zero never fires.
\<close>

theorem stcf_account_exact:
  "unat (p_time_left (procs (account_stcf i s) i)) =
     (let left = unat (p_time_left (procs s i));
          elapsed = unat (clk s (nclk s) - p_ltime (procs s i))
      in if left = 0 then 0 else if elapsed \<le> left then left - elapsed else 2 ^ 64 - (elapsed - left))"
proof -
  define e where "e = clk s (nclk s) - p_ltime (procs s i)"
  define l where "l = p_time_left (procs s i)"
  have left: "p_time_left (procs (account_stcf i s) i) = (if l = 0 then 0 else l - e)"
    by (simp add: account_stcf_def case_getTime Let_def word_gt_0 e_def l_def)
  have "unat (if l = 0 then 0 else l - e) = (if unat l = 0 then 0 else if unat e \<le> unat l
      then unat l - unat e else 2 ^ 64 - (unat e - unat l))"
  proof (cases "l = 0")
    case False
    then have "unat l \<noteq> 0" by (simp add: unat_eq_zero)
    with False show ?thesis by (simp only: if_False unat_sub_wrap)
  qed simp
  then show ?thesis by (simp only: left Let_def e_def [symmetric] l_def [symmetric])
qed

section \<open>Multi-level feedback queue\<close>

text \<open>Between passes: as \<open>sched_inv\<close>, with interrupts off and not to be turned on.\<close>

definition mlfq_idle :: "nat \<Rightarrow> 'a kern_scheme \<Rightarrow> bool" where
  "mlfq_idle c s \<longleftrightarrow> sched_inv c s \<and> \<not> intr_get c s \<and> \<not> intena (cpus s c)"

text \<open>The state in the middle of a scan: the candidate's lock is held and nothing else.\<close>

definition lock_by :: "nat \<Rightarrow> proc \<Rightarrow> proc" where
  "lock_by c p = p\<lparr>p_lock := (p_lock p)\<lparr>locked := True, lk_cpu := Some c\<rparr>\<rparr>"

definition held :: "nat \<Rightarrow> nat option \<Rightarrow> 'a kern_scheme \<Rightarrow> 'a kern_scheme" where
  "held c m s = (case m of None \<Rightarrow> s
     | Some i \<Rightarrow> upd_proc i (lock_by c)
         (set_cpu c (noff_update (\<lambda>_. 1)) s))"

lemma push_off_disabled:
  assumes "\<not> intr_get c s" and "\<not> intena (cpus s c)"
  shows "push_off c s = set_cpu c (noff_update (\<lambda>n. n + 1)) s"
proof -
  have "sstatus s c AND NOT SSTATUS_SIE = sstatus s c" using assms(1) by (simp add: intr_get_bit)
  then have off: "intr_off c s = s" by (simp add: intr_off_def)
  have "intena_update (\<lambda>_. False) (cpus s c) = cpus s c" using assms(2) by simp
  then show ?thesis using assms(1) by (simp add: push_off_def off Let_def set_cpu_def)
qed

lemma pop_off_disabled:
  assumes "\<not> intr_get c s" and "\<not> intena (cpus s c)" and "1 \<le> noff (cpus s c)"
  shows "pop_off c s = Ok (set_cpu c (noff_update (\<lambda>n. n - 1)) s)"
  using assms by (simp add: pop_off_def Let_def)

lemma noff_first: "noff p = 0 \<Longrightarrow> noff_update (\<lambda>n. n + 1) p = p\<lparr>noff := 1\<rparr>"
  by (cases p) simp

lemma intena_off_id:
  assumes "\<not> intena (cpus s c)"
  shows "intena_off c s = s"
proof -
  have "intena_update (\<lambda>_. False) (cpus s c) = cpus s c" using assms by simp
  then show ?thesis by (simp add: intena_off_def set_cpu_def)
qed

lemma held_simps [simp]:
  "intr_get c (held c m s) = intr_get c s" "intena (cpus (held c m s) c) = intena (cpus s c)"
  "noff (cpus (held c m s) c) = (if m = None then noff (cpus s c) else 1)"
  "m \<noteq> Some j \<Longrightarrow> procs (held c m s) j = procs s j"
  by (auto simp: held_def lock_by_def split: option.splits)

lemma proc_data_held [simp]:
  "p_state (procs (held c m s) j) = p_state (procs s j)"
  "p_queue_level (procs (held c m s) j) = p_queue_level (procs s j)"
  "p_ltime (procs (held c m s) j) = p_ltime (procs s j)"
  by (auto simp: held_def lock_by_def split: option.splits)

lemma mlfq_idle_D:
  assumes "mlfq_idle c s"
  shows "sched_inv c s" "\<not> intr_get c s" "\<not> intena (cpus s c)" "noff (cpus s c) = 0"
    "\<And>i. i < NPROC \<Longrightarrow> lock_clean (p_lock (procs s i))"
  using assms by (simp_all add: mlfq_idle_def sched_inv_def)

text \<open>The lock operations inside a scan, on the state of the scan.\<close>

lemma scan_acquire:
  assumes "mlfq_idle c s" and "i < NPROC" and "m \<noteq> Some i"
  shows "acquire_p c i (held c m s) =
    Ok (upd_proc i (lock_by c)
      (set_cpu c (noff_update (\<lambda>n. n + 1)) (held c m s)))"
  using assms mlfq_idle_D [OF assms(1)]
  by (simp add: acquire_p_Ok lock_clean_def push_off_disabled upd_proc_def lock_by_def)

lemma scan_drop:
  assumes "mlfq_idle c s" and "i < NPROC" and "m \<noteq> Some i"
  shows "release_p c i (upd_proc i (lock_by c)
      (set_cpu c (noff_update (\<lambda>n. n + 1)) (held c m s))) = Ok (held c m s)"
proof -
  have cl: "(p_lock (procs s i))\<lparr>lk_cpu := None, locked := False\<rparr> = p_lock (procs s i)"
    using mlfq_idle_D(5) [OF assms(1,2)] by (rule lock_clean_relock)
  show ?thesis
    using assms(3) mlfq_idle_D [OF assms(1)] cl
    by (simp add: release_p_Ok holding_def pop_off_disabled lock_by_def)
      (simp add: upd_proc_def set_cpu_def o_def fun_upd_idem lock_by_def)
qed

lemma fun_upd_back: "i \<noteq> j \<Longrightarrow> f(i := x, j := f j) = f(i := x)"
  by auto

lemma scan_swap:
  assumes "mlfq_idle c s" and "i < NPROC" and "j < NPROC" and "i \<noteq> j"
  shows "release_p c j (upd_proc i (lock_by c)
      (set_cpu c (noff_update (\<lambda>n. n + 1)) (held c (Some j) s))) = Ok (held c (Some i) s)"
proof -
  have cl: "(p_lock (procs s j))\<lparr>lk_cpu := None, locked := False\<rparr> = p_lock (procs s j)"
    using mlfq_idle_D(5) [OF assms(1,3)] by (rule lock_clean_relock)
  show ?thesis
    using assms(4) mlfq_idle_D [OF assms(1)] cl
    by (simp add: held_def release_p_Ok holding_def pop_off_disabled lock_by_def)
      (simp add: upd_proc_def set_cpu_def o_def lock_by_def fun_upd_back)
qed

text \<open>One level's scan finds the process of that level that ran least recently.\<close>

definition at_level :: "int \<Rightarrow> 'a kern_scheme \<Rightarrow> nat \<Rightarrow> bool" where
  "at_level prty s i \<longleftrightarrow> p_queue_level (procs s i) = prty \<and> p_state (procs s i) = RUNNABLE"

lemma level_body_effect:
  assumes "mlfq_idle c s" and "i < NPROC" and "m \<noteq> Some i" and "\<And>j. m = Some j \<Longrightarrow> j < NPROC"
  shows "level_body c prty i (m, held c m s) = (let m' =
      (if at_level prty s i
       then (case m of None \<Rightarrow> Some i
             | Some j \<Rightarrow> if p_ltime (procs s i) < p_ltime (procs s j) then Some i else Some j)
       else m) in Ok (m', held c m' s))"
proof -
  let ?s1 = "upd_proc i (lock_by c) (set_cpu c (noff_update (\<lambda>n. n + 1)) (held c m s))"
  have acq: "acquire_p c i (held c m s) = Ok ?s1" using assms(1-3) by (rule scan_acquire)
  have drop: "release_p c i ?s1 = Ok (held c m s)" using assms(1-3) by (rule scan_drop)
  have off: "intena_off c ?s1 = ?s1" using mlfq_idle_D(3) [OF assms(1)] by (intro intena_off_id) simp
  have data: "p_queue_level (procs ?s1 i) = p_queue_level (procs s i)"
    "p_state (procs ?s1 i) = p_state (procs s i)" "p_ltime (procs ?s1 j) = p_ltime (procs s j)" for j
    by (simp_all add: lock_by_def)
  show ?thesis
  proof (cases m)
    case None
    then have eq: "?s1 = held c (Some i) s"
      using mlfq_idle_D(4) [OF assms(1)] by (simp add: held_def set_cpu_def upd_proc_def noff_first)
    show ?thesis
      by (simp only: level_body_def acq drop off data rbind.simps Let_def prod.case at_level_def)
        (use eq in \<open>simp add: None\<close>)
  next
    case (Some j)
    have swap: "release_p c j ?s1 = Ok (held c (Some i) s)"
      using scan_swap [OF assms(1,2) assms(4) [OF Some]] assms(3) Some by auto
    show ?thesis
      by (simp only: level_body_def acq drop off data rbind.simps Let_def prod.case at_level_def)
        (use swap in \<open>simp add: Some data\<close>)
  qed
qed

lemma level_scan:
  assumes "mlfq_idle c s" and "distinct is" and "set is \<subseteq> {..<NPROC}"
    and "m = first_min (\<lambda>i. p_ltime (procs s i)) (filter (at_level prty s) is)"
  shows "foldR (level_body c prty) is (None, s) = Ok (m, held c m s)"
  using assms(2-4)
proof (induction "is" arbitrary: m rule: rev_induct)
  case Nil
  then show ?case by (simp add: held_def)
next
  case (snoc i "is")
  define m1 where "m1 = first_min (\<lambda>i. p_ltime (procs s i)) (filter (at_level prty s) is)"
  have in_is: "j \<in> set is" if "m1 = Some j" for j
    using first_min_Some(1) [of _ _ j] that unfolding m1_def by fastforce
  have "level_body c prty i (m1, held c m1 s) = Ok (m, held c m s)"
  proof (subst level_body_effect [OF assms(1)])
    show "i < NPROC" using snoc.prems(2) by simp
    show "m1 \<noteq> Some i" using in_is snoc.prems(1) by auto
    show "j < NPROC" if "m1 = Some j" for j using in_is [OF that] snoc.prems(2) by auto
  qed (use snoc.prems(3) in \<open>simp add: m1_def first_min_snoc Let_def\<close>)
  moreover have "foldR (level_body c prty) is (None, s) = Ok (m1, held c m1 s)"
    using snoc.prems(1,2) by (intro snoc.IH) (simp_all add: m1_def)
  ultimately show ?case by (simp add: foldR_append)
qed

lemma claimed_held:
  assumes "mlfq_idle c s" and "i < NPROC"
  shows "claimed c i (held c (Some i) s)" and "\<And>j. j \<noteq> i \<Longrightarrow> procs (held c (Some i) s) j = procs s j"
    and "erase (held c (Some i) s) = erase s"
  using mlfq_idle_D [OF assms(1)] by (auto simp: claimed_def held_def lock_by_def holding_def)

text \<open>A turn under MLFQ also leaves interrupts off.\<close>

lemma set_cpu_intena_proc:
  "intena_off c (set_cpu c (cpu_proc_update (\<lambda>_. x)) s) =
     set_cpu c (cpu_proc_update (\<lambda>_. x)) (intena_off c s)"
  by (cases "cpus s c") (simp add: intena_off_def set_cpu_def)

lemma procs_intena_off [simp]: "procs (intena_off c s) = procs s"
  by (simp add: intena_off_def)

lemma mlfq_turn:
  assumes "mlfq_idle c s" and "i < NPROC" and "returns run"
  defines "s2 \<equiv> run c i (start_mlfq c i (held c (Some i) s))"
  shows "\<exists>s'. release_p c i (intena_off c (set_cpu c (cpu_proc_update (\<lambda>_. None)) (account_mlfq i s2))) = Ok s' \<and>
    mlfq_idle c s' \<and> one_turn run c i s s' \<and>
    procs s' i = p_lock_update (\<lambda>_. p_lock (procs s' i)) (procs (account_mlfq i s2) i)"
proof -
  note h = claimed_held [OF assms(1,2)]
  have e: "erase (intena_off c (account_mlfq i s)) = erase s" for s :: "'a kern_scheme" by simp
  from mlfq.turn_is_one_turn [OF h(1) assms(2,3) h(2,3) erase_turn(3) e] obtain s' where s':
    "release_p c i (set_cpu c (cpu_proc_update (\<lambda>_. None)) (intena_off c (account_mlfq i s2))) = Ok s'"
    "one_turn run c i s s'" by (auto simp: s2_def)
  with mlfq.turn [OF h(1) assms(2,3)] have "sched_inv c s'" "\<not> intr_get c s'" "\<not> intena (cpus s' c)"
    "procs s' i = p_lock_update (\<lambda>_. p_lock (procs s' i)) (procs (intena_off c (account_mlfq i s2)) i)"
    by (auto simp: s2_def intena_off_def)
  with s' show ?thesis by (auto simp: mlfq_idle_def set_cpu_intena_proc)
qed

subsection \<open>Aging\<close>

text \<open>The state after \<open>starvation_clean\<close>: every slot aged by the same clock value.\<close>

definition aged :: "nat \<Rightarrow> 'a kern_scheme \<Rightarrow> 'a kern_scheme" where
  "aged c s = settle c ((snd (getTime s))\<lparr>procs := \<lambda>i.
     if i < NPROC then age (clk s (nclk s)) (procs s i) else procs s i\<rparr>)"

lemma sched_inv_getTime [simp]: "sched_inv c (snd (getTime s)) = sched_inv c s"
  by (simp add: sched_inv_def)

lemma starvation_clean_effect:
  assumes "sched_inv c s"
  shows "starvation_clean c s = Ok (aged c s)"
proof -
  let ?t = "clk s (nclk s)"
  let ?body = "\<lambda>i s2. rbind (acquire_p c i s2) (\<lambda>s3. release_p c i (upd_proc i (age ?t) s3))"
  have body: "?body i s2 = Ok (settle c (upd_proc i (age ?t) s2))"
    if "i \<in> set [0..<NPROC]" "quiet c s2" for i and s2 :: "'a kern_scheme"
    using that by (intro p_section) (simp_all add: quiet_def, simp add: age_def Let_def)
  have "quiet c (snd (getTime s))" using assms by (intro sched_inv_quiet) simp
  then have "foldR ?body [0..<NPROC] (snd (getTime s)) = Ok (if [0..<NPROC] = [] then snd (getTime s)
      else settle c ((snd (getTime s))\<lparr>procs := \<lambda>i. if i \<in> set [0..<NPROC]
        then age ?t (procs (snd (getTime s)) i) else procs (snd (getTime s)) i\<rparr>))"
    by (intro foldR_procs body) simp_all
  then show ?thesis
    using NPROC_slots(1) by (simp add: starvation_clean_def case_getTime aged_def cong: if_cong)
qed

lemma aged_idle: "sched_inv c s \<Longrightarrow> \<not> intr_get c s \<Longrightarrow> mlfq_idle c (aged c s)"
  by (simp add: mlfq_idle_def aged_def sched_inv_def settle_def intr_get_def getTime_def)

lemma aged_data [simp]:
  "p_state (procs (aged c s) i) = p_state (procs s i)" "p_ltime (procs (aged c s) i) = p_ltime (procs s i)"
  "erase (aged c s) = erase s"
  by (simp_all add: aged_def) (simp add: age_def Let_def)

lemma runnable_aged [simp]: "runnable (aged c s) = runnable s"
  by (simp add: runnable_def)

subsection \<open>One pass\<close>

text \<open>Levels stay within the table of quanta, and never fall below the level of aging.\<close>

definition levels_ok :: "'a kern_scheme \<Rightarrow> bool" where
  "levels_ok s \<longleftrightarrow> (\<forall>i < NPROC. 0 \<le> p_queue_level (procs s i) \<and>
     p_queue_level (procs s i) \<le> p_priority (procs s i) \<and> p_priority (procs s i) \<le> 2)"

lemma levels_ok_aged: "levels_ok s \<Longrightarrow> levels_ok (aged c s)"
  by (fastforce simp: levels_ok_def aged_def age_def Let_def)

lemma search_levels_none:
  assumes "mlfq_idle c s" and "\<forall>prty \<in> set ls. filter (at_level prty s) [0..<NPROC] = []"
  shows "search_levels run c (ls @ ms) s = search_levels run c ms s"
  using assms(2)
proof (induction ls)
  case (Cons prty ls)
  have "foldR (level_body c prty) [0..<NPROC] (None, s) = Ok (None, held c None s)"
    using Cons.prems by (intro level_scan [OF assms(1) distinct_upt NPROC_slots(2)]) simp
  then show ?case using Cons by (simp add: held_def intena_off_id mlfq_idle_D(3) [OF assms(1)])
qed simp

lemma search_levels_some:
  assumes "mlfq_idle c s" and "returns run"
    and "first_min (\<lambda>i. p_ltime (procs s i)) (filter (at_level prty s) [0..<NPROC]) = Some i"
  shows "\<exists>s'. search_levels run c (prty # ls) s = Ok (Again s') \<and> mlfq_idle c s' \<and> one_turn run c i s s' \<and>
    procs s' i = p_lock_update (\<lambda>_. p_lock (procs s' i))
      (procs (account_mlfq i (run c i (start_mlfq c i (held c (Some i) s)))) i)"
proof -
  have scan: "foldR (level_body c prty) [0..<NPROC] (None, s) = Ok (Some i, held c (Some i) s)"
    by (rule level_scan [OF assms(1) distinct_upt NPROC_slots(2)]) (simp add: assms(3))
  have i: "i < NPROC" and r: "p_state (procs s i) = RUNNABLE"
    using first_min_Some(1) [OF assms(3)] by (auto simp: at_level_def)
  from mlfq_turn [OF assms(1) i assms(2)] show ?thesis
    using r by (auto simp: scan Let_def)
qed

lemma at_level_runnable: "filter (at_level k s) [0..<NPROC] = filter (\<lambda>i. p_queue_level (procs s i) = k) (runnable s)"
  unfolding runnable_def filter_filter at_level_def by (rule filter_cong) auto

lemma lowest_level:
  assumes "levels_ok s" and "runnable s \<noteq> []"
  obtains ls k ms where "[0, 1, 2] = ls @ k # ms" "\<forall>j \<in> set ls. filter (at_level j s) [0..<NPROC] = []"
    "filter (at_level k s) [0..<NPROC] \<noteq> []" "\<forall>i \<in> set (runnable s). k \<le> p_queue_level (procs s i)"
proof -
  let ?N = "\<lambda>k. filter (at_level k s) [0..<NPROC] \<noteq> []"
  have lv: "0 \<le> p_queue_level (procs s i) \<and> p_queue_level (procs s i) \<le> 2" if "i \<in> set (runnable s)" for i
    using that assms(1) by (fastforce simp: levels_ok_def runnable_slots)
  have N: "?N (p_queue_level (procs s i))" if "i \<in> set (runnable s)" for i
    using that by (auto simp: at_level_runnable filter_empty_conv)
  have three: "x = 0 \<or> x = 1 \<or> x = 2" if "0 \<le> x" "x \<le> 2" for x :: int using that by arith
  from assms(2) obtain i where i: "i \<in> set (runnable s)" by (cases "runnable s") auto
  have "?N 0 \<or> ?N 1 \<or> ?N 2" using three [of "p_queue_level (procs s i)"] lv [OF i] N [OF i] by fastforce
  then consider "?N 0" | "\<not> ?N 0" "?N 1" | "\<not> ?N 0" "\<not> ?N 1" "?N 2" by blast
  then show thesis
  proof cases
    case 1
    then show thesis using lv by (intro that [of "[]" 0 "[1, 2]"]) auto
  next
    case 2
    then show thesis using lv N three by (intro that [of "[0]" 1 "[2]"]) (auto, fastforce)
  next
    case 3
    then show thesis using lv N three by (intro that [of "[0, 1]" 2 "[]"]) (auto, fastforce)
  qed
qed

lemma pass_picks:
  assumes "sched_inv c s" and "\<not> intr_get c s" and "levels_ok s" and "returns run"
    and "first_min (\<lambda>i. (p_queue_level (procs (aged c s) i), p_ltime (procs s i))) (runnable s) = Some i"
  shows "\<exists>s'. mlfq_pass run c s = Ok (Again s') \<and> mlfq_idle c s' \<and> one_turn run c i (aged c s) s' \<and>
    procs s' i = p_lock_update (\<lambda>_. p_lock (procs s' i))
      (procs (account_mlfq i (run c i (start_mlfq c i (held c (Some i) (aged c s))))) i)"
proof -
  let ?s = "aged c s"
  have ne: "runnable ?s \<noteq> []" using assms(5) by auto
  note idle = aged_idle [OF assms(1,2)]
  obtain ls k ms where k: "[0, 1, 2] = ls @ k # ms" "\<forall>j \<in> set ls. filter (at_level j ?s) [0..<NPROC] = []"
    "filter (at_level k ?s) [0..<NPROC] \<noteq> []" "\<forall>i \<in> set (runnable ?s). k \<le> p_queue_level (procs ?s i)"
    by (rule lowest_level [OF levels_ok_aged [OF assms(3)] ne])
  have "first_min (\<lambda>i. p_ltime (procs ?s i)) (filter (at_level k ?s) [0..<NPROC]) = Some i"
    using first_min_level [of "\<lambda>i. p_queue_level (procs ?s i)" k "runnable ?s" "\<lambda>i. p_ltime (procs ?s i)"]
      k(3,4) assms(5) by (simp add: at_level_runnable)
  from search_levels_some [OF idle assms(4) this, of ms] show ?thesis
    by (simp add: mlfq_pass_def starvation_clean_effect [OF assms(1)] k(1) search_levels_none [OF idle k(2)])
qed

lemma pass_done:
  assumes "sched_inv c s" and "\<not> intr_get c s" and "runnable s = []"
  shows "mlfq_pass run c s = Ok (Done (aged c s))"
proof -
  have "\<forall>j \<in> set [0, 1, 2]. filter (at_level j (aged c s)) [0..<NPROC] = []"
    using assms(3) by (simp add: at_level_runnable)
  from search_levels_none [OF aged_idle [OF assms(1,2)] this, of run "[]"] show ?thesis
    by (simp add: mlfq_pass_def starvation_clean_effect [OF assms(1)])
qed

text \<open>
  C2: what MLFQ runs next. After aging, a pass gives one turn to the first slot in the table
  that is least by queue level and then by the time it last ran, among the RUNNABLE processes;
  all locks are free afterwards and interrupts are still off. The pass runs nothing exactly when
  no process is RUNNABLE.
\<close>

theorem mlfq_pass_picks:
  assumes "sched_inv c s" and "\<not> intr_get c s" and "levels_ok s" and "returns run"
  shows "case first_min (\<lambda>i. (p_queue_level (procs (aged c s) i), p_ltime (procs s i))) (runnable s) of
      None \<Rightarrow> mlfq_pass run c s = Ok (Done (aged c s))
    | Some i \<Rightarrow> \<exists>s'. mlfq_pass run c s = Ok (Again s') \<and> one_turn run c i (aged c s) s' \<and> \<not> intr_get c s'"
  using pass_picks [OF assms] pass_done [OF assms(1,2), of run]
  by (auto simp: mlfq_idle_def split: option.split)

text \<open>
  The writes of the two level fields in the kernel: \<^verbatim>\<open>allocproc\<close> and \<^verbatim>\<open>freeproc\<close> reset them, a scheduler,
  perhaps of another hart, ages and charges a process, and everything else leaves them alone.
\<close>

inductive level_write :: "proc \<Rightarrow> proc \<Rightarrow> bool" where
  lw_other: "p_queue_level q = p_queue_level p \<Longrightarrow> p_priority q = p_priority p \<Longrightarrow> level_write p q"
| lw_reset: "p_queue_level q = 0 \<Longrightarrow> p_priority q = 0 \<Longrightarrow> level_write p q"
| lw_age: "level_write p (age t p)"
| lw_charge: "level_write p (charge t p)"

definition level_writes :: "('a kern_scheme \<Rightarrow> 'a kern_scheme) \<Rightarrow> bool" where
  "level_writes f \<longleftrightarrow> (\<forall>s j. level_write\<^sup>*\<^sup>* (procs s j) (procs (f s) j))"

text \<open>What a turn does to the levels of any process is a sequence of such writes.\<close>

definition writes_levels :: "'a kern_scheme turn \<Rightarrow> bool" where
  "writes_levels run \<longleftrightarrow> (\<forall>c i. level_writes (run c i))"

definition level_ok :: "proc \<Rightarrow> bool" where
  "level_ok p \<longleftrightarrow> 0 \<le> p_queue_level p \<and> p_queue_level p \<le> p_priority p \<and> p_priority p \<le> 2"

lemma levels_ok_iff: "levels_ok s \<longleftrightarrow> (\<forall>i < NPROC. level_ok (procs s i))"
  by (simp add: levels_ok_def level_ok_def)

lemma charge_levels: "level_ok p \<Longrightarrow> level_ok (charge t p)"
  by (simp add: level_ok_def charge_def Let_def)

lemma age_levels: "level_ok p \<Longrightarrow> level_ok (age t p)"
  by (simp add: level_ok_def age_def Let_def)

lemma level_writes_ok: "level_write\<^sup>*\<^sup>* p q \<Longrightarrow> level_ok p \<Longrightarrow> level_ok q"
proof (induction rule: rtranclp_induct)
  case (step q r)
  from step.hyps(2) step.IH [OF step.prems] show ?case
    by cases (simp_all add: charge_levels age_levels, simp_all add: level_ok_def)
qed simp

lemma level_writes_levels: "level_writes f \<Longrightarrow> levels_ok s \<Longrightarrow> levels_ok (f s)"
  using level_writes_ok unfolding levels_ok_iff level_writes_def by blast

lemma start_mlfq_levels:
  "p_queue_level (procs (start_mlfq c i s) j) = p_queue_level (procs s j)"
  "p_priority (procs (start_mlfq c i s) j) = p_priority (procs s j)"
  by (simp_all add: turn_defs)

lemma held_levels:
  "p_priority (procs (held c m s) j) = p_priority (procs s j)"
  by (auto simp: held_def lock_by_def split: option.splits)

lemma pass_levels:
  assumes "sched_inv c s" and "\<not> intr_get c s" and "levels_ok s" and "returns run" and "writes_levels run"
    and "mlfq_pass run c s = Ok (Again s')"
  shows "levels_ok s'"
proof -
  obtain i where i: "first_min (\<lambda>i. (p_queue_level (procs (aged c s) i), p_ltime (procs s i))) (runnable s) = Some i"
    using assms(6) pass_done [OF assms(1,2), of run]
    by (cases "first_min (\<lambda>i. (p_queue_level (procs (aged c s) i), p_ltime (procs s i))) (runnable s)") auto
  let ?s2 = "run c i (start_mlfq c i (held c (Some i) (aged c s)))"
  from pass_picks [OF assms(1-4) i] assms(6) have s': "one_turn run c i (aged c s) s'"
    "procs s' i = p_lock_update (\<lambda>_. p_lock (procs s' i)) (procs (account_mlfq i ?s2) i)" by auto
  let ?s1 = "start_mlfq c i (held c (Some i) (aged c s))"
  have "levels_ok ?s1" using levels_ok_aged [OF assms(3)] by (simp add: levels_ok_def start_mlfq_levels held_levels)
  then have lv: "levels_ok ?s2" using assms(5) level_writes_levels [of "run c i"] by (simp add: writes_levels_def)
  obtain s1 where s1: "erase s1 = erase (aged c s)" "\<forall>j. j \<noteq> i \<longrightarrow> procs s1 j = procs (aged c s) j" "\<forall>j. j \<noteq> i \<longrightarrow> procs s' j = procs (run c i s1) j"
    using s'(1) unfolding one_turn_def by blast
  show ?thesis unfolding levels_ok_iff
  proof (intro allI impI)
    fix j assume j: "j < NPROC"
    show "level_ok (procs s' j)"
    proof (cases "j = i")
      case True
      have "level_ok (p_rtime_update (\<lambda>_. x) (procs ?s2 i))" for x using lv j True by (simp add: levels_ok_iff level_ok_def)
      then have "level_ok (procs (account_mlfq i ?s2) i)" by (simp add: account_mlfq_def account_def case_getTime charge_levels)
      then have "level_ok (p_lock_update (\<lambda>_. l) (procs (account_mlfq i ?s2) i))" for l by (simp add: level_ok_def)
      then show ?thesis using True s'(2) by metis
    next
      case False
      have "level_write\<^sup>*\<^sup>* (procs s1 j) (procs (run c i s1) j)" using assms(5) by (simp add: writes_levels_def level_writes_def)
      then have "level_write\<^sup>*\<^sup>* (procs (aged c s) j) (procs s' j)" using s1(2,3) False by simp
      then show ?thesis using level_writes_ok levels_ok_aged [OF assms(3)] j by (simp add: levels_ok_iff)
    qed
  qed
qed

text \<open>
  C8: the MLFQ levels stay in range. If turns write the two fields only as the kernel does, by resetting,
  aging and charging, every pass keeps each process at a queue level between 0 and its priority, which
  is at most 2, so the table of quanta is never indexed out of bounds.
\<close>

theorem mlfq_levels_in_range:
  assumes "sched_inv c s" and "\<not> intr_get c s" and "levels_ok s" and "returns run" and "writes_levels run"
  shows "case mlfq_pass run c s of Ok (Again s') \<Rightarrow> levels_ok s' | Ok (Done s') \<Rightarrow> levels_ok s' | _ \<Rightarrow> False"
proof (cases "runnable s = []")
  case True
  then show ?thesis using pass_done [OF assms(1,2) True, of run] levels_ok_aged [OF assms(3)] by simp
next
  case False
  then obtain i where "first_min (\<lambda>i. (p_queue_level (procs (aged c s) i), p_ltime (procs s i))) (runnable s) = Some i"
    by (cases "first_min (\<lambda>i. (p_queue_level (procs (aged c s) i), p_ltime (procs s i))) (runnable s)") auto
  from pass_picks [OF assms(1-4) this] pass_levels [OF assms] show ?thesis by auto
qed

subsection \<open>The loop\<close>

text \<open>
  The processes have finite work: a number that depends on the state of the processes and the rest of the
  kernel, not on the scheduler's bookkeeping, decreases with every turn.
\<close>

definition ready_states :: "'a kern_scheme \<Rightarrow> nat \<Rightarrow> procstate" where
  "ready_states s = (\<lambda>i. if p_state (procs s i) = RUNNING then RUNNABLE else p_state (procs s i))"

definition finite_work :: "'a kern_scheme turn \<Rightarrow> ('a kern_scheme \<Rightarrow> (nat \<Rightarrow> procstate) \<Rightarrow> nat) \<Rightarrow> bool" where
  "finite_work run v \<longleftrightarrow> (\<forall>c i s. i < NPROC \<and> running c i s \<longrightarrow> v (erase (run c i s)) (ready_states (run c i s)) < v (erase s) (ready_states s))"

lemma one_turn_work:
  assumes "one_turn run c i s s'" and "finite_work run v" and "p_state (procs s i) = RUNNABLE" and "i < NPROC"
  shows "v (erase s') (ready_states s') < v (erase s) (ready_states s)"
proof -
  obtain s1 where s1: "running c i s1" "erase s1 = erase s" "\<forall>j. j \<noteq> i \<longrightarrow> procs s1 j = procs s j" "erase s' = erase (run c i s1)"
    "\<forall>j. j \<noteq> i \<longrightarrow> procs s' j = procs (run c i s1) j" "p_state (procs s' i) = p_state (procs (run c i s1) i)"
    using assms(1) unfolding one_turn_def by blast
  have "ready_states s1 j = ready_states s j" for j using s1(1,3) assms(3) by (cases "j = i") (simp_all add: ready_states_def running_def)
  moreover have "ready_states s' j = ready_states (run c i s1) j" for j using s1(5,6) by (cases "j = i") (simp_all add: ready_states_def)
  ultimately have "ready_states s1 = ready_states s" "ready_states s' = ready_states (run c i s1)" by auto
  then show ?thesis using assms(2) [unfolded finite_work_def, rule_format, of i c s1] assms(4) s1(1,2,4) by simp
qed

lemma aged_ready_states: "ready_states (aged c s) = ready_states s"
  by (simp add: ready_states_def aged_def settle_procs fun_eq_iff)

lemma mlfq_drains:
  assumes "returns run" and "writes_levels run" and "finite_work run v" and "logs run"
    and "sched_inv c s" and "\<not> intr_get c s" and "levels_ok s"
  shows "\<exists>is s'. mlfq_loop run c f s = Some (Ok (if is = [] then f else 1, s')) \<and> runnable s' = [] \<and> sched_inv c s' \<and>
    trace s' = trace s @ is \<and> length is \<le> v (erase s) (ready_states s) \<and> (keeps_ready run \<longrightarrow> set (runnable s) \<subseteq> set is)"
  using assms(5-7)
proof (induction "v (erase s) (ready_states s)" arbitrary: s f rule: less_induct)
  case less
  have tr: "trace (aged c s) = trace s" by (rule erase_trace) simp
  show ?case
  proof (cases "runnable s = []")
    case True
    have "mlfq_loop run c f s = Some (Ok (f, aged c s))" using pass_done [OF less.prems(1,2) True, of run] by (subst mlfq_loop.simps) simp
    then show ?thesis using True tr aged_idle [OF less.prems(1,2)] by (intro exI [of _ "[]"] exI [of _ "aged c s"]) (simp add: mlfq_idle_def)
  next
    case False
    let ?k = "\<lambda>i. (p_queue_level (procs (aged c s) i), p_ltime (procs s i))"
    obtain i where i: "first_min ?k (runnable s) = Some i" using False by (cases "first_min ?k (runnable s)") auto
    from pass_picks [OF less.prems assms(1) i] obtain s1 where s1: "mlfq_pass run c s = Ok (Again s1)"
      "mlfq_idle c s1" "one_turn run c i (aged c s) s1" by blast
    have "i \<in> set (runnable (aged c s))" using first_min_Some(1) [OF i] by simp
    then have "p_state (procs (aged c s) i) = RUNNABLE" "i < NPROC" by (simp_all add: runnable_slots)
    from one_turn_work [OF s1(3) assms(3) this] have w: "v (erase s1) (ready_states s1) < v (erase s) (ready_states s)"
      by (simp add: aged_ready_states)
    from less.hyps [OF this, of 1] s1(2) pass_levels [OF less.prems assms(1,2) s1(1)] obtain "is" s' where
      ih: "mlfq_loop run c 1 s1 = Some (Ok (1, s'))" "runnable s' = []" "sched_inv c s'" "trace s' = trace s1 @ is"
      "length is \<le> v (erase s1) (ready_states s1)" "keeps_ready run \<longrightarrow> set (runnable s1) \<subseteq> set is" by (auto simp: mlfq_idle_def)
    have "trace s' = trace s @ (i # is)" using one_turn_trace [OF s1(3) assms(4)] tr ih(4) by simp
    moreover have "set (runnable s) \<subseteq> set (i # is)" if k: "keeps_ready run"
    proof
      fix j assume "j \<in> set (runnable s)"
      then have j: "j \<in> set (runnable (aged c s))" by simp
      then have "j = i \<or> j \<in> set (runnable s1)" using one_turn_ready [OF s1(3) k, of j] by (auto simp: runnable_slots)
      then show "j \<in> set (i # is)" using ih(6) k by auto
    qed
    moreover have "mlfq_loop run c f s = Some (Ok (1, s'))"
      by (subst mlfq_loop.simps) (simp add: s1(1) ih(1))
    ultimately show ?thesis using ih(2,3,5) w by (intro exI [of _ "i # is"] exI [of _ s']) simp
  qed
qed

text \<open>
  C7: MLFQ terminates and serves everyone. If the processes have finite work, the search loop ends with no
  process RUNNABLE, every lock free and no current process, after no more turns than that work; this
  covers turns that wake other processes or reap children. If turns also leave other ready processes
  ready, as with a single hart, every process that was RUNNABLE at the start has had a turn.
\<close>

theorem mlfq_serves_all:
  assumes "returns run" and "writes_levels run" and "finite_work run v" and "logs run"
    and "sched_inv c s" and "\<not> intr_get c s" and "levels_ok s"
  shows "\<exists>is s'. schedule_mlfq run c s = Some (Ok (if is = [] then 0 else 1, s')) \<and> runnable s' = [] \<and> sched_inv c s' \<and>
    trace s' = trace s @ is \<and> length is \<le> v (erase s) (ready_states s) \<and> (keeps_ready run \<longrightarrow> set (runnable s) \<subseteq> set is)"
  unfolding schedule_mlfq_def by (rule mlfq_drains [OF assms])

text \<open>
  C17: what a turn costs under MLFQ. The running time is increased by the elapsed time twice,
  once by each of two consecutive clock readings; the process drops one level exactly when it
  used up its slice below the lowest level, and the new slice is the quantum of its priority,
  which after aging can belong to a lower level than the queue it is now in.
\<close>

theorem mlfq_account_exact:
  defines "t1 s \<equiv> clk s (nclk s)" and "t2 s \<equiv> clk s (Suc (nclk s))"
  shows "let p = procs s i; p' = procs (account_mlfq i s) i; e = t2 s - p_ltime p;
      expired = (p_time_slice p \<le> e \<and> p_queue_level p < 2)
    in p_rtime p' = p_rtime p + (t1 s - p_ltime p) + e \<and> p_etime p' = t2 s \<and>
      p_queue_level p' = p_queue_level p + (if expired then 1 else 0) \<and>
      p_priority p' = (if expired \<and> p_priority p < 2 then p_priority p + 1 else p_priority p) \<and>
      p_time_slice p' = (if expired then quantum ! nat (p_priority p')
        else if e < p_time_slice p then p_time_slice p - e else 0)"
proof -
  have "e < sl \<Longrightarrow> sl - e \<noteq> 0" for e sl :: u64 by auto
  then show ?thesis
    by (auto simp: account_mlfq_def account_def case_getTime charge_def Let_def t1_def t2_def not_less)
qed

section \<open>The per-CPU loop\<close>

lemma sched_inv_intr [simp]: "sched_inv c (intr_on d s) = sched_inv c s" "sched_inv c (intr_off d s) = sched_inv c s"
  by (simp_all add: sched_inv_def)

lemma fifo_safe:
  assumes "sched_inv c s" and "returns run" and "harmless c intf"
  shows "\<exists>f s'. schedule_fifo run intf c s = Ok (f, s') \<and> sched_inv c s'"
proof (cases "fifo_scan s")
  case None
  then show ?thesis using assms(1) by (simp add: schedule_fifo_def)
next
  case (Some i)
  then have i: "i < NPROC" using first_min_Some(1) by (fastforce simp: fifo_scan_eq runnable_slots)
  have inv: "sched_inv c (intf s)" using assms(1,3) by (simp add: harmless_def)
  from skip_section [OF inv i] obtain s1 where s1: "acquire_p c i (intf s) = Ok s1" "claimed c i s1"
    "release_p c i s1 = Ok (settle c (intf s))" by blast
  with rr.turn [OF s1(2) i assms(2)] inv Some show ?thesis by (auto simp: schedule_fifo_def)
qed

text \<open>SJF and STCF after their scan.\<close>

lemma best_safe:
  assumes "sched_inv c s" and "returns run" and "harmless c intf" and "i < NPROC"
    and turn: "\<And>s1. claimed c i s1 \<Longrightarrow> \<exists>s'. T s1 = Ok s' \<and> sched_inv c s'"
  shows "\<exists>f s'. rbind (acquire_p c i (intf s)) (\<lambda>s2.
      if p_state (procs s2 i) \<noteq> RUNNABLE then rbind (release_p c i s2) (\<lambda>s3. Ok (a :: int, s3))
      else rbind (T s2) (\<lambda>s4. Ok (b, s4))) = Ok (f, s') \<and> sched_inv c s'"
proof -
  have inv: "sched_inv c (intf s)" using assms(1,3) by (simp add: harmless_def)
  from skip_section [OF inv assms(4)] obtain s1 where s1: "acquire_p c i (intf s) = Ok s1" "claimed c i s1"
    "release_p c i s1 = Ok (settle c (intf s))" by blast
  with turn [OF s1(2)] inv show ?thesis by auto
qed

lemma best_of_slot:
  "b_slot (best_of keyf (procs s) (first_min k (runnable s))) = Some i \<Longrightarrow> i < NPROC"
  by (auto simp: best_of_def runnable_slots dest: first_min_Some(1) split: option.splits)

lemma sjf_safe:
  assumes "sched_inv c s" and "returns run" and "harmless c intf"
  shows "\<exists>f s'. schedule_sjf run intf c s = Ok (f, s') \<and> sched_inv c s'"
proof -
  let ?b = "best_of sjf_key (procs s) (first_min (\<lambda>i. rank sjf_key (procs s i)) (runnable s))"
  have inv: "sched_inv c (settle c s)" using assms(1) by simp
  show ?thesis
  proof (cases "b_slot ?b")
    case (Some i)
    let ?T = "\<lambda>s1. release_p c i (set_cpu c (cpu_proc_update (\<lambda>_. None)) (account i (run c i (start_sjf c i s1))))"
    have "\<exists>s'. ?T s1 = Ok s' \<and> sched_inv c s'" if "claimed c i s1" for s1
      using sjf.turn [OF that best_of_slot [OF Some] assms(2)] by blast
    note best_safe [where T = ?T, OF inv assms(2,3) best_of_slot [OF Some] this]
    with rr_safe [OF inv assms(2)] show ?thesis
      unfolding schedule_sjf_def Let_def by (simp add: sk.best_scan [OF assms(1)] Some)
  qed (simp add: schedule_sjf_def sk.best_scan [OF assms(1)] inv assms(1))
qed

lemma stcf_safe:
  assumes "sched_inv c s" and "returns run" and "harmless c intf"
  shows "\<exists>f s'. schedule_stcf run intf c s = Ok (f, s') \<and> sched_inv c s'"
proof -
  let ?b = "best_of stcf_key (procs s) (first_min (\<lambda>i. rank stcf_key (procs s i)) (runnable s))"
  have inv: "sched_inv c (settle c s)" using assms(1) by simp
  show ?thesis
  proof (cases "b_slot ?b")
    case (Some i)
    let ?T = "\<lambda>s1. release_p c i (set_cpu c (cpu_proc_update (\<lambda>_. None)) (account_stcf i (account i (run c i (start_sjf c i s1)))))"
    have "\<exists>s'. ?T s1 = Ok s' \<and> sched_inv c s'" if "claimed c i s1" for s1
      using stcf.turn [OF that best_of_slot [OF Some] assms(2)] by blast
    note best_safe [where T = ?T, OF inv assms(2,3) best_of_slot [OF Some] this]
    with rr_safe [OF inv assms(2)] show ?thesis
      unfolding schedule_stcf_def Let_def by (simp add: tk.best_scan [OF assms(1)] Some)
  qed (simp add: schedule_stcf_def tk.best_scan [OF assms(1)] inv assms(1))
qed

lemma mlfq_loop_safe:
  assumes "mlfq_loop run c f s = Some r" and "returns run" and "writes_levels run"
    and "sched_inv c s" and "\<not> intr_get c s" and "levels_ok s"
  shows "\<exists>f' s'. r = Ok (f', s') \<and> sched_inv c s'"
proof -
  let ?P = "\<lambda>run c f s r. returns run \<longrightarrow> writes_levels run \<longrightarrow> sched_inv c s \<longrightarrow> \<not> intr_get c s \<longrightarrow>
    levels_ok s \<longrightarrow> (\<exists>f' s'. r = Ok (f', s') \<and> sched_inv c s')"
  have "?P run c f s r"
  proof (rule mlfq_loop.raw_induct [where P = ?P, OF _ assms(1)], intro impI)
    fix loop run c f s r
    assume ih: "\<And>run c f s r. loop run c f s = Some r \<Longrightarrow> ?P run c f s r"
      and step: "(case mlfq_pass run c s of
          Ok (Again s') \<Rightarrow> loop run c 1 s' | Ok (Done s') \<Rightarrow> Some (Ok (f, s'))
        | Panic m \<Rightarrow> Some (Panic m) | Hang \<Rightarrow> Some Hang) = Some r"
      and run: "returns run" "writes_levels run" and inv: "sched_inv c s" "\<not> intr_get c s" "levels_ok s"
    show "\<exists>f' s'. r = Ok (f', s') \<and> sched_inv c s'"
    proof (cases "runnable s = []")
      case True
      have "mlfq_pass run c s = Ok (Done (aged c s))" using pass_done [OF inv(1,2) True] .
      then have "r = Ok (f, aged c s)" using step by simp
      then show ?thesis using aged_idle [OF inv(1,2)] by (simp add: mlfq_idle_def)
    next
      case False
      let ?k = "\<lambda>i. (p_queue_level (procs (aged c s) i), p_ltime (procs s i))"
      obtain i where i: "first_min ?k (runnable s) = Some i"
        using False by (cases "first_min ?k (runnable s)") simp_all
      from pass_picks [OF inv run(1) i] obtain s1 where s1: "mlfq_pass run c s = Ok (Again s1)" "mlfq_idle c s1"
        by blast
      have "loop run c 1 s1 = Some r" using step s1(1) by simp
      then have "?P run c 1 s1 r" by (rule ih)
      then show ?thesis using run s1(2) pass_levels [OF inv run s1(1)] by (simp add: mlfq_idle_def)
    qed
  qed
  then show ?thesis using assms(2-6) by blast
qed

text \<open>
  C1: the scheduler loop is safe under every policy. If turns come back the way \<^verbatim>\<open>sched\<close> switches away,
  and turns and interrupts write the level fields only as the kernel does, one iteration never panics and
  never deadlocks on a process lock; when it ends, the hart holds no lock and has no current process,
  so the next iteration can start. It ends under every policy but MLFQ, whose search goes on for
  as long as it finds a process to run.
\<close>

theorem scheduler_iter_safe:
  assumes "sched_inv c s" and "returns run" and "writes_levels run" and "harmless c intf" and "harmless c irq"
    and "level_writes irq" and "levels_ok s"
  shows "(SCHED_POLICY \<noteq> MLFQ \<longrightarrow> scheduler_iter SCHED_POLICY run intf irq c s \<noteq> None) \<and>
    (\<forall>r. scheduler_iter SCHED_POLICY run intf irq c s = Some r \<longrightarrow> (\<exists>w s'. r = Ok (w, s') \<and> sched_inv c s'))"
proof -
  let ?s = "intr_off c (irq (intr_on c s))"
  have inv: "sched_inv c ?s" using assms(1,5) by (simp add: harmless_def)
  have off: "\<not> intr_get c ?s" by simp
  have "levels_ok (intr_on c s)" using assms(7) by (simp add: levels_ok_def)
  from level_writes_levels [OF assms(6) this] have lv: "levels_ok ?s" by (simp add: levels_ok_def)
  note iter = scheduler_iter_def schedule_mlfq_def Let_def
  show ?thesis
  proof (cases SCHED_POLICY)
    case RR
    then show ?thesis using rr_safe [OF inv assms(2)] by (auto simp: iter)
  next
    case FIFO
    then show ?thesis using fifo_safe [OF inv assms(2,4)] by (auto simp: iter)
  next
    case SJF
    then show ?thesis using sjf_safe [OF inv assms(2,4)] by (auto simp: iter)
  next
    case STCF
    then show ?thesis using stcf_safe [OF inv assms(2,4)] by (auto simp: iter)
  next
    case MLFQ
    then show ?thesis using mlfq_loop_safe [OF _ assms(2,3) inv off lv] by (fastforce simp: iter)
  qed
qed

section \<open>Sample runs\<close>

text \<open>
  Two ready processes and their parent, asleep. A process that runs logs its turn and exits, which wakes the
  parent; the parent reaps the processes that have exited before it exits itself.
\<close>

definition exit_run :: "tkern turn" where
  "exit_run c i s = s\<lparr>procs := (\<lambda>j. let p = procs s j in
       if j = i then p\<lparr>p_state := ZOMBIE\<rparr>
       else if j = 7 \<and> p_state p = SLEEPING then p\<lparr>p_state := RUNNABLE\<rparr>
       else if i = 7 \<and> p_state p = ZOMBIE then p\<lparr>p_state := UNUSED, p_queue_level := 0, p_priority := 0\<rparr>
       else p), trace := trace s @ [i]\<rparr>"

definition two_ready :: tkern where
  "two_ready =
     upd_proc 4 (\<lambda>p. p\<lparr>p_state := RUNNABLE, p_pid := 5, p_ctime := 10, p_expected_runtime := 9, p_time_left := 2, p_queue_level := 1, p_priority := 1\<rparr>)
      (upd_proc 1 (\<lambda>p. p\<lparr>p_state := RUNNABLE, p_pid := 6, p_ctime := 20, p_expected_runtime := 7, p_time_left := 7\<rparr>)
       (upd_proc 7 (\<lambda>p. p\<lparr>p_state := SLEEPING, p_pid := 2\<rparr>)
        (intr_off 0 (kern.extend kern0 (tkern.fields [])))))"

text \<open>The work left is the number of processes that have not exited.\<close>

definition alive :: "tkern \<Rightarrow> (nat \<Rightarrow> procstate) \<Rightarrow> nat" where
  "alive _ st = card {j. j < NPROC \<and> st j \<noteq> ZOMBIE \<and> st j \<noteq> UNUSED}"

lemma exit_run_procs: "p_state (procs (exit_run c i s) j) = (if j = i then ZOMBIE
    else if j = 7 \<and> p_state (procs s j) = SLEEPING then RUNNABLE
    else if i = 7 \<and> p_state (procs s j) = ZOMBIE then UNUSED else p_state (procs s j))"
  "p_lock (procs (exit_run c i s) j) = p_lock (procs s j)" "cpus (exit_run c i s) = cpus s" "sstatus (exit_run c i s) = sstatus s"
  "trace (exit_run c i s) = trace s @ [i]"
  by (auto simp: exit_run_def Let_def)

lemma exit_run_ok: "returns exit_run" "logs exit_run" "keeps_ready exit_run" "writes_levels exit_run" "finite_work exit_run alive"
proof -
  show "returns exit_run" "logs exit_run" "keeps_ready exit_run"
    by (auto simp: returns_def logs_def keeps_ready_def exit_run_procs running_def claimed_def handoff_def intr_get_def)
  have "level_write (procs s j) (procs (exit_run c i s) j)" for c i s j
    by (cases "j \<noteq> i \<and> \<not> (j = 7 \<and> p_state (procs s j) = SLEEPING) \<and> i = 7 \<and> p_state (procs s j) = ZOMBIE")
      (auto simp: exit_run_def Let_def intro: level_write.intros)
  then show "writes_levels exit_run" by (simp add: writes_levels_def level_writes_def r_into_rtranclp)
  show "finite_work exit_run alive" unfolding finite_work_def
  proof (intro allI impI, elim conjE)
    fix c i and s :: tkern assume i: "i < NPROC" "running c i s"
    let ?A = "\<lambda>s. {j. j < NPROC \<and> ready_states s j \<noteq> ZOMBIE \<and> ready_states s j \<noteq> UNUSED}"
    have "i \<in> ?A s" "i \<notin> ?A (exit_run c i s)" using i by (simp_all add: ready_states_def running_def exit_run_procs)
    moreover have "?A (exit_run c i s) \<subseteq> ?A s" by (auto simp: ready_states_def exit_run_procs split: if_splits)
    ultimately have "?A (exit_run c i s) \<subset> ?A s" by blast
    then have "card (?A (exit_run c i s)) < card (?A s)" by (intro psubset_card_mono) simp_all
    then show "alive (erase (exit_run c i s)) (ready_states (exit_run c i s)) < alive (erase s) (ready_states s)" by (simp add: alive_def)
  qed
qed

lemma ext_kern0 [simp]:
  "procs (kern.extend kern0 (tkern.fields [])) = (\<lambda>_. zero_proc)"
  "cpus (kern.extend kern0 (tkern.fields [])) = cpus boot_hw"
  "trace (kern.extend kern0 (tkern.fields [])) = []"
  by (simp_all add: kern.defs tkern.defs kern0_def boot_km_def km.defs hw.defs boot_hw_def)

lemma trace_ops [simp]: "trace (upd_proc i f s) = trace s" "trace (intr_off c s) = trace s"
  by (simp_all add: upd_proc_def intr_off_def)

lemma two_ready_ok:
  "sched_inv 0 two_ready" "\<not> intr_get 0 two_ready" "levels_ok two_ready" "runnable two_ready = [1, 4]"
  "trace two_ready = []"
  by (simp_all add: two_ready_def sched_inv_def boot_hw_def levels_ok_def runnable_def zero_proc_def
      lock_clean_def initlock_def)
    (simp add: NPROC_def upt_rec)

lemma harmless_id: "harmless c (\<lambda>s. s)"
  by (simp add: harmless_def)

theorem rr_serves_each_once_witness:
  "\<exists>ts s'. schedule_rr exit_run 0 two_ready = Ok (1, s') \<and> trace s' = ts \<and> sorted_wrt (<) ts \<and> {1, 4} \<subseteq> set ts"
proof -
  obtain ts s' where r: "schedule_rr exit_run 0 two_ready = Ok (if ts = [] then 0 else 1, s')" "trace s' = ts" "sorted_wrt (<) ts" "{1, 4} \<subseteq> set ts"
    using rr_serves_each_once [OF two_ready_ok(1) exit_run_ok(1,2)] two_ready_ok(4,5) exit_run_ok(3) by auto
  then have "ts \<noteq> []" by auto
  then show ?thesis using r by auto
qed

theorem fifo_runs_oldest_witness:
  "\<exists>s'. schedule_fifo exit_run (\<lambda>s. s) 0 two_ready = Ok (1, s') \<and> one_turn exit_run 0 4 two_ready s'"
proof -
  have "first_min (\<lambda>i. p_ctime (procs two_ready i)) [1, 4] = Some 4"
    by (simp add: first_min_def two_ready_def)
  moreover have "p_state (procs two_ready 4) = RUNNABLE" by (simp add: two_ready_def)
  ultimately show ?thesis
    using fifo_runs_oldest [OF two_ready_ok(1) exit_run_ok(1) harmless_id] two_ready_ok(4) by simp
qed

theorem sjf_runs_shortest_witness:
  "\<exists>s'. schedule_sjf exit_run (\<lambda>s. s) 0 two_ready = Ok (1, s') \<and>
     one_turn exit_run 0 1 (settle 0 two_ready) s'"
proof -
  have "first_min (\<lambda>i. rank sjf_key (procs two_ready i)) [1, 4] = Some 1"
    by (simp add: first_min_def two_ready_def rank_def sjf_key_def)
  moreover have "p_state (procs two_ready 1) = RUNNABLE" "sjf_key (procs two_ready 1) \<noteq> - 1"
    by (simp_all add: two_ready_def sjf_key_def)
  ultimately show ?thesis
    using sjf_runs_shortest [OF two_ready_ok(1) exit_run_ok(1) harmless_id] two_ready_ok(4) by simp
qed

theorem stcf_runs_least_remaining_witness:
  "\<exists>s'. schedule_stcf exit_run (\<lambda>s. s) 0 two_ready = Ok (1, s') \<and>
     one_turn exit_run 0 4 (settle 0 two_ready) s'"
proof -
  have "first_min (\<lambda>i. rank stcf_key (procs two_ready i)) [1, 4] = Some 4"
    by (simp add: first_min_def two_ready_def rank_def stcf_key_def)
  moreover have "p_state (procs two_ready 4) = RUNNABLE" "stcf_key (procs two_ready 4) \<noteq> - 1"
    by (simp_all add: two_ready_def stcf_key_def)
  ultimately show ?thesis
    using stcf_runs_least_remaining [OF two_ready_ok(1) exit_run_ok(1) harmless_id] two_ready_ok(4) by simp
qed

theorem mlfq_pass_picks_witness:
  "\<exists>s' i. mlfq_pass exit_run 0 two_ready = Ok (Again s') \<and> i \<in> {1, 4} \<and>
     one_turn exit_run 0 i (aged 0 two_ready) s' \<and> \<not> intr_get 0 s'"
proof -
  let ?k = "\<lambda>i. (p_queue_level (procs (aged 0 two_ready) i), p_ltime (procs two_ready i))"
  obtain i where i: "first_min ?k (runnable two_ready) = Some i"
    using two_ready_ok(4) by (cases "first_min ?k (runnable two_ready)") auto
  have "i \<in> {1, 4}" using first_min_Some(1) [OF i] two_ready_ok(4) by simp
  then show ?thesis using mlfq_pass_picks [OF two_ready_ok(1-3) exit_run_ok(1)] i by auto
qed

theorem mlfq_levels_in_range_witness:
  "case mlfq_pass exit_run 0 two_ready of Ok (Again s') \<Rightarrow> levels_ok s' | Ok (Done s') \<Rightarrow> levels_ok s' | _ \<Rightarrow> False"
  by (rule mlfq_levels_in_range [OF two_ready_ok(1-3) exit_run_ok(1,4)])

theorem mlfq_serves_all_witness:
  "\<exists>is s'. schedule_mlfq exit_run 0 two_ready = Some (Ok (1, s')) \<and> runnable s' = [] \<and> trace s' = is \<and> {1, 4} \<subseteq> set is"
proof -
  obtain "is" s' where r: "schedule_mlfq exit_run 0 two_ready = Some (Ok (if is = [] then 0 else 1, s'))" "runnable s' = []" "trace s' = is" "{1, 4} \<subseteq> set is"
    using mlfq_serves_all [OF exit_run_ok(1,4,5,2) two_ready_ok(1-3)] two_ready_ok(4,5) exit_run_ok(3) by auto
  then have "is \<noteq> []" by auto
  then show ?thesis using r by auto
qed

theorem scheduler_iter_safe_witness:
  "\<exists>w s'. scheduler_iter STCF exit_run (\<lambda>s. s) (\<lambda>s. s) 0 two_ready = Some (Ok (w, s')) \<and> sched_inv 0 s'"
proof -
  have "level_writes (\<lambda>s :: tkern. s)" by (simp add: level_writes_def)
  from scheduler_iter_safe [OF two_ready_ok(1) exit_run_ok(1,4) harmless_id harmless_id this two_ready_ok(3), of STCF]
  show ?thesis by auto
qed

end
