(* ===== verification/Sleepwake.thy ===== *)
theory Sleepwake
  imports Proc
begin

text \<open>
  Sleeping and waking as an interleaving: \<^verbatim>\<open>sleep\<close> and \<^verbatim>\<open>wakeup\<close> of \<^verbatim>\<open>kernel/proc.c\<close>, run by any
  number of processes on any number of harts, statement by statement. A process waits for a condition
  under a lock the way the kernel does, \<^verbatim>\<open>while(!cond) sleep(chan, lk)\<close>; others make it true and call
  \<^verbatim>\<open>wakeup(chan)\<close>, holding the lock. The locks are exclusive, as shown for \<^verbatim>\<open>acquire\<close> and \<^verbatim>\<open>release\<close>.
\<close>

section \<open>State\<close>

text \<open>
  Where a process is. \<open>S_\<close>: in \<^verbatim>\<open>sleep\<close>, before the statement named; \<open>W_\<close>: in \<^verbatim>\<open>wakeup\<close>, at the
  slot given; the others are in the code that calls them.
\<close>

datatype swpc =
    Idle | Test | Set_cond | W_done
  | S_acquire | S_release | S_chan | S_state | S_sched | S_switched | S_tidy | S_unlock | S_relock
  | W_loop nat | W_check nat | W_release nat

record sw =
  sw_lk :: "nat option"
  sw_plk :: "nat \<Rightarrow> nat option"
  sw_state :: "nat \<Rightarrow> procstate"
  sw_chan :: "nat \<Rightarrow> chan"
  sw_cond :: bool
  sw_pc :: "nat \<Rightarrow> swpc"

definition goto :: "nat \<Rightarrow> swpc \<Rightarrow> sw \<Rightarrow> sw" where
  "goto p l s = s\<lparr>sw_pc := (sw_pc s)(p := l)\<rparr>"

definition set_plk :: "nat \<Rightarrow> nat option \<Rightarrow> sw \<Rightarrow> sw" where
  "set_plk p h s = s\<lparr>sw_plk := (sw_plk s)(p := h)\<rparr>"

definition set_state :: "nat \<Rightarrow> procstate \<Rightarrow> sw \<Rightarrow> sw" where
  "set_state p x s = s\<lparr>sw_state := (sw_state s)(p := x)\<rparr>"

definition set_chan :: "nat \<Rightarrow> chan \<Rightarrow> sw \<Rightarrow> sw" where
  "set_chan p x s = s\<lparr>sw_chan := (sw_chan s)(p := x)\<rparr>"

section \<open>Steps\<close>

text \<open>
  \<^verbatim>\<open>sleep\<close>. The switch in \<^verbatim>\<open>sched\<close> ends with the scheduler releasing the lock of the process; when
  the process is \<^verbatim>\<open>RUNNABLE\<close> again a scheduler takes that lock and switches back.
\<close>

inductive sleep_step :: "chan \<Rightarrow> nat \<Rightarrow> sw \<Rightarrow> sw \<Rightarrow> bool" for ch p where
  sl_acquire: "sw_pc s p = S_acquire \<Longrightarrow> sw_plk s p = None \<Longrightarrow> sleep_step ch p s (goto p S_release (set_plk p (Some p) s))"
| sl_release: "sw_pc s p = S_release \<Longrightarrow> sleep_step ch p s (goto p S_chan (s\<lparr>sw_lk := None\<rparr>))"
| sl_chan: "sw_pc s p = S_chan \<Longrightarrow> sleep_step ch p s (goto p S_state (set_chan p ch s))"
| sl_state: "sw_pc s p = S_state \<Longrightarrow> sleep_step ch p s (goto p S_sched (set_state p SLEEPING s))"
| sl_sched: "sw_pc s p = S_sched \<Longrightarrow> sleep_step ch p s (goto p S_switched (set_plk p None s))"
| sl_resume: "sw_pc s p = S_switched \<Longrightarrow> sw_plk s p = None \<Longrightarrow> sw_state s p = RUNNABLE \<Longrightarrow>
    sleep_step ch p s (goto p S_tidy (set_state p RUNNING (set_plk p (Some p) s)))"
| sl_tidy: "sw_pc s p = S_tidy \<Longrightarrow> sleep_step ch p s (goto p S_unlock (set_chan p NullChan s))"
| sl_unlock: "sw_pc s p = S_unlock \<Longrightarrow> sleep_step ch p s (goto p S_relock (set_plk p None s))"
| sl_relock: "sw_pc s p = S_relock \<Longrightarrow> sw_lk s = None \<Longrightarrow> sleep_step ch p s (goto p Test (s\<lparr>sw_lk := Some p\<rparr>))"

text \<open>\<^verbatim>\<open>wakeup\<close>, called by \<open>w\<close>: every slot but its own is locked, looked at and unlocked.\<close>

inductive wakeup_step :: "chan \<Rightarrow> nat \<Rightarrow> sw \<Rightarrow> sw \<Rightarrow> bool" for ch w where
  wk_self: "sw_pc s w = W_loop w \<Longrightarrow> wakeup_step ch w s (goto w (W_loop (Suc w)) s)"
| wk_acquire: "sw_pc s w = W_loop q \<Longrightarrow> q < NPROC \<Longrightarrow> q \<noteq> w \<Longrightarrow> sw_plk s q = None \<Longrightarrow>
    wakeup_step ch w s (goto w (W_check q) (set_plk q (Some w) s))"
| wk_wake: "sw_pc s w = W_check q \<Longrightarrow> sw_state s q = SLEEPING \<Longrightarrow> sw_chan s q = ch \<Longrightarrow>
    wakeup_step ch w s (goto w (W_release q) (set_state q RUNNABLE s))"
| wk_leave: "sw_pc s w = W_check q \<Longrightarrow> \<not> (sw_state s q = SLEEPING \<and> sw_chan s q = ch) \<Longrightarrow>
    wakeup_step ch w s (goto w (W_release q) s)"
| wk_release: "sw_pc s w = W_release q \<Longrightarrow> wakeup_step ch w s (goto w (W_loop (Suc q)) (set_plk q None s))"
| wk_end: "sw_pc s w = W_loop NPROC \<Longrightarrow> wakeup_step ch w s (goto w W_done s)"

text \<open>
  The callers, as in \<^verbatim>\<open>acquiresleep\<close> and \<^verbatim>\<open>releasesleep\<close> with the condition \<^verbatim>\<open>lk->locked == 0\<close>: one
  waits for the condition and uses it up, one makes it true and calls \<^verbatim>\<open>wakeup\<close>. \<^verbatim>\<open>kkill\<close> may wake
  a sleeper at any time, under its lock.
\<close>

inductive client_step :: "nat \<Rightarrow> sw \<Rightarrow> sw \<Rightarrow> bool" for p where
  cl_wait: "sw_pc s p = Idle \<Longrightarrow> p < NPROC \<Longrightarrow> sw_lk s = None \<Longrightarrow> client_step p s (goto p Test (s\<lparr>sw_lk := Some p\<rparr>))"
| cl_use: "sw_pc s p = Test \<Longrightarrow> sw_cond s \<Longrightarrow> client_step p s (goto p Idle (s\<lparr>sw_lk := None, sw_cond := False\<rparr>))"
| cl_sleep: "sw_pc s p = Test \<Longrightarrow> \<not> sw_cond s \<Longrightarrow> client_step p s (goto p S_acquire s)"
| cl_make: "sw_pc s p = Idle \<Longrightarrow> p < NPROC \<Longrightarrow> sw_lk s = None \<Longrightarrow> client_step p s (goto p Set_cond (s\<lparr>sw_lk := Some p\<rparr>))"
| cl_set: "sw_pc s p = Set_cond \<Longrightarrow> client_step p s (goto p (W_loop 0) (s\<lparr>sw_cond := True\<rparr>))"
| cl_done: "sw_pc s p = W_done \<Longrightarrow> client_step p s (goto p Idle (s\<lparr>sw_lk := None\<rparr>))"
| cl_kill: "sw_plk s p = None \<Longrightarrow> sw_state s p = SLEEPING \<Longrightarrow> client_step p s (set_state p RUNNABLE s)"

definition sw_step :: "chan \<Rightarrow> sw \<Rightarrow> sw \<Rightarrow> bool" where
  "sw_step ch s s' \<longleftrightarrow> (\<exists>p. sleep_step ch p s s' \<or> wakeup_step ch p s s' \<or> client_step p s s')"

definition sw_init :: "sw \<Rightarrow> bool" where
  "sw_init s \<longleftrightarrow> sw_lk s = None \<and> (\<forall>p. sw_plk s p = None \<and> sw_state s p = RUNNING \<and> sw_chan s p = NullChan \<and> sw_pc s p = Idle)"

section \<open>The invariant\<close>

fun holds_lk :: "swpc \<Rightarrow> bool" where
  "holds_lk Test = True" | "holds_lk Set_cond = True" | "holds_lk W_done = True" | "holds_lk S_acquire = True" | "holds_lk S_release = True"
| "holds_lk (W_loop q) = True" | "holds_lk (W_check q) = True" | "holds_lk (W_release q) = True" | "holds_lk _ = False"

definition own_lock :: "swpc \<Rightarrow> bool" where
  "own_lock l \<longleftrightarrow> l \<in> {S_release, S_chan, S_state, S_sched, S_tidy, S_unlock}"

text \<open>The process is about to be asleep on the channel, or is.\<close>

definition sleepy :: "chan \<Rightarrow> nat \<Rightarrow> sw \<Rightarrow> bool" where
  "sleepy ch p s \<longleftrightarrow> sw_pc s p \<in> {S_chan, S_state, S_sched} \<or> sw_state s p = SLEEPING \<and> sw_chan s p = ch"

text \<open>A wakeup of \<open>w\<close> has still to look at \<open>p\<close>.\<close>

definition ahead :: "nat \<Rightarrow> swpc \<Rightarrow> bool" where
  "ahead p l \<longleftrightarrow> (\<exists>q \<le> p. l = W_loop q \<or> l = W_check q \<or> l = W_release q \<and> q \<noteq> p)"

text \<open>The slot whose lock \<open>p\<close> holds at \<open>l\<close>.\<close>

fun slot_of :: "nat \<Rightarrow> swpc \<Rightarrow> nat option" where
  "slot_of p (W_check q) = Some q"
| "slot_of p (W_release q) = Some q"
| "slot_of p l = (if l \<in> {S_release, S_chan, S_state, S_sched, S_tidy, S_unlock} then Some p else None)"

definition lk_ok :: "sw \<Rightarrow> bool" where
  "lk_ok s \<longleftrightarrow> (\<forall>p. sw_lk s = Some p \<longleftrightarrow> holds_lk (sw_pc s p))"

definition plk_ok :: "sw \<Rightarrow> bool" where
  "plk_ok s \<longleftrightarrow> (\<forall>p q. sw_plk s q = Some p \<longleftrightarrow> slot_of p (sw_pc s p) = Some q)"

definition pcs_ok :: "sw \<Rightarrow> bool" where
  "pcs_ok s \<longleftrightarrow> (\<forall>p. sw_pc s p \<noteq> Idle \<longrightarrow> p < NPROC) \<and> (\<forall>p. sw_state s p = SLEEPING \<longrightarrow> sw_pc s p \<in> {S_sched, S_switched})"

definition cond_ok :: "sw \<Rightarrow> bool" where
  "cond_ok s \<longleftrightarrow> (\<forall>p. sw_pc s p \<in> {S_acquire, S_release} \<longrightarrow> \<not> sw_cond s)"

definition woken_ok :: "chan \<Rightarrow> sw \<Rightarrow> bool" where
  "woken_ok ch s \<longleftrightarrow> (\<forall>p. sw_cond s \<and> sleepy ch p s \<longrightarrow> (\<exists>w. ahead p (sw_pc s w)))"

definition sw_ok :: "chan \<Rightarrow> sw \<Rightarrow> bool" where
  "sw_ok ch s \<longleftrightarrow> lk_ok s \<and> plk_ok s \<and> pcs_ok s \<and> cond_ok s \<and> woken_ok ch s"

lemmas sw_upd [simp] = goto_def set_plk_def set_state_def set_chan_def

lemma sw_ok_init: "sw_init s \<Longrightarrow> sw_ok ch s"
  by (simp add: sw_ok_def sw_init_def lk_ok_def plk_ok_def pcs_ok_def cond_ok_def woken_ok_def sleepy_def)

lemma lk_ok_unique: "lk_ok s \<Longrightarrow> holds_lk (sw_pc s p) \<Longrightarrow> holds_lk (sw_pc s q) \<Longrightarrow> p = q"
  unfolding lk_ok_def by (metis option.inject)

lemma lk_ok_free: "lk_ok s \<Longrightarrow> sw_lk s = None \<Longrightarrow> \<not> holds_lk (sw_pc s p)"
  unfolding lk_ok_def by (metis option.distinct(1))

subsection \<open>Locks\<close>

text \<open>A step of \<open>p\<close> keeps the condition lock as it is, takes it when it is free, or drops it.\<close>

lemma lk_ok_step:
  assumes ok: "lk_ok s" and others: "\<forall>q. q \<noteq> p \<longrightarrow> sw_pc s' q = sw_pc s q"
    and take: "holds_lk (sw_pc s' p) \<longrightarrow> sw_lk s = None \<or> holds_lk (sw_pc s p)"
    and lk: "sw_lk s' = (if holds_lk (sw_pc s' p) = holds_lk (sw_pc s p) then sw_lk s
                else if holds_lk (sw_pc s' p) then Some p else None)"
  shows "lk_ok s'"
  unfolding lk_ok_def
proof
  fix q
  show "sw_lk s' = Some q \<longleftrightarrow> holds_lk (sw_pc s' q)"
  proof (cases "q = p")
    case True
    then show ?thesis using ok lk unfolding lk_ok_def by auto
  next
    case False
    then show ?thesis using ok lk take others unfolding lk_ok_def
      by (smt (verit) option.distinct(1) option.inject)
  qed
qed

lemma sleep_lk_ok: "sleep_step ch p s s' \<Longrightarrow> lk_ok s \<Longrightarrow> lk_ok s'"
  by (induction rule: sleep_step.induct; erule lk_ok_step [where p = p]; simp)

lemma wakeup_lk_ok: "wakeup_step ch p s s' \<Longrightarrow> lk_ok s \<Longrightarrow> lk_ok s'"
  by (induction rule: wakeup_step.induct; erule lk_ok_step [where p = p]; simp)

lemma client_lk_ok: "client_step p s s' \<Longrightarrow> lk_ok s \<Longrightarrow> lk_ok s'"
proof (induction rule: client_step.induct)
  case (cl_kill s)
  then show ?case by (simp add: lk_ok_def)
qed (erule lk_ok_step [where p = p]; simp)+

text \<open>The same for the locks of the slots.\<close>

lemma plk_ok_step:
  assumes ok: "plk_ok s" and others: "\<forall>q. q \<noteq> p \<longrightarrow> sw_pc s' q = sw_pc s q"
    and take: "\<forall>q. slot_of p (sw_pc s' p) = Some q \<longrightarrow> slot_of p (sw_pc s p) = Some q \<or> sw_plk s q = None"
    and plk: "\<forall>q. sw_plk s' q = (if (slot_of p (sw_pc s' p) = Some q) = (slot_of p (sw_pc s p) = Some q) then sw_plk s q
                    else if slot_of p (sw_pc s' p) = Some q then Some p else None)"
  shows "plk_ok s'"
  unfolding plk_ok_def
proof (intro allI)
  fix r q
  show "sw_plk s' q = Some r \<longleftrightarrow> slot_of r (sw_pc s' r) = Some q"
  proof (cases "r = p")
    case True
    then show ?thesis using ok plk unfolding plk_ok_def by auto
  next
    case False
    then show ?thesis using ok plk take others unfolding plk_ok_def
      by (smt (verit) option.distinct(1) option.inject)
  qed
qed

lemma sleep_plk_ok: "sleep_step ch p s s' \<Longrightarrow> plk_ok s \<Longrightarrow> plk_ok s'"
  by (induction rule: sleep_step.induct; erule plk_ok_step [where p = p]; simp)

lemma wakeup_plk_ok: "wakeup_step ch p s s' \<Longrightarrow> plk_ok s \<Longrightarrow> plk_ok s'"
  by (induction rule: wakeup_step.induct; erule plk_ok_step [where p = p]; simp)

lemma client_plk_ok: "client_step p s s' \<Longrightarrow> plk_ok s \<Longrightarrow> plk_ok s'"
proof (induction rule: client_step.induct)
  case (cl_kill s)
  then show ?case by (simp add: plk_ok_def)
qed (erule plk_ok_step [where p = p]; simp)+

subsection \<open>Program counters and the condition\<close>

lemma sleep_pcs_ok: "sleep_step ch p s s' \<Longrightarrow> pcs_ok s \<Longrightarrow> pcs_ok s'"
  by (induction rule: sleep_step.induct) (auto simp: pcs_ok_def)

lemma wakeup_pcs_ok: "wakeup_step ch p s s' \<Longrightarrow> pcs_ok s \<Longrightarrow> pcs_ok s'"
  by (induction rule: wakeup_step.induct) (auto simp: pcs_ok_def)

lemma client_pcs_ok: "client_step p s s' \<Longrightarrow> pcs_ok s \<Longrightarrow> pcs_ok s'"
  by (induction rule: client_step.induct) (auto simp: pcs_ok_def)

lemma sleep_cond_ok: "sleep_step ch p s s' \<Longrightarrow> cond_ok s \<Longrightarrow> cond_ok s'"
  by (induction rule: sleep_step.induct) (auto simp: cond_ok_def)

lemma wakeup_cond_ok: "wakeup_step ch p s s' \<Longrightarrow> cond_ok s \<Longrightarrow> cond_ok s'"
  by (induction rule: wakeup_step.induct) (auto simp: cond_ok_def)

text \<open>Whoever makes the condition true holds the lock, so nobody is between the test and the release of the lock.\<close>

lemma client_cond_ok: "client_step p s s' \<Longrightarrow> lk_ok s \<Longrightarrow> cond_ok s \<Longrightarrow> cond_ok s'"
proof (induction rule: client_step.induct)
  case (cl_set s)
  have "sw_pc s q \<notin> {S_acquire, S_release}" for q
    using lk_ok_unique [OF cl_set(2), of p q] cl_set(1) by auto
  then show ?case by (simp add: cond_ok_def)
qed (auto simp: cond_ok_def)

subsection \<open>No sleeper is overlooked\<close>

lemma ahead_simps [simp]:
  "ahead p (W_loop q) \<longleftrightarrow> q \<le> p" "ahead p (W_check q) \<longleftrightarrow> q \<le> p" "ahead p (W_release q) \<longleftrightarrow> q < p"
  "\<not> ahead p Idle" "\<not> ahead p Test" "\<not> ahead p Set_cond" "\<not> ahead p W_done" "\<not> ahead p S_acquire" "\<not> ahead p S_release" "\<not> ahead p S_chan"
  "\<not> ahead p S_state" "\<not> ahead p S_sched" "\<not> ahead p S_switched" "\<not> ahead p S_tidy" "\<not> ahead p S_unlock" "\<not> ahead p S_relock"
  by (auto simp: ahead_def)

lemma woken_ok_step:
  assumes ok: "sw_ok ch s" and others: "\<forall>q. q \<noteq> p \<longrightarrow> sw_pc s' q = sw_pc s q"
    and sleepy: "\<forall>q. sw_cond s' \<and> sleepy ch q s' \<longrightarrow>
      sw_cond s \<and> sleepy ch q s \<and> (ahead q (sw_pc s p) \<longrightarrow> ahead q (sw_pc s' p))"
  shows "woken_ok ch s'"
  unfolding woken_ok_def
proof (intro allI impI)
  fix q assume "sw_cond s' \<and> sleepy ch q s'"
  with sleepy have old: "sw_cond s \<and> sleepy ch q s" and keep: "ahead q (sw_pc s p) \<longrightarrow> ahead q (sw_pc s' p)" by blast+
  from ok old obtain w where "ahead q (sw_pc s w)" unfolding sw_ok_def woken_ok_def by blast
  then show "\<exists>w. ahead q (sw_pc s' w)" using keep others by (intro exI [of _ w]) (cases "w = p"; simp)
qed

lemma pcs_ok_awake: "pcs_ok s \<Longrightarrow> sw_pc s p \<notin> {S_sched, S_switched} \<Longrightarrow> sw_state s p \<noteq> SLEEPING"
  by (auto simp: pcs_ok_def)

lemma sleep_woken_ok: "sleep_step ch p s s' \<Longrightarrow> sw_ok ch s \<Longrightarrow> woken_ok ch s'"
proof (induction rule: sleep_step.induct)
  case (sl_release s)
  then have "\<not> sw_cond s" by (auto simp: sw_ok_def cond_ok_def)
  then show ?case by (simp add: woken_ok_def)
qed (rule woken_ok_step [where p = p], assumption, simp, simp add: sleepy_def sw_ok_def pcs_ok_awake)+

text \<open>While \<open>w\<close> holds the lock of \<open>q\<close>, \<open>q\<close> is not on its way to sleep.\<close>

lemma checked_slot:
  assumes "plk_ok s" "sw_pc s w = W_check q"
  shows "sw_pc s q \<notin> {S_chan, S_state, S_sched}"
proof
  assume pc: "sw_pc s q \<in> {S_chan, S_state, S_sched}"
  then have "sw_plk s q = Some q" using assms(1) by (auto simp: plk_ok_def)
  moreover have "sw_plk s q = Some w" using assms by (auto simp: plk_ok_def)
  ultimately show False using pc assms(2) by auto
qed

lemma sleepy_slot:
  assumes "sw_ok ch s" "sleepy ch q s"
  shows "sw_pc s q \<in> {S_chan, S_state, S_sched, S_switched}" "q < NPROC"
proof -
  show pc: "sw_pc s q \<in> {S_chan, S_state, S_sched, S_switched}"
    using assms pcs_ok_awake [of s q] by (auto simp: sw_ok_def sleepy_def)
  have "sw_pc s q \<noteq> Idle" using pc by auto
  then show "q < NPROC" using assms(1) by (simp add: sw_ok_def pcs_ok_def)
qed

lemma unchecked_slot:
  assumes "sw_ok ch s" "sw_pc s w = W_check q" "\<not> (sw_state s q = SLEEPING \<and> sw_chan s q = ch)" "sleepy ch r s" "q \<le> r"
  shows "q < r"
proof -
  have "plk_ok s" using assms(1) by (simp add: sw_ok_def)
  then have "\<not> sleepy ch q s" using checked_slot [OF _ assms(2)] assms(3) unfolding sleepy_def by blast
  then show ?thesis using assms(4,5) by (cases "q = r") auto
qed

lemma wakeup_woken_ok: "wakeup_step ch w s s' \<Longrightarrow> sw_ok ch s \<Longrightarrow> woken_ok ch s'"
proof (induction rule: wakeup_step.induct)
  case (wk_self s)
  have "q \<noteq> w" if "sleepy ch q s" for q using sleepy_slot(1) [OF wk_self(2) that] wk_self(1) by auto
  then have "sleepy ch q s \<Longrightarrow> w \<le> q \<Longrightarrow> Suc w \<le> q" for q by fastforce
  then show ?case by (intro woken_ok_step [OF wk_self(2), of w]) (auto simp: wk_self(1) sleepy_def)
next
  case (wk_wake s q)
  have "plk_ok s" using wk_wake(4) by (simp add: sw_ok_def)
  note q = checked_slot [OF this wk_wake(1)]
  show ?case
  proof (rule woken_ok_step [OF wk_wake(4), of w])
    show "\<forall>r. sw_cond (goto w (W_release q) (set_state q RUNNABLE s)) \<and> sleepy ch r (goto w (W_release q) (set_state q RUNNABLE s)) \<longrightarrow>
      sw_cond s \<and> sleepy ch r s \<and> (ahead r (sw_pc s w) \<longrightarrow> ahead r (sw_pc (goto w (W_release q) (set_state q RUNNABLE s)) w))"
      using q by (simp add: wk_wake(1) sleepy_def le_less)
  qed simp
next
  case (wk_leave s q)
  then show ?case using unchecked_slot [OF wk_leave(3,1,2)] by (intro woken_ok_step [OF wk_leave(3), of w]) (auto simp: sleepy_def)
next
  case (wk_end s)
  have "q < NPROC" if "sleepy ch q s" for q by (rule sleepy_slot(2) [OF wk_end(2) that])
  then have "sleepy ch q s \<Longrightarrow> \<not> NPROC \<le> q" for q by fastforce
  then show ?case by (intro woken_ok_step [OF wk_end(2), of w]) (auto simp: wk_end(1) sleepy_def)
qed (rule woken_ok_step [where p = w], assumption, simp, simp add: sleepy_def)+

lemma client_woken_ok: "client_step p s s' \<Longrightarrow> sw_ok ch s \<Longrightarrow> woken_ok ch s'"
proof (induction rule: client_step.induct)
  case (cl_set s)
  have "ahead q (sw_pc (goto p (W_loop 0) (s\<lparr>sw_cond := True\<rparr>)) p)" for q by simp
  then show ?case unfolding woken_ok_def by blast
next
  case (cl_use s)
  then show ?case by (simp add: woken_ok_def)
next
  case (cl_kill s)
  then show ?case by (intro woken_ok_step [OF cl_kill(3), of p]) (simp_all add: sleepy_def, blast)
qed (rule woken_ok_step [where p = p], assumption, simp, simp add: sleepy_def)+

lemma sw_ok_step: "sw_step ch s s' \<Longrightarrow> sw_ok ch s \<Longrightarrow> sw_ok ch s'"
  unfolding sw_step_def
proof (elim exE disjE)
  fix p assume ok: "sw_ok ch s" and st: "sleep_step ch p s s'"
  show "sw_ok ch s'" using ok sleep_woken_ok [OF st ok] sleep_lk_ok [OF st] sleep_plk_ok [OF st] sleep_pcs_ok [OF st] sleep_cond_ok [OF st]
    by (simp add: sw_ok_def)
next
  fix p assume ok: "sw_ok ch s" and st: "wakeup_step ch p s s'"
  show "sw_ok ch s'" using ok wakeup_woken_ok [OF st ok] wakeup_lk_ok [OF st] wakeup_plk_ok [OF st] wakeup_pcs_ok [OF st] wakeup_cond_ok [OF st]
    by (simp add: sw_ok_def)
next
  fix p assume ok: "sw_ok ch s" and st: "client_step p s s'"
  show "sw_ok ch s'" using ok client_woken_ok [OF st ok] client_lk_ok [OF st] client_plk_ok [OF st] client_pcs_ok [OF st] client_cond_ok [OF st]
    by (simp add: sw_ok_def)
qed

lemma sw_ok_reachable: "(sw_step ch)\<^sup>*\<^sup>* s0 s \<Longrightarrow> sw_ok ch s0 \<Longrightarrow> sw_ok ch s"
  by (induction rule: rtranclp_induct) (auto intro: sw_ok_step)

section \<open>Wakeups are not lost\<close>

text \<open>
  C10: Wakeups are not lost, in any interleaving of the statements of \<^verbatim>\<open>sleep\<close> and \<^verbatim>\<open>wakeup\<close> by any
  processes. When the condition holds and a process is asleep on the channel, the holder of the
  condition lock is a process inside \<^verbatim>\<open>wakeup\<close> whose scan of the process table has still to look at
  the sleeper. So once the waker has released the lock no process sleeps on the channel while the
  condition holds. Assumed: the callers test and change the condition only under the lock, and every
  change that makes it true is followed by \<^verbatim>\<open>wakeup\<close> before the lock is released.
\<close>

theorem no_lost_wakeup:
  assumes "sw_init s0" "(sw_step ch)\<^sup>*\<^sup>* s0 s" "sw_cond s" "sw_state s p = SLEEPING" "sw_chan s p = ch"
  shows "\<exists>w. sw_lk s = Some w \<and> ahead p (sw_pc s w)"
proof -
  have ok: "sw_ok ch s" using sw_ok_reachable [OF assms(2) sw_ok_init [OF assms(1)]] .
  then obtain w where w: "ahead p (sw_pc s w)" using assms(3-5) unfolding sw_ok_def woken_ok_def sleepy_def by blast
  then have "holds_lk (sw_pc s w)" by (auto simp: ahead_def)
  then have "sw_lk s = Some w" using ok by (simp add: sw_ok_def lk_ok_def)
  then show ?thesis using w by blast
qed

text \<open>Process 0 goes to sleep; process 1 makes the condition true and has yet to look at slot 0.\<close>

definition sw0 :: sw where
  "sw0 = \<lparr>sw_lk = None, sw_plk = (\<lambda>_. None), sw_state = (\<lambda>_. RUNNING), sw_chan = (\<lambda>_. NullChan), sw_cond = False, sw_pc = (\<lambda>_. Idle)\<rparr>"

definition sw_asleep :: sw where
  "sw_asleep = goto 0 S_switched (set_plk 0 None (goto 0 S_sched (set_state 0 SLEEPING (goto 0 S_state (set_chan 0 TicksChan
     (goto 0 S_chan ((goto 0 S_release (set_plk 0 (Some 0) (goto 0 S_acquire (goto 0 Test (sw0\<lparr>sw_lk := Some 0\<rparr>)))))\<lparr>sw_lk := None\<rparr>)))))))"

definition sw_waking :: sw where
  "sw_waking = goto 1 (W_loop 0) ((goto 1 Set_cond (sw_asleep\<lparr>sw_lk := Some 1\<rparr>))\<lparr>sw_cond := True\<rparr>)"

lemma sw_cl: "client_step p s s' \<Longrightarrow> (sw_step ch)\<^sup>*\<^sup>* s' t \<Longrightarrow> (sw_step ch)\<^sup>*\<^sup>* s t"
  unfolding sw_step_def by (rule converse_rtranclp_into_rtranclp) blast

lemma sw_sl: "sleep_step ch p s s' \<Longrightarrow> (sw_step ch)\<^sup>*\<^sup>* s' t \<Longrightarrow> (sw_step ch)\<^sup>*\<^sup>* s t"
  unfolding sw_step_def by (rule converse_rtranclp_into_rtranclp) blast

lemma sw_waking_reachable: "(sw_step TicksChan)\<^sup>*\<^sup>* sw0 sw_waking"
  unfolding sw_waking_def sw_asleep_def
  by (rule sw_cl [OF cl_wait [of _ 0]], (simp_all add: sw0_def NPROC_def)[3], rule sw_cl [OF cl_sleep [of _ 0]], (simp_all add: sw0_def)[2],
      rule sw_sl [OF sl_acquire [of _ 0]], (simp_all add: sw0_def)[2], rule sw_sl [OF sl_release [of _ 0]], (simp_all add: sw0_def)[1],
      rule sw_sl [OF sl_chan [of _ 0]], (simp_all add: sw0_def)[1], rule sw_sl [OF sl_state [of _ 0]], (simp_all add: sw0_def)[1],
      rule sw_sl [OF sl_sched [of _ 0]], (simp_all add: sw0_def)[1], rule sw_cl [OF cl_make [of _ 1]], (simp_all add: sw0_def NPROC_def)[3],
      rule sw_cl [OF cl_set [of _ 1]], (simp_all add: sw0_def)[1], rule rtranclp.rtrancl_refl)

theorem no_lost_wakeup_witness:
  "sw_init sw0 \<and> (sw_step TicksChan)\<^sup>*\<^sup>* sw0 sw_waking \<and> sw_cond sw_waking \<and> sw_state sw_waking 0 = SLEEPING \<and>
   (\<exists>w. sw_lk sw_waking = Some w \<and> ahead 0 (sw_pc sw_waking w))"
proof -
  have 1: "sw_init sw0" by (simp add: sw_init_def sw0_def)
  have 2: "sw_cond sw_waking" "sw_state sw_waking 0 = SLEEPING" "sw_chan sw_waking 0 = TicksChan"
    by (simp_all add: sw_waking_def sw_asleep_def)
  show ?thesis using no_lost_wakeup [OF 1 sw_waking_reachable 2] 1 2 sw_waking_reachable by blast
qed

end
