(* ===== verification/Vm.thy ===== *)
theory Vm
  imports Proc
begin

text \<open>
  Virtual memory: \<^verbatim>\<open>kernel/vm.c\<close> over Sv39 page tables that live in the model's physical
  memory. A page table is named by the address of its root page, a page-table entry by the
  address of its eight bytes; null is 0. The second half gives the tables their meaning as a
  map from virtual pages to entries and shows what the operations do to that map.
\<close>

section \<open>Definitions\<close>

definition UART0 :: u64 where "UART0 = 0x10000000"
definition VIRTIO0 :: u64 where "VIRTIO0 = 0x10001000"
definition PLIC :: u64 where "PLIC = 0x0c000000"

definition upd_mem :: "(mem \<Rightarrow> mem) \<Rightarrow> 'a km_scheme \<Rightarrow> 'a km_scheme" where
  "upd_mem f s = s\<lparr>memory := f (memory s)\<rparr>"

text \<open>The loop of \<^verbatim>\<open>walk\<close> from a given level down.\<close>

primrec walk_from :: "nat \<Rightarrow> u64 \<Rightarrow> bool \<Rightarrow> nat \<Rightarrow> u64 \<Rightarrow> 'a km_scheme \<Rightarrow>
    (u64 \<times> 'a km_scheme) result" where
  "walk_from c va alloc 0 pagetable s = Ok (pagetable + 8 * PX 0 va, s)"
| "walk_from c va alloc (Suc l) pagetable s =
     (let pte = pagetable + 8 * PX (Suc l) va;
          e = load64 (memory s) pte
      in if e AND PTE_V \<noteq> 0 then walk_from c va alloc l (PTE2PA e) s
         else if \<not> alloc then Ok (0, s)
         else rbind (kalloc c s) (\<lambda>(p, s1).
           if p = 0 then Ok (0, s1)
           else walk_from c va alloc l p
             (upd_mem (store64 pte (PA2PTE p OR PTE_V)) (upd_mem (memset p 0 (ucast PGSIZE)) s1))))"

definition walk :: "nat \<Rightarrow> u64 \<Rightarrow> u64 \<Rightarrow> bool \<Rightarrow> 'a km_scheme \<Rightarrow> (u64 \<times> 'a km_scheme) result" where
  "walk c pagetable va alloc s =
     (if va \<ge> MAXVA then Panic ''walk'' else walk_from c va alloc 2 pagetable s)"

definition walkaddr :: "nat \<Rightarrow> u64 \<Rightarrow> u64 \<Rightarrow> 'a km_scheme \<Rightarrow> (u64 \<times> 'a km_scheme) result" where
  "walkaddr c pagetable va s =
     (if va \<ge> MAXVA then Ok (0, s)
      else rbind (walk c pagetable va False s) (\<lambda>(pte, s1).
        if pte = 0 then Ok (0, s1)
        else let e = load64 (memory s1) pte
             in if e AND PTE_V = 0 then Ok (0, s1)
                else if e AND PTE_U = 0 then Ok (0, s1)
                else Ok (PTE2PA e, s1)))"

text \<open>\<open>n\<close> bounds the number of iterations; \<^verbatim>\<open>mappages\<close> needs one per page.\<close>

fun mappages_loop :: "nat \<Rightarrow> nat \<Rightarrow> u64 \<Rightarrow> u64 \<Rightarrow> u64 \<Rightarrow> u64 \<Rightarrow> u64 \<Rightarrow> 'a km_scheme \<Rightarrow>
    (int \<times> 'a km_scheme) result" where
  "mappages_loop 0 c pagetable a lst pa perm s = Hang"
| "mappages_loop (Suc n) c pagetable a lst pa perm s =
     rbind (walk c pagetable a True s) (\<lambda>(pte, s1).
       if pte = 0 then Ok (-1, s1)
       else if load64 (memory s1) pte AND PTE_V \<noteq> 0 then Panic ''mappages: remap''
       else let s2 = upd_mem (store64 pte (PA2PTE pa OR perm OR PTE_V)) s1
            in if a = lst then Ok (0, s2)
               else mappages_loop n c pagetable (a + PGSIZE) lst (pa + PGSIZE) perm s2)"

definition mappages :: "nat \<Rightarrow> u64 \<Rightarrow> u64 \<Rightarrow> u64 \<Rightarrow> u64 \<Rightarrow> u64 \<Rightarrow> 'a km_scheme \<Rightarrow>
    (int \<times> 'a km_scheme) result" where
  "mappages c pagetable va sz pa perm s =
     (if va mod PGSIZE \<noteq> 0 then Panic ''mappages: va not aligned''
      else if sz mod PGSIZE \<noteq> 0 then Panic ''mappages: size not aligned''
      else if sz = 0 then Panic ''mappages: size''
      else mappages_loop (unat sz div 4096) c pagetable va (va + sz - PGSIZE) pa perm s)"

definition kvmmap :: "nat \<Rightarrow> u64 \<Rightarrow> u64 \<Rightarrow> u64 \<Rightarrow> u64 \<Rightarrow> u64 \<Rightarrow> 'a km_scheme \<Rightarrow> 'a km_scheme result" where
  "kvmmap c kpgtbl va pa sz perm s =
     rbind (mappages c kpgtbl va sz pa perm s) (\<lambda>(r, s1). if r \<noteq> 0 then Panic ''kvmmap'' else Ok s1)"

definition proc_mapstacks :: "nat \<Rightarrow> u64 \<Rightarrow> 'a km_scheme \<Rightarrow> 'a km_scheme result" where
  "proc_mapstacks c kpgtbl s =
     foldR (\<lambda>i s1. rbind (kalloc c s1) (\<lambda>(pa, s2).
         if pa = 0 then Panic ''kalloc''
         else kvmmap c kpgtbl (KSTACK i) pa PGSIZE (PTE_R OR PTE_W) s2)) [0..<NPROC] s"

text \<open>\<open>etext\<close> and \<open>trampoline\<close> are linker symbols.\<close>

definition kvmmake :: "u64 \<Rightarrow> u64 \<Rightarrow> nat \<Rightarrow> 'a km_scheme \<Rightarrow> (u64 \<times> 'a km_scheme) result" where
  "kvmmake etext trampoline c s =
     rbind (kalloc c s) (\<lambda>(kpgtbl, s0).
     rbind (kvmmap c kpgtbl UART0 UART0 PGSIZE (PTE_R OR PTE_W)
             (upd_mem (memset kpgtbl 0 (ucast PGSIZE)) s0)) (\<lambda>s1.
     rbind (kvmmap c kpgtbl VIRTIO0 VIRTIO0 PGSIZE (PTE_R OR PTE_W) s1) (\<lambda>s2.
     rbind (kvmmap c kpgtbl PLIC PLIC 0x4000000 (PTE_R OR PTE_W) s2) (\<lambda>s3.
     rbind (kvmmap c kpgtbl KERNBASE KERNBASE (etext - KERNBASE) (PTE_R OR PTE_X) s3) (\<lambda>s4.
     rbind (kvmmap c kpgtbl etext etext (PHYSTOP - etext) (PTE_R OR PTE_W) s4) (\<lambda>s5.
     rbind (kvmmap c kpgtbl TRAMPOLINE trampoline PGSIZE (PTE_R OR PTE_X) s5) (\<lambda>s6.
     rbind (proc_mapstacks c kpgtbl s6) (\<lambda>s7. Ok (kpgtbl, s7)))))))))"

definition uvmcreate :: "nat \<Rightarrow> 'a km_scheme \<Rightarrow> (u64 \<times> 'a km_scheme) result" where
  "uvmcreate c s =
     rbind (kalloc c s) (\<lambda>(pagetable, s1).
       if pagetable = 0 then Ok (0, s1)
       else Ok (pagetable, upd_mem (memset pagetable 0 (ucast PGSIZE)) s1))"

text \<open>The loop runs once per page; \<open>n\<close> counts the tests of its condition.\<close>

fun uvmunmap_loop :: "nat \<Rightarrow> nat \<Rightarrow> u64 \<Rightarrow> u64 \<Rightarrow> u64 \<Rightarrow> bool \<Rightarrow> 'a km_scheme \<Rightarrow> 'a km_scheme result" where
  "uvmunmap_loop 0 c pagetable a fin do_free s = Hang"
| "uvmunmap_loop (Suc n) c pagetable a fin do_free s =
     (if a < fin then
        rbind (walk c pagetable a False s) (\<lambda>(pte, s1).
          if pte = 0 then uvmunmap_loop n c pagetable (a + PGSIZE) fin do_free s1
          else if load64 (memory s1) pte AND PTE_V = 0
          then uvmunmap_loop n c pagetable (a + PGSIZE) fin do_free s1
          else rbind (if do_free then kfree c (PTE2PA (load64 (memory s1) pte)) s1 else Ok s1) (\<lambda>s2.
            uvmunmap_loop n c pagetable (a + PGSIZE) fin do_free (upd_mem (store64 pte 0) s2)))
      else Ok s)"

definition uvmunmap :: "nat \<Rightarrow> u64 \<Rightarrow> u64 \<Rightarrow> u64 \<Rightarrow> bool \<Rightarrow> 'a km_scheme \<Rightarrow> 'a km_scheme result" where
  "uvmunmap c pagetable va npages do_free s =
     (if va mod PGSIZE \<noteq> 0 then Panic ''uvmunmap: not aligned''
      else uvmunmap_loop (Suc (unat npages)) c pagetable va (va + npages * PGSIZE) do_free s)"

text \<open>The page count is stored in an \<^verbatim>\<open>int\<close> and widened again for the call.\<close>

definition uvmdealloc :: "nat \<Rightarrow> u64 \<Rightarrow> u64 \<Rightarrow> u64 \<Rightarrow> 'a km_scheme \<Rightarrow> (u64 \<times> 'a km_scheme) result" where
  "uvmdealloc c pagetable oldsz newsz s =
     (if newsz \<ge> oldsz then Ok (oldsz, s)
      else if PGROUNDUP newsz < PGROUNDUP oldsz then
        let npages = (ucast ((PGROUNDUP oldsz - PGROUNDUP newsz) div PGSIZE) :: 32 word)
        in rbind (uvmunmap c pagetable (PGROUNDUP newsz) (scast npages) True s) (\<lambda>s1. Ok (newsz, s1))
      else Ok (newsz, s))"

fun uvmalloc_loop :: "nat \<Rightarrow> nat \<Rightarrow> u64 \<Rightarrow> u64 \<Rightarrow> u64 \<Rightarrow> u64 \<Rightarrow> u64 \<Rightarrow> 'a km_scheme \<Rightarrow>
    (u64 \<times> 'a km_scheme) result" where
  "uvmalloc_loop 0 c pagetable a oldsz newsz xperm s = Hang"
| "uvmalloc_loop (Suc n) c pagetable a oldsz newsz xperm s =
     (if a < newsz then
        rbind (kalloc c s) (\<lambda>(mem, s1).
          if mem = 0 then rbind (uvmdealloc c pagetable a oldsz s1) (\<lambda>(r, s2). Ok (0, s2))
          else rbind (mappages c pagetable a PGSIZE mem (PTE_R OR PTE_U OR xperm)
                 (upd_mem (memset mem 0 (ucast PGSIZE)) s1)) (\<lambda>(r, s2).
            if r \<noteq> 0
            then rbind (kfree c mem s2) (\<lambda>s3.
                 rbind (uvmdealloc c pagetable a oldsz s3) (\<lambda>(r, s4). Ok (0, s4)))
            else uvmalloc_loop n c pagetable (a + PGSIZE) oldsz newsz xperm s2))
      else Ok (newsz, s))"

definition uvmalloc :: "nat \<Rightarrow> u64 \<Rightarrow> u64 \<Rightarrow> u64 \<Rightarrow> u64 \<Rightarrow> 'a km_scheme \<Rightarrow>
    (u64 \<times> 'a km_scheme) result" where
  "uvmalloc c pagetable oldsz newsz xperm s =
     (if newsz < oldsz then Ok (oldsz, s)
      else let oldsz' = PGROUNDUP oldsz
           in uvmalloc_loop (unat newsz div 4096 + 2) c pagetable oldsz' oldsz' newsz xperm s)"

text \<open>The recursion depth is bounded by \<open>n\<close>; an Sv39 table has three levels.\<close>

fun freewalk :: "nat \<Rightarrow> nat \<Rightarrow> u64 \<Rightarrow> 'a km_scheme \<Rightarrow> 'a km_scheme result" where
  "freewalk 0 c pagetable s = Hang"
| "freewalk (Suc n) c pagetable s =
     rbind (foldR (\<lambda>i s1.
         let slot = pagetable + 8 * word_of_nat i;
             pte = load64 (memory s1) slot
         in if pte AND PTE_V \<noteq> 0 \<and> pte AND (PTE_R OR PTE_W OR PTE_X) = 0
            then rbind (freewalk n c (PTE2PA pte) s1) (\<lambda>s2. Ok (upd_mem (store64 slot 0) s2))
            else if pte AND PTE_V \<noteq> 0 then Panic ''freewalk: leaf''
            else Ok s1) [0..<512] s)
       (kfree c pagetable)"

definition uvmfree :: "nat \<Rightarrow> u64 \<Rightarrow> u64 \<Rightarrow> 'a km_scheme \<Rightarrow> 'a km_scheme result" where
  "uvmfree c pagetable sz s =
     rbind (if sz > 0 then uvmunmap c pagetable 0 (PGROUNDUP sz div PGSIZE) True s else Ok s)
       (freewalk 3 c pagetable)"

definition uvmcopy_err :: "nat \<Rightarrow> u64 \<Rightarrow> u64 \<Rightarrow> 'a km_scheme \<Rightarrow> (int \<times> 'a km_scheme) result" where
  "uvmcopy_err c new i s = rbind (uvmunmap c new 0 (i div PGSIZE) True s) (\<lambda>s1. Ok (-1, s1))"

fun uvmcopy_loop :: "nat \<Rightarrow> nat \<Rightarrow> u64 \<Rightarrow> u64 \<Rightarrow> u64 \<Rightarrow> u64 \<Rightarrow> 'a km_scheme \<Rightarrow>
    (int \<times> 'a km_scheme) result" where
  "uvmcopy_loop 0 c old new i sz s = Hang"
| "uvmcopy_loop (Suc n) c old new i sz s =
     (if i < sz then
        rbind (walk c old i False s) (\<lambda>(pte, s1).
          if pte = 0 then uvmcopy_loop n c old new (i + PGSIZE) sz s1
          else let e = load64 (memory s1) pte
            in if e AND PTE_V = 0 then uvmcopy_loop n c old new (i + PGSIZE) sz s1
               else rbind (kalloc c s1) (\<lambda>(mem, s2).
                 if mem = 0 then uvmcopy_err c new i s2
                 else rbind (mappages c new i PGSIZE mem (PTE_FLAGS e)
                        (upd_mem (memmove mem (PTE2PA e) (ucast PGSIZE)) s2)) (\<lambda>(r, s3).
                   if r \<noteq> 0 then rbind (kfree c mem s3) (uvmcopy_err c new i)
                   else uvmcopy_loop n c old new (i + PGSIZE) sz s3)))
      else Ok (0, s))"

definition uvmcopy :: "nat \<Rightarrow> u64 \<Rightarrow> u64 \<Rightarrow> u64 \<Rightarrow> 'a km_scheme \<Rightarrow> (int \<times> 'a km_scheme) result" where
  "uvmcopy c old new sz s = uvmcopy_loop (unat sz div 4096 + 2) c old new 0 sz s"

definition uvmclear :: "nat \<Rightarrow> u64 \<Rightarrow> u64 \<Rightarrow> 'a km_scheme \<Rightarrow> 'a km_scheme result" where
  "uvmclear c pagetable va s =
     rbind (walk c pagetable va False s) (\<lambda>(pte, s1).
       if pte = 0 then Panic ''uvmclear''
       else Ok (upd_mem (store64 pte (load64 (memory s1) pte AND NOT PTE_U)) s1))"

definition ismapped :: "nat \<Rightarrow> u64 \<Rightarrow> u64 \<Rightarrow> 'a km_scheme \<Rightarrow> (bool \<times> 'a km_scheme) result" where
  "ismapped c pagetable va s =
     rbind (walk c pagetable va False s) (\<lambda>(pte, s1).
       if pte = 0 then Ok (False, s1)
       else Ok (load64 (memory s1) pte AND PTE_V \<noteq> 0, s1))"

definition vmfault :: "nat \<Rightarrow> u64 \<Rightarrow> u64 \<Rightarrow> 'a kern_scheme \<Rightarrow> (u64 \<times> 'a kern_scheme) result" where
  "vmfault c pagetable va s =
     rbind (myproc c s) (\<lambda>ps. the_proc ps (\<lambda>p s1.
       if va \<ge> p_sz (procs s1 p) then Ok (0, s1)
       else let va' = PGROUNDDOWN va
         in rbind (ismapped c pagetable va' s1) (\<lambda>(b, s2).
              if b then Ok (0, s2)
              else rbind (kalloc c s2) (\<lambda>(mem, s3).
                if mem = 0 then Ok (0, s3)
                else rbind (mappages c (p_pagetable (procs s3 p)) va' PGSIZE mem (PTE_W OR PTE_U OR PTE_R)
                       (upd_mem (memset mem 0 (ucast PGSIZE)) s3)) (\<lambda>(r, s4).
                  if r \<noteq> 0 then rbind (kfree c mem s4) (\<lambda>s5. Ok (0, s5))
                  else Ok (mem, s4))))))"

text \<open>
  The kernel side of a copy is an object of the kernel, given or returned as its bytes. Each round of
  the copy loops moves at least one byte, so \<open>n\<close> is the length plus one.
\<close>

fun copyout_loop :: "nat \<Rightarrow> nat \<Rightarrow> u64 \<Rightarrow> u64 \<Rightarrow> u8 list \<Rightarrow> 'a kern_scheme \<Rightarrow>
    (int \<times> 'a kern_scheme) result" where
  "copyout_loop 0 c pagetable dstva src s = Hang"
| "copyout_loop (Suc k) c pagetable dstva src s =
     (if src \<noteq> [] then
        let va0 = PGROUNDDOWN dstva in
        if va0 \<ge> MAXVA then Ok (-1, s)
        else rbind (walkaddr c pagetable va0 s) (\<lambda>(pa, s1).
          rbind (if pa = 0 then vmfault c pagetable va0 s1 else Ok (pa, s1)) (\<lambda>(pa0, s2).
            if pa0 = 0 then Ok (-1, s2)
            else rbind (walk c pagetable va0 False s2) (\<lambda>(pte, s3).
              if load64 (memory s3) pte AND PTE_W = 0 then Ok (-1, s3)
              else let n = min (unat (PGSIZE - (dstva - va0))) (length src)
                in copyout_loop k c pagetable (va0 + PGSIZE) (drop n src)
                     (upd_mem (put_bytes (pa0 + (dstva - va0)) (take n src)) s3))))
      else Ok (0, s))"

definition copyout :: "nat \<Rightarrow> u64 \<Rightarrow> u64 \<Rightarrow> u8 list \<Rightarrow> 'a kern_scheme \<Rightarrow>
    (int \<times> 'a kern_scheme) result" where
  "copyout c pagetable dstva src s = copyout_loop (Suc (length src)) c pagetable dstva src s"

text \<open>\<open>dst\<close> is what has been copied so far; it is returned with the result.\<close>

fun copyin_loop :: "nat \<Rightarrow> nat \<Rightarrow> u64 \<Rightarrow> u8 list \<Rightarrow> u64 \<Rightarrow> u64 \<Rightarrow> 'a kern_scheme \<Rightarrow>
    (int \<times> u8 list \<times> 'a kern_scheme) result" where
  "copyin_loop 0 c pagetable dst srcva len s = Hang"
| "copyin_loop (Suc k) c pagetable dst srcva len s =
     (if len > 0 then
        let va0 = PGROUNDDOWN srcva in
        rbind (walkaddr c pagetable va0 s) (\<lambda>(pa, s1).
          rbind (if pa = 0 then vmfault c pagetable va0 s1 else Ok (pa, s1)) (\<lambda>(pa0, s2).
            if pa0 = 0 then Ok (-1, dst, s2)
            else let n = min (PGSIZE - (srcva - va0)) len
              in copyin_loop k c pagetable (dst @ get_bytes (memory s2) (pa0 + (srcva - va0)) (unat n))
                   (va0 + PGSIZE) (len - n) s2))
      else Ok (0, dst, s))"

definition copyin :: "nat \<Rightarrow> u64 \<Rightarrow> u64 \<Rightarrow> u64 \<Rightarrow> 'a kern_scheme \<Rightarrow>
    (int \<times> u8 list \<times> 'a kern_scheme) result" where
  "copyin c pagetable srcva len s = copyin_loop (Suc (unat len)) c pagetable [] srcva len s"

text \<open>The inner loop: \<open>n\<close> bytes of one page. It returns whether the NUL was copied.\<close>

fun copy_str :: "nat \<Rightarrow> mem \<Rightarrow> u64 \<Rightarrow> u8 list \<Rightarrow> u64 \<Rightarrow> bool \<times> u8 list \<times> u64" where
  "copy_str 0 m p dst mx = (False, dst, mx)"
| "copy_str (Suc n) m p dst mx =
     (if m p = 0 then (True, dst @ [0], mx)
      else copy_str n m (p + 1) (dst @ [m p]) (mx - 1))"

fun copyinstr_loop :: "nat \<Rightarrow> nat \<Rightarrow> u64 \<Rightarrow> u8 list \<Rightarrow> u64 \<Rightarrow> u64 \<Rightarrow> 'a km_scheme \<Rightarrow>
    (int \<times> u8 list \<times> 'a km_scheme) result" where
  "copyinstr_loop 0 c pagetable dst srcva mx s = Hang"
| "copyinstr_loop (Suc k) c pagetable dst srcva mx s =
     (if mx > 0 then
        let va0 = PGROUNDDOWN srcva in
        rbind (walkaddr c pagetable va0 s) (\<lambda>(pa0, s1).
          if pa0 = 0 then Ok (-1, dst, s1)
          else let n = min (PGSIZE - (srcva - va0)) mx;
                   (got_null, dst', mx') = copy_str (unat n) (memory s1) (pa0 + (srcva - va0)) dst mx
            in if got_null then Ok (0, dst', s1)
               else copyinstr_loop k c pagetable dst' (va0 + PGSIZE) mx' s1)
      else Ok (-1, dst, s))"

definition copyinstr :: "nat \<Rightarrow> u64 \<Rightarrow> u64 \<Rightarrow> u64 \<Rightarrow> 'a km_scheme \<Rightarrow>
    (int \<times> u8 list \<times> 'a km_scheme) result" where
  "copyinstr c pagetable srcva mx s = copyinstr_loop (Suc (unat mx)) c pagetable [] srcva mx s"

text \<open>
  \<^verbatim>\<open>either_copyout\<close> and \<^verbatim>\<open>either_copyin\<close> of \<^verbatim>\<open>proc.c\<close>. The kernel address they
  may be given is an address in memory or a variable of the caller: \<open>Var\<close> holds the bytes
  written to it so far, or those still to be read from it.
\<close>

datatype place = User u64 | Kern u64 | Var "u8 list"

fun either_copyout :: "nat \<Rightarrow> place \<Rightarrow> u8 list \<Rightarrow> 'a kern_scheme \<Rightarrow> (int \<times> place \<times> 'a kern_scheme) result" where
  "either_copyout c (User dst) src s =
     rbind (myproc c s) (\<lambda>ps. the_proc ps (\<lambda>p s1.
       rbind (copyout c (p_pagetable (procs s1 p)) dst src s1) (\<lambda>(r, s2).
         Ok (r, User (dst + of_nat (length src)), s2))))"
| "either_copyout c (Kern dst) src s =
     rbind (myproc c s) (\<lambda>(p, s1). Ok (0, Kern (dst + of_nat (length src)), upd_mem (put_bytes dst src) s1))"
| "either_copyout c (Var dst) src s = rbind (myproc c s) (\<lambda>(p, s1). Ok (0, Var (dst @ src), s1))"

fun either_copyin :: "nat \<Rightarrow> place \<Rightarrow> u64 \<Rightarrow> 'a kern_scheme \<Rightarrow> (int \<times> u8 list \<times> place \<times> 'a kern_scheme) result" where
  "either_copyin c (User src) len s =
     rbind (myproc c s) (\<lambda>ps. the_proc ps (\<lambda>p s1.
       rbind (copyin c (p_pagetable (procs s1 p)) src len s1) (\<lambda>(r, bs, s2).
         Ok (r, bs, User (src + len), s2))))"
| "either_copyin c (Kern src) len s =
     rbind (myproc c s) (\<lambda>(p, s1). Ok (0, get_bytes (memory s1) src (unat len), Kern (src + len), s1))"
| "either_copyin c (Var src) len s =
     rbind (myproc c s) (\<lambda>(p, s1). Ok (0, take (unat len) src, Var (drop (unat len) src), s1))"

section \<open>Page tables as maps\<close>

subsection \<open>Addresses within a page\<close>

definition same_page :: "u64 \<Rightarrow> mem \<Rightarrow> mem \<Rightarrow> bool" where
  "same_page p m m' \<longleftrightarrow> (\<forall>k < 4096. m (p + word_of_nat k) = m' (p + word_of_nat k))"

lemma same_page_refl [simp]: "same_page p m m"
  by (simp add: same_page_def)

lemma same_pageD: "same_page p m m' \<Longrightarrow> k < 4096 \<Longrightarrow> m (p + word_of_nat k) = m' (p + word_of_nat k)"
  by (simp add: same_page_def)

lemma same_page_sym: "same_page p m m' \<Longrightarrow> same_page p m' m"
  by (simp add: same_page_def)

lemma same_page_trans: "same_page p m m1 \<Longrightarrow> same_page p m1 m2 \<Longrightarrow> same_page p m m2"
  by (simp add: same_page_def)

text \<open>The address of entry \<open>i\<close> of a table.\<close>

definition entry :: "u64 \<Rightarrow> nat \<Rightarrow> u64" where
  "entry pt i = pt + word_of_nat (8 * i)"

lemma entry_offset: "entry pt i + word_of_nat k = pt + word_of_nat (8 * i + k)"
  by (simp add: entry_def)

lemma in_range_nth:
  assumes "in_range a n b"
  obtains j where "j < n" "b = a + word_of_nat j"
proof
  show "unat (b - a) < n" using assms by (simp add: in_range_def)
qed simp

lemma in_page: "k < 4096 \<Longrightarrow> in_range p 4096 (p + word_of_nat k)"
  using in_range_offset [of k p 4096] by simp

lemma load64_page:
  assumes "same_page pt m m'" and "i < 512"
  shows "load64 m' (entry pt i) = load64 m (entry pt i)"
proof (rule load64_cong)
  fix k assume "k < (8 :: nat)"
  then have "8 * i + k < 4096" using assms(2) by simp
  from same_pageD [OF assms(1) this] show "m' (entry pt i + word_of_nat k) = m (entry pt i + word_of_nat k)"
    unfolding entry_offset by (rule sym)
qed

lemma store64_other_page:
  assumes "q mod PGSIZE = 0" and "p mod PGSIZE = 0" and "q \<noteq> p" and "i < 512"
  shows "same_page q (store64 (entry p i) v m) m"
  unfolding same_page_def
proof (intro allI impI)
  fix k assume k: "k < (4096 :: nat)"
  have "\<not> in_range (entry p i) 8 (q + word_of_nat k)"
  proof
    assume "in_range (entry p i) 8 (q + word_of_nat k)"
    then obtain j where j: "j < 8" "q + word_of_nat k = entry p i + word_of_nat j"
      by (rule in_range_nth)
    then have "in_range p 4096 (p + word_of_nat (8 * i + j))" using assms(4) by (intro in_page) simp
    then have "in_range p 4096 (q + word_of_nat k)" unfolding j(2) entry_offset .
    then show False using page_disjoint [OF assms(2,1) _ k] assms(3) by blast
  qed
  then show "store64 (entry p i) v m (q + word_of_nat k) = m (q + word_of_nat k)"
    by (rule store64_miss)
qed

lemma entry_inj:
  assumes "i < 512" and "j < 512" and "k < 8" and "in_range (entry pt i) 8 (entry pt j + word_of_nat k)"
  shows "i = j"
proof -
  obtain r where r: "r < 8" "entry pt j + word_of_nat k = entry pt i + word_of_nat r"
    using assms(4) by (rule in_range_nth)
  have "8 * j + k < 2 ^ 64" and "8 * i + r < 2 ^ 64" using r(1) assms(1-3) by simp_all
  from addr_inj [OF this] r(2) have "8 * j + k = 8 * i + r" unfolding entry_offset by blast
  then show ?thesis using r(1) assms(3) by linarith
qed

lemma load64_store64_entry:
  assumes "i < 512" and "j < 512"
  shows "load64 (store64 (entry pt i) v m) (entry pt j) = (if i = j then v else load64 m (entry pt j))"
proof (cases "i = j")
  case False
  have "load64 (store64 (entry pt i) v m) (entry pt j) = load64 m (entry pt j)"
  proof (rule load64_cong)
    fix k assume "k < (8 :: nat)"
    then have "\<not> in_range (entry pt i) 8 (entry pt j + word_of_nat k)"
      using entry_inj [OF assms] False by blast
    then show "store64 (entry pt i) v m (entry pt j + word_of_nat k) = m (entry pt j + word_of_nat k)"
      by (rule store64_miss)
  qed
  with False show ?thesis by simp
qed simp

lemma memset_other_page:
  assumes "q mod PGSIZE = 0" and "p mod PGSIZE = 0" and "q \<noteq> p"
  shows "same_page q (memset p v (ucast PGSIZE) m) m"
  using page_disjoint [OF assms(2,1)] assms(3) by (auto simp: same_page_def memset_eq)

lemma load64_memset_page:
  assumes "i < 512"
  shows "load64 (memset p 0 (ucast PGSIZE) m) (entry p i) = 0"
proof -
  have "load64 (memset p 0 (ucast PGSIZE) m) (entry p i) = load64 (\<lambda>_. 0) (entry p i)"
  proof (rule load64_cong)
    fix k assume "k < (8 :: nat)"
    then have "in_range p 4096 (p + word_of_nat (8 * i + k))" using assms by (intro in_page) simp
    then show "memset p 0 (ucast PGSIZE) m (entry p i + word_of_nat k) = 0"
      unfolding entry_offset memset_eq unat_PGSIZE32 by (rule if_P)
  qed
  then show ?thesis by simp
qed

subsection \<open>The index fields of an address\<close>

definition px :: "nat \<Rightarrow> u64 \<Rightarrow> nat" where
  "px l va = unat (PX l va)"

lemma PX_take_bit: "PX l va = take_bit 9 (drop_bit (12 + 9 * l) va)"
proof -
  have "(0x1FF :: u64) = mask 9" by (simp add: mask_eq_exp_minus_1)
  then show ?thesis by (simp only: PX_def take_bit_eq_mask)
qed

lemma px_less: "px l va < 512"
proof -
  have "PX l va < 2 ^ 9" unfolding PX_take_bit by (simp add: take_bit_eq_mod word_mod_less_divisor)
  then show ?thesis by (simp add: px_def word_less_nat_alt)
qed

lemma entry_PX: "pt + 8 * PX l va = entry pt (px l va)"
  by (simp add: px_def entry_def)

subsection \<open>The tree of table pages\<close>

abbreviation valid :: "u64 \<Rightarrow> bool" where
  "valid e \<equiv> e AND PTE_V \<noteq> 0"

text \<open>
  \<open>tree m l pt S\<close>: the table at \<open>pt\<close>, \<open>l\<close> levels above the leaves, is a tree whose pages
  are exactly \<open>S\<close>: no page is used twice.
\<close>

primrec tree :: "mem \<Rightarrow> nat \<Rightarrow> u64 \<Rightarrow> u64 set \<Rightarrow> bool" where
  "tree m 0 pt S \<longleftrightarrow> S = {pt}"
| "tree m (Suc l) pt S \<longleftrightarrow> (\<exists>f. S = insert pt (\<Union>i < 512. f i) \<and>
     (\<forall>i < 512. pt \<notin> f i \<and>
       (if valid (load64 m (entry pt i)) then tree m l (PTE2PA (load64 m (entry pt i))) (f i) else f i = {})) \<and>
     (\<forall>i < 512. \<forall>j < 512. i \<noteq> j \<longrightarrow> f i \<inter> f j = {}))"

text \<open>The leaf table that holds the entry of an address, and that entry (0 when there is none).\<close>

primrec leaf :: "mem \<Rightarrow> nat \<Rightarrow> u64 \<Rightarrow> u64 \<Rightarrow> u64 option" where
  "leaf m 0 pt va = Some pt"
| "leaf m (Suc l) pt va =
     (let e = load64 m (entry pt (px (Suc l) va)) in if valid e then leaf m l (PTE2PA e) va else None)"

definition pte_of :: "mem \<Rightarrow> nat \<Rightarrow> u64 \<Rightarrow> u64 \<Rightarrow> u64" where
  "pte_of m l pt va = (case leaf m l pt va of None \<Rightarrow> 0 | Some q \<Rightarrow> load64 m (entry q (px 0 va)))"

lemma pte_of_simps [simp]:
  "pte_of m 0 pt va = load64 m (entry pt (px 0 va))"
  "pte_of m (Suc l) pt va = (let e = load64 m (entry pt (px (Suc l) va)) in if valid e then pte_of m l (PTE2PA e) va else 0)"
  by (simp_all add: pte_of_def Let_def)

lemma tree_root: "tree m l pt S \<Longrightarrow> pt \<in> S"
  by (cases l) auto

lemma tree_cong:
  "tree m l pt S \<Longrightarrow> (\<And>q. q \<in> S \<Longrightarrow> same_page q m m') \<Longrightarrow> tree m' l pt S"
proof (induction l arbitrary: pt S)
  case (Suc l)
  from Suc.prems(1) obtain f where S: "S = insert pt (\<Union>i < 512. f i)"
    and ch: "\<forall>i < 512. pt \<notin> f i \<and> (if valid (load64 m (entry pt i))
      then tree m l (PTE2PA (load64 m (entry pt i))) (f i) else f i = {})"
    and dj: "\<forall>i < 512. \<forall>j < 512. i \<noteq> j \<longrightarrow> f i \<inter> f j = {}" by auto
  have e: "load64 m' (entry pt i) = load64 m (entry pt i)" if "i < 512" for i
    using Suc.prems(2) S that by (intro load64_page) auto
  have "tree m' l (PTE2PA (load64 m (entry pt i))) (f i)"
    if "i < 512" "tree m l (PTE2PA (load64 m (entry pt i))) (f i)" for i
    using Suc.IH [OF that(2)] Suc.prems(2) S that(1) by blast
  then show ?case unfolding tree.simps using S ch dj e by (intro exI [of _ f]) simp
qed simp

lemma leaf_in_tree: "tree m l pt S \<Longrightarrow> leaf m l pt va = Some q \<Longrightarrow> q \<in> S"
proof (induction l arbitrary: pt S)
  case (Suc l)
  let ?i = "px (Suc l) va"
  from Suc.prems(1) obtain f where "S = insert pt (\<Union>i < 512. f i)"
    and "\<forall>i < 512. (if valid (load64 m (entry pt i))
      then tree m l (PTE2PA (load64 m (entry pt i))) (f i) else f i = {})" by auto
  moreover have "valid (load64 m (entry pt ?i))" "leaf m l (PTE2PA (load64 m (entry pt ?i))) va = Some q"
    using Suc.prems(2) by (auto simp: Let_def split: if_splits)
  ultimately show ?case using Suc.IH px_less [of "Suc l" va] by fastforce
qed simp

lemma leaf_cong:
  "tree m l pt S \<Longrightarrow> (\<And>q. q \<in> S \<Longrightarrow> same_page q m m') \<Longrightarrow> leaf m' l pt va = leaf m l pt va"
proof (induction l arbitrary: pt S)
  case (Suc l)
  let ?i = "px (Suc l) va"
  from Suc.prems(1) obtain f where S: "S = insert pt (\<Union>i < 512. f i)"
    and ch: "\<forall>i < 512. (if valid (load64 m (entry pt i))
      then tree m l (PTE2PA (load64 m (entry pt i))) (f i) else f i = {})" by auto
  have "load64 m' (entry pt ?i) = load64 m (entry pt ?i)"
    using Suc.prems(2) S px_less by (intro load64_page) auto
  moreover have "leaf m' l (PTE2PA (load64 m (entry pt ?i))) va = leaf m l (PTE2PA (load64 m (entry pt ?i))) va"
    if "valid (load64 m (entry pt ?i))"
    by (rule Suc.IH [of _ "f ?i"]) (use ch that px_less [of "Suc l" va] Suc.prems(2) S in auto)
  ultimately show ?case by (simp add: Let_def)
qed simp

lemma pte_of_cong:
  assumes "tree m l pt S" and "\<And>q. q \<in> S \<Longrightarrow> same_page q m m'"
  shows "pte_of m' l pt va = pte_of m l pt va"
proof (cases "leaf m l pt va")
  case None
  then show ?thesis using leaf_cong [OF assms] by (simp add: pte_of_def)
next
  case (Some q)
  then have "q \<in> S" using leaf_in_tree assms(1) by blast
  then have "load64 m' (entry q (px 0 va)) = load64 m (entry q (px 0 va))"
    using assms(2) px_less by (intro load64_page) auto
  then show ?thesis using leaf_cong [OF assms] Some by (simp add: pte_of_def)
qed

text \<open>Two addresses share a leaf table only if their upper indices agree.\<close>

lemma leaf_inj:
  assumes "tree m l pt S" and "leaf m l pt va = Some q" and "leaf m l pt va' = Some q"
  shows "\<forall>k. 1 \<le> k \<and> k \<le> l \<longrightarrow> px k va = px k va'"
  using assms
proof (induction l arbitrary: pt S)
  case (Suc l)
  let ?i = "px (Suc l) va" and ?j = "px (Suc l) va'"
  from Suc.prems(1) obtain f where ch: "\<forall>i < 512. (if valid (load64 m (entry pt i))
      then tree m l (PTE2PA (load64 m (entry pt i))) (f i) else f i = {})"
    and dj: "\<forall>i < 512. \<forall>j < 512. i \<noteq> j \<longrightarrow> f i \<inter> f j = {}" by auto
  have i: "valid (load64 m (entry pt ?i))" "leaf m l (PTE2PA (load64 m (entry pt ?i))) va = Some q"
    and j: "valid (load64 m (entry pt ?j))" "leaf m l (PTE2PA (load64 m (entry pt ?j))) va' = Some q"
    using Suc.prems(2,3) by (auto simp: Let_def split: if_splits)
  have ti: "tree m l (PTE2PA (load64 m (entry pt ?i))) (f ?i)"
    and tj: "tree m l (PTE2PA (load64 m (entry pt ?j))) (f ?j)"
    using ch i(1) j(1) px_less by auto
  have "q \<in> f ?i" "q \<in> f ?j" using leaf_in_tree ti tj i(2) j(2) by blast+
  then have eq: "?i = ?j" using dj px_less by blast
  have "\<forall>k. 1 \<le> k \<and> k \<le> l \<longrightarrow> px k va = px k va'"
    using Suc.IH [OF ti i(2)] j(2) unfolding eq by blast
  with eq show ?case by (metis le_SucE)
qed simp

text \<open>A zeroed page is an empty table at every level.\<close>

definition zero_table :: "mem \<Rightarrow> u64 \<Rightarrow> bool" where
  "zero_table m p \<longleftrightarrow> (\<forall>i < 512. load64 m (entry p i) = 0)"

lemma zero_table_memset: "zero_table (memset p 0 (ucast PGSIZE) m) p"
  by (simp add: zero_table_def load64_memset_page)

lemma zero_table_tree: "zero_table m p \<Longrightarrow> tree m l p {p}"
  by (cases l) (auto simp: zero_table_def intro!: exI [of _ "\<lambda>_. {}"])

lemma zero_table_pte: "zero_table m p \<Longrightarrow> pte_of m l p va = 0"
  by (cases l) (simp_all add: zero_table_def px_less)

subsection \<open>walk\<close>

lemma walk_from_lookup:
  "walk_from c va False l pt s =
     Ok (case leaf (memory s) l pt va of None \<Rightarrow> 0 | Some q \<Rightarrow> entry q (px 0 va), s)"
  by (induction l arbitrary: pt) (simp_all add: entry_PX Let_def)

text \<open>What the allocator and the page-table code leave alone.\<close>

definition km_frame :: "'a km_scheme \<Rightarrow> 'a km_scheme \<Rightarrow> bool" where
  "km_frame s s' \<longleftrightarrow> km.more s' = km.more s \<and> kend s' = kend s \<and> sstatus s' = sstatus s \<and>
     clk s' = clk s \<and> nclk s' = nclk s \<and>
     (\<forall>d. cpu_proc (cpus s' d) = cpu_proc (cpus s d) \<and> noff (cpus s' d) = noff (cpus s d))"

lemma km_frame_refl [simp]: "km_frame s s"
  by (simp add: km_frame_def)

lemma km_frame_trans: "km_frame s s1 \<Longrightarrow> km_frame s1 s2 \<Longrightarrow> km_frame s s2"
  by (simp add: km_frame_def)

lemma km_frame_mem [simp]: "km_frame s (upd_mem f s)" "km_frame s1 (upd_mem f s) = km_frame s1 s"
  by (simp_all add: km_frame_def upd_mem_def)

lemma km_frame_page_ok: "km_frame s s' \<Longrightarrow> page_ok s' = page_ok s"
  by (simp add: km_frame_def page_ok_def fun_eq_iff)

lemma memory_upd_mem [simp]: "memory (upd_mem f s) = f (memory s)"
  by (simp add: upd_mem_def)

lemma settle_frame: "km_frame s ((settle c s)\<lparr>kmem_lock := l\<rparr>)"
  "km_frame s ((settle c s)\<lparr>kmem_lock := l, freelist := p, memory := m\<rparr>)"
  by (simp_all add: km_frame_def settle_def set_cpu_def)

lemma alloc_none:
  assumes "kmem_inv c s []"
  shows "\<exists>s'. kalloc c s = Ok (0, s') \<and> kmem_inv c s' [] \<and> km_frame s s' \<and> memory s' = memory s"
  using assms by (auto simp: kmem_inv_def kalloc_effect Let_def settle_frame)

lemma alloc_some:
  assumes "kmem_inv c s (p # ps)"
  shows "\<exists>s'. kalloc c s = Ok (p, s') \<and> kmem_inv c s' ps \<and> km_frame s s' \<and>
    memory s' = memset p 5 (ucast PGSIZE) (memory s)"
proof -
  have "freelist s = p" "p \<noteq> 0" using assms by (auto simp: kmem_inv_def)
  moreover have "hart_ok c s" "\<not> locked (kmem_lock s)" using assms by (simp_all add: kmem_inv_def)
  ultimately have k: "kalloc c s = Ok (p, (settle c s)\<lparr>kmem_lock := unlocked (kmem_lock s),
      freelist := load64 (memory s) p, memory := memset p 5 (ucast PGSIZE) (memory s)\<rparr>)"
    by (simp add: kalloc_effect Let_def)
  moreover from kmem_inv_kalloc_Cons [OF assms] k have "kmem_inv c ((settle c s)\<lparr>kmem_lock := unlocked (kmem_lock s),
      freelist := load64 (memory s) p, memory := memset p 5 (ucast PGSIZE) (memory s)\<rparr>) ps" by simp
  ultimately show ?thesis by (simp add: settle_frame)
qed

lemma kmem_inv_mem:
  assumes "kmem_inv c s xs" and "\<And>q. q \<in> set xs \<Longrightarrow> same_page q (memory s) (f (memory s))"
  shows "kmem_inv c (upd_mem f s) xs"
proof -
  have "flist (f (memory s)) (freelist s) xs = flist (memory s) (freelist s) xs"
  proof (rule flist_cong)
    fix x i assume "x \<in> set xs" and "i < (8 :: nat)"
    then show "f (memory s) (x + word_of_nat i) = memory s (x + word_of_nat i)"
      using same_pageD [OF assms(2), of x i] by simp
  qed
  then show ?thesis using assms(1) by (simp add: kmem_inv_def upd_mem_def page_ok_def)
qed

text \<open>The tables rooted at \<open>pt\<close> use the pages \<open>S\<close>, none of which is free.\<close>

definition pt_inv :: "nat \<Rightarrow> 'a km_scheme \<Rightarrow> nat \<Rightarrow> u64 \<Rightarrow> u64 set \<Rightarrow> u64 list \<Rightarrow> bool" where
  "pt_inv c s l pt S free \<longleftrightarrow> kmem_inv c s free \<and> tree (memory s) l pt S \<and>
     (\<forall>q \<in> S. page_ok s q) \<and> S \<inter> set free = {}"

lemma graft:
  assumes ch: "\<forall>j < 512. pt \<notin> f j \<and> (if valid (load64 m (entry pt j))
      then tree m l (PTE2PA (load64 m (entry pt j))) (f j) else f j = {})"
    and dj: "\<forall>i < 512. \<forall>j < 512. i \<noteq> j \<longrightarrow> f i \<inter> f j = {}"
    and same0: "\<forall>j < 512. j \<noteq> i \<longrightarrow> load64 m' (entry pt j) = load64 m (entry pt j)"
    and fj0: "\<forall>j < 512. j \<noteq> i \<longrightarrow> (\<forall>q \<in> f j. same_page q m m')"
    and i: "i < 512" "valid (load64 m' (entry pt i))" "tree m' l (PTE2PA (load64 m' (entry pt i))) T"
    and T: "pt \<notin> T" "\<forall>j < 512. j \<noteq> i \<longrightarrow> T \<inter> f j = {}"
  shows "tree m' (Suc l) pt (insert pt (\<Union>j < 512. (f(i := T)) j))"
    and "px (Suc l) va \<noteq> i \<Longrightarrow> pte_of m' (Suc l) pt va = pte_of m (Suc l) pt va"
proof -
  note same = same0 [rule_format] and fj = fj0 [rule_format]
  have sub: "tree m' l (PTE2PA (load64 m (entry pt j))) (f j)"
    if "j < 512" "j \<noteq> i" "valid (load64 m (entry pt j))" for j
  proof -
    have "tree m l (PTE2PA (load64 m (entry pt j))) (f j)" using ch [rule_format, OF that(1)] that(3) by simp
    then show ?thesis by (rule tree_cong) (rule fj [OF that(1,2)])
  qed
  show "tree m' (Suc l) pt (insert pt (\<Union>j < 512. (f(i := T)) j))"
    unfolding tree.simps
  proof (intro exI [of _ "f(i := T)"] conjI allI impI)
    fix j assume "j < (512 :: nat)"
    then show "pt \<notin> (f(i := T)) j" using ch T(1) by simp
    show "if valid (load64 m' (entry pt j)) then tree m' l (PTE2PA (load64 m' (entry pt j))) ((f(i := T)) j)
        else (f(i := T)) j = {}"
      using i(2,3) sub [OF \<open>j < 512\<close>] same [OF \<open>j < 512\<close>] ch [rule_format, OF \<open>j < 512\<close>] by (cases "j = i") simp_all
  next
    fix j k assume "j < (512 :: nat)" "k < (512 :: nat)" "j \<noteq> k"
    then show "(f(i := T)) j \<inter> (f(i := T)) k = {}" using dj T(2) by (auto simp: Int_commute)
  qed simp
  show "pte_of m' (Suc l) pt va = pte_of m (Suc l) pt va" if ne: "px (Suc l) va \<noteq> i"
  proof -
    have "pte_of m' l (PTE2PA (load64 m (entry pt (px (Suc l) va)))) va =
        pte_of m l (PTE2PA (load64 m (entry pt (px (Suc l) va)))) va"
      if v: "valid (load64 m (entry pt (px (Suc l) va)))"
    proof (rule pte_of_cong)
      show "tree m l (PTE2PA (load64 m (entry pt (px (Suc l) va)))) (f (px (Suc l) va))"
        using ch [rule_format, OF px_less] v by simp
    qed (rule fj [OF px_less ne])
    then show ?thesis using same [OF px_less ne] by (simp add: Let_def)
  qed
qed

text \<open>
  The result of a walk that may allocate: tables may have been added, but every entry reads as
  before and no page is lost; the walk fails only when memory is exhausted.
\<close>

definition walked :: "nat \<Rightarrow> nat \<Rightarrow> u64 \<Rightarrow> u64 \<Rightarrow> 'a km_scheme \<Rightarrow> u64 set \<Rightarrow> u64 list \<Rightarrow> u64 \<Rightarrow>
    'a km_scheme \<Rightarrow> u64 set \<Rightarrow> u64 list \<Rightarrow> bool" where
  "walked c l pt va s S free a s' S' free' \<longleftrightarrow>
     pt_inv c s' l pt S' free' \<and> S' \<union> set free' = S \<union> set free \<and> S \<subseteq> S' \<and> km_frame s s' \<and>
     (\<forall>v. pte_of (memory s') l pt v = pte_of (memory s) l pt v) \<and>
     (\<forall>q. q mod PGSIZE = 0 \<longrightarrow> q \<notin> S \<union> set free \<longrightarrow> same_page q (memory s) (memory s')) \<and>
     (if a = 0 then free' = [] else \<exists>q. leaf (memory s') l pt va = Some q \<and> a = entry q (px 0 va))"

lemma walkedD:
  assumes "walked c l pt va s S free a s' S' free'"
  shows "pt_inv c s' l pt S' free'" "S' \<union> set free' = S \<union> set free" "S \<subseteq> S'" "km_frame s s'"
    "pte_of (memory s') l pt v = pte_of (memory s) l pt v"
    "q mod PGSIZE = 0 \<Longrightarrow> q \<notin> S \<Longrightarrow> q \<notin> set free \<Longrightarrow> same_page q (memory s) (memory s')"
    "if a = 0 then free' = [] else \<exists>q. leaf (memory s') l pt va = Some q \<and> a = entry q (px 0 va)"
  using assms by (simp_all only: walked_def) auto

lemma page_ok_aligned: "page_ok s q \<Longrightarrow> q mod PGSIZE = 0"
  by (simp only: page_ok_def)

lemma entry_nonzero:
  assumes "q mod PGSIZE = 0" and "q \<noteq> 0" and "i < 512"
  shows "entry q i \<noteq> 0"
proof
  assume "entry q i = 0"
  moreover have "\<not> in_range q 4096 (0 + word_of_nat 0)"
    using assms(1,2) by (intro page_disjoint) (simp_all add: aligned_iff)
  moreover have "in_range q 4096 (q + word_of_nat (8 * i))" using assms(3) by (intro in_page) simp
  ultimately show False by (simp add: entry_def)
qed

lemma page_ok_bound: "page_ok s q \<Longrightarrow> unat q < 2 ^ 56"
proof -
  assume "page_ok s q"
  then have "unat q < unat PHYSTOP" by (simp add: page_ok_def word_less_nat_alt)
  then show ?thesis by (simp add: unat_PHYSTOP)
qed

lemma table_pte:
  assumes "page_ok s p"
  shows "PTE2PA (PA2PTE p OR PTE_V) = p" and "valid (PA2PTE p OR PTE_V)"
proof -
  have "PTE2PA (PA2PTE p OR PTE_V) = p"
    using assms page_ok_bound [OF assms] by (intro PTE2PA_PA2PTE) (simp_all add: page_ok_def PTE_V_def)
  then show "PTE2PA (PA2PTE p OR PTE_V) = p" .
  have "bit ((PA2PTE p OR PTE_V) AND PTE_V) 0" by (simp add: PTE_V_def bit_simps)
  then show "valid (PA2PTE p OR PTE_V)" by auto
qed

text \<open>
  One level of the walk: the child table \<open>ct\<close> of entry \<open>i\<close> is walked from \<open>s2\<close>, which
  differs from \<open>s\<close> at most in that entry and in pages that were free or below it.
\<close>

lemma walk_join:
  fixes s :: "'a km_scheme"
  assumes inv: "pt_inv c s (Suc l) pt S free"
    and S: "S = insert pt (\<Union>i < 512. f i)"
    and ch: "\<forall>i < 512. pt \<notin> f i \<and> (if valid (load64 (memory s) (entry pt i))
      then tree (memory s) l (PTE2PA (load64 (memory s) (entry pt i))) (f i) else f i = {})"
    and dj: "\<forall>i < 512. \<forall>j < 512. i \<noteq> j \<longrightarrow> f i \<inter> f j = {}"
    and fr2: "km_frame s s2"
    and ld2: "\<forall>j < 512. j \<noteq> i \<longrightarrow> load64 (memory s2) (entry pt j) = load64 (memory s) (entry pt j)"
    and e2: "valid (load64 (memory s2) (entry pt i))" "PTE2PA (load64 (memory s2) (entry pt i)) = ct"
    and out2: "\<forall>q. q mod PGSIZE = 0 \<longrightarrow> q \<noteq> pt \<longrightarrow> q \<notin> f i \<union> set free \<longrightarrow> same_page q (memory s) (memory s2)"
    and T0: "T0 \<union> set free2 = f i \<union> set free" "f i \<subseteq> T0"
    and old: "\<forall>v. px (Suc l) v = i \<longrightarrow> pte_of (memory s2) l ct v = pte_of (memory s) (Suc l) pt v"
    and wk: "walked c l ct va s2 T0 free2 a s' T free'"
    and i_def: "i = px (Suc l) va"
  shows "\<exists>S'. walked c (Suc l) pt va s S free a s' S' free'"
proof -
  let ?m = "memory s" and ?m' = "memory s'"
  have i: "i < 512" unfolding i_def by (rule px_less)
  have ok: "\<And>q. q \<in> S \<Longrightarrow> page_ok s q" and free: "S \<inter> set free = {}" using inv by (auto simp: pt_inv_def)
  have T: "T \<union> set free' = f i \<union> set free" "f i \<subseteq> T" using walkedD(2,3) [OF wk] T0 by auto
  have ptS: "pt \<in> S" "pt \<notin> f i \<union> set free" using S ch [rule_format, OF i] free by auto
  have step: "same_page q (memory s2) ?m'" if "q \<in> S" "q \<notin> f i" for q
    using that free T0 by (intro walkedD(6) [OF wk] page_ok_aligned [OF ok]) auto
  have out: "same_page q ?m ?m'" if "q \<in> S" "q \<notin> f i" "q \<noteq> pt" for q
  proof (rule same_page_trans [OF _ step [OF that(1,2)]])
    have "q \<notin> f i \<union> set free" using that(1,2) free by blast
    then show "same_page q ?m (memory s2)"
      using out2 [rule_format, OF page_ok_aligned [OF ok [OF that(1)]] that(3)] by blast
  qed
  have ld: "load64 ?m' (entry pt j) = load64 (memory s2) (entry pt j)" if "j < 512" for j
    using step [of pt] ptS that by (intro load64_page) auto
  have ld': "\<forall>j < 512. j \<noteq> i \<longrightarrow> load64 ?m' (entry pt j) = load64 ?m (entry pt j)" using ld ld2 by simp
  have jout: "q \<notin> f i" "q \<noteq> pt" if "j < 512" "j \<noteq> i" "q \<in> f j" for j q
    using dj i ch [rule_format, OF that(1)] that by blast+
  have fS: "f j \<subseteq> S" if "j < 512" for j using S that by blast
  have fj: "\<forall>j < 512. j \<noteq> i \<longrightarrow> (\<forall>q \<in> f j. same_page q ?m ?m')" using out jout fS by blast
  have Tj: "\<forall>j < 512. j \<noteq> i \<longrightarrow> T \<inter> f j = {}" using T(1) dj i free fS by blast
  have ptT: "pt \<notin> T" using T(1) ptS(2) by blast
  have tT: "tree ?m' l ct T" using walkedD(1) [OF wk] by (simp add: pt_inv_def)
  have e': "valid (load64 ?m' (entry pt i))" and tT': "tree ?m' l (PTE2PA (load64 ?m' (entry pt i))) T"
    using e2 tT ld [OF i] by simp_all
  note g = graft [OF ch dj ld' fj i e' tT' ptT Tj]
  define S' where "S' = insert pt (\<Union>j < 512. (f(i := T)) j)"
  have S'_cases: "q = pt \<or> q \<in> T \<or> (\<exists>j < 512. j \<noteq> i \<and> q \<in> f j)" if "q \<in> S'" for q
    using that by (auto simp: S'_def split: if_splits)
  have S': "S' \<union> set free' = S \<union> set free" "S \<subseteq> S'"
    using T S i by (auto simp: S'_def split: if_splits)
  have fr: "km_frame s s'" using fr2 walkedD(4) [OF wk] by (rule km_frame_trans)
  have "\<forall>q \<in> set free. page_ok s q" using inv by (simp add: pt_inv_def kmem_inv_def)
  then have pages: "\<forall>q \<in> S'. page_ok s' q" using S'(1) ok km_frame_page_ok [OF fr] by auto
  have k: "T \<inter> set free' = {}" "kmem_inv c s' free'" using walkedD(1) [OF wk] by (simp_all add: pt_inv_def)
  have away: "q \<notin> set free'" if "q \<in> S" "q \<notin> T" for q using that T free by blast
  have "q \<notin> set free'" if q: "q \<in> S'" for q
    using S'_cases [OF q]
  proof (elim disjE exE conjE)
    assume "q = pt" then show ?thesis using away [of pt] ptT ptS by simp
  next
    assume "q \<in> T" then show ?thesis using k(1) by blast
  next
    fix j assume j: "j < 512" "j \<noteq> i" "q \<in> f j"
    then show ?thesis using away fS Tj by blast
  qed
  then have "S' \<inter> set free' = {}" by blast
  then have "pt_inv c s' (Suc l) pt S' free'"
    using g(1) k(2) pages by (simp only: pt_inv_def S'_def [symmetric])
  moreover have "pte_of ?m' (Suc l) pt v = pte_of ?m (Suc l) pt v" for v
  proof (cases "px (Suc l) v = i")
    case True
    then have "pte_of ?m' (Suc l) pt v = pte_of ?m' l ct v" using e2 ld [OF i] by (simp add: Let_def)
    then show ?thesis using walkedD(5) [OF wk] old True by simp
  next
    case False
    then show ?thesis by (rule g(2))
  qed
  moreover have "leaf ?m' (Suc l) pt va = leaf ?m' l ct va" using e2 ld [OF i] by (simp add: i_def Let_def)
  moreover have "same_page q ?m ?m'" if "q mod PGSIZE = 0" "q \<notin> S \<union> set free" for q
  proof (rule same_page_trans)
    have q: "q \<noteq> pt" "q \<notin> f i \<union> set free" using that(2) ptS(1) fS [OF i] by auto
    show "same_page q ?m (memory s2)" by (rule out2 [rule_format, OF that(1) q])
    have "q \<notin> T0 \<union> set free2" using q(2) T0(1) by simp
    then show "same_page q (memory s2) ?m'" by (intro walkedD(6) [OF wk that(1)]) simp_all
  qed
  ultimately have "walked c (Suc l) pt va s S free a s' S' free'"
    using S' fr walkedD(7) [OF wk] unfolding walked_def by simp
  then show ?thesis by blast
qed

lemma walk_from_child:
  fixes s :: "'a km_scheme"
  assumes inv: "pt_inv c s (Suc l) pt S free" and e: "valid (load64 (memory s) (entry pt (px (Suc l) va)))"
    and IH: "\<And>pt (s :: 'a km_scheme) S free. pt_inv c s l pt S free \<Longrightarrow> \<exists>a s' S' free'.
      walk_from c va True l pt s = Ok (a, s') \<and> walked c l pt va s S free a s' S' free'"
  shows "\<exists>a s' S' free'. walk_from c va True (Suc l) pt s = Ok (a, s') \<and>
    walked c (Suc l) pt va s S free a s' S' free'"
proof -
  let ?i = "px (Suc l) va" and ?m = "memory s"
  let ?ct = "PTE2PA (load64 ?m (entry pt ?i))"
  obtain f where S: "S = insert pt (\<Union>i < 512. f i)"
    and ch: "\<forall>i < 512. pt \<notin> f i \<and> (if valid (load64 ?m (entry pt i))
      then tree ?m l (PTE2PA (load64 ?m (entry pt i))) (f i) else f i = {})"
    and dj: "\<forall>i < 512. \<forall>j < 512. i \<noteq> j \<longrightarrow> f i \<inter> f j = {}"
    using inv by (auto simp: pt_inv_def)
  have fi: "f ?i \<subseteq> S" using S px_less by blast
  have "pt_inv c s l ?ct (f ?i) free"
    using inv fi ch [rule_format, OF px_less [of "Suc l" va]] e by (auto simp: pt_inv_def)
  from IH [OF this] obtain a s' T free' where w: "walk_from c va True l ?ct s = Ok (a, s')"
    and wk: "walked c l ?ct va s (f ?i) free a s' T free'" by blast
  have "\<forall>v. px (Suc l) v = ?i \<longrightarrow> pte_of ?m l ?ct v = pte_of ?m (Suc l) pt v"
    using e by (simp add: Let_def)
  from walk_join [OF inv S ch dj _ _ e refl _ refl subset_refl this wk refl]
  have "\<exists>S'. walked c (Suc l) pt va s S free a s' S' free'" by simp
  moreover have "walk_from c va True (Suc l) pt s = Ok (a, s')" using e w by (simp add: entry_PX Let_def)
  ultimately show ?thesis by blast
qed

lemma walk_from_new:
  fixes s :: "'a km_scheme"
  assumes inv: "pt_inv c s (Suc l) pt S (p # ps)"
    and e: "\<not> valid (load64 (memory s) (entry pt (px (Suc l) va)))"
    and IH: "\<And>pt (s :: 'a km_scheme) S free. pt_inv c s l pt S free \<Longrightarrow> \<exists>a s' S' free'.
      walk_from c va True l pt s = Ok (a, s') \<and> walked c l pt va s S free a s' S' free'"
  shows "\<exists>a s' S' free'. walk_from c va True (Suc l) pt s = Ok (a, s') \<and>
    walked c (Suc l) pt va s S (p # ps) a s' S' free'"
proof -
  let ?i = "px (Suc l) va" and ?m = "memory s"
  have i: "?i < 512" by (rule px_less)
  obtain f where S: "S = insert pt (\<Union>i < 512. f i)"
    and ch: "\<forall>i < 512. pt \<notin> f i \<and> (if valid (load64 ?m (entry pt i))
      then tree ?m l (PTE2PA (load64 ?m (entry pt i))) (f i) else f i = {})"
    and dj: "\<forall>i < 512. \<forall>j < 512. i \<noteq> j \<longrightarrow> f i \<inter> f j = {}"
    using inv by (auto simp: pt_inv_def)
  have fi: "f ?i = {}" using ch [rule_format, OF i] e by simp
  have k: "kmem_inv c s (p # ps)" and ok: "\<And>q. q \<in> S \<Longrightarrow> page_ok s q" and free: "S \<inter> set (p # ps) = {}"
    using inv by (auto simp: pt_inv_def)
  have okf: "\<And>q. q \<in> set (p # ps) \<Longrightarrow> page_ok s q" and dist: "p \<notin> set ps" using k by (auto simp: kmem_inv_def)
  have okp: "page_ok s p" by (rule okf) simp
  have pal: "p mod PGSIZE = 0" using okp by (rule page_ok_aligned)
  have ptal: "pt mod PGSIZE = 0" using ok [of pt] S by (intro page_ok_aligned [of s]) simp
  obtain s1 where s1: "kalloc c s = Ok (p, s1)" "kmem_inv c s1 ps" "km_frame s s1"
    "memory s1 = memset p 5 (ucast PGSIZE) ?m" using alloc_some [OF k] by blast
  define s2 where "s2 = upd_mem (store64 (entry pt ?i) (PA2PTE p OR PTE_V)) (upd_mem (memset p 0 (ucast PGSIZE)) s1)"
  let ?m2 = "memory s2"
  have ptp: "pt \<noteq> p" using S free by auto
  have fr2: "km_frame s s2" using s1(3) by (simp add: s2_def)
  have out2: "same_page q ?m ?m2" if "q mod PGSIZE = 0" "q \<noteq> p" "q \<noteq> pt" for q
  proof -
    have "same_page q (memset p 5 (ucast PGSIZE) ?m) ?m" by (rule memset_other_page [OF that(1) pal that(2)])
    moreover have "same_page q (memset p 0 (ucast PGSIZE) (memory s1)) (memory s1)"
      by (rule memset_other_page [OF that(1) pal that(2)])
    moreover have "same_page q ?m2 (memset p 0 (ucast PGSIZE) (memory s1))"
      unfolding s2_def memory_upd_mem by (rule store64_other_page [OF that(1) ptal that(3) i])
    ultimately show ?thesis unfolding s1(4) by (simp add: same_page_def)
  qed
  have ld2: "load64 ?m2 (entry pt j) = (if j = ?i then PA2PTE p OR PTE_V else load64 ?m (entry pt j))" if "j < 512" for j
  proof -
    have "same_page pt ?m (memset p 0 (ucast PGSIZE) (memory s1))"
      using memset_other_page [OF ptal pal ptp, of 0 "memory s1"] memset_other_page [OF ptal pal ptp, of 5 ?m]
      unfolding s1(4) by (simp add: same_page_def)
    from load64_page [OF this that] show ?thesis
      using load64_store64_entry [OF i that] by (simp add: s2_def)
  qed
  have "zero_table ?m2 p"
  proof -
    have "same_page p (memset p 0 (ucast PGSIZE) (memory s1)) ?m2"
      using store64_other_page [OF pal ptal _ i] ptp unfolding s2_def memory_upd_mem by (simp add: same_page_def)
    from load64_page [OF this] show ?thesis by (simp add: zero_table_def load64_memset_page)
  qed
  note zt = zero_table_tree [OF this] and zp = zero_table_pte [OF this]
  have "kmem_inv c s2 ps"
  proof -
    have "same_page q (memory s1) ?m2" if "q \<in> set ps" for q
    proof -
      have q: "q mod PGSIZE = 0" "q \<noteq> p" "q \<noteq> pt" using that okf [of q] dist free S by (auto intro: page_ok_aligned)
      show ?thesis unfolding s2_def memory_upd_mem
        by (rule same_page_sym, rule same_page_trans [OF store64_other_page [OF q(1) ptal q(3) i]
            memset_other_page [OF q(1) pal q(2)]])
    qed
    then show ?thesis
      using kmem_inv_mem [OF s1(2), of "\<lambda>m. store64 (entry pt ?i) (PA2PTE p OR PTE_V) (memset p 0 (ucast PGSIZE) m)"]
      by (simp add: s2_def upd_mem_def)
  qed
  moreover have "page_ok s2 = page_ok s" using fr2 by (rule km_frame_page_ok)
  ultimately have "pt_inv c s2 l p {p} ps" using zt okp dist by (simp add: pt_inv_def)
  from IH [OF this] obtain a s' T free' where w: "walk_from c va True l p s2 = Ok (a, s')"
    and wk: "walked c l p va s2 {p} ps a s' T free'" by blast
  have ld2': "\<forall>j < 512. j \<noteq> ?i \<longrightarrow> load64 ?m2 (entry pt j) = load64 ?m (entry pt j)" using ld2 by simp
  have e2: "valid (load64 ?m2 (entry pt ?i))" "PTE2PA (load64 ?m2 (entry pt ?i)) = p"
    using ld2 [OF i] table_pte [OF okp] by simp_all
  have out2': "\<forall>q. q mod PGSIZE = 0 \<longrightarrow> q \<noteq> pt \<longrightarrow> q \<notin> f ?i \<union> set (p # ps) \<longrightarrow> same_page q ?m ?m2"
    using out2 by simp
  have T0: "{p} \<union> set ps = f ?i \<union> set (p # ps)" "f ?i \<subseteq> {p}" using fi by auto
  have old: "\<forall>v. px (Suc l) v = ?i \<longrightarrow> pte_of ?m2 l p v = pte_of ?m (Suc l) pt v"
    using e zp by (simp add: Let_def)
  note walk_join [OF inv S ch dj fr2 ld2' e2 out2' T0 old wk refl]
  moreover have "walk_from c va True (Suc l) pt s = Ok (a, s')"
    using e s1(1) w okp by (simp add: entry_PX Let_def s2_def page_ok_def)
  ultimately show ?thesis by blast
qed

lemma walk_from_alloc:
  fixes s :: "'a km_scheme"
  assumes "pt_inv c s l pt S free"
  shows "\<exists>a s' S' free'. walk_from c va True l pt s = Ok (a, s') \<and> walked c l pt va s S free a s' S' free'"
  using assms
proof (induction l arbitrary: pt s S free)
  case 0
  then have "S = {pt}" and ok: "page_ok s pt" by (auto simp: pt_inv_def)
  then have "entry pt (px 0 va) \<noteq> 0" using px_less by (intro entry_nonzero) (auto simp: page_ok_def)
  then have "walked c 0 pt va s S free (entry pt (px 0 va)) s S free" using 0 by (simp add: walked_def)
  then show ?case by (auto simp: entry_PX)
next
  case (Suc l)
  let ?e = "load64 (memory s) (entry pt (px (Suc l) va))"
  consider (child) "valid ?e" | (new) p ps where "\<not> valid ?e" "free = p # ps" | (none) "\<not> valid ?e" "free = []"
    by (cases free) auto
  then show ?case
  proof cases
    case child
    then show ?thesis by (rule walk_from_child [OF Suc.prems _ Suc.IH])
  next
    case new
    then show ?thesis using walk_from_new [OF _ new(1) Suc.IH] Suc.prems by simp
  next
    case none
    have k: "kmem_inv c s []" using Suc.prems none by (simp add: pt_inv_def)
    obtain s' where s': "kalloc c s = Ok (0, s')" "kmem_inv c s' []" "km_frame s s'" "memory s' = memory s"
      using alloc_none [OF k] by blast
    have "pt_inv c s' (Suc l) pt S []"
      using Suc.prems s' km_frame_page_ok [OF s'(3)] by (simp add: pt_inv_def)
    then have "walked c (Suc l) pt va s S free 0 s' S []" using s' none by (simp add: walked_def)
    moreover have "walk_from c va True (Suc l) pt s = Ok (0, s')" using none s'(1) by (simp add: entry_PX Let_def)
    ultimately show ?thesis by blast
  qed
qed

end
