(* ===== verification/Vmap.thy ===== *)
theory Vmap
  imports Vm
begin

text \<open>What mapping pages does to a page table.\<close>

subsection \<open>Writing a leaf entry\<close>

lemma leaf_store:
  fixes v :: u64
  assumes "tree m l pt S" and "leaf m l pt va = Some q" and "\<forall>x \<in> S. x mod PGSIZE = 0" and "i < 512"
  defines "m' \<equiv> store64 (entry q i) v m"
  shows "tree m' l pt S" and "leaf m' l pt va' = leaf m l pt va'"
proof -
  have "tree m' l pt S \<and> (\<forall>va'. leaf m' l pt va' = leaf m l pt va')"
    using assms(1-3)
  proof (induction l arbitrary: pt S)
    case (Suc l)
    let ?i = "px (Suc l) va"
    from Suc.prems(1) obtain f where S: "S = insert pt (\<Union>i < 512. f i)"
      and ch: "\<forall>i < 512. pt \<notin> f i \<and> (if valid (load64 m (entry pt i))
        then tree m l (PTE2PA (load64 m (entry pt i))) (f i) else f i = {})"
      and dj: "\<forall>i < 512. \<forall>j < 512. i \<noteq> j \<longrightarrow> f i \<inter> f j = {}" by auto
    have e: "valid (load64 m (entry pt ?i))" and lf: "leaf m l (PTE2PA (load64 m (entry pt ?i))) va = Some q"
      using Suc.prems(2) by (auto simp: Let_def split: if_splits)
    have ti: "tree m l (PTE2PA (load64 m (entry pt ?i))) (f ?i)" using ch [rule_format, OF px_less] e by simp
    then have qf: "q \<in> f ?i" using lf leaf_in_tree by blast
    have fS: "f j \<subseteq> S" if "j < 512" for j using S that by blast
    have ptS: "pt \<in> S" using S by blast
    have qS: "q \<in> S" using qf fS [OF px_less] by blast
    have qpt: "pt \<noteq> q" using qf ch [rule_format, OF px_less] by metis
    have other: "same_page x m m'" if "x \<in> S" "x \<noteq> q" for x
      unfolding m'_def
      by (rule same_page_sym, rule store64_other_page)
        (use Suc.prems(3) qS that assms(4) in \<open>simp_all\<close>)
    have ld: "load64 m' (entry pt j) = load64 m (entry pt j)" if "j < 512" for j
      by (rule load64_page [OF other [OF ptS qpt] that])
    have IH: "tree m' l (PTE2PA (load64 m (entry pt ?i))) (f ?i) \<and>
        (\<forall>va'. leaf m' l (PTE2PA (load64 m (entry pt ?i))) va' = leaf m l (PTE2PA (load64 m (entry pt ?i))) va')"
      using Suc.prems(3) fS [OF px_less] by (intro Suc.IH [OF ti lf]) blast
    have fj: "same_page x m m'" if "j < 512" "j \<noteq> ?i" "x \<in> f j" for j x
    proof (rule other)
      show "x \<in> S" using fS that by blast
      show "x \<noteq> q" using dj [rule_format, OF that(1) px_less that(2)] qf that(3) by blast
    qed
    have sub: "tree m' l (PTE2PA (load64 m (entry pt j))) (f j) \<and>
        (\<forall>va'. leaf m' l (PTE2PA (load64 m (entry pt j))) va' = leaf m l (PTE2PA (load64 m (entry pt j))) va')"
      if j: "j < 512" "valid (load64 m (entry pt j))" for j
    proof (cases "j = ?i")
      case True
      with IH show ?thesis by simp
    next
      case False
      have tj: "tree m l (PTE2PA (load64 m (entry pt j))) (f j)" using ch [rule_format, OF j(1)] j(2) by simp
      have "tree m' l (PTE2PA (load64 m (entry pt j))) (f j)" by (rule tree_cong [OF tj]) (rule fj [OF j(1) False])
      moreover have "leaf m' l (PTE2PA (load64 m (entry pt j))) va' = leaf m l (PTE2PA (load64 m (entry pt j))) va'" for va'
        by (rule leaf_cong [OF tj]) (rule fj [OF j(1) False])
      ultimately show ?thesis by blast
    qed
    have "tree m' (Suc l) pt S" unfolding tree.simps
    proof (intro exI [of _ f] conjI allI impI)
      fix j assume j: "j < (512 :: nat)"
      show "pt \<notin> f j" using ch j by blast
      show "if valid (load64 m' (entry pt j)) then tree m' l (PTE2PA (load64 m' (entry pt j))) (f j) else f j = {}"
        using ld [OF j] sub [OF j] ch [rule_format, OF j] by simp
    qed (use S dj in blast)+
    moreover have "leaf m' (Suc l) pt va' = leaf m (Suc l) pt va'" for va'
      using ld [OF px_less] sub [OF px_less] by (simp add: Let_def)
    ultimately show ?case by blast
  qed simp
  then show "tree m' l pt S" and "leaf m' l pt va' = leaf m l pt va'" by blast+
qed

lemma leaf_same: "\<forall>k. 1 \<le> k \<and> k \<le> l \<longrightarrow> px k va = px k va' \<Longrightarrow> leaf m l pt va = leaf m l pt va'"
  by (induction l arbitrary: pt) (simp_all add: Let_def)

text \<open>Addresses with the same page number.\<close>

definition same_vpn :: "nat \<Rightarrow> u64 \<Rightarrow> u64 \<Rightarrow> bool" where
  "same_vpn l va va' \<longleftrightarrow> (\<forall>k \<le> l. px k va = px k va')"

lemma pte_of_store:
  assumes "tree m l pt S" and "leaf m l pt va = Some q" and "\<forall>x \<in> S. x mod PGSIZE = 0"
  shows "pte_of (store64 (entry q (px 0 va)) e m) l pt va' = (if same_vpn l va va' then e else pte_of m l pt va')"
proof -
  let ?m' = "store64 (entry q (px 0 va)) e m"
  note st = leaf_store [OF assms px_less, where v = e]
  show ?thesis
  proof (cases "leaf m l pt va'")
    case None
    then have "\<not> same_vpn l va va'" using assms(2) leaf_same [of l va va' m pt] by (auto simp: same_vpn_def)
    then show ?thesis using None st(2) by (simp add: pte_of_def)
  next
    case (Some q')
    show ?thesis
    proof (cases "q' = q")
      case True
      have "\<forall>k. 1 \<le> k \<and> k \<le> l \<longrightarrow> px k va = px k va'" using leaf_inj [OF assms(1,2)] Some True by simp
      then have "same_vpn l va va' \<longleftrightarrow> px 0 va = px 0 va'"
        unfolding same_vpn_def by (metis One_nat_def Suc_le_eq le0 neq0_conv)
      then show ?thesis using Some True st(2) load64_store64_entry [OF px_less px_less] by (simp add: pte_of_def)
    next
      case False
      have "q \<in> S" "q' \<in> S" using assms(1,2) Some leaf_in_tree by blast+
      then have "same_page q' ?m' m" using assms(3) False by (intro store64_other_page px_less) auto
      from load64_page [OF same_page_sym [OF this] px_less]
      have "load64 ?m' (entry q' (px 0 va')) = load64 m (entry q' (px 0 va'))" .
      moreover have "\<not> same_vpn l va va'"
        using False Some assms(2) leaf_same [of l va va' m pt] by (auto simp: same_vpn_def)
      ultimately show ?thesis using Some st(2) by (simp add: pte_of_def)
    qed
  qed
qed

lemma px_div: "px l va = unat va div 2 ^ (12 + 9 * l) mod 512"
proof -
  have "unat (take_bit 9 (drop_bit (12 + 9 * l) va)) = take_bit 9 (drop_bit (12 + 9 * l) (unat va))"
    by (simp only: unsigned_take_bit_eq unat_drop_bit_eq)
  then show ?thesis by (simp add: px_def PX_take_bit take_bit_eq_mod drop_bit_eq_div)
qed

lemma digits3:
  assumes "(x :: nat) < 512 ^ 3"
  shows "x = x mod 512 + 512 * (x div 512 mod 512) + 512 * 512 * (x div (512 * 512) mod 512)"
proof -
  have "x div 512 div 512 mod 512 = x div 512 div 512" using assms by (simp add: div_mult2_eq [symmetric])
  moreover have "x = x mod 512 + 512 * (x div 512)" by simp
  moreover have "x div 512 = x div 512 mod 512 + 512 * (x div 512 div 512)" by simp
  ultimately show ?thesis unfolding div_mult2_eq by linarith
qed

lemma same_vpn_iff:
  assumes "unat a < 2 ^ 39" and "unat v < 2 ^ 39"
  shows "same_vpn 2 a v \<longleftrightarrow> unat v div 4096 = unat a div 4096"
proof
  assume "same_vpn 2 a v"
  then have "px 0 a = px 0 v" "px 1 a = px 1 v" "px 2 a = px 2 v" by (simp_all add: same_vpn_def)
  then have eq: "unat a div 4096 mod 512 = unat v div 4096 mod 512"
    "unat a div 4096 div 512 mod 512 = unat v div 4096 div 512 mod 512"
    "unat a div 4096 div (512 * 512) mod 512 = unat v div 4096 div (512 * 512) mod 512"
    by (simp_all add: px_div flip: div_mult2_eq)
  have "unat a div 4096 < 512 ^ 3" "unat v div 4096 < 512 ^ 3" using assms by simp_all
  from digits3 [OF this(1)] digits3 [OF this(2)] eq show "unat v div 4096 = unat a div 4096" by metis
next
  assume eq: "unat v div 4096 = unat a div 4096"
  have "px k a = px k v" for k
  proof -
    have "unat a div 4096 div 2 ^ (9 * k) = unat v div 4096 div 2 ^ (9 * k)" using eq by simp
    then show ?thesis by (simp add: px_div power_add div_mult2_eq)
  qed
  then show "same_vpn 2 a v" by (simp add: same_vpn_def)
qed


text \<open>
  The map after the first \<open>k\<close> pages from \<open>va\<close> have been mapped to \<open>pa\<close>.
\<close>

definition mapped :: "(u64 \<Rightarrow> u64) \<Rightarrow> u64 \<Rightarrow> u64 \<Rightarrow> u64 \<Rightarrow> nat \<Rightarrow> u64 \<Rightarrow> u64" where
  "mapped old va pa perm k v =
     (if unat va \<le> unat v \<and> unat v < unat va + k * 4096
      then PA2PTE (pa + (PGROUNDDOWN v - va)) OR perm OR PTE_V else old v)"

lemma mapped_0 [simp]: "mapped old va pa perm 0 v = old v"
  by (auto simp: mapped_def)

lemma mapped_cong: "old v = old' v \<Longrightarrow> mapped old va pa perm k v = mapped old' va pa perm k v"
  by (simp add: mapped_def)

definition maps_to :: "nat \<Rightarrow> u64 \<Rightarrow> 'a km_scheme \<Rightarrow> u64 set \<Rightarrow> u64 list \<Rightarrow> 'a km_scheme \<Rightarrow> u64 set \<Rightarrow> u64 list \<Rightarrow>
    (u64 \<Rightarrow> u64) \<Rightarrow> bool" where
  "maps_to c pt s S free s' S' free' f \<longleftrightarrow>
     pt_inv c s' 2 pt S' free' \<and> S' \<union> set free' = S \<union> set free \<and> S \<subseteq> S' \<and> km_frame s s' \<and>
     (\<forall>v. v < MAXVA \<longrightarrow> pte_of (memory s') 2 pt v = f v) \<and>
     (\<forall>q. q mod PGSIZE = 0 \<longrightarrow> q \<notin> S \<union> set free \<longrightarrow> same_page q (memory s) (memory s'))"

lemma maps_toD:
  assumes "maps_to c pt s S free s' S' free' f"
  shows "pt_inv c s' 2 pt S' free'" "S' \<union> set free' = S \<union> set free" "S \<subseteq> S'" "km_frame s s'"
    "v < MAXVA \<Longrightarrow> pte_of (memory s') 2 pt v = f v"
    "q mod PGSIZE = 0 \<Longrightarrow> q \<notin> S \<union> set free \<Longrightarrow> same_page q (memory s) (memory s')"
  using assms unfolding maps_to_def by iprover+

lemma maps_toI:
  assumes "pt_inv c s' 2 pt S' free'" "S' \<union> set free' = S \<union> set free" "S \<subseteq> S'" "km_frame s s'"
    "\<And>v. v < MAXVA \<Longrightarrow> pte_of (memory s') 2 pt v = f v"
    "\<And>q. q mod PGSIZE = 0 \<Longrightarrow> q \<notin> S \<union> set free \<Longrightarrow> same_page q (memory s) (memory s')"
  shows "maps_to c pt s S free s' S' free' f"
  unfolding maps_to_def by (intro conjI allI impI) (fact assms)+

lemma maps_to_trans:
  assumes "maps_to c pt s S free s1 S1 free1 f" and "maps_to c pt s1 S1 free1 s2 S2 free2 g"
  shows "maps_to c pt s S free s2 S2 free2 g"
proof (rule maps_toI)
  note a = maps_toD [OF assms(1)] and b = maps_toD [OF assms(2)]
  show "pt_inv c s2 2 pt S2 free2" by (rule b(1))
  show "S2 \<union> set free2 = S \<union> set free" using a(2) b(2) by simp
  show "S \<subseteq> S2" using a(3) b(3) by simp
  show "km_frame s s2" by (rule km_frame_trans [OF a(4) b(4)])
  show "pte_of (memory s2) 2 pt v = g v" if "v < MAXVA" for v by (rule b(5) [OF that])
  show "same_page q (memory s) (memory s2)" if "q mod PGSIZE = 0" "q \<notin> S \<union> set free" for q
  proof (rule same_page_trans [OF a(6) [OF that] b(6) [OF that(1)]])
    show "q \<notin> S1 \<union> set free1" using that(2) a(2) by simp
  qed
qed

lemma maps_to_mono: "maps_to c pt s S free s' S' free' f \<Longrightarrow> (\<And>v. v < MAXVA \<Longrightarrow> f v = g v) \<Longrightarrow>
    maps_to c pt s S free s' S' free' g"
  unfolding maps_to_def by simp

lemma unat_MAXVA: "unat MAXVA = 2 ^ 38"
  by (simp add: MAXVA_def push_bit_eq_mult)

lemma below_MAXVA: "v < MAXVA \<Longrightarrow> unat v < 2 ^ 38"
  by (simp add: word_less_nat_alt unat_MAXVA)

text \<open>Mapping one page.\<close>

lemma store_pte:
  assumes "pt_inv c s 2 pt S free" and "leaf (memory s) 2 pt va = Some q" and "va < MAXVA"
  shows "maps_to c pt s S free (upd_mem (store64 (entry q (px 0 va)) e) s) S free
    (\<lambda>v. if unat v div 4096 = unat va div 4096 then e else pte_of (memory s) 2 pt v)"
proof -
  let ?s = "upd_mem (store64 (entry q (px 0 va)) e) s"
  have t: "tree (memory s) 2 pt S" and k: "kmem_inv c s free" and ok: "\<forall>x \<in> S. page_ok s x"
    and dj: "S \<inter> set free = {}" using assms(1) unfolding pt_inv_def by blast+
  have al: "\<forall>x \<in> S. x mod PGSIZE = 0" using ok page_ok_aligned by blast
  have qS: "q \<in> S" using leaf_in_tree [OF t assms(2)] .
  then have qal: "q mod PGSIZE = 0" using al by blast
  have other: "same_page x (memory s) (memory ?s)" if "x mod PGSIZE = 0" "x \<notin> S \<union> set free \<or> x \<in> set free" for x
  proof -
    have "x \<noteq> q" using that(2) qS dj by blast
    from same_page_sym [OF store64_other_page [OF that(1) qal this px_less]]
    show ?thesis unfolding memory_upd_mem .
  qed
  have frees: "x mod PGSIZE = 0" if "x \<in> set free" for x
    using k that page_ok_aligned unfolding kmem_inv_def by blast
  have "kmem_inv c ?s free"
    using other frees by (intro kmem_inv_mem [OF k]) (metis memory_upd_mem)
  moreover have "tree (memory ?s) 2 pt S" using leaf_store(1) [OF t assms(2) al px_less] by simp
  moreover have "\<forall>x \<in> S. page_ok ?s x" using ok unfolding km_frame_page_ok [OF km_frame_mem(1)] .
  ultimately have inv: "pt_inv c ?s 2 pt S free" using dj unfolding pt_inv_def by blast
  show ?thesis
  proof (rule maps_toI [OF inv refl subset_refl km_frame_mem(1)])
    fix v assume v: "v < MAXVA"
    have "same_vpn 2 va v \<longleftrightarrow> unat v div 4096 = unat va div 4096"
      using below_MAXVA [OF v] below_MAXVA [OF assms(3)] by (intro same_vpn_iff) simp_all
    then show "pte_of (memory ?s) 2 pt v = (if unat v div 4096 = unat va div 4096 then e else pte_of (memory s) 2 pt v)"
      unfolding memory_upd_mem pte_of_store [OF t assms(2) al] by simp
  next
    fix x assume "x mod PGSIZE = 0" "x \<notin> S \<union> set free"
    then show "same_page x (memory s) (memory ?s)" by (intro other disjI1)
  qed
qed

lemma unat_u64: "n < 2 ^ 64 \<Longrightarrow> unat (word_of_nat n :: u64) = n"
  by (simp add: unsigned_of_nat take_bit_nat_eq_self)

lemma walked_maps_to:
  assumes "walked c 2 pt va s S free a s' S' free'"
  shows "maps_to c pt s S free s' S' free' (pte_of (memory s) 2 pt)"
proof (rule maps_toI [OF walkedD(1-4) [OF assms]])
  show "pte_of (memory s') 2 pt v = pte_of (memory s) 2 pt v" for v by (rule walkedD(5) [OF assms])
  show "same_page q (memory s) (memory s')" if "q mod PGSIZE = 0" "q \<notin> S \<union> set free" for q
    using that(2) by (intro walkedD(6) [OF assms that(1)]) blast+
qed

lemma map_page:
  fixes s :: "'a km_scheme"
  assumes "pt_inv c s 2 pt S free" and "a < MAXVA"
  shows "\<exists>pte s1 S1 free1. walk c pt a True s = Ok (pte, s1) \<and>
     (pte = 0 \<longrightarrow> free1 = [] \<and> maps_to c pt s S free s1 S1 [] (pte_of (memory s) 2 pt)) \<and>
     (pte \<noteq> 0 \<longrightarrow> load64 (memory s1) pte = pte_of (memory s) 2 pt a) \<and>
     (pte \<noteq> 0 \<longrightarrow> maps_to c pt s S free (upd_mem (store64 pte e) s1) S1 free1
       (\<lambda>v. if unat v div 4096 = unat a div 4096 then e else pte_of (memory s) 2 pt v))"
proof -
  obtain pte s1 S1 free1 where w: "walk_from c a True 2 pt s = Ok (pte, s1)"
    and wd: "walked c 2 pt a s S free pte s1 S1 free1" using walk_from_alloc [OF assms(1)] by blast
  note m = walked_maps_to [OF wd]
  show ?thesis
  proof (intro exI conjI impI)
    show "walk c pt a True s = Ok (pte, s1)" using w assms(2) by (simp add: walk_def)
    assume z: "pte = 0"
    show "free1 = []" using walkedD(7) [OF wd] z by simp
    then show "maps_to c pt s S free s1 S1 [] (pte_of (memory s) 2 pt)" using m by simp
  next
    assume nz: "pte \<noteq> 0"
    show "load64 (memory s1) pte = pte_of (memory s) 2 pt a"
    proof -
      obtain q where q: "leaf (memory s1) 2 pt a = Some q" "pte = entry q (px 0 a)"
        using walkedD(7) [OF wd] nz by auto
      then show ?thesis using walkedD(5) [OF wd, of a] by (simp add: pte_of_def)
    qed
    show "maps_to c pt s S free (upd_mem (store64 pte e) s1) S1 free1
       (\<lambda>v. if unat v div 4096 = unat a div 4096 then e else pte_of (memory s) 2 pt v)"
    proof -
      obtain q where q: "leaf (memory s1) 2 pt a = Some q" "pte = entry q (px 0 a)"
        using walkedD(7) [OF wd] nz by auto
      have "maps_to c pt s1 S1 free1 (upd_mem (store64 pte e) s1) S1 free1
          (\<lambda>v. if unat v div 4096 = unat a div 4096 then e else pte_of (memory s1) 2 pt v)"
        unfolding q(2) by (rule store_pte [OF walkedD(1) [OF wd] q(1) assms(2)])
      from maps_to_trans [OF m this] show ?thesis
        unfolding walkedD(5) [OF wd] .
    qed
  qed
qed

text \<open>The pages from \<open>a\<close> on, one page at a time.\<close>

lemma page_number:
  assumes "a mod PGSIZE = 0"
  shows "unat v div 4096 = unat a div 4096 \<longleftrightarrow> unat a \<le> unat v \<and> unat v < unat a + 4096"
proof -
  obtain k where "unat a = 4096 * k" using assms by (auto simp: aligned_iff)
  then show ?thesis by (auto simp: div_nat_eqI)
qed

lemma mapped_step:
  assumes "a mod PGSIZE = 0" and "unat a + (Suc k) * 4096 \<le> 2 ^ 38"
  shows "mapped (\<lambda>v. if unat v div 4096 = unat a div 4096 then PA2PTE pa OR perm OR PTE_V else old v)
     (a + PGSIZE) (pa + PGSIZE) perm k v = mapped old a pa perm (Suc k) v"
proof -
  have u: "unat (a + PGSIZE) = unat a + 4096" using assms(2) by (simp add: PGSIZE_def unat_word_ariths)
  have off: "pa + PGSIZE + (PGROUNDDOWN v - (a + PGSIZE)) = pa + (PGROUNDDOWN v - a)" by simp
  have "PGROUNDDOWN v = a" if "unat v div 4096 = unat a div 4096"
  proof -
    have "unat (PGROUNDDOWN v) = unat a" unfolding unat_PGROUNDDOWN that using assms(1) by (auto simp: aligned_iff)
    then show ?thesis by (simp add: word_unat_eq_iff)
  qed
  then show ?thesis unfolding mapped_def u off using page_number [OF assms(1), of v] by auto
qed

lemma mapped_1:
  assumes "a mod PGSIZE = 0"
  shows "mapped old a pa perm 1 v = (if unat v div 4096 = unat a div 4096 then PA2PTE pa OR perm OR PTE_V else old v)"
proof -
  have "PGROUNDDOWN v = a" if "unat v div 4096 = unat a div 4096"
  proof -
    have "unat (PGROUNDDOWN v) = unat a" unfolding unat_PGROUNDDOWN that using assms by (auto simp: aligned_iff)
    then show ?thesis by (simp add: word_unat_eq_iff)
  qed
  then show ?thesis using page_number [OF assms, of v] by (auto simp: mapped_def)
qed

lemma next_page:
  assumes "a mod PGSIZE = 0" and "unat a + 4096 \<le> 2 ^ 38"
  shows "unat (a + PGSIZE) = unat a + 4096" and "(a + PGSIZE) mod PGSIZE = 0"
proof -
  show "unat (a + PGSIZE) = unat a + 4096" using assms(2) by (simp add: PGSIZE_def unat_word_ariths)
  then show "(a + PGSIZE) mod PGSIZE = 0" using assms(1) by (simp add: aligned_iff)
qed

lemma mappages_loop_correct:
  fixes s :: "'a km_scheme"
  assumes "pt_inv c s 2 pt S free" and "a mod PGSIZE = 0" and "unat a + Suc n * 4096 \<le> 2 ^ 38"
    and "lst = a + word_of_nat (n * 4096)"
    and "\<forall>v < MAXVA. unat a \<le> unat v \<and> unat v < unat a + Suc n * 4096 \<longrightarrow> \<not> valid (pte_of (memory s) 2 pt v)"
  shows "\<exists>r s' S' free' k. mappages_loop (Suc n) c pt a lst pa perm s = Ok (r, s') \<and>
     maps_to c pt s S free s' S' free' (mapped (pte_of (memory s) 2 pt) a pa perm k) \<and>
     (r = 0 \<and> k = Suc n \<or> r = -1 \<and> k \<le> n \<and> free' = [])"
  using assms
proof (induction n arbitrary: a pa s S free)
  case (0 a pa s S free)
  have aM: "a < MAXVA" using 0(3) by (simp add: word_less_nat_alt unat_MAXVA)
  obtain pte s1 S1 free1 where w: "walk c pt a True s = Ok (pte, s1)"
    "pte = 0 \<Longrightarrow> free1 = [] \<and> maps_to c pt s S free s1 S1 [] (pte_of (memory s) 2 pt)"
    "pte \<noteq> 0 \<Longrightarrow> load64 (memory s1) pte = pte_of (memory s) 2 pt a"
    "pte \<noteq> 0 \<Longrightarrow> maps_to c pt s S free (upd_mem (store64 pte (PA2PTE pa OR perm OR PTE_V)) s1) S1 free1
       (\<lambda>v. if unat v div 4096 = unat a div 4096 then PA2PTE pa OR perm OR PTE_V else pte_of (memory s) 2 pt v)"
    using map_page [OF 0(1) aM, of "PA2PTE pa OR perm OR PTE_V"] by blast
  show ?case
  proof (cases "pte = 0")
    case True
    have "maps_to c pt s S free s1 S1 [] (mapped (pte_of (memory s) 2 pt) a pa perm 0)"
      using w(2) [OF True] maps_to_mono by fastforce
    moreover have "mappages_loop (Suc 0) c pt a lst pa perm s = Ok (-1, s1)" using w(1) True by simp
    ultimately show ?thesis by blast
  next
    case False
    have "\<not> valid (pte_of (memory s) 2 pt a)" using 0(5) aM by simp
    then have "mappages_loop (Suc 0) c pt a lst pa perm s =
        Ok (0, upd_mem (store64 pte (PA2PTE pa OR perm OR PTE_V)) s1)"
      using w(1) w(3) [OF False] False 0(4) by simp
    moreover have "maps_to c pt s S free (upd_mem (store64 pte (PA2PTE pa OR perm OR PTE_V)) s1) S1 free1
        (mapped (pte_of (memory s) 2 pt) a pa perm (Suc 0))"
      by (rule maps_to_mono [OF w(4) [OF False]]) (simp only: mapped_1 [OF 0(2), unfolded One_nat_def])
    ultimately show ?thesis by blast
  qed
next
  case (Suc n a pa s S free)
  let ?e = "PA2PTE pa OR perm OR PTE_V"
  let ?old = "pte_of (memory s) 2 pt"
  have aM: "a < MAXVA" using Suc.prems(3) by (simp add: word_less_nat_alt unat_MAXVA)
  have an: "unat (a + PGSIZE) = unat a + 4096" "(a + PGSIZE) mod PGSIZE = 0"
    using next_page [OF Suc.prems(2)] Suc.prems(3) by simp_all
  obtain pte s1 S1 free1 where w: "walk c pt a True s = Ok (pte, s1)"
    "pte = 0 \<Longrightarrow> free1 = [] \<and> maps_to c pt s S free s1 S1 [] ?old"
    "pte \<noteq> 0 \<Longrightarrow> load64 (memory s1) pte = ?old a"
    "pte \<noteq> 0 \<Longrightarrow> maps_to c pt s S free (upd_mem (store64 pte ?e) s1) S1 free1
       (\<lambda>v. if unat v div 4096 = unat a div 4096 then ?e else ?old v)"
    using map_page [OF Suc.prems(1) aM, of ?e] by blast
  show ?case
  proof (cases "pte = 0")
    case True
    have "maps_to c pt s S free s1 S1 [] (mapped ?old a pa perm 0)"
      using w(2) [OF True] maps_to_mono by fastforce
    moreover have "mappages_loop (Suc (Suc n)) c pt a lst pa perm s = Ok (-1, s1)" using w(1) True by simp
    ultimately show ?thesis by blast
  next
    case False
    define s2 where "s2 = upd_mem (store64 pte ?e) s1"
    have m: "maps_to c pt s S free s2 S1 free1 (\<lambda>v. if unat v div 4096 = unat a div 4096 then ?e else ?old v)"
      unfolding s2_def by (rule w(4) [OF False])
    have lst: "lst = a + PGSIZE + word_of_nat (n * 4096)" "lst \<noteq> a"
    proof -
      show "lst = a + PGSIZE + word_of_nat (n * 4096)" using Suc.prems(4) by (simp add: PGSIZE_def)
      have "unat (word_of_nat (Suc n * 4096) :: u64) = Suc n * 4096"
        using Suc.prems(3) by (intro unat_u64) simp
      then show "lst \<noteq> a" using Suc.prems(4) by auto
    qed
    have new: "\<not> valid (pte_of (memory s2) 2 pt v)"
      if "v < MAXVA" "unat (a + PGSIZE) \<le> unat v \<and> unat v < unat (a + PGSIZE) + Suc n * 4096" for v
    proof -
      have "unat v div 4096 \<noteq> unat a div 4096" using that(2) page_number [OF Suc.prems(2), of v] an(1) by simp
      then have "pte_of (memory s2) 2 pt v = ?old v" using maps_toD(5) [OF m that(1)] by simp
      then show ?thesis using Suc.prems(5) that an(1) by simp
    qed
    have "unat (a + PGSIZE) + Suc n * 4096 \<le> 2 ^ 38" using Suc.prems(3) an(1) by simp
    from Suc.IH [OF maps_toD(1) [OF m] an(2) this lst(1), of "pa + PGSIZE"] new
    obtain r s' S' free' k where l: "mappages_loop (Suc n) c pt (a + PGSIZE) lst (pa + PGSIZE) perm s2 = Ok (r, s')"
      "maps_to c pt s2 S1 free1 s' S' free' (mapped (pte_of (memory s2) 2 pt) (a + PGSIZE) (pa + PGSIZE) perm k)"
      "r = 0 \<and> k = Suc n \<or> r = -1 \<and> k \<le> n \<and> free' = []" by blast
    have "mapped (pte_of (memory s2) 2 pt) (a + PGSIZE) (pa + PGSIZE) perm k v = mapped ?old a pa perm (Suc k) v"
      if "v < MAXVA" for v
    proof -
      have "unat a + Suc k * 4096 \<le> 2 ^ 38" using l(3) Suc.prems(3) by auto
      from mapped_step [OF Suc.prems(2) this, of pa perm ?old v] show ?thesis
        unfolding mapped_cong [where v = v and old = "pte_of (memory s2) 2 pt" and old' = "\<lambda>v. if unat v div 4096 = unat a div 4096 then ?e else ?old v",
          OF maps_toD(5) [OF m that]] .
    qed
    then have "maps_to c pt s S free s' S' free' (mapped ?old a pa perm (Suc k))"
      by (intro maps_to_mono [OF maps_to_trans [OF m l(2)]])
    moreover have "\<not> valid (?old a)" using Suc.prems(5) aM by simp
    then have "mappages_loop (Suc (Suc n)) c pt a lst pa perm s = Ok (r, s')"
      using w(1) w(3) [OF False] False lst(2) l(1) unfolding mappages_loop.simps(2) [of "Suc n"] by (simp add: s2_def Let_def del: mappages_loop.simps)
    ultimately show ?thesis using l(3) by (intro exI [of _ r] exI [of _ s'] exI [of _ S'] exI [of _ free'] exI [of _ "Suc k"]) auto
  qed
qed

lemma mappages_effect:
  fixes s :: "'a km_scheme"
  assumes "pt_inv c s 2 pt S free" and "va mod PGSIZE = 0" and "sz mod PGSIZE = 0" and "0 < sz"
    and "unat va + unat sz \<le> unat MAXVA"
    and "\<forall>v < MAXVA. va \<le> v \<and> v < va + sz \<longrightarrow> \<not> valid (pte_of (memory s) 2 pt v)"
  shows "\<exists>r s' S' free' k. mappages c pt va sz pa perm s = Ok (r, s') \<and>
     maps_to c pt s S free s' S' free' (mapped (pte_of (memory s) 2 pt) va pa perm k) \<and>
     (r = 0 \<and> k = unat sz div 4096 \<or> r = -1 \<and> k < unat sz div 4096 \<and> free' = [])"
proof -
  obtain n where n: "unat sz = Suc n * 4096"
  proof -
    obtain m where "unat sz = 4096 * m" using assms(3) by (auto simp: aligned_iff)
    moreover from this have "m \<noteq> 0" using assms(4) by (auto simp: word_less_nat_alt)
    ultimately show thesis using that by (metis mult.commute not0_implies_Suc)
  qed
  have szn: "sz = word_of_nat (Suc n * 4096)" unfolding n [symmetric] by simp
  have lst: "va + sz - PGSIZE = va + word_of_nat (n * 4096)" unfolding szn by (simp add: PGSIZE_def)
  have fin: "unat (va + sz) = unat va + unat sz" using assms(5) unat_MAXVA by (simp add: unat_word_ariths)
  have "\<forall>v < MAXVA. unat va \<le> unat v \<and> unat v < unat va + Suc n * 4096 \<longrightarrow> \<not> valid (pte_of (memory s) 2 pt v)"
    using assms(6) n fin by (simp add: word_le_nat_alt word_less_nat_alt)
  moreover have "unat va + Suc n * 4096 \<le> 2 ^ 38" using assms(5) n unat_MAXVA by simp
  ultimately have "\<exists>r s' S' free' k. mappages_loop (Suc n) c pt va (va + sz - PGSIZE) pa perm s = Ok (r, s') \<and>
     maps_to c pt s S free s' S' free' (mapped (pte_of (memory s) 2 pt) va pa perm k) \<and>
     (r = 0 \<and> k = Suc n \<or> r = -1 \<and> k \<le> n \<and> free' = [])"
    by (intro mappages_loop_correct [OF assms(1,2) _ lst])
  moreover have "mappages c pt va sz pa perm s = mappages_loop (Suc n) c pt va (va + sz - PGSIZE) pa perm s"
    using assms(2,3) n word_gt_0 [THEN iffD1, OF assms(4)] by (simp add: mappages_def del: mappages_loop.simps)
  moreover have "unat sz div 4096 = Suc n" using n by simp
  ultimately show ?thesis by (simp only: less_Suc_eq_le)
qed

text \<open>Reading a mapping back.\<close>

definition user_pte :: "u64 \<Rightarrow> bool" where
  "user_pte e \<longleftrightarrow> e AND PTE_V \<noteq> 0 \<and> e AND PTE_U \<noteq> 0"

lemma walkaddr_effect:
  assumes "pt_inv c s 2 pt S free"
  shows "walkaddr c pt va s = Ok (if va < MAXVA \<and> user_pte (pte_of (memory s) 2 pt va)
    then PTE2PA (pte_of (memory s) 2 pt va) else 0, s)"
proof (cases "leaf (memory s) 2 pt va")
  case (Some q)
  have "q \<in> S" using assms Some leaf_in_tree unfolding pt_inv_def by blast
  then have q: "page_ok s q" using assms by (simp add: pt_inv_def)
  then have "entry q (px 0 va) \<noteq> 0" using px_less by (intro entry_nonzero page_ok_aligned [OF q]) (auto simp: page_ok_def)
  with Some show ?thesis
    by (auto simp: walkaddr_def walk_def walk_from_lookup pte_of_def Let_def user_pte_def not_le)
qed (simp add: walkaddr_def walk_def walk_from_lookup pte_of_def Let_def user_pte_def)

lemma pte_bits: "e AND PTE_V = 0 \<longleftrightarrow> \<not> bit e 0" "e AND PTE_U = 0 \<longleftrightarrow> \<not> bit e 4"
  using and_exp_eq_0_iff_not_bit [of e 0] and_exp_eq_0_iff_not_bit [of e 4] by (simp_all add: PTE_V_def PTE_U_def)

lemma range_target:
  assumes "va mod PGSIZE = 0" and "unat va \<le> unat v" and "unat v < unat va + n"
    and "pa mod PGSIZE = 0" and "unat pa + n \<le> 2 ^ 56"
  shows "(pa + (PGROUNDDOWN v - va)) mod PGSIZE = 0" and "unat (pa + (PGROUNDDOWN v - va)) < 2 ^ 56"
proof -
  obtain j where j: "unat va = j * 4096" using assms(1) by (auto simp: aligned_iff)
  obtain i where i: "unat pa = i * 4096" using assms(4) by (auto simp: aligned_iff)
  have "j \<le> unat v div 4096" using assms(2) j by (simp add: less_eq_div_iff_mult_less_eq)
  then have le: "va \<le> PGROUNDDOWN v" using j by (simp add: word_le_nat_alt unat_PGROUNDDOWN)
  then have d: "unat (PGROUNDDOWN v - va) = (unat v div 4096 - j) * 4096"
    using unat_sub [OF le] j by (simp add: unat_PGROUNDDOWN diff_mult_distrib)
  have "unat v div 4096 * 4096 \<le> unat v" by simp
  then have lt: "(unat v div 4096 - j) * 4096 < n" using assms(2,3) j by (simp add: diff_mult_distrib)
  then have u: "unat (pa + (PGROUNDDOWN v - va)) = (i + (unat v div 4096 - j)) * 4096"
    using d i assms(5) by (simp add: unat_word_ariths distrib_right)
  then show "(pa + (PGROUNDDOWN v - va)) mod PGSIZE = 0" by (simp add: aligned_iff)
  show "unat (pa + (PGROUNDDOWN v - va)) < 2 ^ 56" unfolding u using lt i assms(5) by (simp add: distrib_right)
qed

lemma leaf_pte:
  assumes "pa mod PGSIZE = 0" and "unat pa < 2 ^ 56" and "unat perm < 2 ^ 10"
  shows "PTE2PA (PA2PTE pa OR perm OR PTE_V) = pa"
    and "user_pte (PA2PTE pa OR perm OR PTE_V) \<longleftrightarrow> perm AND PTE_U \<noteq> 0"
proof -
  have "take_bit 10 (unat perm OR 1) = unat perm OR 1" using assms(3) by (simp add: take_bit_or take_bit_nat_eq_self)
  then have "unat perm OR 1 < 2 ^ 10" by (rule take_bit_nat_eq_self_iff [THEN iffD1])
  then have "unat (perm OR PTE_V) < 2 ^ 10" by (simp add: PTE_V_def unsigned_or_eq)
  then show "PTE2PA (PA2PTE pa OR perm OR PTE_V) = pa"
    using PTE2PA_PA2PTE [OF assms(1,2)] by (simp add: or.assoc)
  show "user_pte (PA2PTE pa OR perm OR PTE_V) \<longleftrightarrow> perm AND PTE_U \<noteq> 0"
    by (simp add: user_pte_def pte_bits) (simp add: PA2PTE_def PTE_V_def bit_simps)
qed


section \<open>Mapping pages\<close>

text \<open>A page table at \<open>0x80002000\<close> that maps the first page of user memory to \<open>0x80005000\<close>.\<close>

definition tables :: "u64 set" where "tables = {0x80002000, 0x80003000, 0x80004000}"

definition pte1 :: u64 where "pte1 = PA2PTE 0x80003000 OR PTE_V"
definition pte2 :: u64 where "pte2 = PA2PTE 0x80004000 OR PTE_V"
definition pte3 :: u64 where "pte3 = PA2PTE 0x80005000 OR PTE_V OR PTE_R OR PTE_W OR PTE_U"

lemmas pte_defs = pte1_def pte2_def pte3_def PA2PTE_def PTE2PA_def PTE_V_def PTE_R_def PTE_W_def PTE_U_def

lemma pte_vals: "pte1 AND PTE_V \<noteq> 0" "pte2 AND PTE_V \<noteq> 0" "PTE2PA pte1 = 0x80003000" "PTE2PA pte2 = 0x80004000"
  "PTE2PA pte3 = 0x80005000" "user_pte pte3" "pte3 AND PTE_W \<noteq> 0"
  by (simp_all add: pte_defs user_pte_def)

definition tbl_mem :: mem where
  "tbl_mem = store64 (entry 0x80002000 0) pte1 (store64 (entry 0x80003000 0) pte2 (store64 (entry 0x80004000 0) pte3 (\<lambda>_. 0)))"

lemma tbl_load:
  assumes "i < 512"
  shows "load64 tbl_mem (entry 0x80002000 i) = (if i = 0 then pte1 else 0)"
    "load64 tbl_mem (entry 0x80003000 i) = (if i = 0 then pte2 else 0)"
    "load64 tbl_mem (entry 0x80004000 i) = (if i = 0 then pte3 else 0)"
proof -
  have al: "(0x80002000 :: u64) mod PGSIZE = 0" "(0x80003000 :: u64) mod PGSIZE = 0" "(0x80004000 :: u64) mod PGSIZE = 0"
    by (simp_all add: PGSIZE_def)
  have o: "load64 (store64 (entry a 0) v m) (entry b i) = load64 m (entry b i)" if "a mod PGSIZE = 0" "b mod PGSIZE = 0" "b \<noteq> a" for a b :: u64 and v m
    using load64_page [OF same_page_sym [OF store64_other_page [OF that(2,1,3)]] assms, of 0 v m] by simp
  note l = load64_store64_entry [OF _ assms, of 0, simplified]
  show "load64 tbl_mem (entry 0x80002000 i) = (if i = 0 then pte1 else 0)"
    "load64 tbl_mem (entry 0x80003000 i) = (if i = 0 then pte2 else 0)"
    "load64 tbl_mem (entry 0x80004000 i) = (if i = 0 then pte3 else 0)"
    unfolding tbl_mem_def by (simp_all add: o al l load64_zero)
qed

lemma tbl_tree: "tree tbl_mem 2 0x80002000 tables"
proof -
  have a: "tree tbl_mem (Suc 0) 0x80003000 {0x80003000, 0x80004000}"
    unfolding tree.simps by (intro exI [of _ "\<lambda>i. if i = 0 then {0x80004000} else {}"]) (auto simp: tbl_load pte_vals)
  show ?thesis unfolding numeral_2_eq_2 tree.simps(2) [of _ "Suc 0"] tables_def
    using a by (intro exI [of _ "\<lambda>i. if i = 0 then {0x80003000, 0x80004000} else {}"]) (auto simp: tbl_load pte_vals simp del: tree.simps)
qed

lemma tbl_pte: "pte_of tbl_mem 2 0x80002000 0 = pte3"
proof -
  have "px l 0 = 0" for l by (simp add: px_def PX_take_bit)
  then show ?thesis by (simp add: numeral_2_eq_2 Let_def tbl_load pte_vals)
qed

definition three_tables :: km where
  "three_tables = (boot_km 0 0x80000800)\<lparr>memory := tbl_mem\<rparr>"

lemma three_tables_inv: "pt_inv 0 three_tables 2 0x80002000 tables []"
proof -
  have "kmem_inv 0 three_tables []" by (simp add: three_tables_def kmem_inv_def initlock_def)
  moreover have "\<forall>q \<in> tables. page_ok three_tables q"
    by (simp add: three_tables_def tables_def page_ok_def PGSIZE_def PHYSTOP_def KERNBASE_def)
  ultimately show ?thesis using tbl_tree by (simp add: pt_inv_def three_tables_def)
qed

lemma px_3000: "px (Suc (Suc 0)) 0x3000 = 0" "px (Suc 0) 0x3000 = 0" "px 0 0x3000 = 3"
  by (simp_all add: px_def PX_take_bit)

lemma three_tables_maps: "\<exists>s'. mappages 0 0x80002000 0x3000 0x1000 0x80006000 (PTE_R OR PTE_U) three_tables = Ok (0, s')"
proof -
  have m: "memory three_tables = tbl_mem" by (simp add: three_tables_def)
  have "walk_from 0 0x3000 True (Suc (Suc 0)) 0x80002000 three_tables = Ok (entry 0x80004000 3, three_tables)"
    by (simp add: entry_PX Let_def m tbl_load pte_vals px_3000)
  moreover have "\<not> MAXVA \<le> 0x3000" by (simp add: MAXVA_def)
  ultimately have "walk 0 0x80002000 0x3000 True three_tables = Ok (entry 0x80004000 3, three_tables)"
    by (simp only: walk_def if_False numeral_2_eq_2)
  moreover have "load64 tbl_mem (entry 0x80004000 3) = 0" by (simp add: tbl_load)
  moreover have "entry 0x80004000 3 \<noteq> 0" by (simp add: entry_def)
  ultimately show ?thesis by (simp add: mappages_def PGSIZE_def m)
qed

lemma three_tables_free: "v < MAXVA \<Longrightarrow> 0x3000 \<le> v \<Longrightarrow> v < 0x3000 + 0x1000 \<Longrightarrow> \<not> valid (pte_of (memory three_tables) 2 0x80002000 v)"
proof -
  assume "0x3000 \<le> v" "v < 0x3000 + 0x1000"
  then have v: "0x3000 \<le> unat v" "unat v < 0x4000" by (simp_all add: word_le_nat_alt word_less_nat_alt)
  then have "unat v div 4096 = 3" "unat v div 2 ^ 21 = 0" "unat v div 2 ^ 30 = 0" by auto
  then have "px 0 v = 3" "px (Suc 0) v = 0" "px (Suc (Suc 0)) v = 0" by (simp_all add: px_div)
  then show ?thesis by (simp add: numeral_2_eq_2 Let_def three_tables_def tbl_load pte_vals)
qed

lemma three_tables_pte: "pte_of (memory three_tables) 2 0x80002000 0 = pte3"
  using tbl_pte by (simp add: three_tables_def)

text \<open>
  C23: For page-aligned arguments below \<^verbatim>\<open>MAXVA\<close> whose pages are not mapped yet,
  \<^verbatim>\<open>mappages\<close> never panics and keeps the page-table and free-list invariants. If it returns 0,
  the page at distance \<open>d\<close> from \<open>va\<close> maps to \<open>pa + d\<close> with the given permissions and every
  other address reads as before; if it returns -1, memory is exhausted and the pages mapped so
  far are a prefix of the range. Pages that are neither tables nor free are not written.
\<close>

theorem mappages_correct:
  fixes s :: "'a km_scheme"
  assumes "pt_inv c s 2 pt S free" and "va mod PGSIZE = 0" and "sz mod PGSIZE = 0" and "0 < sz"
    and "unat va + unat sz \<le> unat MAXVA"
    and "\<forall>v < MAXVA. va \<le> v \<and> v < va + sz \<longrightarrow> \<not> valid (pte_of (memory s) 2 pt v)"
  shows "\<exists>r s' S' free' k. mappages c pt va sz pa perm s = Ok (r, s') \<and>
     pt_inv c s' 2 pt S' free' \<and> S' \<union> set free' = S \<union> set free \<and> km_frame s s' \<and>
     (\<forall>v < MAXVA. pte_of (memory s') 2 pt v =
        (if unat va \<le> unat v \<and> unat v < unat va + k * 4096
         then PA2PTE (pa + (PGROUNDDOWN v - va)) OR perm OR PTE_V else pte_of (memory s) 2 pt v)) \<and>
     (\<forall>q. q mod PGSIZE = 0 \<longrightarrow> q \<notin> S \<union> set free \<longrightarrow> same_page q (memory s) (memory s')) \<and>
     (r = 0 \<and> k = unat sz div 4096 \<or> r = -1 \<and> k < unat sz div 4096 \<and> free' = [])"
proof -
  obtain r s' S' free' k where m: "mappages c pt va sz pa perm s = Ok (r, s')"
    "maps_to c pt s S free s' S' free' (mapped (pte_of (memory s) 2 pt) va pa perm k)"
    "r = 0 \<and> k = unat sz div 4096 \<or> r = -1 \<and> k < unat sz div 4096 \<and> free' = []"
    using mappages_effect [OF assms, of pa perm] by blast
  note d = maps_toD [OF m(2)]
  show ?thesis
    by (rule exI [of _ r], rule exI [of _ s'], rule exI [of _ S'], rule exI [of _ free'], rule exI [of _ k])
      (intro conjI allI impI m(1,3) d(1,2,4,6) d(5) [unfolded mapped_def])
qed

theorem mappages_correct_witness:
  "\<exists>s' S' free'. mappages 0 0x80002000 0x3000 0x1000 0x80006000 (PTE_R OR PTE_U) three_tables = Ok (0, s') \<and>
     pt_inv 0 s' 2 0x80002000 S' free' \<and> pte_of (memory s') 2 0x80002000 0x3000 = PA2PTE 0x80006000 OR (PTE_R OR PTE_U) OR PTE_V \<and>
     pte_of (memory s') 2 0x80002000 0 = pte3"
proof -
  obtain s0 where e: "mappages 0 0x80002000 0x3000 0x1000 0x80006000 (PTE_R OR PTE_U) three_tables = Ok (0, s0)" using three_tables_maps by blast
  have f: "\<forall>v < MAXVA. 0x3000 \<le> v \<and> v < 0x3000 + 0x1000 \<longrightarrow> \<not> valid (pte_of (memory three_tables) 2 0x80002000 v)"
    using three_tables_free by blast
  obtain S' free' where m: "pt_inv 0 s0 2 0x80002000 S' free'"
    "\<forall>v < MAXVA. pte_of (memory s0) 2 0x80002000 v =
        (if 0x3000 \<le> unat v \<and> unat v < 0x4000 then PA2PTE (0x80006000 + (PGROUNDDOWN v - 0x3000)) OR (PTE_R OR PTE_U) OR PTE_V
         else pte_of (memory three_tables) 2 0x80002000 v)"
    using mappages_correct [OF three_tables_inv _ _ _ _ f, of "0x80006000" "PTE_R OR PTE_U"] e by (auto simp: PGSIZE_def MAXVA_def)
  have "PGROUNDDOWN 0x3000 = (0x3000 :: u64)" by (simp add: PGROUNDDOWN_def PGSIZE_def)
  then show ?thesis using e m(1) m(2) [rule_format, of "0x3000"] m(2) [rule_format, of 0] three_tables_pte
    by (intro exI [of _ s0] exI [of _ S'] exI [of _ free']) (simp add: MAXVA_def)
qed

text \<open>
  C24: Reading a fresh mapping back. After \<^verbatim>\<open>mappages\<close> has mapped user pages,
  \<^verbatim>\<open>walkaddr\<close> finds for every address of the range the physical page it was mapped to, and
  for every other address what it found before.
\<close>

theorem walkaddr_mappages:
  fixes s :: "'a km_scheme"
  assumes "pt_inv c s 2 pt S free" and "va mod PGSIZE = 0" and "sz mod PGSIZE = 0" and "0 < sz"
    and "unat va + unat sz \<le> unat MAXVA"
    and "\<forall>v < MAXVA. va \<le> v \<and> v < va + sz \<longrightarrow> \<not> valid (pte_of (memory s) 2 pt v)"
    and "pa mod PGSIZE = 0" and "unat pa + unat sz \<le> 2 ^ 56" and "unat perm < 2 ^ 10" and "perm AND PTE_U \<noteq> 0"
  shows "\<exists>r s'. mappages c pt va sz pa perm s = Ok (r, s') \<and>
     (if r = 0
      then \<forall>v. walkaddr c pt v s' =
        (if va \<le> v \<and> v < va + sz then Ok (pa + (PGROUNDDOWN v - va), s')
         else rbind (walkaddr c pt v s) (\<lambda>(p, _). Ok (p, s')))
      else r = -1 \<and> kmem_inv c s' [])"
proof -
  obtain r s' S' free' k where m: "mappages c pt va sz pa perm s = Ok (r, s')"
    "maps_to c pt s S free s' S' free' (mapped (pte_of (memory s) 2 pt) va pa perm k)"
    "r = 0 \<and> k = unat sz div 4096 \<or> r = -1 \<and> k < unat sz div 4096 \<and> free' = []"
    using mappages_effect [OF assms(1-6), of pa perm] by blast
  note d = maps_toD [OF m(2)]
  have fin: "unat (va + sz) = unat va + unat sz" using assms(5) unat_MAXVA by (simp add: unat_word_ariths)
  have "walkaddr c pt v s' = (if va \<le> v \<and> v < va + sz then Ok (pa + (PGROUNDDOWN v - va), s')
         else rbind (walkaddr c pt v s) (\<lambda>(p, _). Ok (p, s')))" if r: "r = 0" for v
  proof -
    have "k * 4096 = unat sz" using m(3) r assms(3) by (auto simp: aligned_iff)
    then have rng: "unat va \<le> unat v \<and> unat v < unat va + k * 4096 \<longleftrightarrow> va \<le> v \<and> v < va + sz"
      and kn: "k * 4096 = unat sz" using fin by (simp_all add: word_le_nat_alt word_less_nat_alt)
    show ?thesis
    proof (cases "va \<le> v \<and> v < va + sz")
      case True
      have vM: "v < MAXVA" using True assms(5) fin by (simp add: word_le_nat_alt word_less_nat_alt)
      have e: "pte_of (memory s') 2 pt v = PA2PTE (pa + (PGROUNDDOWN v - va)) OR perm OR PTE_V"
        using d(5) [OF vM] True rng by (simp add: mapped_def)
      have "user_pte (PA2PTE (pa + (PGROUNDDOWN v - va)) OR perm OR PTE_V) \<and>
          PTE2PA (PA2PTE (pa + (PGROUNDDOWN v - va)) OR perm OR PTE_V) = pa + (PGROUNDDOWN v - va)"
        using leaf_pte [OF range_target [OF assms(2) _ _ assms(7,8)] assms(9)] assms(10) True rng kn by simp
      then show ?thesis using walkaddr_effect [OF d(1)] True vM e by simp
    next
      case False
      then have "v < MAXVA \<Longrightarrow> pte_of (memory s') 2 pt v = pte_of (memory s) 2 pt v"
        by (simp only: d(5) mapped_def rng False if_False)
      then show ?thesis using walkaddr_effect [OF d(1)] walkaddr_effect [OF assms(1)] False by auto
    qed
  qed
  moreover have "kmem_inv c s' [] \<and> r = -1" if "r \<noteq> 0" using m(3) that d(1) by (auto simp: pt_inv_def)
  ultimately show ?thesis using m(1) by auto
qed

theorem walkaddr_mappages_witness:
  "\<exists>s'. mappages 0 0x80002000 0x3000 0x1000 0x80006000 (PTE_R OR PTE_U) three_tables = Ok (0, s') \<and>
     walkaddr 0 0x80002000 0x3008 s' = Ok (0x80006000, s') \<and> walkaddr 0 0x80002000 0 s' = Ok (0x80005000, s')"
proof -
  obtain s0 where e: "mappages 0 0x80002000 0x3000 0x1000 0x80006000 (PTE_R OR PTE_U) three_tables = Ok (0, s0)" using three_tables_maps by blast
  have f: "\<forall>v < MAXVA. 0x3000 \<le> v \<and> v < 0x3000 + 0x1000 \<longrightarrow> \<not> valid (pte_of (memory three_tables) 2 0x80002000 v)"
    using three_tables_free by blast
  have w: "walkaddr 0 0x80002000 v s0 = (if 0x3000 \<le> v \<and> v < 0x4000 then Ok (0x80006000 + (PGROUNDDOWN v - 0x3000), s0)
         else rbind (walkaddr 0 0x80002000 v three_tables) (\<lambda>(p, _). Ok (p, s0)))" for v
    using walkaddr_mappages [OF three_tables_inv _ _ _ _ f, of "0x80006000" "PTE_R OR PTE_U"] e
    by (auto simp: PGSIZE_def MAXVA_def PTE_R_def PTE_U_def)
  have "walkaddr 0 0x80002000 0 three_tables = Ok (0x80005000, three_tables)"
    using walkaddr_effect [OF three_tables_inv, of 0] three_tables_pte by (simp add: pte_vals MAXVA_def)
  moreover have "PGROUNDDOWN 0x3008 = (0x3000 :: u64)" by (simp add: PGROUNDDOWN_def PGSIZE_def)
  ultimately show ?thesis using e w [of "0x3008"] w [of 0] by (intro exI [of _ s0]) simp
qed

end
