(* ===== verification/Sleeplock.thy ===== *)
theory Sleeplock
  imports Proc
begin

text \<open>
  Sleep locks: \<^verbatim>\<open>kernel/sleeplock.c\<close>. From here on the kernel is seen from one thread of
  control: a wait that only another thread can end is the outcome \<open>Hang\<close>, for a sleep lock
  that is taken as for a spin lock. A lock lives in a field of the kernel state; the
  operations take how to read and how to store it, and the address it is known by as a sleep
  channel.
\<close>

record sleeplock =
  sl_locked :: bool
  sl_lk :: spinlock
  sl_name :: string
  sl_pid :: int

definition initsleeplock :: "string \<Rightarrow> sleeplock" where
  "initsleeplock nm = \<lparr>sl_locked = False, sl_lk = initlock ''sleep lock'', sl_name = nm, sl_pid = 0\<rparr>"

lemma sl_lk_inner [simp]:
  "sl_lk_update f (sl_locked_update g x) = sl_locked_update g (sl_lk_update f x)"
  "sl_lk_update f (sl_pid_update h x) = sl_pid_update h (sl_lk_update f x)"
  by (cases x; simp)+

definition lk_rd :: "('s \<Rightarrow> sleeplock) \<Rightarrow> 's \<Rightarrow> spinlock" where
  "lk_rd rd s = sl_lk (rd s)"

definition lk_st :: "('s \<Rightarrow> sleeplock) \<Rightarrow> (sleeplock \<Rightarrow> 's \<Rightarrow> 's) \<Rightarrow> spinlock \<Rightarrow> 's \<Rightarrow> 's" where
  "lk_st rd st lk s = st ((rd s)\<lparr>sl_lk := lk\<rparr>) s"

definition acquiresleep :: "('a kern_scheme \<Rightarrow> sleeplock) \<Rightarrow> (sleeplock \<Rightarrow> 'a kern_scheme \<Rightarrow> 'a kern_scheme) \<Rightarrow>
    nat \<Rightarrow> 'a kern_scheme \<Rightarrow> 'a kern_scheme result" where
  "acquiresleep rd st c s =
     rbind (acquire_at (lk_rd rd) (lk_st rd st) c s) (\<lambda>s1.
       if sl_locked (rd s1) then Hang
       else rbind (myproc c (st ((rd s1)\<lparr>sl_locked := True\<rparr>) s1)) (\<lambda>ps. the_proc ps (\<lambda>p s2.
         release_at (lk_rd rd) (lk_st rd st) c (st ((rd s2)\<lparr>sl_pid := p_pid (procs s2 p)\<rparr>) s2))))"

definition releasesleep :: "('a kern_scheme \<Rightarrow> sleeplock) \<Rightarrow> (sleeplock \<Rightarrow> 'a kern_scheme \<Rightarrow> 'a kern_scheme) \<Rightarrow>
    chan \<Rightarrow> nat \<Rightarrow> 'a kern_scheme \<Rightarrow> 'a kern_scheme result" where
  "releasesleep rd st ch c s =
     rbind (acquire_at (lk_rd rd) (lk_st rd st) c s) (\<lambda>s1.
     rbind (wakeup c ch (st ((rd s1)\<lparr>sl_locked := False, sl_pid := 0\<rparr>) s1)) (\<lambda>s2.
     release_at (lk_rd rd) (lk_st rd st) c s2))"

definition holdingsleep :: "('a kern_scheme \<Rightarrow> sleeplock) \<Rightarrow> (sleeplock \<Rightarrow> 'a kern_scheme \<Rightarrow> 'a kern_scheme) \<Rightarrow>
    nat \<Rightarrow> 'a kern_scheme \<Rightarrow> (bool \<times> 'a kern_scheme) result" where
  "holdingsleep rd st c s =
     rbind (acquire_at (lk_rd rd) (lk_st rd st) c s) (\<lambda>s1.
     rbind (if sl_locked (rd s1)
            then rbind (myproc c s1) (\<lambda>ps. the_proc ps (\<lambda>p s2. Ok (sl_pid (rd s2) = p_pid (procs s2 p), s2)))
            else Ok (False, s1)) (\<lambda>(r, s2).
     rbind (release_at (lk_rd rd) (lk_st rd st) c s2) (\<lambda>s3. Ok (r, s3))))"

section \<open>Cells of the kernel state\<close>

text \<open>A part of the state that is read and stored independently of harts and processes.\<close>

lemma settle_push_off: "hart_ok c s \<Longrightarrow> settle c (push_off c s) = push_off c s"
  by (cases "cpus s c") (simp add: settle_def push_off_def set_cpu_def Let_def hart_ok_def intr_off_def)

locale kcell =
  fixes rd :: "'a kern_scheme \<Rightarrow> 'b"
    and st :: "'b \<Rightarrow> 'a kern_scheme \<Rightarrow> 'a kern_scheme"
  assumes rd_st [simp]: "rd (st x s) = x"
    and st_rd [simp]: "st (rd s) s = s"
    and st_st [simp]: "st x (st y s) = st x s"
    and st_cpus: "st x (s\<lparr>cpus := k\<rparr>) = (st x s)\<lparr>cpus := k\<rparr>"
    and st_sstatus: "st x (s\<lparr>sstatus := e\<rparr>) = (st x s)\<lparr>sstatus := e\<rparr>"
    and st_procs: "st x (s\<lparr>procs := ps\<rparr>) = (st x s)\<lparr>procs := ps\<rparr>"
begin

lemma frame [simp]: "cpus (st x s) = cpus s" "sstatus (st x s) = sstatus s" "procs (st x s) = procs s"
proof -
  have "st x s = (st x s)\<lparr>cpus := cpus s\<rparr>" using st_cpus [where x = x and s = s and k = "cpus s"] by simp
  then show "cpus (st x s) = cpus s" by (metis hw.select_convs(1) hw.surjective hw.update_convs(1))
  have "st x s = (st x s)\<lparr>sstatus := sstatus s\<rparr>" using st_sstatus [where x = x and s = s and e = "sstatus s"] by simp
  then show "sstatus (st x s) = sstatus s" by (metis hw.select_convs(2) hw.surjective hw.update_convs(2))
  have "st x s = (st x s)\<lparr>procs := procs s\<rparr>" using st_procs [where x = x and s = s and ps = "procs s"] by simp
  then show "procs (st x s) = procs s" by (metis kern.select_convs(1) kern.surjective kern.update_convs(1))
qed

lemma rd_frame [simp]: "rd (s\<lparr>cpus := k\<rparr>) = rd s" "rd (s\<lparr>sstatus := e\<rparr>) = rd s" "rd (s\<lparr>procs := ps\<rparr>) = rd s"
  using rd_st [of "rd s" "s\<lparr>cpus := k\<rparr>"] rd_st [of "rd s" "s\<lparr>sstatus := e\<rparr>"] rd_st [of "rd s" "s\<lparr>procs := ps\<rparr>"]
  unfolding st_cpus st_sstatus st_procs by simp_all

lemma st_intr [simp]: "intr_get c (st x s) = intr_get c s" "hart_ok c (st x s) = hart_ok c s" "quiet c (st x s) = quiet c s"
  by (simp_all add: intr_get_def hart_ok_def quiet_def)

lemma st_hw: "push_off c (st x s) = st x (push_off c s)" "settle c (st x s) = st x (settle c s)"
  "pop_off c (st x s) = rbind (pop_off c s) (\<lambda>s'. Ok (st x s'))" "wake_all me ch (st x s) = st x (wake_all me ch s)"
  by (simp_all add: push_off_def pop_off_def settle_def set_cpu_def intr_on_def intr_off_def Let_def st_cpus st_sstatus
      wake_all_def st_procs cong: if_cong)

lemma rd_hw [simp]: "rd (push_off c s) = rd s" "rd (settle c s) = rd s" "rd (wake_all me ch s) = rd s"
  by (simp_all add: push_off_def settle_def set_cpu_def intr_off_def Let_def wake_all_def)

end

lemma wake_all_hw:
  "wake_all me ch (push_off c s) = push_off c (wake_all me ch s)" "wake_all me ch (settle c s) = settle c (wake_all me ch s)"
  by (simp_all add: wake_all_def push_off_procs settle_procs cong: if_cong)

lemma wake_all_frame [simp]: "cpus (wake_all me ch s) = cpus s" "sstatus (wake_all me ch s) = sstatus s"
  "intr_get c (wake_all me ch s) = intr_get c s" "hart_ok c (wake_all me ch s) = hart_ok c s"
  "quiet c (wake_all me ch s) = quiet c s"
  by (simp_all add: wake_all_def intr_get_def hart_ok_def quiet_def)

lemma quiet_push_off [simp]: "quiet c s \<Longrightarrow> quiet c (push_off c s)"
  by (simp add: quiet_def)

lemma wake_pid [simp]: "p_pid (wake me ch i p) = p_pid p"
  by (simp add: wake_def)

text \<open>
  What a call that may wake sleepers leaves alone: all of the kernel but the saved enable bits and
  the state of processes that were asleep. The enable bit saved by an open critical section stays.
\<close>

definition krest :: "'a kern_scheme \<Rightarrow> spinlock \<times> u64 \<times> mem \<times> u64 \<times> nat option \<times> int \<times> spinlock \<times> spinlock \<times> spinlock \<times> u32 \<times>
    (nat \<Rightarrow> u64) \<times> (nat \<Rightarrow> u64) \<times> nat" where
  "krest s = (kmem_lock s, freelist s, memory s, kend s, initproc s, nextpid s, pid_lock s, wait_lock s, tickslock s,
     ticks s, sstatus s, clk s, nclk s)"

definition woken :: "proc \<Rightarrow> proc \<Rightarrow> bool" where
  "woken p q \<longleftrightarrow> q = p \<or> p_state p = SLEEPING \<and> q = p\<lparr>p_state := RUNNABLE\<rparr>"

definition kframe :: "'a kern_scheme \<Rightarrow> 'a kern_scheme \<Rightarrow> bool" where
  "kframe s s' \<longleftrightarrow> krest s' = krest s \<and> (\<forall>i. woken (procs s i) (procs s' i)) \<and>
     (\<forall>d. cpu_proc (cpus s' d) = cpu_proc (cpus s d) \<and> noff (cpus s' d) = noff (cpus s d) \<and>
       (noff (cpus s d) \<noteq> 0 \<longrightarrow> intena (cpus s' d) = intena (cpus s d)))"

lemma woken_trans: "woken p q \<Longrightarrow> woken q r \<Longrightarrow> woken p r"
  by (auto simp: woken_def)

lemma kframe_refl [simp]: "kframe s s"
  by (simp add: kframe_def woken_def)

lemma kframe_trans: "kframe s s1 \<Longrightarrow> kframe s1 s2 \<Longrightarrow> kframe s s2"
  unfolding kframe_def by (elim conjE) (intro conjI allI, simp_all, blast intro: woken_trans)

lemma kframe_proc: "kframe s s' \<Longrightarrow> p_lock (procs s' i) = p_lock (procs s i) \<and> p_pid (procs s' i) = p_pid (procs s i)"
  unfolding kframe_def woken_def by (elim conjE allE [of _ i] disjE) simp_all

lemma krest_settle [simp]: "krest (settle c s) = krest s"
  by (simp add: krest_def settle_def set_cpu_def)

lemma settle_intena [simp]: "noff (cpus s d) \<noteq> 0 \<Longrightarrow> intena (cpus (settle c s) d) = intena (cpus s d)"
  by (auto simp: settle_def set_cpu_def)

lemma kframe_settle [simp]: "kframe s (settle c s') = kframe s s'"
  by (auto simp: kframe_def)

lemma kframe_wake: "kframe s s' \<Longrightarrow> kframe s (wake_all me ch s')"
  by (erule kframe_trans) (auto simp: kframe_def krest_def wake_all_def wake_def woken_def)

text \<open>Thread \<open>p\<close> runs on hart \<open>c\<close>, outside every critical section of a process lock.\<close>

definition runs :: "nat \<Rightarrow> nat \<Rightarrow> 'a kern_scheme \<Rightarrow> bool" where
  "runs c p s \<longleftrightarrow> quiet c s \<and> cpu_proc (cpus s c) = Some p"

lemma runs_hart: "runs c p s \<Longrightarrow> hart_ok c s"
  by (simp add: runs_def quiet_def)

lemma runs_kframe: "kframe s s' \<Longrightarrow> runs c p s' = runs c p s"
  using kframe_proc [of s s'] by (simp add: runs_def quiet_def hart_ok_def intr_get_def kframe_def krest_def)

text \<open>Closing a critical section after calls that left the rest of the kernel alone.\<close>

lemma pop_kframe:
  assumes "hart_ok c s" and "kframe (push_off c s) s2"
  shows "\<exists>s3. pop_off c s2 = Ok s3 \<and> kframe s s3 \<and> hw.more s3 = hw.more s2"
proof -
  have k: "krest s2 = krest (push_off c s)" "\<And>i. woken (procs s i) (procs s2 i)"
    and cp: "\<And>d. cpu_proc (cpus s2 d) = cpu_proc (cpus (push_off c s) d)" "\<And>d. noff (cpus s2 d) = noff (cpus (push_off c s) d)"
    "\<And>d. noff (cpus (push_off c s) d) \<noteq> 0 \<Longrightarrow> intena (cpus s2 d) = intena (cpus (push_off c s) d)"
    using assms(2) by (auto simp: kframe_def)
  obtain s' where p: "pop_off c (push_off c s) = Ok s'" "s' = settle c s" using pop_push [OF assms(1)] by simp
  have n: "noff (cpus (push_off c s) c) \<noteq> 0" using assms(1) by (simp add: push_off_def Let_def set_cpu_def hart_ok_def)
  have st: "sstatus s2 = sstatus (push_off c s)" using k(1) by (simp add: krest_def)
  then have i: "intr_get c s2 = intr_get c (push_off c s)" by (simp add: intr_get_def)
  have "\<exists>s3. pop_off c s2 = Ok s3 \<and> hw.more s3 = hw.more s2 \<and> sstatus s3 = sstatus s' \<and> clk s3 = clk s2 \<and> nclk s3 = nclk s2 \<and>
      cpus s3 = (cpus s2)(c := noff_update (\<lambda>n. n - 1) (cpus s2 c)) \<and> cpus s' = (cpus (push_off c s))(c := noff_update (\<lambda>n. n - 1) (cpus (push_off c s) c))"
    using p(1) i cp(2) [of c] cp(3) [OF n] st
    by (auto simp: pop_off_def Let_def set_cpu_def intr_on_def split: if_splits)
  then obtain s3 where s3: "pop_off c s2 = Ok s3" "hw.more s3 = hw.more s2" "sstatus s3 = sstatus s'" "clk s3 = clk s2" "nclk s3 = nclk s2"
    "cpus s3 = (cpus s2)(c := noff_update (\<lambda>n. n - 1) (cpus s2 c))"
    "cpus s' = (cpus (push_off c s))(c := noff_update (\<lambda>n. n - 1) (cpus (push_off c s) c))" by blast
  have m: "procs s3 = procs s2 \<and> kmem_lock s3 = kmem_lock s2 \<and> freelist s3 = freelist s2 \<and> memory s3 = memory s2 \<and> kend s3 = kend s2 \<and>
      initproc s3 = initproc s2 \<and> nextpid s3 = nextpid s2 \<and> pid_lock s3 = pid_lock s2 \<and> wait_lock s3 = wait_lock s2 \<and>
      tickslock s3 = tickslock s2 \<and> ticks s3 = ticks s2"
    using s3(2) by (cases s3; cases s2) simp
  have "krest s3 = krest s"
    using k(1) m s3(3-5) p(2) by (simp add: krest_def push_off_def set_cpu_def intr_off_def Let_def)
  moreover have "cpu_proc (cpus s3 d) = cpu_proc (cpus s d) \<and> noff (cpus s3 d) = noff (cpus s d) \<and>
      (noff (cpus s d) \<noteq> 0 \<longrightarrow> intena (cpus s3 d) = intena (cpus s d))" for d
  proof -
    have q: "cpu_proc (cpus s' d) = cpu_proc (cpus s d)" "noff (cpus s' d) = noff (cpus s d)"
      "noff (cpus s d) \<noteq> 0 \<longrightarrow> intena (cpus s' d) = intena (cpus s d)" using p(2) by simp_all
    show ?thesis using q cp(1,2) [of d] cp(3) [of d] n unfolding s3(6,7) by (cases "d = c") simp_all
  qed
  ultimately have "kframe s s3" using k(2) m by (simp add: kframe_def)
  then show ?thesis using s3(1,2) by blast
qed

text \<open>A taken lock, and the critical section of a spin lock in a cell.\<close>

definition taken :: "nat \<Rightarrow> spinlock \<Rightarrow> spinlock" where
  "taken c l = l\<lparr>locked := True, lk_cpu := Some c\<rparr>"

lemma taken_holding [simp]: "holding c (taken c l)" "locked (taken c l)"
  by (simp_all add: taken_def holding_def)

lemma taken_free: "lock_clean l \<Longrightarrow> (taken c l)\<lparr>lk_cpu := None, locked := False\<rparr> = l"
  by (cases l) (simp add: taken_def lock_clean_def)

locale spin_cell = kcell rd st
  for rd :: "'a kern_scheme \<Rightarrow> spinlock" and st :: "spinlock \<Rightarrow> 'a kern_scheme \<Rightarrow> 'a kern_scheme"
begin

lemma acquire_cell: "lock_clean (rd s) \<Longrightarrow> acquire_at rd st c s = Ok (st (taken c (rd s)) (push_off c s))"
  by (simp add: acquire_at_def acquire_free lock_clean_def taken_def)

lemma release_cell:
  assumes "hart_ok c s" and "lock_clean l"
  shows "release_at rd st c (st (taken c l) (push_off c s)) = Ok (st l (settle c s))"
  using assms by (simp add: release_at_def release_def st_hw pop_push taken_free)

lemma release_after:
  assumes "rd s = taken c l" and "lock_clean l" and "pop_off c s = Ok s'"
  shows "release_at rd st c s = Ok (st l s')"
  using assms by (simp add: release_at_def release_def taken_free)

text \<open>A critical section that updates other parts of the state.\<close>

lemma spin_section:
  assumes "hart_ok c s" and "lock_clean (rd s)"
    and "f (st (taken c (rd s)) (push_off c s)) = st (taken c (rd s)) (push_off c (f s))"
    and "hart_ok c (f s)" and "rd (f s) = rd s"
  shows "rbind (acquire_at rd st c s) (\<lambda>s1. release_at rd st c (f s1)) = Ok (settle c (f s))"
  using assms release_cell [OF assms(4,2)] st_rd [of "settle c (f s)"] by (simp add: acquire_cell)

end

locale sleep_cell = kcell rd st
  for rd :: "'a kern_scheme \<Rightarrow> sleeplock" and st :: "sleeplock \<Rightarrow> 'a kern_scheme \<Rightarrow> 'a kern_scheme"

sublocale sleep_cell \<subseteq> lk: spin_cell "lk_rd rd" "lk_st rd st"
  by unfold_locales (simp_all add: lk_rd_def lk_st_def st_cpus st_sstatus st_procs)

context sleep_cell
begin

lemma lk_st_eq: "lk_st rd st l s = st ((rd s)\<lparr>sl_lk := l\<rparr>) s"
  by (simp add: lk_st_def)

lemma acquiresleep_held:
  assumes "lock_clean (sl_lk (rd s))" and "sl_locked (rd s)"
  shows "acquiresleep rd st c s = Hang"
  using assms by (simp add: acquiresleep_def lk.acquire_cell lk_rd_def lk_st_def)

lemma acquiresleep_free:
  assumes "hart_ok c s" and "lock_clean (sl_lk (rd s))" and "\<not> sl_locked (rd s)" and "cpu_proc (cpus s c) = Some p"
  shows "acquiresleep rd st c s =
    Ok (settle c (st ((rd s)\<lparr>sl_locked := True, sl_pid := p_pid (procs s p)\<rparr>) s))"
proof -
  let ?l = "taken c (sl_lk (rd s))"
  have m: "myproc c (st (sl_locked_update (\<lambda>_. True) (sl_lk_update (\<lambda>_. ?l) (rd s))) (push_off c s)) =
      Ok (Some p, settle c (st (sl_locked_update (\<lambda>_. True) (sl_lk_update (\<lambda>_. ?l) (rd s))) (push_off c s)))"
    using assms(1,4) by (simp add: myproc_Ok push_off_proc)
  have "release_at (lk_rd rd) (lk_st rd st) c
      (st ((rd s)\<lparr>sl_lk := ?l, sl_locked := True, sl_pid := p_pid (procs s p)\<rparr>) (settle c (push_off c s))) =
      release_at (lk_rd rd) (lk_st rd st) c (lk_st rd st ?l (push_off c
        (st ((rd s)\<lparr>sl_locked := True, sl_pid := p_pid (procs s p)\<rparr>) s)))"
    using assms(1) by (simp add: lk_st_def st_hw settle_push_off)
  with m assms lk.release_cell [of c "st ((rd s)\<lparr>sl_locked := True, sl_pid := p_pid (procs s p)\<rparr>) s" "sl_lk (rd s)"]
  show ?thesis by (simp add: acquiresleep_def lk.acquire_cell lk_rd_def lk_st_def the_proc_def st_hw)
qed

lemma holdingsleep_effect:
  assumes "hart_ok c s" and "lock_clean (sl_lk (rd s))" and "cpu_proc (cpus s c) = Some p"
  shows "holdingsleep rd st c s = Ok (sl_locked (rd s) \<and> sl_pid (rd s) = p_pid (procs s p), settle c s)"
proof -
  let ?s1 = "lk_st rd st (taken c (lk_rd rd s)) (push_off c s)"
  have m: "myproc c ?s1 = Ok (Some p, ?s1)"
    using assms(1,3) by (simp add: myproc_Ok push_off_proc lk_st_def st_hw settle_push_off)
  have r: "release_at (lk_rd rd) (lk_st rd st) c ?s1 = Ok (settle c s)"
    using lk.release_cell [OF assms(1), of "lk_rd rd s"] assms(2) lk.st_rd [of "settle c s"]
    by (simp add: lk_rd_def)
  have rd1: "sl_locked (rd ?s1) = sl_locked (rd s)" "sl_pid (rd ?s1) = sl_pid (rd s)" "procs ?s1 = procs s"
    by (simp_all add: lk_st_def)
  show ?thesis
    using assms(2) m r rd1 by (simp add: holdingsleep_def lk.acquire_cell lk_rd_def [symmetric] the_proc_def)
qed

lemma releasesleep_effect:
  assumes "quiet c s" and "lock_clean (sl_lk (rd s))"
  shows "releasesleep rd st ch c s =
    Ok (settle c (wake_all (cpu_proc (cpus s c)) ch (st ((rd s)\<lparr>sl_locked := False, sl_pid := 0\<rparr>) s)))"
proof -
  let ?l = "taken c (sl_lk (rd s))"
  let ?w = "wake_all (cpu_proc (cpus s c)) ch"
  let ?x = "(rd s)\<lparr>sl_locked := False, sl_pid := 0\<rparr>"
  have h: "hart_ok c s" using assms(1) by (simp add: quiet_def)
  have "wakeup c ch (st ((rd s)\<lparr>sl_lk := ?l, sl_locked := False, sl_pid := 0\<rparr>) (push_off c s)) =
      Ok (settle c (?w (st ((rd s)\<lparr>sl_lk := ?l, sl_locked := False, sl_pid := 0\<rparr>) (push_off c s))))"
    using assms(1) by (subst wakeup_effect) (simp_all add: push_off_proc)
  also have "settle c (?w (st ((rd s)\<lparr>sl_lk := ?l, sl_locked := False, sl_pid := 0\<rparr>) (push_off c s))) =
      lk_st rd st ?l (push_off c (?w (st ?x s)))"
    using h by (simp add: st_hw wake_all_hw settle_push_off lk_st_def)
  finally show ?thesis
    using lk.release_cell [of c "?w (st ?x s)" "sl_lk (rd s)"] h assms(2)
    by (simp add: releasesleep_def lk.acquire_cell lk_rd_def lk_st_def st_hw wake_all_hw)
qed

end

end
