(* ===== verification/Bio.thy ===== *)
theory Bio
  imports Sleeplock
begin

text \<open>
  The buffer cache: \<^verbatim>\<open>kernel/bio.c\<close>. The buffers are numbered as in \<^verbatim>\<open>bcache.buf\<close>;
  \<^verbatim>\<open>bcache.head\<close> is the number \<open>NBUF\<close>, of which only the links are used. Under the cache
  is the disk: the contents it started with and the writes it has completed since, in order.
\<close>

section \<open>State\<close>

record buf =
  b_valid :: bool
  b_disk :: bool
  b_dev :: u32
  b_blockno :: u32
  b_lock :: sleeplock
  b_refcnt :: u32
  b_prev :: nat
  b_next :: nat
  b_data :: "u8 list"

record bkern = kern +
  bcache_lock :: spinlock
  bufs :: "nat \<Rightarrow> buf"
  disk0 :: "u32 \<Rightarrow> u8 list"
  dwrites :: "(u32 \<times> u8 list) list"

definition upd_buf :: "nat \<Rightarrow> (buf \<Rightarrow> buf) \<Rightarrow> 'a bkern_scheme \<Rightarrow> 'a bkern_scheme" where
  "upd_buf i f s = s\<lparr>bufs := (bufs s)(i := f (bufs s i))\<rparr>"

fun apply_writes :: "(u32 \<times> u8 list) list \<Rightarrow> (u32 \<Rightarrow> u8 list) \<Rightarrow> u32 \<Rightarrow> u8 list" where
  "apply_writes [] d = d"
| "apply_writes ((n, x) # ws) d = apply_writes ws (d(n := x))"

definition disk :: "'a bkern_scheme \<Rightarrow> u32 \<Rightarrow> u8 list" where
  "disk s = apply_writes (dwrites s) (disk0 s)"

text \<open>
  What \<^verbatim>\<open>virtio_disk_rw\<close> does for its callers once the device has answered. The driver
  addresses the disk by block number only.
\<close>

definition virtio_rw :: "nat \<Rightarrow> bool \<Rightarrow> 'a bkern_scheme \<Rightarrow> 'a bkern_scheme" where
  "virtio_rw b wr s =
     (if wr then upd_buf b (b_disk_update (\<lambda>_. False)) (s\<lparr>dwrites := dwrites s @ [(b_blockno (bufs s b), b_data (bufs s b))]\<rparr>)
      else upd_buf b (\<lambda>x. x\<lparr>b_disk := False, b_data := disk s (b_blockno x)\<rparr>) s)"

section \<open>Operations of bio.c\<close>

definition binit_body :: "nat \<Rightarrow> 'a bkern_scheme \<Rightarrow> 'a bkern_scheme" where
  "binit_body b s =
     (let s1 = upd_buf b (\<lambda>x. x\<lparr>b_next := b_next (bufs s NBUF), b_prev := NBUF, b_lock := initsleeplock ''buffer''\<rparr>) s;
          s2 = upd_buf (b_next (bufs s1 NBUF)) (b_prev_update (\<lambda>_. b)) s1
      in upd_buf NBUF (b_next_update (\<lambda>_. b)) s2)"

definition binit :: "'a bkern_scheme \<Rightarrow> 'a bkern_scheme" where
  "binit s =
     fold binit_body [0..<NBUF]
       (upd_buf NBUF (\<lambda>x. x\<lparr>b_prev := NBUF, b_next := NBUF\<rparr>) (s\<lparr>bcache_lock := initlock ''bcache''\<rparr>))"

definition b_rd :: "nat \<Rightarrow> 'a bkern_scheme \<Rightarrow> sleeplock" where
  "b_rd b s = b_lock (bufs s b)"

definition b_st :: "nat \<Rightarrow> sleeplock \<Rightarrow> 'a bkern_scheme \<Rightarrow> 'a bkern_scheme" where
  "b_st b l s = upd_buf b (b_lock_update (\<lambda>_. l)) s"

definition acquire_bcache :: "nat \<Rightarrow> 'a bkern_scheme \<Rightarrow> 'a bkern_scheme result" where
  "acquire_bcache = acquire_at bcache_lock (\<lambda>lk. bcache_lock_update (\<lambda>_. lk))"

definition release_bcache :: "nat \<Rightarrow> 'a bkern_scheme \<Rightarrow> 'a bkern_scheme result" where
  "release_bcache = release_at bcache_lock (\<lambda>lk. bcache_lock_update (\<lambda>_. lk))"

text \<open>The two scans of \<^verbatim>\<open>bget\<close>; \<open>n\<close> counts the tests of the loop condition.\<close>

fun bget_cached :: "nat \<Rightarrow> (nat \<Rightarrow> buf) \<Rightarrow> u32 \<Rightarrow> u32 \<Rightarrow> nat \<Rightarrow> nat option result" where
  "bget_cached 0 bs dev blockno b = Hang"
| "bget_cached (Suc n) bs dev blockno b =
     (if b = NBUF then Ok None
      else if b_dev (bs b) = dev \<and> b_blockno (bs b) = blockno then Ok (Some b)
      else bget_cached n bs dev blockno (b_next (bs b)))"

fun bget_unused :: "nat \<Rightarrow> (nat \<Rightarrow> buf) \<Rightarrow> nat \<Rightarrow> nat option result" where
  "bget_unused 0 bs b = Hang"
| "bget_unused (Suc n) bs b =
     (if b = NBUF then Ok None
      else if b_refcnt (bs b) = 0 then Ok (Some b)
      else bget_unused n bs (b_prev (bs b)))"

definition bget :: "nat \<Rightarrow> u32 \<Rightarrow> u32 \<Rightarrow> 'a bkern_scheme \<Rightarrow> (nat \<times> 'a bkern_scheme) result" where
  "bget c dev blockno s =
     rbind (acquire_bcache c s) (\<lambda>s1.
     rbind (bget_cached (Suc NBUF) (bufs s1) dev blockno (b_next (bufs s1 NBUF))) (\<lambda>hit.
     case hit of
       Some b \<Rightarrow>
         rbind (release_bcache c (upd_buf b (\<lambda>x. x\<lparr>b_refcnt := b_refcnt x + 1\<rparr>) s1)) (\<lambda>s2.
         rbind (acquiresleep (b_rd b) (b_st b) c s2) (\<lambda>s3. Ok (b, s3)))
     | None \<Rightarrow>
         rbind (bget_unused (Suc NBUF) (bufs s1) (b_prev (bufs s1 NBUF))) (\<lambda>unused.
         case unused of
           Some b \<Rightarrow>
             rbind (release_bcache c (upd_buf b (\<lambda>x. x\<lparr>b_dev := dev, b_blockno := blockno, b_valid := False,
                 b_refcnt := 1\<rparr>) s1)) (\<lambda>s2.
             rbind (acquiresleep (b_rd b) (b_st b) c s2) (\<lambda>s3. Ok (b, s3)))
         | None \<Rightarrow> Panic ''bget: no buffers'')))"

definition bread :: "nat \<Rightarrow> u32 \<Rightarrow> u32 \<Rightarrow> 'a bkern_scheme \<Rightarrow> (nat \<times> 'a bkern_scheme) result" where
  "bread c dev blockno s =
     rbind (bget c dev blockno s) (\<lambda>(b, s1).
       Ok (b, if \<not> b_valid (bufs s1 b)
              then upd_buf b (b_valid_update (\<lambda>_. True)) (virtio_rw b False s1) else s1))"

definition bwrite :: "nat \<Rightarrow> nat \<Rightarrow> 'a bkern_scheme \<Rightarrow> 'a bkern_scheme result" where
  "bwrite c b s =
     rbind (holdingsleep (b_rd b) (b_st b) c s) (\<lambda>(h, s1).
       if \<not> h then Panic ''bwrite'' else Ok (virtio_rw b True s1))"

text \<open>Taking a buffer out of the list and putting it at its front.\<close>

definition set_buf :: "nat \<Rightarrow> (buf \<Rightarrow> buf) \<Rightarrow> (nat \<Rightarrow> buf) \<Rightarrow> nat \<Rightarrow> buf" where
  "set_buf i f bs = bs(i := f (bs i))"

definition to_front :: "nat \<Rightarrow> (nat \<Rightarrow> buf) \<Rightarrow> nat \<Rightarrow> buf" where
  "to_front b bs =
     (let bs1 = set_buf (b_next (bs b)) (b_prev_update (\<lambda>_. b_prev (bs b))) bs;
          bs2 = set_buf (b_prev (bs1 b)) (b_next_update (\<lambda>_. b_next (bs1 b))) bs1;
          bs3 = set_buf b (b_next_update (\<lambda>_. b_next (bs2 NBUF))) bs2;
          bs4 = set_buf b (b_prev_update (\<lambda>_. NBUF)) bs3;
          bs5 = set_buf (b_next (bs4 NBUF)) (b_prev_update (\<lambda>_. b)) bs4
      in set_buf NBUF (b_next_update (\<lambda>_. b)) bs5)"

definition brelse :: "nat \<Rightarrow> nat \<Rightarrow> 'a bkern_scheme \<Rightarrow> 'a bkern_scheme result" where
  "brelse c b s =
     rbind (holdingsleep (b_rd b) (b_st b) c s) (\<lambda>(h, s1).
       if \<not> h then Panic ''brelse''
       else rbind (releasesleep (b_rd b) (b_st b) (BufLockChan b) c s1) (\<lambda>s2.
       rbind (acquire_bcache c s2) (\<lambda>s3.
       let s4 = upd_buf b (\<lambda>x. x\<lparr>b_refcnt := b_refcnt x - 1\<rparr>) s3
       in release_bcache c (if b_refcnt (bufs s4 b) = 0 then s4\<lparr>bufs := to_front b (bufs s4)\<rparr> else s4))))"

definition bpin :: "nat \<Rightarrow> nat \<Rightarrow> 'a bkern_scheme \<Rightarrow> 'a bkern_scheme result" where
  "bpin c b s =
     rbind (acquire_bcache c s) (\<lambda>s1.
       release_bcache c (upd_buf b (\<lambda>x. x\<lparr>b_refcnt := b_refcnt x + 1\<rparr>) s1))"

definition bunpin :: "nat \<Rightarrow> nat \<Rightarrow> 'a bkern_scheme \<Rightarrow> 'a bkern_scheme result" where
  "bunpin c b s =
     rbind (acquire_bcache c s) (\<lambda>s1.
       release_bcache c (upd_buf b (\<lambda>x. x\<lparr>b_refcnt := b_refcnt x - 1\<rparr>) s1))"

section \<open>Locks of the cache\<close>

lemma bufs_upd [simp]: "bufs (upd_buf i f s) = (bufs s)(i := f (bufs s i))"
  "cpus (upd_buf i f s) = cpus s" "sstatus (upd_buf i f s) = sstatus s" "procs (upd_buf i f s) = procs s"
  "bcache_lock (upd_buf i f s) = bcache_lock s" "dwrites (upd_buf i f s) = dwrites s" "disk0 (upd_buf i f s) = disk0 s"
  "disk (upd_buf i f s) = disk s" "hart_ok c (upd_buf i f s) = hart_ok c s" "quiet c (upd_buf i f s) = quiet c s"
  by (simp_all add: upd_buf_def disk_def hart_ok_def quiet_def intr_get_def)

lemma upd_buf_twice: "upd_buf i f (upd_buf i g s) = upd_buf i (f \<circ> g) s"
  by (simp add: upd_buf_def)

interpretation bl: sleep_cell "b_rd b" "b_st b"
  for b
  by unfold_locales (simp_all add: b_rd_def b_st_def upd_buf_def)

interpretation bc: spin_cell bcache_lock "\<lambda>lk. bcache_lock_update (\<lambda>_. lk)"
  by unfold_locales simp_all

lemma upd_buf_hw: "push_off c (upd_buf i f s) = upd_buf i f (push_off c s)"
  "settle c (upd_buf i f s) = upd_buf i f (settle c s)" "wake_all me ch (upd_buf i f s) = upd_buf i f (wake_all me ch s)"
  by (simp_all add: upd_buf_def hw_defs wake_all_def cong: if_cong)

lemma bufs_hw [simp]: "bufs (push_off c s) = bufs s" "bufs (settle c s) = bufs s" "bufs (wake_all me ch s) = bufs s"
  "bcache_lock (push_off c s) = bcache_lock s" "bcache_lock (settle c s) = bcache_lock s" "bcache_lock (wake_all me ch s) = bcache_lock s"
  "dwrites (settle c s) = dwrites s" "dwrites (wake_all me ch s) = dwrites s"
  "disk0 (settle c s) = disk0 s" "disk0 (wake_all me ch s) = disk0 s"
  "disk (settle c s) = disk s" "disk (wake_all me ch s) = disk s"
  by (simp_all add: hw_defs wake_all_def disk_def)

lemma bcache_lock_inner [simp]:
  "bcache_lock_update f (bufs_update g s) = bufs_update g (bcache_lock_update f s)"
  by simp

lemma bufs_update_hw: "push_off c (s\<lparr>bufs := bs\<rparr>) = (push_off c s)\<lparr>bufs := bs\<rparr>"
  "settle c (s\<lparr>bufs := bs\<rparr>) = (settle c s)\<lparr>bufs := bs\<rparr>" "hart_ok c (s\<lparr>bufs := bs\<rparr>) = hart_ok c s"
  by (simp_all add: hw_defs hart_ok_def)

lemma bcache_section:
  assumes "hart_ok c s" and "lock_clean (bcache_lock s)"
  shows "acquire_bcache c s = Ok ((push_off c s)\<lparr>bcache_lock := taken c (bcache_lock s)\<rparr>)"
    and "release_bcache c ((push_off c s)\<lparr>bcache_lock := taken c (bcache_lock s), bufs := bs\<rparr>) = Ok (settle c (s\<lparr>bufs := bs\<rparr>))"
    and "release_bcache c (upd_buf b f ((push_off c s)\<lparr>bcache_lock := taken c (bcache_lock s)\<rparr>)) = Ok (settle c (upd_buf b f s))"
proof -
  show "acquire_bcache c s = Ok ((push_off c s)\<lparr>bcache_lock := taken c (bcache_lock s)\<rparr>)"
    using bc.acquire_cell [OF assms(2)] by (simp add: acquire_bcache_def)
  have r: "release_bcache c ((push_off c s)\<lparr>bcache_lock := taken c (bcache_lock s), bufs := bs\<rparr>) = Ok (settle c (s\<lparr>bufs := bs\<rparr>))" for bs
  proof -
    have "(push_off c s)\<lparr>bcache_lock := taken c (bcache_lock s), bufs := bs\<rparr> =
        (push_off c (s\<lparr>bufs := bs\<rparr>))\<lparr>bcache_lock := taken c (bcache_lock s)\<rparr>"
      unfolding bufs_update_hw by simp
    then show ?thesis
      using bc.release_cell [of c "s\<lparr>bufs := bs\<rparr>" "bcache_lock s"] assms bc.st_rd [of "settle c (s\<lparr>bufs := bs\<rparr>)"]
      by (simp add: release_bcache_def bufs_update_hw)
  qed
  show "release_bcache c ((push_off c s)\<lparr>bcache_lock := taken c (bcache_lock s), bufs := bs\<rparr>) = Ok (settle c (s\<lparr>bufs := bs\<rparr>))"
    by (rule r)
  show "release_bcache c (upd_buf b f ((push_off c s)\<lparr>bcache_lock := taken c (bcache_lock s)\<rparr>)) = Ok (settle c (upd_buf b f s))"
    using r [of "(bufs s)(b := f (bufs s b))"] by (simp add: upd_buf_def)
qed

section \<open>The list of buffers\<close>

text \<open>Following \<open>f\<close> from \<open>x\<close> one meets \<open>xs\<close> and then \<open>y\<close>.\<close>

fun path :: "(nat \<Rightarrow> nat) \<Rightarrow> nat \<Rightarrow> nat list \<Rightarrow> nat \<Rightarrow> bool" where
  "path f x [] y \<longleftrightarrow> f x = y"
| "path f x (a # as) y \<longleftrightarrow> f x = a \<and> path f a as y"

lemma path_append: "path f x (as @ b # bs) y \<longleftrightarrow> path f x as b \<and> path f b bs y"
  by (induction "as" arbitrary: x) auto

lemma path_first: "path f x xs y \<Longrightarrow> f x = hd (xs @ [y])"
  by (cases xs) auto

lemma path_cong: "path f x xs y \<Longrightarrow> g x' = f x \<Longrightarrow> \<forall>a \<in> set xs. g a = f a \<Longrightarrow> path g x' xs y"
  by (induction xs arbitrary: x x') auto

lemma last_rev_hd: "last (x # rev xs) = hd (xs @ [x])"
  by (cases xs) auto

lemma path_unlink:
  assumes "path f x (ys @ b # zs) y" and "distinct (x # ys @ b # zs)"
  shows "path (f(last (x # ys) := f b)) x (ys @ zs) y"
  using assms
proof (induction ys arbitrary: x)
  case Nil
  have "path f b zs y" using Nil.prems by simp
  then show ?case using Nil.prems by (auto intro: path_cong)
next
  case (Cons a ys)
  have "path (f(last (a # ys) := f b)) a (ys @ zs) y" by (rule Cons.IH) (use Cons.prems in auto)
  moreover have "last (a # ys) \<in> set (a # ys)" by (rule last_in_set) simp
  then have "x \<noteq> last (a # ys)" using Cons.prems(2) by auto
  moreover have "last (x # a # ys) = last (a # ys)" by simp
  ultimately show ?case using Cons.prems(1) by (simp only: append_Cons path.simps fun_upd_other simp_thms)
qed

lemma path_extend:
  assumes "path f x xs y" and "distinct (x # xs)" and "b \<notin> set (x # xs)"
  shows "path (f(last (x # xs) := b, b := y)) x (xs @ [b]) y"
  using assms
proof (induction xs arbitrary: x)
  case (Cons a xs)
  have "path (f(last (a # xs) := b, b := y)) a (xs @ [b]) y" by (rule Cons.IH) (use Cons.prems in auto)
  moreover have "last (a # xs) \<in> set (a # xs)" by (rule last_in_set) simp
  then have "x \<noteq> last (a # xs)" using Cons.prems(2) by auto
  moreover have "last (x # a # xs) = last (a # xs)" "x \<noteq> b" using Cons.prems(3) by auto
  ultimately show ?case using Cons.prems(1) by (simp only: append_Cons path.simps fun_upd_other simp_thms)
qed auto

definition nexts :: "(nat \<Rightarrow> buf) \<Rightarrow> nat \<Rightarrow> nat" where
  "nexts bs b = b_next (bs b)"

definition prevs :: "(nat \<Rightarrow> buf) \<Rightarrow> nat \<Rightarrow> nat" where
  "prevs bs b = b_prev (bs b)"

text \<open>The links run through \<open>xs\<close>, most recently used first, in both directions.\<close>

definition linked :: "(nat \<Rightarrow> buf) \<Rightarrow> nat list \<Rightarrow> bool" where
  "linked bs xs \<longleftrightarrow> distinct xs \<and> NBUF \<notin> set xs \<and> path (nexts bs) NBUF xs NBUF \<and> path (prevs bs) NBUF (rev xs) NBUF"

lemma bget_cached_scan:
  assumes "path (nexts bs) x xs NBUF" and "NBUF \<notin> set xs" and "length xs < n"
  shows "bget_cached n bs dev blockno (b_next (bs x)) = Ok (find (\<lambda>b. b_dev (bs b) = dev \<and> b_blockno (bs b) = blockno) xs)"
  using assms
proof (induction xs arbitrary: x n)
  case Nil
  then show ?case by (cases n) (auto simp: nexts_def)
next
  case (Cons a xs)
  then show ?case by (cases n) (auto simp: nexts_def)
qed

lemma bget_unused_scan:
  assumes "path (prevs bs) x xs NBUF" and "NBUF \<notin> set xs" and "length xs < n"
  shows "bget_unused n bs (b_prev (bs x)) = Ok (find (\<lambda>b. b_refcnt (bs b) = 0) xs)"
  using assms
proof (induction xs arbitrary: x n)
  case Nil
  then show ?case by (cases n) (auto simp: prevs_def)
next
  case (Cons a xs)
  then show ?case by (cases n) (auto simp: prevs_def)
qed

lemma links_upd [simp]:
  "nexts (bs(i := b_next_update (\<lambda>_. v) (bs i))) = (nexts bs)(i := v)"
  "prevs (bs(i := b_next_update (\<lambda>_. v) (bs i))) = prevs bs"
  "nexts (bs(i := b_prev_update (\<lambda>_. v) (bs i))) = nexts bs"
  "prevs (bs(i := b_prev_update (\<lambda>_. v) (bs i))) = (prevs bs)(i := v)"
  by (auto simp: nexts_def prevs_def)

lemma to_front_links:
  assumes "p = prevs bs b" and "n = nexts bs b" and "b \<noteq> NBUF" and "n \<noteq> b" and "p \<noteq> b"
  defines "h \<equiv> ((nexts bs)(p := n)) NBUF"
  shows "nexts (to_front b bs) = (nexts bs)(p := n, b := h, NBUF := b)"
    and "prevs (to_front b bs) = (prevs bs)(n := p, b := NBUF, h := b)"
  using assms(3-5) assms(3,4) [symmetric] unfolding assms(1,2) h_def
  by (simp_all only: to_front_def Let_def set_buf_def nexts_def [symmetric] prevs_def [symmetric] links_upd)
    (simp_all only: fun_upd_other [of b] fun_upd_other [of NBUF b] simp_thms)

lemma to_front_linked:
  assumes "linked bs (ys @ b # zs)"
  shows "linked (to_front b bs) (b # ys @ zs)"
proof -
  let ?nx = "nexts bs" and ?pv = "prevs bs"
  have d: "distinct (NBUF # ys @ b # zs)" "distinct (NBUF # rev zs @ b # rev ys)"
    and f: "path ?nx NBUF (ys @ b # zs) NBUF" and r: "path ?pv NBUF (rev zs @ b # rev ys) NBUF"
    using assms by (auto simp: linked_def)
  have n: "?nx b = last (NBUF # rev zs)" using f path_first [of ?nx b zs NBUF] by (simp only: path_append last_rev_hd)
  have p: "?pv b = last (NBUF # ys)"
    using r path_first [of ?pv b "rev ys" NBUF] last_rev_hd [of NBUF "rev ys"] by (simp add: path_append)
  have nb: "?nx b \<noteq> b" "?pv b \<noteq> b" "b \<noteq> NBUF"
    using d(1) last_in_set [of "NBUF # rev zs"] last_in_set [of "NBUF # ys"] unfolding n p by auto
  define h where "h = (?nx(?pv b := ?nx b)) NBUF"
  have f1: "path (?nx(?pv b := ?nx b)) NBUF (ys @ zs) NBUF" unfolding p by (rule path_unlink [OF f d(1)])
  have r1: "path (?pv(?nx b := ?pv b)) NBUF (rev zs @ rev ys) NBUF" unfolding n by (rule path_unlink [OF r d(2)])
  have h: "h = last (NBUF # rev zs @ rev ys)"
    using path_first [OF f1] last_rev_hd [of NBUF "ys @ zs"] by (simp add: h_def)
  note links = to_front_links [OF refl refl nb(3,1,2), folded h_def]
  have "path (nexts (to_front b bs)) NBUF (b # ys @ zs) NBUF"
    using d(1) unfolding links by (auto intro: path_cong [OF f1] simp: h_def)
  moreover have "path (?pv(?nx b := ?pv b, h := b, b := NBUF)) NBUF ((rev zs @ rev ys) @ [b]) NBUF"
    unfolding h by (rule path_extend [OF r1]) (use d(1) in auto)
  moreover have "h \<noteq> b" unfolding h using d(1) last_in_set [of "NBUF # rev zs @ rev ys"] by auto
  ultimately show ?thesis using d(1) unfolding linked_def links by (auto simp: fun_upd_twist)
qed

section \<open>What the cache holds\<close>

definition ROOTDEV :: u32 where "ROOTDEV = 1"

text \<open>
  The invariant: the links run through all buffers, no block is cached twice, and a buffer that
  nobody uses is unlocked and agrees with the disk, so that it may be recycled. A device
  number of 0 marks a buffer that has never been used.
\<close>

definition buf_ok :: "'a bkern_scheme \<Rightarrow> nat \<Rightarrow> bool" where
  "buf_ok s b \<longleftrightarrow> lock_clean (sl_lk (b_lock (bufs s b))) \<and> b_dev (bufs s b) \<in> {0, ROOTDEV} \<and>
     (b_dev (bufs s b) = 0 \<longrightarrow> \<not> b_valid (bufs s b)) \<and>
     (b_refcnt (bufs s b) = 0 \<longrightarrow> \<not> sl_locked (b_lock (bufs s b)) \<and>
       (b_valid (bufs s b) \<longrightarrow> b_data (bufs s b) = disk s (b_blockno (bufs s b))))"

definition caches :: "'a bkern_scheme \<Rightarrow> u32 \<Rightarrow> nat \<Rightarrow> bool" where
  "caches s n b \<longleftrightarrow> b_dev (bufs s b) = ROOTDEV \<and> b_blockno (bufs s b) = n"

definition bc_inv :: "'a bkern_scheme \<Rightarrow> nat list \<Rightarrow> bool" where
  "bc_inv s xs \<longleftrightarrow> linked (bufs s) xs \<and> set xs = {..<NBUF} \<and> lock_clean (bcache_lock s) \<and>
     (\<forall>b < NBUF. buf_ok s b) \<and> (\<forall>n. \<forall>a < NBUF. \<forall>b < NBUF. caches s n a \<longrightarrow> caches s n b \<longrightarrow> a = b)"

text \<open>The contents of a block as the kernel sees it.\<close>

definition blk :: "'a bkern_scheme \<Rightarrow> u32 \<Rightarrow> u8 list" where
  "blk s n = (case find (\<lambda>b. caches s n b \<and> b_valid (bufs s b)) [0..<NBUF] of
     Some b \<Rightarrow> b_data (bufs s b) | None \<Rightarrow> disk s n)"

definition locked_by :: "'a bkern_scheme \<Rightarrow> nat \<Rightarrow> nat \<Rightarrow> bool" where
  "locked_by s p b \<longleftrightarrow> sl_locked (b_lock (bufs s b)) \<and> sl_pid (b_lock (bufs s b)) = p_pid (procs s p)"

lemma runs_simps [simp]: "runs c p (settle c s) = runs c p s" "runs c p (upd_buf b f s') = runs c p s'"
  "runs c p (wake_all me ch s) = runs c p s"
  by (simp_all add: runs_def)

lemma blk_cached:
  assumes "bc_inv s xs" and "b < NBUF" and "caches s n b" and "b_valid (bufs s b)"
  shows "blk s n = b_data (bufs s b)"
proof -
  obtain a where a: "find (\<lambda>b. caches s n b \<and> b_valid (bufs s b)) [0..<NBUF] = Some a"
    using assms(2-4) by (cases "find (\<lambda>b. caches s n b \<and> b_valid (bufs s b)) [0..<NBUF]") (auto simp: find_None_iff)
  then have "a < NBUF" "caches s n a" by (auto simp: find_Some_iff)
  then have "a = b" using assms(1-3) unfolding bc_inv_def by blast
  with a show ?thesis by (simp add: blk_def)
qed

lemma blk_uncached: "\<forall>b < NBUF. \<not> (caches s n b \<and> b_valid (bufs s b)) \<Longrightarrow> blk s n = disk s n"
proof -
  assume "\<forall>b < NBUF. \<not> (caches s n b \<and> b_valid (bufs s b))"
  then have "find (\<lambda>b. caches s n b \<and> b_valid (bufs s b)) [0..<NBUF] = None" by (auto simp: find_None_iff)
  then show ?thesis by (simp add: blk_def)
qed

section \<open>Effects of the operations\<close>

definition own :: "nat \<Rightarrow> 'a bkern_scheme \<Rightarrow> sleeplock \<Rightarrow> sleeplock" where
  "own p s l = l\<lparr>sl_locked := True, sl_pid := p_pid (procs s p)\<rparr>"

lemma lock_buf:
  assumes "runs c p s" and "lock_clean (sl_lk (b_lock (bufs s b)))" and "\<not> sl_locked (b_lock (bufs s b))"
  shows "acquiresleep (b_rd b) (b_st b) c s = Ok (settle c (upd_buf b (\<lambda>x. x\<lparr>b_lock := own p s (b_lock x)\<rparr>) s))"
  using bl.acquiresleep_free [of c s b p] assms runs_hart [OF assms(1)]
  by (simp add: b_rd_def b_st_def runs_def own_def upd_buf_def)

lemma lru_length:
  assumes "bc_inv s xs"
  shows "length xs < Suc NBUF"
proof -
  have "distinct xs" "set xs = {..<NBUF}" using assms by (simp_all add: bc_inv_def linked_def)
  then have "length xs = NBUF" using distinct_card by fastforce
  then show ?thesis by simp
qed

lemma bget_effect:
  assumes "runs c p s" and "bc_inv s xs"
  shows "bget c ROOTDEV n s =
    (case find (caches s n) xs of
       Some b \<Rightarrow> if sl_locked (b_lock (bufs s b)) then Hang
         else Ok (b, settle c (upd_buf b (\<lambda>x. x\<lparr>b_refcnt := b_refcnt x + 1, b_lock := own p s (b_lock x)\<rparr>) s))
     | None \<Rightarrow>
         (case find (\<lambda>b. b_refcnt (bufs s b) = 0) (rev xs) of
            Some b \<Rightarrow> Ok (b, settle c (upd_buf b (\<lambda>x. x\<lparr>b_dev := ROOTDEV, b_blockno := n, b_valid := False, b_refcnt := 1,
              b_lock := own p s (b_lock x)\<rparr>) s))
          | None \<Rightarrow> Panic ''bget: no buffers''))"
proof -
  let ?s1 = "(push_off c s)\<lparr>bcache_lock := taken c (bcache_lock s)\<rparr>"
  note h = runs_hart [OF assms(1)]
  have cl: "lock_clean (bcache_lock s)" and lk: "linked (bufs s) xs" and sub: "set xs = {..<NBUF}"
    and ok: "\<And>b. b < NBUF \<Longrightarrow> buf_ok s b" using assms(2) by (auto simp: bc_inv_def)
  note sec = bcache_section [OF h cl]
  have c1: "bget_cached (Suc NBUF) (bufs s) ROOTDEV n (b_next (bufs s NBUF)) = Ok (find (caches s n) xs)"
    using bget_cached_scan [of "bufs s" NBUF xs "Suc NBUF"] lk lru_length [OF assms(2)]
    by (simp add: linked_def caches_def [abs_def])
  have c2: "bget_unused (Suc NBUF) (bufs s) (b_prev (bufs s NBUF)) = Ok (find (\<lambda>b. b_refcnt (bufs s b) = 0) (rev xs))"
    using bget_unused_scan [of "bufs s" NBUF "rev xs" "Suc NBUF"] lk lru_length [OF assms(2)] by (simp add: linked_def)
  show ?thesis
  proof (cases "find (caches s n) xs")
    case (Some b)
    then have "b \<in> set xs" by (auto simp: find_Some_iff)
    then have okb: "lock_clean (sl_lk (b_lock (bufs s b)))" using sub ok by (auto simp: buf_ok_def)
    let ?s2 = "settle c (upd_buf b (\<lambda>x. x\<lparr>b_refcnt := b_refcnt x + 1\<rparr>) s)"
    have "acquiresleep (b_rd b) (b_st b) c ?s2 = (if sl_locked (b_lock (bufs s b)) then Hang
        else Ok (settle c (upd_buf b (\<lambda>x. x\<lparr>b_refcnt := b_refcnt x + 1, b_lock := own p s (b_lock x)\<rparr>) s)))"
      using okb assms(1) lock_buf [of c p ?s2 b] bl.acquiresleep_held [of b ?s2]
      by (simp add: b_rd_def upd_buf_hw upd_buf_twice o_def own_def)
    then show ?thesis using Some c1 sec by (simp add: bget_def del: bget_cached.simps)
  next
    case None
    show ?thesis
    proof (cases "find (\<lambda>b. b_refcnt (bufs s b) = 0) (rev xs)")
      case (Some b)
      then have "b \<in> set xs" "b_refcnt (bufs s b) = 0" by (auto simp: find_Some_iff) (metis nth_mem set_rev length_rev)
      then have okb: "lock_clean (sl_lk (b_lock (bufs s b)))" "\<not> sl_locked (b_lock (bufs s b))"
        using sub ok by (auto simp: buf_ok_def)
      let ?s2 = "settle c (upd_buf b (\<lambda>x. x\<lparr>b_dev := ROOTDEV, b_blockno := n, b_valid := False, b_refcnt := 1\<rparr>) s)"
      have "acquiresleep (b_rd b) (b_st b) c ?s2 =
          Ok (settle c (upd_buf b (\<lambda>x. x\<lparr>b_dev := ROOTDEV, b_blockno := n, b_valid := False, b_refcnt := 1, b_lock := own p s (b_lock x)\<rparr>) s))"
        using okb assms(1) lock_buf [of c p ?s2 b]
        by (simp add: b_rd_def upd_buf_hw upd_buf_twice o_def own_def)
      then show ?thesis using None Some c1 c2 sec by (simp add: bget_def del: bget_cached.simps bget_unused.simps)
    qed (use None c1 c2 sec in \<open>simp add: bget_def del: bget_cached.simps bget_unused.simps\<close>)
  qed
qed

lemma bwrite_effect:
  assumes "runs c p s" and "lock_clean (sl_lk (b_lock (bufs s b)))"
  shows "bwrite c b s = (if locked_by s p b then Ok (virtio_rw b True (settle c s)) else Panic ''bwrite'')"
  using bl.holdingsleep_effect [of c s b p] assms runs_hart [OF assms(1)]
  by (simp add: bwrite_def runs_def b_rd_def locked_by_def)

lemma brelse_effect:
  assumes "runs c p s" and "lock_clean (sl_lk (b_lock (bufs s b)))" and "lock_clean (bcache_lock s)" and "locked_by s p b"
  defines "s1 \<equiv> wake_all (Some p) (BufLockChan b)
      (upd_buf b (\<lambda>x. x\<lparr>b_refcnt := b_refcnt x - 1, b_lock := (b_lock x)\<lparr>sl_locked := False, sl_pid := 0\<rparr>\<rparr>) s)"
  shows "brelse c b s = Ok (settle c (if b_refcnt (bufs s b) = 1 then s1\<lparr>bufs := to_front b (bufs s1)\<rparr> else s1))"
proof -
  let ?s0 = "wake_all (Some p) (BufLockChan b) (upd_buf b (\<lambda>x. x\<lparr>b_lock := (b_lock x)\<lparr>sl_locked := False, sl_pid := 0\<rparr>\<rparr>) s)"
  note h = runs_hart [OF assms(1)]
  have e: "holdingsleep (b_rd b) (b_st b) c s = Ok (True, settle c s)"
    using bl.holdingsleep_effect [of c s b p] assms(1,2,4) h by (simp add: runs_def b_rd_def locked_by_def)
  have r: "releasesleep (b_rd b) (b_st b) (BufLockChan b) c (settle c s) = Ok (settle c ?s0)"
  proof -
    have "settle c (wake_all (Some p) (BufLockChan b) (b_st b ((b_rd b s)\<lparr>sl_locked := False, sl_pid := 0\<rparr>) (settle c s))) = settle c ?s0"
      by (simp add: b_st_def upd_buf_hw wake_all_hw [symmetric] b_rd_def) (simp add: upd_buf_def wake_all_hw bufs_update_hw)
    then show ?thesis using bl.releasesleep_effect [of c "settle c s" b "BufLockChan b"] assms(1,2)
      by (simp add: runs_def b_rd_def)
  qed
  have h0: "hart_ok c (settle c ?s0)" "lock_clean (bcache_lock (settle c ?s0))" using h assms(3) by simp_all
  define S where "S = settle c ?s0"
  have s1: "S\<lparr>bufs := bs\<rparr> = settle c (s1\<lparr>bufs := bs\<rparr>)" for bs
    unfolding S_def s1_def by (simp add: upd_buf_hw bufs_update_hw) (simp add: upd_buf_def)
  have b1: "(bufs S)(b := (bufs S b)\<lparr>b_refcnt := b_refcnt (bufs S b) - 1\<rparr>) = bufs s1"
    unfolding S_def s1_def by (simp add: fun_eq_iff)
  have "S\<lparr>bufs := bufs s1\<rparr> = settle c s1" using s1 [of "bufs s1"] by simp
  note sec = bcache_section [OF h0, folded S_def]
  have u: "upd_buf b (\<lambda>x. x\<lparr>b_refcnt := b_refcnt x - 1\<rparr>) ((push_off c S)\<lparr>bcache_lock := taken c (bcache_lock S)\<rparr>) =
      (push_off c S)\<lparr>bcache_lock := taken c (bcache_lock S), bufs := bufs s1\<rparr>"
    using b1 by (simp add: upd_buf_def)
  have "rbind (acquire_bcache c S) (\<lambda>s3. let s4 = upd_buf b (\<lambda>x. x\<lparr>b_refcnt := b_refcnt x - 1\<rparr>) s3
       in release_bcache c (if b_refcnt (bufs s4 b) = 0 then s4\<lparr>bufs := to_front b (bufs s4)\<rparr> else s4)) =
     Ok (settle c (if b_refcnt (bufs s1 b) = 0 then s1\<lparr>bufs := to_front b (bufs s1)\<rparr> else s1))"
    using sec(2) [of "bufs s1"] sec(2) [of "to_front b (bufs s1)"] s1 [of "to_front b (bufs s1)"] s1 [of "bufs s1"]
    by (simp add: sec(1) u Let_def del: bufs_upd)
  moreover have "b_refcnt (bufs s1 b) = 0 \<longleftrightarrow> b_refcnt (bufs s b) = 1" unfolding s1_def by simp
  ultimately show ?thesis using e r by (simp add: brelse_def S_def)
qed

lemma pin_effect:
  assumes "runs c p s" and "lock_clean (bcache_lock s)"
  shows "bpin c b s = Ok (settle c (upd_buf b (\<lambda>x. x\<lparr>b_refcnt := b_refcnt x + 1\<rparr>) s))"
    and "bunpin c b s = Ok (settle c (upd_buf b (\<lambda>x. x\<lparr>b_refcnt := b_refcnt x - 1\<rparr>) s))"
  using bcache_section [OF runs_hart [OF assms(1)] assms(2)] by (simp_all add: bpin_def bunpin_def)

section \<open>The cache as a store of blocks\<close>

text \<open>A buffer without its links.\<close>

definition core :: "buf \<Rightarrow> buf" where
  "core x = x\<lparr>b_prev := 0, b_next := 0\<rparr>"

lemma coreD:
  assumes "core x = core y"
  shows "b_valid x = b_valid y" "b_dev x = b_dev y" "b_blockno x = b_blockno y" "b_lock x = b_lock y"
    "b_refcnt x = b_refcnt y" "b_data x = b_data y"
  using arg_cong [OF assms, of b_valid] arg_cong [OF assms, of b_dev] arg_cong [OF assms, of b_blockno]
    arg_cong [OF assms, of b_lock] arg_cong [OF assms, of b_refcnt] arg_cong [OF assms, of b_data]
  by (simp_all add: core_def)

lemma core_link [simp]: "core (b_prev_update f x) = core x" "core (b_next_update f x) = core x"
  by (simp_all add: core_def)

lemma core_to_front: "core (to_front b bs i) = core (bs i)"
proof -
  have "core (set_buf j f bs i) = core (bs i)" if "\<And>x. core (f x) = core x" for j f bs
    using that by (simp add: set_buf_def)
  then show ?thesis by (simp add: to_front_def Let_def)
qed

lemma linked_cong: "linked bs xs \<Longrightarrow> (\<And>i. b_next (bs' i) = b_next (bs i)) \<Longrightarrow> (\<And>i. b_prev (bs' i) = b_prev (bs i)) \<Longrightarrow> linked bs' xs"
proof -
  assume a: "linked bs xs" and "\<And>i. b_next (bs' i) = b_next (bs i)" and "\<And>i. b_prev (bs' i) = b_prev (bs i)"
  then have "nexts bs' = nexts bs" "prevs bs' = prevs bs" by (simp_all add: nexts_def prevs_def fun_eq_iff)
  with a show "linked bs' xs" by (simp add: linked_def)
qed

text \<open>The invariant after a change to one buffer.\<close>

lemma bc_inv_change:
  assumes "bc_inv s xs" and "linked (bufs s') ys" and "set ys = {..<NBUF}" and "bcache_lock s' = bcache_lock s"
    and "\<forall>a < NBUF. a \<noteq> b \<longrightarrow> core (bufs s' a) = core (bufs s a)"
    and "\<forall>a < NBUF. a \<noteq> b \<longrightarrow> caches s (b_blockno (bufs s a)) a \<longrightarrow> disk s' (b_blockno (bufs s a)) = disk s (b_blockno (bufs s a))"
    and "buf_ok s' b"
    and "\<forall>n. caches s' n b \<longrightarrow> (\<forall>a < NBUF. a \<noteq> b \<longrightarrow> \<not> caches s n a)"
  shows "bc_inv s' ys"
proof -
  have cc: "caches s' n a = caches s n a" if "a < NBUF" "a \<noteq> b" for a n
    using assms(5) that coreD [of "bufs s' a" "bufs s a"] by (simp add: caches_def)
  have "buf_ok s' a" if "a < NBUF" for a
  proof (cases "a = b")
    case False
    note c = coreD [OF assms(5) [rule_format, OF that False]]
    have o: "buf_ok s a" using assms(1) that by (simp add: bc_inv_def)
    have "b_valid (bufs s a) \<Longrightarrow> disk s' (b_blockno (bufs s a)) = disk s (b_blockno (bufs s a))"
      using assms(6) that False o by (auto simp: buf_ok_def caches_def)
    then show ?thesis using o c by (simp add: buf_ok_def)
  qed (use assms(7) in simp)
  moreover have "x = y" if "x < NBUF" "y < NBUF" "caches s' n x" "caches s' n y" for n x y
  proof (cases "x = b \<or> y = b")
    case True
    then show ?thesis using that cc assms(8) by metis
  next
    case False
    then show ?thesis using that cc assms(1) unfolding bc_inv_def by blast
  qed
  moreover have "lock_clean (bcache_lock s')" using assms(1,4) by (simp add: bc_inv_def)
  ultimately show ?thesis using assms(2,3) by (simp add: bc_inv_def)
qed

lemma blk_other:
  assumes "bc_inv s xs" and "bc_inv s' ys" and "\<forall>a < NBUF. a \<noteq> b \<longrightarrow> core (bufs s' a) = core (bufs s a)"
    and "\<not> (caches s n b \<and> b_valid (bufs s b))" and "\<not> (caches s' n b \<and> b_valid (bufs s' b))" and "disk s' n = disk s n"
  shows "blk s' n = blk s n"
proof -
  have c: "caches s' n a = caches s n a" "b_valid (bufs s' a) = b_valid (bufs s a)" "b_data (bufs s' a) = b_data (bufs s a)"
    if "a < NBUF" "a \<noteq> b" for a
    using assms(3) that coreD [of "bufs s' a" "bufs s a"] by (simp_all add: caches_def)
  show ?thesis
  proof (cases "\<exists>a < NBUF. caches s n a \<and> b_valid (bufs s a)")
    case True
    then obtain a where a: "a < NBUF" "caches s n a" "b_valid (bufs s a)" by blast
    then have "a \<noteq> b" using assms(4) by blast
    with a c show ?thesis using blk_cached [OF assms(1) a] blk_cached [OF assms(2) a(1)] by simp
  next
    case False
    then have "\<forall>a < NBUF. \<not> (caches s' n a \<and> b_valid (bufs s' a))" using c assms(5) by metis
    with False show ?thesis using blk_uncached [of s n] blk_uncached [of s' n] assms(6) by simp
  qed
qed

lemma caches_unique: "bc_inv s xs \<Longrightarrow> a < NBUF \<Longrightarrow> b < NBUF \<Longrightarrow> caches s n a \<Longrightarrow> caches s n b \<Longrightarrow> a = b"
  unfolding bc_inv_def by blast

text \<open>A buffer taken over for block \<open>n\<close>: what it held before, if anything, is on the disk.\<close>

lemma blk_same:
  assumes inv: "bc_inv s xs" "bc_inv s' ys" and b: "b < NBUF" and other: "\<forall>a < NBUF. a \<noteq> b \<longrightarrow> core (bufs s' a) = core (bufs s a)"
    and d: "disk s' = disk s" and me: "caches s' n b" "b_valid (bufs s' b)" and dat: "b_data (bufs s' b) = blk s n"
    and old: "\<forall>m. m \<noteq> n \<longrightarrow> caches s m b \<longrightarrow> b_valid (bufs s b) \<longrightarrow> b_data (bufs s b) = disk s m"
  shows "blk s' = blk s"
proof
  fix m
  show "blk s' m = blk s m"
  proof (cases "m = n")
    case True
    then show ?thesis using blk_cached [OF inv(2) b me] dat by simp
  next
    case False
    then have nc: "\<not> caches s' m b" using me(1) by (simp add: caches_def)
    show ?thesis
    proof (cases "caches s m b \<and> b_valid (bufs s b)")
      case True
      then have "blk s m = disk s m" using old False blk_cached [OF inv(1) b] by simp
      moreover have "\<not> caches s' m a" if "a < NBUF" for a
      proof (cases "a = b")
        case ne: False
        then have "caches s' m a = caches s m a" using other that coreD [of "bufs s' a" "bufs s a"] by (simp add: caches_def)
        then show ?thesis using ne caches_unique [OF inv(1) that b] True by blast
      qed (use nc in simp)
      ultimately show ?thesis using blk_uncached [of s' m] d by simp
    next
      case no: False
      show ?thesis by (rule blk_other [OF inv other no]) (use nc d in simp_all)
    qed
  qed
qed

text \<open>
  Thread \<open>p\<close> has got the buffer \<open>b\<close> of block \<open>n\<close>: locked, filled, and nothing else has changed.
\<close>

definition got :: "nat \<Rightarrow> nat \<Rightarrow> u32 \<Rightarrow> 'a bkern_scheme \<Rightarrow> nat \<Rightarrow> 'a bkern_scheme \<Rightarrow> bool" where
  "got c p n s b s' \<longleftrightarrow> b < NBUF \<and> kframe s s' \<and> bkern.more s' = bkern.more s \<and> disk0 s' = disk0 s \<and> dwrites s' = dwrites s \<and>
     caches s' n b \<and> b_valid (bufs s' b) \<and> b_data (bufs s' b) = blk s n \<and> locked_by s' p b \<and>
     b_refcnt (bufs s' b) = (if caches s n b then b_refcnt (bufs s b) else 0) + 1 \<and>
     (\<forall>a. a \<noteq> b \<longrightarrow> bufs s' a = bufs s a) \<and> blk s' = blk s"

lemma find_mem: "find P xs = Some x \<Longrightarrow> x \<in> set xs \<and> P x"
  by (auto simp: find_Some_iff)

lemma kframe_upd_buf [simp]: "kframe s (upd_buf b f s') = kframe s s'" "bkern.more (upd_buf b f s) = bkern.more s"
  by (simp_all add: kframe_def krest_def upd_buf_def)

lemma kframe_bkern [simp]: "kframe s (s'\<lparr>bufs := bs\<rparr>) = kframe s s'" "kframe s (s'\<lparr>dwrites := ws\<rparr>) = kframe s s'"
  by (simp_all add: kframe_def krest_def)

lemma more_settle [simp]: "bkern.more (settle c s) = bkern.more s" "bkern.more (wake_all me ch s) = bkern.more s"
  by (simp_all add: settle_def set_cpu_def wake_all_def)

lemma bread_got:
  assumes "runs c p s" and "bc_inv s xs" and "b < NBUF"
    and "caches s n b \<and> \<not> sl_locked (b_lock (bufs s b)) \<and> b_refcnt (bufs s b) + 1 \<noteq> 0 \<and>
           f = (\<lambda>x. x\<lparr>b_refcnt := b_refcnt x + 1, b_lock := own p s (b_lock x)\<rparr>) \<or>
         (\<forall>a < NBUF. \<not> caches s n a) \<and> b_refcnt (bufs s b) = 0 \<and>
           f = (\<lambda>x. x\<lparr>b_dev := ROOTDEV, b_blockno := n, b_valid := False, b_refcnt := 1, b_lock := own p s (b_lock x)\<rparr>)"
    and "bget c ROOTDEV n s = Ok (b, settle c (upd_buf b f s))"
  shows "\<exists>s'. bread c ROOTDEV n s = Ok (b, s') \<and> got c p n s b s' \<and> bc_inv s' xs"
proof -
  define s1 where "s1 = settle c (upd_buf b f s)"
  define s' where "s' = (if \<not> b_valid (bufs s1 b) then upd_buf b (b_valid_update (\<lambda>_. True)) (virtio_rw b False s1) else s1)"
  have br: "bread c ROOTDEV n s = Ok (b, s')" using assms(5) by (simp add: bread_def s1_def s'_def)
  have okb: "buf_ok s b" using assms(2,3) by (simp add: bc_inv_def)
  have s': "s' = (if \<not> b_valid (bufs s1 b) then upd_buf b (\<lambda>x. x\<lparr>b_disk := False, b_data := disk s (b_blockno x), b_valid := True\<rparr>) s1 else s1)"
    by (simp add: s'_def virtio_rw_def upd_buf_twice o_def) (simp add: s1_def)
  have frame: "kframe s s'" "bkern.more s' = bkern.more s" "disk0 s' = disk0 s" "dwrites s' = dwrites s" "disk s' = disk s"
    "bcache_lock s' = bcache_lock s" "procs s' = procs s"
    by (simp_all add: s' s1_def)
  have other: "bufs s' a = bufs s a" if "a \<noteq> b" for a using that by (simp add: s' s1_def)
  have links: "b_next (bufs s' i) = b_next (bufs s i)" "b_prev (bufs s' i) = b_prev (bufs s i)" for i
    using assms(4) by (auto simp: s' s1_def)
  have me: "caches s' n b" "b_valid (bufs s' b)" "locked_by s' p b"
    "b_refcnt (bufs s' b) = (if caches s n b then b_refcnt (bufs s b) else 0) + 1"
    "b_refcnt (bufs s' b) \<noteq> 0" "lock_clean (sl_lk (b_lock (bufs s' b)))"
    using assms(3,4) okb by (auto simp: s' s1_def caches_def locked_by_def own_def buf_ok_def)
  have dat: "b_data (bufs s' b) = blk s n"
    using assms(4)
  proof (elim disjE conjE)
    assume c: "caches s n b" and f: "f = (\<lambda>x. x\<lparr>b_refcnt := b_refcnt x + 1, b_lock := own p s (b_lock x)\<rparr>)"
    show ?thesis
    proof (cases "b_valid (bufs s b)")
      case True
      then show ?thesis using blk_cached [OF assms(2,3) c] by (simp add: s' s1_def f)
    next
      case False
      then have "\<forall>a < NBUF. \<not> (caches s n a \<and> b_valid (bufs s a))" using caches_unique [OF assms(2) _ assms(3) _ c] by blast
      then show ?thesis using False c blk_uncached [of s n] by (simp add: s' s1_def f caches_def)
    qed
  next
    assume "\<forall>a < NBUF. \<not> caches s n a"
      and f: "f = (\<lambda>x. x\<lparr>b_dev := ROOTDEV, b_blockno := n, b_valid := False, b_refcnt := 1, b_lock := own p s (b_lock x)\<rparr>)"
    then show ?thesis using blk_uncached [of s n] by (simp add: s' s1_def f)
  qed
  have inv: "bc_inv s' xs"
  proof (rule bc_inv_change [OF assms(2), where b = b])
    show "linked (bufs s') xs" using assms(2) links by (auto simp: bc_inv_def intro: linked_cong)
    show "set xs = {..<NBUF}" using assms(2) by (simp add: bc_inv_def)
    show "buf_ok s' b" using me by (simp add: buf_ok_def caches_def ROOTDEV_def)
    show "\<forall>m. caches s' m b \<longrightarrow> (\<forall>a < NBUF. a \<noteq> b \<longrightarrow> \<not> caches s m a)"
      using me(1) assms(3,4) caches_unique [OF assms(2) _ assms(3)] by (auto simp: caches_def)
  qed (use other frame in simp_all)
  have "blk s' = blk s"
    by (rule blk_same [OF assms(2) inv assms(3) _ frame(5) me(1,2) dat]) (use other okb assms(4) in \<open>auto simp: caches_def buf_ok_def\<close>)
  with br inv frame other me dat assms(3) show ?thesis by (auto simp: got_def)
qed

lemma bread_cases:
  assumes "runs c p s" and "bc_inv s xs" and "\<forall>b < NBUF. b_refcnt (bufs s b) + 1 \<noteq> 0"
  shows "case find (caches s n) xs of
      Some b \<Rightarrow> if sl_locked (b_lock (bufs s b)) then bread c ROOTDEV n s = Hang
        else \<exists>s'. bread c ROOTDEV n s = Ok (b, s') \<and> got c p n s b s' \<and> bc_inv s' xs
    | None \<Rightarrow> case find (\<lambda>b. b_refcnt (bufs s b) = 0) (rev xs) of
        Some b \<Rightarrow> \<exists>s'. bread c ROOTDEV n s = Ok (b, s') \<and> got c p n s b s' \<and> bc_inv s' xs
      | None \<Rightarrow> bread c ROOTDEV n s = Panic ''bget: no buffers''"
proof -
  have sub: "set xs = {..<NBUF}" using assms(2) by (simp add: bc_inv_def)
  note g = bget_effect [OF assms(1,2), of n]
  show ?thesis
  proof (cases "find (caches s n) xs")
    case (Some b)
    then have b: "b < NBUF" "caches s n b" using find_mem [OF Some] sub by auto
    show ?thesis
    proof (cases "sl_locked (b_lock (bufs s b))")
      case True
      then show ?thesis using g Some by (simp add: bread_def)
    next
      case False
      have "\<exists>s'. bread c ROOTDEV n s = Ok (b, s') \<and> got c p n s b s' \<and> bc_inv s' xs"
        by (rule bread_got [OF assms(1,2) b(1) disjI1]) (use b False assms(3) g Some in auto)
      then show ?thesis using Some False by simp
    qed
  next
    case None
    then have nc: "\<forall>a < NBUF. \<not> caches s n a" using sub by (auto simp: find_None_iff)
    show ?thesis
    proof (cases "find (\<lambda>b. b_refcnt (bufs s b) = 0) (rev xs)")
      case (Some b)
      then have b: "b < NBUF" "b_refcnt (bufs s b) = 0" using find_mem [OF Some] sub by auto
      have "\<exists>s'. bread c ROOTDEV n s = Ok (b, s') \<and> got c p n s b s' \<and> bc_inv s' xs"
        by (rule bread_got [OF assms(1,2) b(1) disjI2]) (use b nc g None Some in auto)
      then show ?thesis using None Some by simp
    qed (use None g in \<open>simp add: bread_def\<close>)
  qed
qed

text \<open>
  C26: \<^verbatim>\<open>bread\<close> over the cache invariant. If the block is cached it returns that buffer, or
  waits if another thread has it; if not, it takes over the least recently used buffer that
  nobody uses, and panics exactly when there is none. The buffer it returns is locked by the
  caller and holds the contents of the block; no buffer other than the one returned changes,
  and every block has the contents it had.
\<close>

theorem bread_correct:
  assumes "runs c p s" and "bc_inv s xs" and "\<forall>b < NBUF. b_refcnt (bufs s b) + 1 \<noteq> 0"
  shows "case find (caches s n) xs of
      Some b \<Rightarrow> if sl_locked (b_lock (bufs s b)) then bread c ROOTDEV n s = Hang
        else \<exists>s'. bread c ROOTDEV n s = Ok (b, s') \<and> got c p n s b s' \<and> bc_inv s' xs
    | None \<Rightarrow> case find (\<lambda>b. b_refcnt (bufs s b) = 0) (rev xs) of
        Some b \<Rightarrow> \<exists>s'. bread c ROOTDEV n s = Ok (b, s') \<and> got c p n s b s' \<and> bc_inv s' xs
      | None \<Rightarrow> bread c ROOTDEV n s = Panic ''bget: no buffers''"
  by (rule bread_cases [OF assms])

lemma brelse_gives_back:
  assumes "runs c p s" and "bc_inv s xs" and "b < NBUF" and "locked_by s p b" and "b_refcnt (bufs s b) \<noteq> 0"
    and "b_refcnt (bufs s b) = 1 \<longrightarrow> b_valid (bufs s b) \<longrightarrow> b_data (bufs s b) = disk s (b_blockno (bufs s b))"
  shows "\<exists>s'. brelse c b s = Ok s' \<and> bc_inv s' (if b_refcnt (bufs s b) = 1 then b # remove1 b xs else xs) \<and>
    kframe s s' \<and> bkern.more s' = bkern.more s \<and> disk0 s' = disk0 s \<and> dwrites s' = dwrites s \<and>
    core (bufs s' b) = core ((bufs s b)\<lparr>b_refcnt := b_refcnt (bufs s b) - 1,
      b_lock := (b_lock (bufs s b))\<lparr>sl_locked := False, sl_pid := 0\<rparr>\<rparr>) \<and>
    (\<forall>a. a \<noteq> b \<longrightarrow> core (bufs s' a) = core (bufs s a)) \<and> blk s' = blk s"
proof -
  define s1 where "s1 = wake_all (Some p) (BufLockChan b)
      (upd_buf b (\<lambda>x. x\<lparr>b_refcnt := b_refcnt x - 1, b_lock := (b_lock x)\<lparr>sl_locked := False, sl_pid := 0\<rparr>\<rparr>) s)"
  define s' where "s' = settle c (if b_refcnt (bufs s b) = 1 then s1\<lparr>bufs := to_front b (bufs s1)\<rparr> else s1)"
  let ?ys = "if b_refcnt (bufs s b) = 1 then b # remove1 b xs else xs"
  have okb: "buf_ok s b" and sub: "set xs = {..<NBUF}" and lk: "linked (bufs s) xs" and bl: "lock_clean (bcache_lock s)"
    using assms(2,3) by (simp_all add: bc_inv_def)
  have br: "brelse c b s = Ok s'"
    using brelse_effect [OF assms(1) _ bl assms(4)] okb by (simp add: s'_def s1_def buf_ok_def)
  have core1: "core (bufs s' a) = core (bufs s1 a)" for a by (simp add: s'_def core_to_front)
  have cb: "core (bufs s' b) = core ((bufs s b)\<lparr>b_refcnt := b_refcnt (bufs s b) - 1,
      b_lock := (b_lock (bufs s b))\<lparr>sl_locked := False, sl_pid := 0\<rparr>\<rparr>)"
    unfolding core1 by (simp add: s1_def)
  have ca: "core (bufs s' a) = core (bufs s a)" if "a \<noteq> b" for a
    unfolding core1 using that by (simp add: s1_def)
  have frame: "kframe s s1" "bkern.more s' = bkern.more s" "disk0 s' = disk0 s" "dwrites s' = dwrites s" "disk s' = disk s"
    "bcache_lock s' = bcache_lock s"
    by (simp_all add: s'_def s1_def kframe_wake bufs_update_hw disk_def)
  then have kf: "kframe s s'" by (simp add: s'_def)
  note eb = coreD [OF cb]
  have lk1: "linked (bufs s1) xs" by (rule linked_cong [OF lk]) (simp_all add: s1_def)
  have link: "linked (bufs s') ?ys"
  proof (cases "b_refcnt (bufs s b) = 1")
    case True
    obtain ys zs where xs: "xs = ys @ b # zs" using sub assms(3) split_list [of b xs] by blast
    then have "b \<notin> set ys" using lk by (auto simp: linked_def)
    then have "remove1 b xs = ys @ zs" using xs by (simp add: remove1_append)
    then show ?thesis using True to_front_linked [of "bufs s1" ys b zs] lk1 xs by (simp add: s'_def)
  qed (use lk1 in \<open>simp add: s'_def\<close>)
  have inv: "bc_inv s' ?ys"
  proof (rule bc_inv_change [OF assms(2) link, where b = b])
    have "distinct xs" using lk by (simp add: linked_def)
    then show "set ?ys = {..<NBUF}" using sub assms(3) by auto
    show "buf_ok s' b" using okb eb frame assms(6) by (auto simp: buf_ok_def)
    show "\<forall>n. caches s' n b \<longrightarrow> (\<forall>a < NBUF. a \<noteq> b \<longrightarrow> \<not> caches s n a)"
      using eb caches_unique [OF assms(2) _ assms(3)] by (auto simp: caches_def)
  qed (use ca frame in simp_all)
  have "blk s' n = blk s n" for n
  proof (cases "caches s n b \<and> b_valid (bufs s b)")
    case True
    then show ?thesis using blk_cached [OF assms(2,3)] blk_cached [OF inv assms(3)] eb by (simp add: caches_def)
  next
    case False
    then show ?thesis using eb ca frame by (intro blk_other [OF assms(2) inv, where b = b]) (simp_all add: caches_def)
  qed
  then have "blk s' = blk s" by (simp add: fun_eq_iff)
  with br inv kf frame cb ca show ?thesis by blast
qed

lemma apply_writes_snoc: "apply_writes (ws @ [(n, x)]) d = (apply_writes ws d)(n := x)"
  by (induction ws d rule: apply_writes.induct) (simp_all del: fun_upd_apply)

lemma bwrite_through:
  assumes "runs c p s" and "bc_inv s xs" and "b < NBUF" and "locked_by s p b" and "caches s n b" and "b_valid (bufs s b)"
    and "b_refcnt (bufs s b) \<noteq> 0"
  shows "\<exists>s'. bwrite c b s = Ok s' \<and> bc_inv s' xs \<and> kframe s s' \<and> bkern.more s' = bkern.more s \<and> disk0 s' = disk0 s \<and>
    dwrites s' = dwrites s @ [(n, b_data (bufs s b))] \<and> disk s' = (disk s)(n := b_data (bufs s b)) \<and>
    bufs s' = (bufs s)(b := (bufs s b)\<lparr>b_disk := False\<rparr>) \<and> blk s' = blk s"
proof -
  define s' where "s' = virtio_rw b True (settle c s)"
  have okb: "buf_ok s b" and sub: "set xs = {..<NBUF}" and lk: "linked (bufs s) xs"
    using assms(2,3) by (simp_all add: bc_inv_def)
  have n: "b_blockno (bufs s b) = n" using assms(5) by (simp add: caches_def)
  have bw: "bwrite c b s = Ok s'" using bwrite_effect [OF assms(1), of b] okb assms(4) by (simp add: s'_def buf_ok_def)
  have bs: "bufs s' = (bufs s)(b := (bufs s b)\<lparr>b_disk := False\<rparr>)" by (simp add: s'_def virtio_rw_def)
  have d: "dwrites s' = dwrites s @ [(n, b_data (bufs s b))]" "disk0 s' = disk0 s" "bkern.more s' = bkern.more s" "kframe s s'"
    "bcache_lock s' = bcache_lock s"
    by (simp_all add: s'_def virtio_rw_def n)
  have dk: "disk s' = (disk s)(n := b_data (bufs s b))" by (simp add: disk_def d apply_writes_snoc)
  have other: "a \<noteq> b \<Longrightarrow> a < NBUF \<Longrightarrow> b_blockno (bufs s a) = n \<Longrightarrow> \<not> caches s n a" for a
    using caches_unique [OF assms(2) _ assms(3) _ assms(5)] by blast
  have inv: "bc_inv s' xs"
  proof (rule bc_inv_change [OF assms(2) _ sub d(5), where b = b])
    show "linked (bufs s') xs" by (rule linked_cong [OF lk]) (simp_all add: bs)
    show "buf_ok s' b" using okb assms(7) by (simp add: buf_ok_def bs)
    show "\<forall>m. caches s' m b \<longrightarrow> (\<forall>a < NBUF. a \<noteq> b \<longrightarrow> \<not> caches s m a)"
      using caches_unique [OF assms(2) _ assms(3)] by (auto simp: caches_def bs)
  qed (use other bs dk in auto)
  have "blk s' m = blk s m" for m
  proof (cases "m = n")
    case True
    then show ?thesis using blk_cached [OF assms(2,3,5,6)] blk_cached [OF inv assms(3), of n] assms(5,6) by (simp add: caches_def bs)
  next
    case False
    then show ?thesis using assms(5) dk
      by (intro blk_other [OF assms(2) inv, where b = b]) (simp_all add: bs caches_def)
  qed
  with bw inv d dk bs show ?thesis by (auto simp: fun_eq_iff)
qed

lemma set_data:
  fixes x :: "u8 list"
  assumes "bc_inv s xs" and "b < NBUF" and "caches s n b" and "b_valid (bufs s b)" and "b_refcnt (bufs s b) \<noteq> 0"
  defines "s' \<equiv> upd_buf b (b_data_update (\<lambda>_. x)) s"
  shows "bc_inv s' xs" and "blk s' = (blk s)(n := x)"
proof -
  have okb: "buf_ok s b" and sub: "set xs = {..<NBUF}" and lk: "linked (bufs s) xs"
    using assms(1,2) by (simp_all add: bc_inv_def)
  show inv: "bc_inv s' xs"
  proof (rule bc_inv_change [OF assms(1) _ sub, where b = b])
    show "linked (bufs s') xs" by (rule linked_cong [OF lk]) (simp_all add: s'_def)
    show "buf_ok s' b" using okb assms(5) by (simp add: buf_ok_def s'_def)
    show "\<forall>m. caches s' m b \<longrightarrow> (\<forall>a < NBUF. a \<noteq> b \<longrightarrow> \<not> caches s m a)"
      using caches_unique [OF assms(1) _ assms(2)] by (auto simp: caches_def s'_def)
  qed (simp_all add: s'_def)
  have "blk s' m = ((blk s)(n := x)) m" for m
  proof (cases "m = n")
    case True
    then show ?thesis using blk_cached [OF inv assms(2), of n] assms(3,4) by (simp add: caches_def s'_def)
  next
    case False
    then have "blk s' m = blk s m" using assms(3)
      by (intro blk_other [OF assms(1) inv, where b = b]) (simp_all add: s'_def caches_def)
    with False show ?thesis by simp
  qed
  then show "blk s' = (blk s)(n := x)" by (rule ext)
qed

text \<open>
  C27: \<^verbatim>\<open>brelse\<close> refines moving to the front of a list. The links of the cache run, in both
  directions, through all buffers from the most to the least recently used one; releasing the
  last reference to a buffer moves it to the front and leaves the others in order, releasing
  another reference leaves the order alone. The lock is free afterwards, the count is one
  less, and no contents are lost.
\<close>

theorem brelse_lru:
  assumes "runs c p s" and "bc_inv s xs" and "b < NBUF" and "locked_by s p b" and "b_refcnt (bufs s b) \<noteq> 0"
    and "b_refcnt (bufs s b) = 1 \<longrightarrow> b_valid (bufs s b) \<longrightarrow> b_data (bufs s b) = disk s (b_blockno (bufs s b))"
  shows "\<exists>s'. brelse c b s = Ok s' \<and> bc_inv s' (if b_refcnt (bufs s b) = 1 then b # remove1 b xs else xs) \<and>
    \<not> sl_locked (b_lock (bufs s' b)) \<and> b_refcnt (bufs s' b) = b_refcnt (bufs s b) - 1 \<and> blk s' = blk s"
proof -
  obtain s' where s': "brelse c b s = Ok s'" "bc_inv s' (if b_refcnt (bufs s b) = 1 then b # remove1 b xs else xs)"
    "core (bufs s' b) = core ((bufs s b)\<lparr>b_refcnt := b_refcnt (bufs s b) - 1,
      b_lock := (b_lock (bufs s b))\<lparr>sl_locked := False, sl_pid := 0\<rparr>\<rparr>)" "blk s' = blk s"
    using brelse_gives_back [OF assms] by blast
  then show ?thesis using coreD(4,5) [OF s'(3)] by auto
qed

section \<open>Starting up\<close>

lemma binit_body_links:
  assumes "linked (bufs s) xs" and "b \<notin> set xs" and "b \<noteq> NBUF"
  shows "linked (bufs (binit_body b s)) (b # xs)"
proof -
  let ?nx = "nexts (bufs s)" and ?pv = "prevs (bufs s)"
  have h: "?nx NBUF = last (NBUF # rev xs)"
    unfolding last_rev_hd using assms(1) by (intro path_first) (simp add: linked_def)
  then have hb: "?nx NBUF \<noteq> b" using assms(2,3) last_in_set [of "NBUF # rev xs"] by auto
  have n: "nexts (bufs (binit_body b s)) = ?nx(b := ?nx NBUF, NBUF := b)"
    using assms(3) hb by (auto simp: binit_body_def Let_def nexts_def fun_eq_iff)
  have p: "prevs (bufs (binit_body b s)) = ?pv(?nx NBUF := b, b := NBUF)"
    using assms(3) hb by (auto simp: binit_body_def Let_def nexts_def prevs_def fun_eq_iff)
  have "path (nexts (bufs (binit_body b s))) NBUF (b # xs) NBUF"
    using assms unfolding n linked_def by (auto intro: path_cong)
  moreover have "path (prevs (bufs (binit_body b s))) NBUF (rev xs @ [b]) NBUF"
    unfolding p h by (rule path_extend) (use assms in \<open>auto simp: linked_def\<close>)
  ultimately show ?thesis using assms by (simp add: linked_def)
qed

lemma core_lock: "core x = core y \<Longrightarrow> core (x\<lparr>b_lock := l\<rparr>) = core (y\<lparr>b_lock := l\<rparr>)"
  by (cases x; cases y) (auto simp: core_def)

lemma binit_body_other:
  "core (bufs (binit_body b s) i) = core (if i = b then (bufs s b)\<lparr>b_lock := initsleeplock ''buffer''\<rparr> else bufs s i)"
  "bcache_lock (binit_body b s) = bcache_lock s" "disk (binit_body b s) = disk s"
  by (auto simp: binit_body_def Let_def core_def)

lemma binit_loop:
  assumes "linked (bufs s) []" and "k \<le> NBUF"
  shows "linked (bufs (fold binit_body [0..<k] s)) (rev [0..<k]) \<and>
    (\<forall>i. core (bufs (fold binit_body [0..<k] s) i) = core (if i < k then (bufs s i)\<lparr>b_lock := initsleeplock ''buffer''\<rparr> else bufs s i)) \<and>
    bcache_lock (fold binit_body [0..<k] s) = bcache_lock s \<and> disk (fold binit_body [0..<k] s) = disk s"
  using assms(2)
proof (induction k)
  case (Suc k)
  let ?s = "fold binit_body [0..<k] s"
  have "linked (bufs (binit_body k ?s)) (k # rev [0..<k])" using Suc by (intro binit_body_links) auto
  moreover have "core (bufs (binit_body k ?s) i) = core (if i < Suc k then (bufs s i)\<lparr>b_lock := initsleeplock ''buffer''\<rparr> else bufs s i)" for i
  proof -
    have "core (bufs ?s i) = core (if i < k then (bufs s i)\<lparr>b_lock := initsleeplock ''buffer''\<rparr> else bufs s i)"
      using Suc by simp
    then show ?thesis using binit_body_other(1) [of k ?s i] core_lock [of "bufs ?s k" "bufs s k"] by (auto simp: less_Suc_eq)
  qed
  ultimately show ?case using Suc by (simp add: binit_body_other(2,3))
qed (use assms(1) in simp)

lemma binit_as_loop:
  fixes s :: "'a bkern_scheme"
  obtains s0 :: "'a bkern_scheme" where "binit s = fold binit_body [0..<NBUF] s0" "linked (bufs s0) []"
    "\<And>i. core (bufs s0 i) = core (bufs s i)" "bcache_lock s0 = initlock ''bcache''" "disk s0 = disk s"
proof
  let ?s0 = "upd_buf NBUF (\<lambda>x. x\<lparr>b_prev := NBUF, b_next := NBUF\<rparr>) (s\<lparr>bcache_lock := initlock ''bcache''\<rparr>)"
  show "binit s = fold binit_body [0..<NBUF] ?s0" by (simp add: binit_def)
qed (simp_all add: linked_def nexts_def prevs_def disk_def)

lemma binit_bufs:
  assumes "b < NBUF"
  shows "core (bufs (binit s) b) = core ((bufs s b)\<lparr>b_lock := initsleeplock ''buffer''\<rparr>)"
proof -
  obtain s0 where "binit s = fold binit_body [0..<NBUF] s0" "linked (bufs s0) []" "core (bufs s0 b) = core (bufs s b)"
    using binit_as_loop [of s] by blast
  then show ?thesis using assms binit_loop [of s0 NBUF] core_lock [of "bufs s0 b" "bufs s b"] by simp
qed

lemma binit_effect:
  assumes "\<forall>b < NBUF. b_dev (bufs s b) = 0 \<and> b_refcnt (bufs s b) = 0 \<and> \<not> b_valid (bufs s b)"
  shows "bc_inv (binit s) (rev [0..<NBUF])" and "blk (binit s) = disk s"
proof -
  obtain s0 where s0: "binit s = fold binit_body [0..<NBUF] s0" "linked (bufs s0) []"
    "bcache_lock s0 = initlock ''bcache''" "disk s0 = disk s" by (rule binit_as_loop)
  note l = binit_loop [OF s0(2) order_refl, folded s0(1)]
  have d: "disk (binit s) = disk s" using l s0(4) by simp
  have nc: "\<not> caches (binit s) n b" and ok: "buf_ok (binit s) b" if "b < NBUF" for n b
    using assms that coreD [OF binit_bufs [OF that, of s]]
    by (simp_all add: caches_def ROOTDEV_def buf_ok_def initsleeplock_def initlock_def lock_clean_def)
  have "lock_clean (bcache_lock (binit s))" using l s0(3) by (simp add: initlock_def lock_clean_def)
  then show "bc_inv (binit s) (rev [0..<NBUF])" using l nc ok by (auto simp: bc_inv_def)
  show "blk (binit s) = disk s"
  proof
    show "blk (binit s) n = disk s n" for n using blk_uncached [of "binit s" n] nc d by simp
  qed
qed

text \<open>
  \<^verbatim>\<open>binit\<close> establishes the cache invariant from zeroed buffers: afterwards all of them are
  in the list, the last one first, none holds a block, and the disk is what the kernel sees.
\<close>

theorem binit_establishes:
  assumes "\<forall>b < NBUF. b_dev (bufs s b) = 0 \<and> b_refcnt (bufs s b) = 0 \<and> \<not> b_valid (bufs s b)"
  shows "bc_inv (binit s) (rev [0..<NBUF]) \<and> blk (binit s) = disk s"
  using binit_effect [OF assms] by blast

section \<open>A sample state\<close>

definition zero_buf :: buf where
  "zero_buf = \<lparr>b_valid = False, b_disk = False, b_dev = 0, b_blockno = 0, b_lock = initsleeplock '''', b_refcnt = 0,
     b_prev = 0, b_next = 0, b_data = replicate 1024 0\<rparr>"

definition bkern0 :: bkern where
  "bkern0 = kern.extend one_running
     \<lparr>bcache_lock = initlock '''', bufs = (\<lambda>_. zero_buf), disk0 = (\<lambda>n. replicate 1024 (ucast n)), dwrites = []\<rparr>"

lemma binit_frame:
  "kframe s (binit s)" "bkern.more (binit s) = bkern.more s" "disk0 (binit s) = disk0 s" "dwrites (binit s) = dwrites s"
proof -
  have f: "kframe s0 (fold binit_body xs s) = kframe s0 s \<and> bkern.more (fold binit_body xs s) = bkern.more s \<and>
      disk0 (fold binit_body xs s) = disk0 s \<and> dwrites (fold binit_body xs s) = dwrites s" for xs and s0 s :: "'a bkern_scheme"
    by (induction xs arbitrary: s) (simp_all add: binit_body_def Let_def)
  have "kframe s (s\<lparr>bcache_lock := l\<rparr>)" for l by (simp add: kframe_def krest_def woken_def)
  then show "kframe s (binit s)" "bkern.more (binit s) = bkern.more s" "disk0 (binit s) = disk0 s" "dwrites (binit s) = dwrites s"
    using f by (simp_all add: binit_def)
qed

lemma runs_binit [simp]: "runs c p (binit s) = runs c p s"
  using runs_kframe [OF binit_frame(1)] .

lemma bkern0_runs: "runs 0 2 bkern0"
  by (simp add: runs_def quiet_def hart_ok_def bkern0_def kern.defs bkern.defs intr_get_def one_running_def boot_hw_def)

lemma bkern0_inv: "bc_inv (binit bkern0) (rev [0..<NBUF])" "blk (binit bkern0) = disk bkern0"
  by (rule binit_effect; simp add: bkern0_def kern.defs bkern.defs zero_buf_def)+

theorem binit_establishes_witness:
  "bc_inv (binit bkern0) (rev [0..<NBUF]) \<and> blk (binit bkern0) = disk bkern0"
  by (rule binit_establishes) (simp add: bkern0_def kern.defs bkern.defs zero_buf_def)

lemma bkern0_bufs:
  assumes "b < NBUF"
  shows "b_refcnt (bufs (binit bkern0) b) = 0" and "\<not> caches (binit bkern0) n b"
  using coreD [OF binit_bufs [OF assms, of bkern0]]
  by (simp_all add: bkern0_def kern.defs bkern.defs zero_buf_def caches_def ROOTDEV_def)

theorem bread_correct_witness:
  "\<exists>s'. bread 0 ROOTDEV 33 (binit bkern0) = Ok (0, s') \<and> got 0 2 33 (binit bkern0) 0 s' \<and> bc_inv s' (rev [0..<NBUF])"
proof -
  have r: "runs 0 2 (binit bkern0)" using bkern0_runs by simp
  have n: "find (caches (binit bkern0) 33) (rev [0..<NBUF]) = None" using bkern0_bufs(2) by (auto simp: find_None_iff)
  have "[0..<NBUF] = 0 # [1..<NBUF]" by (simp add: NBUF_def MAXOPBLOCKS_def upt_conv_Cons)
  then have f: "find (\<lambda>b. b_refcnt (bufs (binit bkern0) b) = 0) (rev (rev [0..<NBUF])) = Some 0"
    using bkern0_bufs(1) [of 0] by (simp add: NBUF_def MAXOPBLOCKS_def)
  have "\<forall>b < NBUF. b_refcnt (bufs (binit bkern0) b) + 1 \<noteq> 0" using bkern0_bufs(1) by simp
  from bread_correct [OF r bkern0_inv(1) this, of 33] n f show ?thesis by simp
qed

theorem brelse_lru_witness:
  "\<exists>s s' :: bkern. locked_by s 2 0 \<and> brelse 0 0 s = Ok s' \<and>
     bc_inv s' (if b_refcnt (bufs s 0) = 1 then 0 # remove1 0 (rev [0..<NBUF]) else rev [0..<NBUF]) \<and>
     \<not> sl_locked (b_lock (bufs s' 0)) \<and> b_refcnt (bufs s' 0) = b_refcnt (bufs s 0) - 1 \<and> blk s' = blk s"
proof -
  have r: "runs 0 2 (binit bkern0)" using bkern0_runs by simp
  have b: "(0 :: nat) < NBUF" by (simp add: NBUF_def MAXOPBLOCKS_def)
  have n: "\<forall>a < NBUF. \<not> caches (binit bkern0) 33 a" using bkern0_bufs(2) by blast
  have "find (caches (binit bkern0) 33) (rev [0..<NBUF]) = None" using n by (auto simp: find_None_iff)
  moreover have "find (\<lambda>b. b_refcnt (bufs (binit bkern0) b) = 0) [0..<NBUF] = Some 0"
    using bkern0_bufs(1) [OF b] b by (simp add: upt_conv_Cons)
  ultimately obtain s where s: "got 0 2 33 (binit bkern0) 0 s" "bc_inv s (rev [0..<NBUF])"
    using bread_got [OF r bkern0_inv(1) b disjI2, of 33] n bkern0_bufs(1) [OF b] bget_effect [OF r bkern0_inv(1), of 33] by auto
  have rs: "runs 0 2 s" using r runs_kframe [of "binit bkern0" s] s(1) by (simp add: got_def)
  have "locked_by s 2 0" "b_refcnt (bufs s 0) \<noteq> 0" using s(1) bkern0_bufs(1) [OF b] by (auto simp: got_def)
  moreover have "b_data (bufs s 0) = disk s (b_blockno (bufs s 0))"
    using s(1) bkern0_inv(2) by (auto simp: got_def caches_def disk_def binit_frame)
  ultimately show ?thesis using brelse_lru [OF rs s(2) b] by blast
qed

end
