(* ===== verification/Blocks.thy ===== *)
theory Blocks
  imports Bio
begin

text \<open>
  The buffer cache as its clients use it: blocks that are pinned by the log, blocks that the
  running thread has locked, and the contents of every block. The lemmas give the effect of
  each operation of \<^verbatim>\<open>kernel/bio.c\<close> on this view; the log and the file system are
  verified over them.
\<close>

section \<open>Pinned and locked blocks\<close>

definition users :: "u32 set \<Rightarrow> u32 set \<Rightarrow> buf \<Rightarrow> u32" where
  "users P L x = (if b_dev x = ROOTDEV \<and> b_blockno x \<in> P then 1 else 0) + (if b_dev x = ROOTDEV \<and> b_blockno x \<in> L then 1 else 0)"

definition usage :: "'a bkern_scheme \<Rightarrow> nat \<Rightarrow> u32 set \<Rightarrow> u32 set \<Rightarrow> nat \<Rightarrow> bool" where
  "usage s p P L b \<longleftrightarrow> b_refcnt (bufs s b) = users P L (bufs s b) \<and>
     (sl_locked (b_lock (bufs s b)) \<longleftrightarrow> b_dev (bufs s b) = ROOTDEV \<and> b_blockno (bufs s b) \<in> L) \<and>
     (sl_locked (b_lock (bufs s b)) \<longrightarrow> sl_pid (b_lock (bufs s b)) = p_pid (procs s p))"

definition holds :: "nat \<Rightarrow> nat \<Rightarrow> 'a bkern_scheme \<Rightarrow> u32 set \<Rightarrow> u32 set \<Rightarrow> bool" where
  "holds c p s P L \<longleftrightarrow> runs c p s \<and> (\<exists>xs. bc_inv s xs) \<and> finite P \<and> finite L \<and> (\<forall>b < NBUF. usage s p P L b) \<and>
     (\<forall>n \<in> P \<union> L. \<exists>b < NBUF. caches s n b \<and> b_valid (bufs s b))"

text \<open>What the operations leave alone, and where the buffers of locked blocks stay.\<close>

definition bsame :: "'a bkern_scheme \<Rightarrow> 'a bkern_scheme \<Rightarrow> bool" where
  "bsame s s' \<longleftrightarrow> kframe s s' \<and> bkern.more s' = bkern.more s \<and> disk0 s' = disk0 s"

definition keeps :: "u32 set \<Rightarrow> 'a bkern_scheme \<Rightarrow> 'a bkern_scheme \<Rightarrow> bool" where
  "keeps L s s' \<longleftrightarrow> (\<forall>a n. n \<in> L \<longrightarrow> a < NBUF \<longrightarrow> caches s n a \<longrightarrow> caches s' n a)"

lemma bsame_trans: "bsame s s1 \<Longrightarrow> bsame s1 s2 \<Longrightarrow> bsame s s2"
  using kframe_trans by (auto simp: bsame_def)

lemma keeps_trans: "keeps L s s1 \<Longrightarrow> keeps L s1 s2 \<Longrightarrow> keeps L s s2"
  by (auto simp: keeps_def)

lemma keeps_mono: "keeps L s s1 \<Longrightarrow> M \<subseteq> L \<Longrightarrow> keeps M s s1"
  by (auto simp: keeps_def)

lemma bsame_more: "bsame s s' \<Longrightarrow> bkern.more s' = bkern.more s"
  by (simp add: bsame_def)

lemma usage_cong:
  assumes "usage s p P L b" and "core (bufs s' b) = core (bufs s b)" and "kframe s s'"
    and "caches s n b \<Longrightarrow> (n \<in> P' \<longleftrightarrow> n \<in> P) \<and> (n \<in> L' \<longleftrightarrow> n \<in> L)" and "n = b_blockno (bufs s b)"
  shows "usage s' p P' L' b"
  using assms coreD [OF assms(2)] kframe_proc [OF assms(3), of p] by (auto simp: usage_def users_def caches_def)

lemma free_buffer:
  assumes "holds c p s P L" and "card (P \<union> L) < NBUF"
  shows "\<exists>b < NBUF. b_refcnt (bufs s b) = 0"
proof (rule ccontr)
  assume "\<not> ?thesis"
  then have nz: "b_refcnt (bufs s b) \<noteq> 0" if "b < NBUF" for b using that by blast
  obtain xs where inv: "bc_inv s xs" using assms(1) by (auto simp: holds_def)
  let ?f = "\<lambda>b. b_blockno (bufs s b)"
  have c: "?f b \<in> P \<union> L \<and> caches s (?f b) b" if "b < NBUF" for b
    using nz [OF that] assms(1) that by (auto simp: holds_def usage_def users_def caches_def split: if_splits)
  have "inj_on ?f {..<NBUF}"
  proof (rule inj_onI)
    fix a b assume "a \<in> {..<NBUF}" "b \<in> {..<NBUF}" "?f a = ?f b"
    then show "a = b" using c [of a] c [of b] caches_unique [OF inv, of a b "?f b"] by simp
  qed
  then have "NBUF \<le> card (P \<union> L)"
    using card_inj_on_le [of ?f "{..<NBUF}" "P \<union> L"] c assms(1) by (auto simp: holds_def)
  then show False using assms(2) by simp
qed

lemma caches_same: "bufs s' a = bufs s a \<Longrightarrow> caches s' n a = caches s n a"
  by (simp add: caches_def)

lemma bread_some:
  assumes "holds c p s P L" and "n \<notin> L" and "card (P \<union> L) < NBUF" and inv: "bc_inv s xs"
  shows "\<exists>b s'. bread c ROOTDEV n s = Ok (b, s') \<and> got c p n s b s' \<and> bc_inv s' xs \<and> (caches s n b \<or> b_refcnt (bufs s b) = 0)"
proof -
  have r: "runs c p s" and u: "\<And>b. b < NBUF \<Longrightarrow> usage s p P L b" using assms(1) by (simp_all add: holds_def)
  have "b_refcnt (bufs s b) + 1 \<noteq> 0" if "b < NBUF" for b
    using u [OF that] by (auto simp: usage_def users_def)
  then have cases: "case find (caches s n) xs of
      Some b \<Rightarrow> if sl_locked (b_lock (bufs s b)) then bread c ROOTDEV n s = Hang
        else \<exists>s'. bread c ROOTDEV n s = Ok (b, s') \<and> got c p n s b s' \<and> bc_inv s' xs
    | None \<Rightarrow> case find (\<lambda>b. b_refcnt (bufs s b) = 0) (rev xs) of
        Some b \<Rightarrow> \<exists>s'. bread c ROOTDEV n s = Ok (b, s') \<and> got c p n s b s' \<and> bc_inv s' xs
      | None \<Rightarrow> bread c ROOTDEV n s = Panic ''bget: no buffers''"
    by (intro bread_cases [OF r inv]) blast
  have sub: "set xs = {..<NBUF}" using inv by (simp add: bc_inv_def)
  show ?thesis
  proof (cases "find (caches s n) xs")
    case None
    obtain b where "b < NBUF" "b_refcnt (bufs s b) = 0" using free_buffer [OF assms(1,3)] by blast
    then have "find (\<lambda>b. b_refcnt (bufs s b) = 0) (rev xs) \<noteq> None" using sub by (auto simp: find_None_iff)
    then obtain a where a: "find (\<lambda>b. b_refcnt (bufs s b) = 0) (rev xs) = Some a" by blast
    then show ?thesis using cases None find_mem [OF a] by auto
  next
    case (Some b)
    then have b: "b < NBUF" "caches s n b" using find_mem [OF Some] sub by auto
    then have "\<not> sl_locked (b_lock (bufs s b))" using u [OF b(1)] assms(2) by (auto simp: usage_def caches_def)
    then show ?thesis using cases Some b(2) by auto
  qed
qed

lemma holds_cached: "holds c p s P L \<Longrightarrow> n \<in> P \<union> L \<Longrightarrow> \<exists>b < NBUF. caches s n b \<and> b_valid (bufs s b)"
  unfolding holds_def by blast

lemma usage_used: "usage s p P L b \<Longrightarrow> caches s n b \<Longrightarrow> n \<in> P \<union> L \<Longrightarrow> b_refcnt (bufs s b) \<noteq> 0"
  by (auto simp: usage_def users_def caches_def)

lemma bread_at:
  assumes "holds c p s P L" and "n \<notin> L" and "card (P \<union> L) < NBUF"
  shows "\<exists>b s'. bread c ROOTDEV n s = Ok (b, s') \<and> holds c p s' P (insert n L) \<and> bsame s s' \<and> keeps L s s' \<and>
    b < NBUF \<and> caches s' n b \<and> b_data (bufs s' b) = blk s n \<and> blk s' = blk s \<and> dwrites s' = dwrites s"
proof -
  obtain xs where inv: "bc_inv s xs" using assms(1) by (auto simp: holds_def)
  have u: "usage s p P L b" if "b < NBUF" for b using assms(1) that by (simp add: holds_def)
  obtain b s' where br: "bread c ROOTDEV n s = Ok (b, s')" and g: "got c p n s b s'" and inv': "bc_inv s' xs"
    and bc: "caches s n b \<or> b_refcnt (bufs s b) = 0" using bread_some [OF assms inv] by blast
  have b: "b < NBUF" and kf: "kframe s s'" and other: "\<And>a. a \<noteq> b \<Longrightarrow> bufs s' a = bufs s a"
    and cb: "caches s' n b" "b_valid (bufs s' b)" "locked_by s' p b"
    and rc: "b_refcnt (bufs s' b) = (if caches s n b then b_refcnt (bufs s b) else 0) + 1" using g by (simp_all add: got_def)
  note same = caches_same [OF other]
  have P: "caches s n b" if np: "n \<in> P"
  proof -
    obtain a where a: "a < NBUF" "caches s n a" using holds_cached [OF assms(1), of n] np by blast
    show "caches s n b"
    proof (cases "a = b")
      case False
      then show ?thesis using caches_unique [OF inv' a(1) b, of n] same [OF False] a(2) cb(1) by simp
    qed (use a in simp)
  qed
  have away: "a \<noteq> b" if "a < NBUF" "caches s m a" "m \<in> P \<union> L" "m \<noteq> n" for a m
    using usage_used [OF u [OF that(1)] that(2,3)] bc that(2,4) by (auto simp: caches_def)
  have us: "usage s' p P (insert n L) a" if a: "a < NBUF" for a
  proof (cases "a = b")
    case True
    have "users P (insert n L) (bufs s' b) = (if caches s n b then b_refcnt (bufs s b) else 0) + 1"
      using cb(1) u [OF b] assms(2) P by (auto simp: users_def usage_def caches_def)
    then show ?thesis using True cb rc by (simp add: usage_def caches_def locked_by_def)
  next
    case False
    then have "\<not> caches s n a" using caches_unique [OF inv' a b, of n] same [OF False] cb(1) by blast
    then show ?thesis
      by (intro usage_cong [OF u [OF a] _ kf]) (simp_all add: other [OF False] caches_def)
  qed
  have hasb: "\<exists>a < NBUF. caches s' m a \<and> b_valid (bufs s' a)" if m: "m \<in> P \<union> insert n L" for m
  proof (cases "m = n")
    case False
    then have "m \<in> P \<union> L" using m by simp
    then obtain a where a: "a < NBUF" "caches s m a" "b_valid (bufs s a)" using holds_cached [OF assms(1)] by blast
    then show ?thesis using same other away [OF a(1,2) \<open>m \<in> P \<union> L\<close> False] by auto
  qed (use cb b in blast)
  have "runs c p s'" using assms(1) runs_kframe [OF kf] by (simp add: holds_def)
  then have h: "holds c p s' P (insert n L)" unfolding holds_def using inv' us hasb assms(1) by (simp add: holds_def) blast
  have "keeps L s s'" unfolding keeps_def
  proof (intro allI impI)
    fix a m assume m: "m \<in> L" "a < NBUF" "caches s m a"
    have "a \<noteq> b" using away [OF m(2,3)] m(1) assms(2) by auto
    then show "caches s' m a" using m(3) same by simp
  qed
  then show ?thesis using br h g kf by (auto simp: got_def bsame_def)
qed

text \<open>A change to the buffer of block \<open>n\<close> that keeps it cached.\<close>

lemma holds_change:
  assumes "holds c p s P L" and "b < NBUF" and "caches s n b" and "bc_inv s' ys" and "kframe s s'"
    and "\<forall>a < NBUF. a \<noteq> b \<longrightarrow> core (bufs s' a) = core (bufs s a)"
    and "b_dev (bufs s' b) = b_dev (bufs s b)" "b_blockno (bufs s' b) = b_blockno (bufs s b)" "b_valid (bufs s' b)"
    and "usage s' p P' L' b" and "P' - {n} = P - {n}" and "L' - {n} = L - {n}"
  shows "holds c p s' P' L' \<and> keeps UNIV s s'"
proof -
  obtain xs where inv: "bc_inv s xs" and r: "runs c p s" using assms(1) by (auto simp: holds_def)
  have same: "caches s' m a = caches s m a" if "a < NBUF" for m a
    using assms(6-8) that coreD [of "bufs s' a" "bufs s a"] by (cases "a = b") (auto simp: caches_def)
  have us: "usage s' p P' L' a" if a: "a < NBUF" for a
  proof (cases "a = b")
    case False
    have "\<not> caches s n a" using caches_unique [OF inv a assms(2) _ assms(3)] False by blast
    then have "b_blockno (bufs s a) \<noteq> n" if "caches s (b_blockno (bufs s a)) a" using that by auto
    moreover have "usage s p P L a" using assms(1) a by (simp add: holds_def)
    ultimately show ?thesis
      using assms(6,11,12) a False by (intro usage_cong [OF _ _ assms(5)]) blast+
  qed (use assms(10) in simp)
  have hasb: "\<exists>a < NBUF. caches s' m a \<and> b_valid (bufs s' a)" if m: "m \<in> P' \<union> L'" for m
  proof (cases "m = n")
    case True
    then show ?thesis using assms(2,3,9) same by blast
  next
    case False
    then have "m \<in> P \<union> L" using m assms(11,12) by blast
    then obtain a where a: "a < NBUF" "caches s m a" "b_valid (bufs s a)" using holds_cached [OF assms(1)] by blast
    then have "a \<noteq> b" using assms(3) False by (auto simp: caches_def)
    then have "b_valid (bufs s' a)" using coreD(1) [of "bufs s' a" "bufs s a"] assms(6) a by simp
    then show ?thesis using a same by blast
  qed
  have "finite (P' - {n})" "finite (L' - {n})" unfolding assms(11,12) using assms(1) by (simp_all add: holds_def)
  then have "finite P'" "finite L'" by simp_all
  moreover have "runs c p s'" using r runs_kframe [OF assms(5)] by simp
  ultimately have "holds c p s' P' L'" unfolding holds_def using assms(4) us hasb by blast
  moreover have "keeps UNIV s s'" using same by (simp add: keeps_def)
  ultimately show ?thesis ..
qed

lemma held_buf:
  assumes "holds c p s P L" and "b < NBUF" and "caches s n b" and "n \<in> L"
  shows "locked_by s p b" and "b_refcnt (bufs s b) \<noteq> 0" and "b_refcnt (bufs s b) = 1 \<longleftrightarrow> n \<notin> P"
    and "b_valid (bufs s b)" and "b_data (bufs s b) = blk s n"
proof -
  have u: "usage s p P L b" using assms(1,2) by (simp add: holds_def)
  show "locked_by s p b" "b_refcnt (bufs s b) \<noteq> 0" "b_refcnt (bufs s b) = 1 \<longleftrightarrow> n \<notin> P"
    using u assms(3,4) by (auto simp: usage_def users_def caches_def locked_by_def)
  obtain xs where inv: "bc_inv s xs" using assms(1) by (auto simp: holds_def)
  obtain a where "a < NBUF" "caches s n a" "b_valid (bufs s a)" using holds_cached [OF assms(1)] assms(4) by blast
  then show v: "b_valid (bufs s b)" using caches_unique [OF inv _ assms(2) _ assms(3)] by blast
  show "b_data (bufs s b) = blk s n" using blk_cached [OF inv assms(2,3) v] by simp
qed

lemma brelse_at:
  assumes "holds c p s P L" and "b < NBUF" and "caches s n b" and "n \<in> L" and "n \<in> P \<or> blk s n = disk s n"
  shows "\<exists>s'. brelse c b s = Ok s' \<and> holds c p s' P (L - {n}) \<and> bsame s s' \<and> keeps UNIV s s' \<and> blk s' = blk s \<and> dwrites s' = dwrites s"
proof -
  obtain xs where inv: "bc_inv s xs" and r: "runs c p s" using assms(1) by (auto simp: holds_def)
  have u: "usage s p P L b" using assms(1,2) by (simp add: holds_def)
  note h = held_buf [OF assms(1-4)]
  have cl: "b_refcnt (bufs s b) = 1 \<longrightarrow> b_valid (bufs s b) \<longrightarrow> b_data (bufs s b) = disk s (b_blockno (bufs s b))"
    using h assms(3,5) by (auto simp: caches_def)
  obtain s' where s': "brelse c b s = Ok s'" "bc_inv s' (if b_refcnt (bufs s b) = 1 then b # remove1 b xs else xs)"
    "kframe s s'" "bkern.more s' = bkern.more s" "disk0 s' = disk0 s" "dwrites s' = dwrites s" "blk s' = blk s"
    "\<forall>a. a \<noteq> b \<longrightarrow> core (bufs s' a) = core (bufs s a)"
    and cb: "core (bufs s' b) = core ((bufs s b)\<lparr>b_refcnt := b_refcnt (bufs s b) - 1,
      b_lock := (b_lock (bufs s b))\<lparr>sl_locked := False, sl_pid := 0\<rparr>\<rparr>)"
    using brelse_gives_back [OF r inv assms(2) h(1,2) cl] by blast
  note e = coreD [OF cb, simplified]
  have "usage s' p P (L - {n}) b" using u e assms(3,4) by (auto simp: usage_def users_def caches_def)
  then have "holds c p s' P (L - {n}) \<and> keeps UNIV s s'"
    using e h(4) s'(8) by (intro holds_change [OF assms(1-3) s'(2,3)]) auto
  then show ?thesis using s' by (auto simp: bsame_def)
qed

lemma bwrite_at:
  assumes "holds c p s P L" and "b < NBUF" and "caches s n b" and "n \<in> L"
  shows "\<exists>s'. bwrite c b s = Ok s' \<and> holds c p s' P L \<and> bsame s s' \<and> keeps UNIV s s' \<and> blk s' = blk s \<and>
    dwrites s' = dwrites s @ [(n, blk s n)] \<and> disk s' = (disk s)(n := blk s n)"
proof -
  obtain xs where inv: "bc_inv s xs" and r: "runs c p s" using assms(1) by (auto simp: holds_def)
  have u: "usage s p P L b" using assms(1,2) by (simp add: holds_def)
  note h = held_buf [OF assms(1-4)]
  obtain s' where s': "bwrite c b s = Ok s'" "bc_inv s' xs" "kframe s s'" "bkern.more s' = bkern.more s" "disk0 s' = disk0 s"
    "dwrites s' = dwrites s @ [(n, b_data (bufs s b))]" "disk s' = (disk s)(n := b_data (bufs s b))"
    "bufs s' = (bufs s)(b := (bufs s b)\<lparr>b_disk := False\<rparr>)" "blk s' = blk s"
    using bwrite_through [OF r inv assms(2) h(1) assms(3) h(4,2)] by blast
  have "usage s' p P L b" using u s'(8) kframe_proc [OF s'(3), of p] by (simp add: usage_def users_def)
  then have "holds c p s' P L \<and> keeps UNIV s s'"
    using s'(8) h(4) by (intro holds_change [OF assms(1-3) s'(2,3)]) auto
  then show ?thesis using s' h(5) by (auto simp: bsame_def)
qed

lemma set_at:
  fixes f :: "u8 list \<Rightarrow> u8 list"
  assumes "holds c p s P L" and "b < NBUF" and "caches s n b" and "n \<in> L"
  defines "s' \<equiv> upd_buf b (b_data_update f) s"
  shows "holds c p s' P L" "bsame s s'" "keeps UNIV s s'" "blk s' = (blk s)(n := f (blk s n))" "dwrites s' = dwrites s"
proof -
  obtain xs where inv: "bc_inv s xs" using assms(1) by (auto simp: holds_def)
  have u: "usage s p P L b" using assms(1,2) by (simp add: holds_def)
  note h = held_buf [OF assms(1-4)]
  have s'_eq: "s' = upd_buf b (b_data_update (\<lambda>_. f (blk s n))) s" 
  proof -
    have "b_data_update f (bufs s b) = (bufs s b)\<lparr>b_data := f (b_data (bufs s b))\<rparr>" by (cases "bufs s b") simp
    then show ?thesis by (simp only: s'_def upd_buf_def h(5))
  qed
  note d = set_data [OF inv assms(2,3) h(4,2), of "f (blk s n)", folded s'_eq]
  have "usage s' p P L b" using u by (simp add: usage_def users_def s'_def)
  then have "holds c p s' P L \<and> keeps UNIV s s'"
    using h(4) by (intro holds_change [OF assms(1-3) d(1)]) (simp_all add: s'_def)
  then show "holds c p s' P L" "keeps UNIV s s'" by simp_all
  show "bsame s s'" "dwrites s' = dwrites s" by (simp_all add: s'_def bsame_def)
  show "blk s' = (blk s)(n := f (blk s n))" by (rule d(2))
qed

definition set_refcnt :: "nat \<Rightarrow> u32 \<Rightarrow> 'a bkern_scheme \<Rightarrow> 'a bkern_scheme" where
  "set_refcnt b v s = upd_buf b (b_refcnt_update (\<lambda>_. v)) s"

lemma refcnt_at:
  assumes "holds c p s P L" and "b < NBUF" and "caches s n b" and "n \<in> L" and "v \<noteq> 0" and "P' - {n} = P - {n}"
    and "usage (settle c (set_refcnt b v s)) p P' L b"
  defines "s' \<equiv> settle c (set_refcnt b v s)"
  shows "holds c p s' P' L \<and> bsame s s' \<and> keeps UNIV s s' \<and> blk s' = blk s \<and> dwrites s' = dwrites s"
proof -
  obtain xs where inv: "bc_inv s xs" using assms(1) by (auto simp: holds_def)
  note h = held_buf [OF assms(1-4)]
  have bs: "bufs s' = (bufs s)(b := (bufs s b)\<lparr>b_refcnt := v\<rparr>)" and d: "disk s' = disk s" "bcache_lock s' = bcache_lock s"
    and kf: "kframe s s'" by (simp_all add: s'_def set_refcnt_def)
  have inv': "bc_inv s' xs"
  proof (rule bc_inv_change [OF inv _ _ d(2), where b = b])
    have "linked (bufs s) xs" using inv by (simp add: bc_inv_def)
    then show "linked (bufs s') xs" by (rule linked_cong) (simp_all add: bs)
    show "set xs = {..<NBUF}" using inv by (simp add: bc_inv_def)
    have "buf_ok s b" using inv assms(2) by (simp add: bc_inv_def)
    then show "buf_ok s' b" using assms(5) by (simp add: buf_ok_def bs)
    show "\<forall>m. caches s' m b \<longrightarrow> (\<forall>a < NBUF. a \<noteq> b \<longrightarrow> \<not> caches s m a)"
      using caches_unique [OF inv _ assms(2)] by (auto simp: caches_def bs)
  qed (simp_all add: bs d)
  have "blk s' m = blk s m" for m
  proof (cases "caches s m b")
    case True
    then show ?thesis using blk_cached [OF inv assms(2) True h(4)] blk_cached [OF inv' assms(2), of m] h(4) by (simp add: caches_def bs)
  next
    case False
    then show ?thesis by (intro blk_other [OF inv inv', where b = b]) (auto simp: bs d caches_def)
  qed
  moreover have "holds c p s' P' L \<and> keeps UNIV s s'"
    using assms(6) assms(7) [folded s'_def] h(4) by (intro holds_change [OF assms(1-3) inv' kf]) (simp_all add: bs)
  moreover have "bsame s s'" "dwrites s' = dwrites s" using kf by (simp_all add: bsame_def s'_def set_refcnt_def)
  ultimately show ?thesis by (simp add: fun_eq_iff)
qed

lemma bunpin_at:
  assumes "holds c p s P L" and "b < NBUF" and "caches s n b" and "n \<in> L" and "n \<in> P"
  shows "\<exists>s'. bunpin c b s = Ok s' \<and> holds c p s' (P - {n}) L \<and> bsame s s' \<and> keeps UNIV s s' \<and> blk s' = blk s \<and> dwrites s' = dwrites s"
proof -
  have r: "runs c p s" and bl: "lock_clean (bcache_lock s)" using assms(1) by (auto simp: holds_def bc_inv_def)
  have "usage s p P L b" using assms(1,2) by (simp add: holds_def)
  then have "usage (settle c (set_refcnt b (b_refcnt (bufs s b) - 1) s)) p (P - {n}) L b"
    using assms(3-5) by (auto simp: usage_def users_def caches_def set_refcnt_def)
  moreover have "b_refcnt (bufs s b) - 1 \<noteq> 0" using held_buf(2,3) [OF assms(1-4)] assms(5) \<open>usage s p P L b\<close> assms(3,4)
    by (auto simp: usage_def users_def caches_def)
  moreover have "bunpin c b s = Ok (settle c (set_refcnt b (b_refcnt (bufs s b) - 1) s))"
    using pin_effect(2) [OF r bl] by (simp add: set_refcnt_def upd_buf_def)
  ultimately show ?thesis using refcnt_at [OF assms(1-4), of _ "P - {n}"] by auto
qed

lemma bpin_at:
  assumes "holds c p s P L" and "b < NBUF" and "caches s n b" and "n \<in> L" and "n \<notin> P"
  shows "\<exists>s'. bpin c b s = Ok s' \<and> holds c p s' (insert n P) L \<and> bsame s s' \<and> keeps UNIV s s' \<and> blk s' = blk s \<and> dwrites s' = dwrites s"
proof -
  have r: "runs c p s" and bl: "lock_clean (bcache_lock s)" using assms(1) by (auto simp: holds_def bc_inv_def)
  have "usage s p P L b" using assms(1,2) by (simp add: holds_def)
  then have "usage (settle c (set_refcnt b (b_refcnt (bufs s b) + 1) s)) p (insert n P) L b"
    using assms(3-5) by (auto simp: usage_def users_def caches_def set_refcnt_def)
  moreover have "b_refcnt (bufs s b) + 1 \<noteq> 0" using held_buf(2,3) [OF assms(1-4)] assms(5) \<open>usage s p P L b\<close> assms(3,4)
    by (auto simp: usage_def users_def caches_def)
  moreover have "bpin c b s = Ok (settle c (set_refcnt b (b_refcnt (bufs s b) + 1) s))"
    using pin_effect(1) [OF r bl] by (simp add: set_refcnt_def upd_buf_def)
  ultimately show ?thesis using refcnt_at [OF assms(1-4), of _ "insert n P"] by auto
qed

section \<open>Between operations\<close>

lemma holds_clean:
  assumes "holds c p s P L" and "n \<notin> P \<union> L"
  shows "blk s n = disk s n"
proof -
  obtain xs where inv: "bc_inv s xs" using assms(1) by (auto simp: holds_def)
  show ?thesis
  proof (cases "\<exists>b < NBUF. caches s n b \<and> b_valid (bufs s b)")
    case True
    then obtain b where b: "b < NBUF" "caches s n b" "b_valid (bufs s b)" by blast
    have "usage s p P L b" using assms(1) b(1) by (simp add: holds_def)
    then have "b_refcnt (bufs s b) = 0" using assms(2) b(2) by (auto simp: usage_def users_def caches_def)
    moreover have "buf_ok s b" using inv b(1) by (simp add: bc_inv_def)
    ultimately show ?thesis using blk_cached [OF inv b] b(2,3) by (simp add: buf_ok_def caches_def)
  qed (use blk_uncached [of s n] in blast)
qed

lemma two_reads:
  assumes "holds c p s P {}" and "n \<noteq> m" and "card P + 2 \<le> NBUF"
  shows "\<exists>a b s1 s2. bread c ROOTDEV n s = Ok (a, s1) \<and> bread c ROOTDEV m s1 = Ok (b, s2) \<and> bsame s s1 \<and> bsame s s2 \<and>
    holds c p s2 P {n, m} \<and> a < NBUF \<and> caches s2 n a \<and> b < NBUF \<and> caches s2 m b \<and> blk s2 = blk s \<and> dwrites s2 = dwrites s"
proof -
  have fin: "finite P" using assms(1) by (simp add: holds_def)
  obtain a s1 where s1: "bread c ROOTDEV n s = Ok (a, s1)" "holds c p s1 P {n}" "bsame s s1" "a < NBUF" "caches s1 n a"
    "blk s1 = blk s" "dwrites s1 = dwrites s" using bread_at [OF assms(1), of n] assms(3) by auto
  have "card (P \<union> {n}) < NBUF" using fin assms(3) card_insert_le_m1 [of "Suc (card P)" P n] by simp
  then obtain b s2 where s2: "bread c ROOTDEV m s1 = Ok (b, s2)" "holds c p s2 P {m, n}" "bsame s1 s2" "keeps {n} s1 s2"
    "b < NBUF" "caches s2 m b" "blk s2 = blk s1" "dwrites s2 = dwrites s1"
    using bread_at [OF s1(2), of m] assms(2) by auto
  have "caches s2 n a" using s2(4) s1(4,5) by (simp add: keeps_def)
  moreover have "bsame s s2" by (rule bsame_trans [OF s1(3) s2(3)])
  moreover have "holds c p s2 P {n, m}" using s2(2) by (simp add: insert_commute)
  ultimately show ?thesis using s1 s2 by auto
qed

text \<open>Writing a block through and giving both buffers back, in either order.\<close>

lemma write_and_release:
  assumes "holds c p s P {n, m}" and "n \<noteq> m" and "a < NBUF" "caches s n a" and "b < NBUF" "caches s m b"
    and "m \<in> P \<or> blk s m = disk s m"
  shows "\<exists>s1. bwrite c a (upd_buf a (b_data_update f) s) = Ok s1 \<and> bsame s s1 \<and> holds c p s1 P {n, m} \<and> caches s1 n a \<and> caches s1 m b \<and>
    blk s1 = (blk s)(n := f (blk s n)) \<and> dwrites s1 = dwrites s @ [(n, f (blk s n))] \<and> blk s1 n = disk s1 n \<and>
    (m \<in> P \<or> blk s1 m = disk s1 m)"
proof -
  let ?s = "upd_buf a (b_data_update f) s"
  note d = set_at [OF assms(1,3,4), of f, simplified]
  have c0: "caches ?s n a" "caches ?s m b" using d(3) assms(3-6) by (auto simp: keeps_def)
  obtain s1 where s1: "bwrite c a ?s = Ok s1" "holds c p s1 P {n, m}" "bsame ?s s1" "keeps UNIV ?s s1" "blk s1 = blk ?s"
    "dwrites s1 = dwrites ?s @ [(n, blk ?s n)]" "disk s1 = (disk ?s)(n := blk ?s n)"
    using bwrite_at [OF d(1) assms(3) c0(1)] by auto
  have "caches s1 n a" "caches s1 m b" using s1(4) c0 assms(3,5) by (auto simp: keeps_def)
  moreover have "bsame s s1" by (rule bsame_trans [OF d(2) s1(3)])
  moreover have "blk s1 = (blk s)(n := f (blk s n))" "dwrites s1 = dwrites s @ [(n, f (blk s n))]" "blk s1 n = disk s1 n"
    using s1(5-7) d(4,5) by simp_all
  moreover have "m \<in> P \<or> blk s1 m = disk s1 m" using assms(2,7) s1(5,7) d(4) by auto
  ultimately show ?thesis using s1(1,2) by blast
qed

lemma release_two:
  assumes "holds c p s P {n, m}" and "n \<noteq> m" and "a < NBUF" "caches s n a" and "b < NBUF" "caches s m b"
    and "n \<in> P \<or> blk s n = disk s n" and "m \<in> P \<or> blk s m = disk s m"
  shows "\<exists>s1 s2. brelse c a s = Ok s1 \<and> brelse c b s1 = Ok s2 \<and> bsame s s2 \<and> holds c p s2 P {} \<and> blk s2 = blk s \<and> dwrites s2 = dwrites s"
proof -
  obtain s1 where s1: "brelse c a s = Ok s1" "holds c p s1 P ({n, m} - {n})" "bsame s s1" "keeps UNIV s s1" "blk s1 = blk s" "dwrites s1 = dwrites s"
    using brelse_at [OF assms(1,3,4) _ assms(7)] by auto
  have "disk s1 = disk s" using s1(3,6) by (simp add: bsame_def disk_def)
  moreover have "caches s1 m b" using s1(4) assms(5,6) by (simp add: keeps_def)
  ultimately obtain s2 where s2: "brelse c b s1 = Ok s2" "holds c p s2 P ({n, m} - {n} - {m})" "bsame s1 s2" "blk s2 = blk s1" "dwrites s2 = dwrites s1"
    using brelse_at [OF s1(2) assms(5), of m] assms(2,8) s1(5) by auto
  have "{n, m} - {n} - {m} = {}" by blast
  then have "holds c p s2 P {}" using s2(2) by (simp only:)
  then show ?thesis using s1 s2 bsame_trans [OF s1(3) s2(3)] by metis
qed

end
