(* ===== verification/Bytes.thy ===== *)
theory Bytes
  imports Prelude
begin

text \<open>
  Little-endian integers in blocks of bytes, for the on-disk structures: a block is a list of
  bytes, and the fields of a structure are read and written at their offsets.
\<close>

definition get16 :: "u8 list \<Rightarrow> nat \<Rightarrow> u16" where
  "get16 xs i = ucast (xs ! i) OR push_bit 8 (ucast (xs ! (i + 1)))"

definition put16 :: "u8 list \<Rightarrow> nat \<Rightarrow> u16 \<Rightarrow> u8 list" where
  "put16 xs i v = xs[i := ucast v, i + 1 := ucast (drop_bit 8 v)]"

definition get32 :: "u8 list \<Rightarrow> nat \<Rightarrow> u32" where
  "get32 xs i = ucast (xs ! i) OR push_bit 8 (ucast (xs ! (i + 1))) OR push_bit 16 (ucast (xs ! (i + 2))) OR
     push_bit 24 (ucast (xs ! (i + 3)))"

definition put32 :: "u8 list \<Rightarrow> nat \<Rightarrow> u32 \<Rightarrow> u8 list" where
  "put32 xs i v = xs[i := ucast v, i + 1 := ucast (drop_bit 8 v), i + 2 := ucast (drop_bit 16 v),
     i + 3 := ucast (drop_bit 24 v)]"

lemma length_put [simp]: "length (put16 xs i v) = length xs" "length (put32 xs i w) = length xs"
  by (simp_all add: put16_def put32_def)

lemma get16_put16 [simp]: "i + 1 < length xs \<Longrightarrow> get16 (put16 xs i v) i = v"
  by (rule bit_eqI) (auto simp: get16_def put16_def bit_simps)

lemma get32_put32 [simp]: "i + 3 < length xs \<Longrightarrow> get32 (put32 xs i v) i = v"
  by (rule bit_eqI) (auto simp: get32_def put32_def bit_simps, rule ccontr, simp)

lemma get32_put32_other [simp]: "i + 3 < j \<or> j + 3 < i \<Longrightarrow> get32 (put32 xs i v) j = get32 xs j"
  by (auto simp: get32_def put32_def)

lemma get16_put16_other [simp]: "i + 1 < j \<or> j + 1 < i \<Longrightarrow> get16 (put16 xs i v) j = get16 xs j"
  by (auto simp: get16_def put16_def)

lemma get32_put16_other [simp]: "i + 1 < j \<or> j + 3 < i \<Longrightarrow> get32 (put16 xs i v) j = get32 xs j"
  by (auto simp: get32_def put16_def)

lemma get16_put32_other [simp]: "i + 3 < j \<or> j + 1 < i \<Longrightarrow> get16 (put32 xs i v) j = get16 xs j"
  by (auto simp: get16_def put32_def)

end
