(* ===== verification/Log.thy ===== *)
theory Log
  imports Blocks Bytes
begin

text \<open>
  The log: \<^verbatim>\<open>kernel/log.c\<close>. The header block of the on-disk log holds the count and the
  home block numbers of a committed transaction, 32 bits each. \<^verbatim>\<open>log.lh.block\<close> is a map from
  indices: the model puts no bound on the index, the theorems keep the count below
  \<open>LOGBLOCKS\<close>. The second half shows what a commit writes, that recovery completes it, and
  that a crash at any point leaves either all or none of a transaction.
\<close>

section \<open>State\<close>

record superblock =
  sb_magic :: u32
  sb_size :: u32
  sb_nblocks :: u32
  sb_ninodes :: u32
  sb_nlog :: u32
  sb_logstart :: u32
  sb_inodestart :: u32
  sb_bmapstart :: u32

definition BSIZE :: nat where "BSIZE = 1024"

record lkern = bkern +
  log_lock :: spinlock
  log_start :: u32
  log_outstanding :: int
  log_committing :: bool
  log_dev :: u32
  lh_n :: int
  lh_block :: "nat \<Rightarrow> u32"

definition acquire_log :: "nat \<Rightarrow> 'a lkern_scheme \<Rightarrow> 'a lkern_scheme result" where
  "acquire_log = acquire_at log_lock (\<lambda>lk. log_lock_update (\<lambda>_. lk))"

definition release_log :: "nat \<Rightarrow> 'a lkern_scheme \<Rightarrow> 'a lkern_scheme result" where
  "release_log = release_at log_lock (\<lambda>lk. log_lock_update (\<lambda>_. lk))"

definition set_data_of :: "nat \<Rightarrow> (u8 list \<Rightarrow> u8 list) \<Rightarrow> 'a bkern_scheme \<Rightarrow> 'a bkern_scheme" where
  "set_data_of b f s = upd_buf b (b_data_update f) s"

section \<open>Operations of log.c\<close>

text \<open>The loop bodies copy whole blocks, so the \<^verbatim>\<open>memmove\<close> of \<open>BSIZE\<close> bytes is the source's data.\<close>

definition install_body :: "bool \<Rightarrow> nat \<Rightarrow> nat \<Rightarrow> 'a lkern_scheme \<Rightarrow> 'a lkern_scheme result" where
  "install_body recovering c tail s =
     rbind (bread c (log_dev s) (log_start s + of_nat tail + 1) s) (\<lambda>(lbuf, s1).
     rbind (bread c (log_dev s1) (lh_block s1 tail) s1) (\<lambda>(dbuf, s2).
     rbind (bwrite c dbuf (set_data_of dbuf (\<lambda>d. take BSIZE (b_data (bufs s2 lbuf)) @ drop BSIZE d) s2)) (\<lambda>s3.
     rbind (if \<not> recovering then bunpin c dbuf s3 else Ok s3) (\<lambda>s4.
     rbind (brelse c lbuf s4) (\<lambda>s5. brelse c dbuf s5)))))"

definition install_trans :: "bool \<Rightarrow> nat \<Rightarrow> 'a lkern_scheme \<Rightarrow> 'a lkern_scheme result" where
  "install_trans recovering c s = foldR (install_body recovering c) [0..<nat (lh_n s)] s"

definition read_head :: "nat \<Rightarrow> 'a lkern_scheme \<Rightarrow> 'a lkern_scheme result" where
  "read_head c s =
     rbind (bread c (log_dev s) (log_start s) s) (\<lambda>(b, s1).
       let lh = b_data (bufs s1 b);
           s2 = s1\<lparr>lh_n := sint (get32 lh 0)\<rparr>;
           s3 = fold (\<lambda>i t. t\<lparr>lh_block := (lh_block t)(i := get32 lh (4 + 4 * i))\<rparr>) [0..<nat (lh_n s2)] s2
       in brelse c b s3)"

definition write_head :: "nat \<Rightarrow> 'a lkern_scheme \<Rightarrow> 'a lkern_scheme result" where
  "write_head c s =
     rbind (bread c (log_dev s) (log_start s) s) (\<lambda>(b, s1).
       let hb = (\<lambda>d. fold (\<lambda>i d. put32 d (4 + 4 * i) (lh_block s1 i)) [0..<nat (lh_n s1)] (put32 d 0 (of_int (lh_n s1))))
       in rbind (bwrite c b (set_data_of b hb s1)) (\<lambda>s2. brelse c b s2))"

definition recover_from_log :: "nat \<Rightarrow> 'a lkern_scheme \<Rightarrow> 'a lkern_scheme result" where
  "recover_from_log c s =
     rbind (read_head c s) (\<lambda>s1.
     rbind (install_trans True c s1) (\<lambda>s2.
     write_head c (s2\<lparr>lh_n := 0\<rparr>)))"

definition initlog :: "nat \<Rightarrow> u32 \<Rightarrow> superblock \<Rightarrow> 'a lkern_scheme \<Rightarrow> 'a lkern_scheme result" where
  "initlog c dev sb s =
     (if 4 + 4 * LOGBLOCKS \<ge> BSIZE then Panic ''initlog: too big logheader''
      else recover_from_log c (s\<lparr>log_lock := initlock ''log'', log_start := sb_logstart sb, log_dev := dev\<rparr>))"

text \<open>A caller that has to wait for a commit sleeps; the outcome is \<open>Hang\<close>.\<close>

definition begin_op :: "nat \<Rightarrow> 'a lkern_scheme \<Rightarrow> 'a lkern_scheme result" where
  "begin_op c s =
     rbind (acquire_log c s) (\<lambda>s1.
       if log_committing s1 then Hang
       else if lh_n s1 + (log_outstanding s1 + 1) * int MAXOPBLOCKS > int LOGBLOCKS then Hang
       else release_log c (s1\<lparr>log_outstanding := log_outstanding s1 + 1\<rparr>))"

definition write_log_body :: "nat \<Rightarrow> nat \<Rightarrow> 'a lkern_scheme \<Rightarrow> 'a lkern_scheme result" where
  "write_log_body c tail s =
     rbind (bread c (log_dev s) (log_start s + of_nat tail + 1) s) (\<lambda>(to_b, s1).
     rbind (bread c (log_dev s1) (lh_block s1 tail) s1) (\<lambda>(from_b, s2).
     rbind (bwrite c to_b (set_data_of to_b (\<lambda>d. take BSIZE (b_data (bufs s2 from_b)) @ drop BSIZE d) s2)) (\<lambda>s3.
     rbind (brelse c from_b s3) (\<lambda>s4. brelse c to_b s4))))"

definition write_log :: "nat \<Rightarrow> 'a lkern_scheme \<Rightarrow> 'a lkern_scheme result" where
  "write_log c s = foldR (write_log_body c) [0..<nat (lh_n s)] s"

definition commit :: "nat \<Rightarrow> 'a lkern_scheme \<Rightarrow> 'a lkern_scheme result" where
  "commit c s =
     (if lh_n s > 0 then
        rbind (write_log c s) (\<lambda>s1.
        rbind (write_head c s1) (\<lambda>s2.
        rbind (install_trans False c s2) (\<lambda>s3.
        write_head c (s3\<lparr>lh_n := 0\<rparr>))))
      else Ok s)"

definition end_op :: "nat \<Rightarrow> 'a lkern_scheme \<Rightarrow> 'a lkern_scheme result" where
  "end_op c s =
     rbind (acquire_log c s) (\<lambda>s1.
       let s2 = s1\<lparr>log_outstanding := log_outstanding s1 - 1\<rparr>
       in if log_committing s2 then Panic ''log.committing''
          else if log_outstanding s2 = 0 then
            rbind (release_log c (s2\<lparr>log_committing := True\<rparr>)) (\<lambda>s3.
            rbind (commit c s3) (\<lambda>s4.
            rbind (acquire_log c s4) (\<lambda>s5.
            rbind (wakeup c LogChan (s5\<lparr>log_committing := False\<rparr>)) (\<lambda>s6.
            release_log c s6))))
          else rbind (wakeup c LogChan s2) (\<lambda>s3. release_log c s3))"

definition log_slot :: "'a lkern_scheme \<Rightarrow> u32 \<Rightarrow> nat" where
  "log_slot s n = (case find (\<lambda>i. lh_block s i = n) [0..<nat (lh_n s)] of Some i \<Rightarrow> i | None \<Rightarrow> nat (lh_n s))"

definition log_write :: "nat \<Rightarrow> nat \<Rightarrow> 'a lkern_scheme \<Rightarrow> 'a lkern_scheme result" where
  "log_write c b s =
     rbind (acquire_log c s) (\<lambda>s1.
       if lh_n s1 \<ge> int LOGBLOCKS then Panic ''too big a transaction''
       else if log_outstanding s1 < 1 then Panic ''log_write outside of trans''
       else let i = log_slot s1 (b_blockno (bufs s1 b));
                s2 = s1\<lparr>lh_block := (lh_block s1)(i := b_blockno (bufs s1 b))\<rparr>
            in rbind (if int i = lh_n s2
                      then rbind (bpin c b s2) (\<lambda>s3. Ok (s3\<lparr>lh_n := lh_n s3 + 1\<rparr>)) else Ok s2) (\<lambda>s4.
               release_log c s4))"

section \<open>One block at a time\<close>

text \<open>Every block of the disk and of the cache has the block size.\<close>

definition sized :: "'a bkern_scheme \<Rightarrow> bool" where
  "sized s \<longleftrightarrow> (\<forall>n. length (blk s n) = BSIZE)"

lemma log_fields:
  fixes s :: "'a lkern_scheme"
  assumes "bsame s s'"
  shows "log_dev s' = log_dev s" "log_start s' = log_start s" "lh_n s' = lh_n s" "lh_block s' = lh_block s"
    "log_lock s' = log_lock s" "log_outstanding s' = log_outstanding s" "log_committing s' = log_committing s" "lkern.more s' = lkern.more s"
proof -
  have m: "bkern.more s' = bkern.more s" using assms by (rule bsame_more)
  show "log_dev s' = log_dev s" "log_start s' = log_start s" "lh_n s' = lh_n s" "lh_block s' = lh_block s"
    "log_lock s' = log_lock s" "log_outstanding s' = log_outstanding s" "log_committing s' = log_committing s" "lkern.more s' = lkern.more s"
    using m by (cases s; cases s'; simp)+
qed

lemma copy_block: "length x = BSIZE \<Longrightarrow> length d = BSIZE \<Longrightarrow> take BSIZE x @ drop BSIZE d = x"
  by simp

lemma install_step:
  fixes s :: "'a lkern_scheme"
  assumes "holds c p s P {}" and "log_dev s = ROOTDEV" and "sized s" and "card P + 2 \<le> NBUF"
    and "t = log_start s + of_nat i + 1" and "h = lh_block s i" and "t \<noteq> h" and "t \<notin> P"
    and "recovering \<longleftrightarrow> h \<notin> P"
  shows "\<exists>s'. install_body recovering c i s = Ok s' \<and> holds c p s' (P - {h}) {} \<and> bsame s s' \<and>
    blk s' = (blk s)(h := blk s t) \<and> dwrites s' = dwrites s @ [(h, blk s t)]"
proof -
  obtain a b s1 s2 where r: "bread c ROOTDEV t s = Ok (a, s1)" "bread c ROOTDEV h s1 = Ok (b, s2)" "bsame s s1" "bsame s s2"
    "holds c p s2 P {t, h}" "a < NBUF" "caches s2 t a" "b < NBUF" "caches s2 h b" "blk s2 = blk s" "dwrites s2 = dwrites s"
    using two_reads [OF assms(1,7,4)] by blast
  have da: "b_data (bufs s2 a) = blk s t" using held_buf(5) [OF r(5,6,7)] r(10) by simp
  have dk: "disk s2 = disk s" using r(4,11) by (simp add: bsame_def disk_def)
  have ct: "blk s2 t = disk s2 t" using holds_clean [OF assms(1), of t] assms(8) r(10) dk by simp
  let ?f = "\<lambda>d. take BSIZE (b_data (bufs s2 a)) @ drop BSIZE d"
  have f: "?f (blk s2 h) = blk s t" using da assms(3) r(10) by (simp add: sized_def)
  have r5: "holds c p s2 P {h, t}" using r(5) by (simp add: insert_commute)
  obtain s3 where s3: "bwrite c b (upd_buf b (b_data_update ?f) s2) = Ok s3" "bsame s2 s3" "holds c p s3 P {h, t}" "caches s3 h b" "caches s3 t a"
    "blk s3 = (blk s2)(h := ?f (blk s2 h))" "dwrites s3 = dwrites s2 @ [(h, ?f (blk s2 h))]" "blk s3 h = disk s3 h" "t \<in> P \<or> blk s3 t = disk s3 t"
    using write_and_release [OF r5 _ r(8,9,6,7), of ?f] assms(7) ct by blast
  obtain s4 where s4: "(if \<not> recovering then bunpin c b s3 else Ok s3) = Ok s4" "holds c p s4 (P - {h}) {t, h}" "bsame s3 s4" "caches s4 h b" "caches s4 t a"
    "blk s4 = blk s3" "dwrites s4 = dwrites s3"
  proof (cases recovering)
    case True
    then have "P - {h} = P" using assms(9) by blast
    then show thesis using that [of s3] True s3 by (simp add: insert_commute bsame_def)
  next
    case False
    then have "h \<in> P" using assms(9) by blast
    then obtain s4 where "bunpin c b s3 = Ok s4" "holds c p s4 (P - {h}) {h, t}" "bsame s3 s4" "keeps UNIV s3 s4" "blk s4 = blk s3" "dwrites s4 = dwrites s3"
      using bunpin_at [OF s3(3) r(8) s3(4)] by auto
    then show thesis using that [of s4] False s3(4,5) r(6,8) by (simp add: insert_commute keeps_def)
  qed
  have dk4: "disk s4 = disk s3" using s4(3,7) by (simp add: bsame_def disk_def)
  have "blk s4 t = disk s4 t" "blk s4 h = disk s4 h" using s3(8,9) assms(8) s4(6) dk4 by simp_all
  then obtain s5 s6 where s6: "brelse c a s4 = Ok s5" "brelse c b s5 = Ok s6" "bsame s4 s6" "holds c p s6 (P - {h}) {}" "blk s6 = blk s4" "dwrites s6 = dwrites s4"
    using release_two [OF s4(2) assms(7) r(6) s4(5) r(8) s4(4)] by blast
  have "install_body recovering c i s = Ok s6"
    using r(1,2) s3(1) s4(1) s6(1,2) log_fields(1,4) [OF r(3)] assms(2,5,6) by (simp add: install_body_def set_data_of_def)
  moreover have "bsame s s6" using bsame_trans [OF r(4) bsame_trans [OF s3(2) bsame_trans [OF s4(3) s6(3)]]] .
  moreover have "blk s6 = (blk s)(h := blk s t)" "dwrites s6 = dwrites s @ [(h, blk s t)]" using s6(5,6) s4(6,7) s3(6,7) r(10,11) f by simp_all
  ultimately show ?thesis using s6(4) by blast
qed

lemma write_log_step:
  fixes s :: "'a lkern_scheme"
  assumes "holds c p s P {}" and "log_dev s = ROOTDEV" and "sized s" and "card P + 2 \<le> NBUF"
    and "t = log_start s + of_nat i + 1" and "h = lh_block s i" and "t \<noteq> h" and "t \<notin> P" and "h \<in> P"
  shows "\<exists>s'. write_log_body c i s = Ok s' \<and> holds c p s' P {} \<and> bsame s s' \<and>
    blk s' = (blk s)(t := blk s h) \<and> dwrites s' = dwrites s @ [(t, blk s h)]"
proof -
  obtain a b s1 s2 where r: "bread c ROOTDEV t s = Ok (a, s1)" "bread c ROOTDEV h s1 = Ok (b, s2)" "bsame s s1" "bsame s s2"
    "holds c p s2 P {t, h}" "a < NBUF" "caches s2 t a" "b < NBUF" "caches s2 h b" "blk s2 = blk s" "dwrites s2 = dwrites s"
    using two_reads [OF assms(1,7,4)] by blast
  have db: "b_data (bufs s2 b) = blk s h" using held_buf(5) [OF r(5,8,9)] r(10) by simp
  let ?f = "\<lambda>d. take BSIZE (b_data (bufs s2 b)) @ drop BSIZE d"
  have f: "?f (blk s2 t) = blk s h" using db assms(3) r(10) by (simp add: sized_def)
  obtain s3 where s3: "bwrite c a (upd_buf a (b_data_update ?f) s2) = Ok s3" "bsame s2 s3" "holds c p s3 P {t, h}" "caches s3 t a" "caches s3 h b"
    "blk s3 = (blk s2)(t := ?f (blk s2 t))" "dwrites s3 = dwrites s2 @ [(t, ?f (blk s2 t))]" "blk s3 t = disk s3 t"
    using write_and_release [OF r(5) assms(7) r(6,7,8,9), of ?f] assms(9) by blast
  have h3: "holds c p s3 P {h, t}" using s3(3) by (simp add: insert_commute)
  then obtain s5 s6 where s6: "brelse c b s3 = Ok s5" "brelse c a s5 = Ok s6" "bsame s3 s6" "holds c p s6 P {}" "blk s6 = blk s3" "dwrites s6 = dwrites s3"
    using release_two [OF h3 _ r(8) s3(5) r(6) s3(4)] assms(7,9) s3(8) by blast
  have "write_log_body c i s = Ok s6"
    using r(1,2) s3(1) s6(1,2) log_fields(1,4) [OF r(3)] assms(2,5,6) by (simp add: write_log_body_def set_data_of_def)
  moreover have "bsame s s6" using bsame_trans [OF r(4) bsame_trans [OF s3(2) s6(3)]] .
  moreover have "blk s6 = (blk s)(t := blk s h)" "dwrites s6 = dwrites s @ [(t, blk s h)]" using s6(5,6) s3(6,7) r(10,11) f by simp_all
  ultimately show ?thesis using s6(4) by blast
qed

definition hdr :: "int \<Rightarrow> (nat \<Rightarrow> u32) \<Rightarrow> u8 list \<Rightarrow> u8 list" where
  "hdr n H d = fold (\<lambda>i d. put32 d (4 + 4 * i) (H i)) [0..<nat n] (put32 d 0 (of_int n))"

lemma write_head_effect:
  fixes s :: "'a lkern_scheme"
  assumes "holds c p s P {}" and "log_dev s = ROOTDEV" and "card P < NBUF" and "log_start s \<notin> P"
  shows "\<exists>s'. write_head c s = Ok s' \<and> holds c p s' P {} \<and> bsame s s' \<and>
    blk s' = (blk s)(log_start s := hdr (lh_n s) (lh_block s) (blk s (log_start s))) \<and>
    dwrites s' = dwrites s @ [(log_start s, hdr (lh_n s) (lh_block s) (blk s (log_start s)))]"
proof -
  let ?n = "log_start s" and ?f = "hdr (lh_n s) (lh_block s)"
  obtain b s1 where s1: "bread c ROOTDEV ?n s = Ok (b, s1)" "holds c p s1 P {?n}" "bsame s s1" "b < NBUF" "caches s1 ?n b"
    "blk s1 = blk s" "dwrites s1 = dwrites s" using bread_at [OF assms(1), of ?n] assms(3) by auto
  let ?s = "upd_buf b (b_data_update ?f) s1"
  note d = set_at [OF s1(2,4,5), of ?f, simplified]
  have c0: "caches ?s ?n b" using d(3) s1(4,5) by (auto simp: keeps_def)
  obtain s2 where s2: "bwrite c b ?s = Ok s2" "holds c p s2 P {?n}" "bsame ?s s2" "keeps UNIV ?s s2" "blk s2 = blk ?s"
    "dwrites s2 = dwrites ?s @ [(?n, blk ?s ?n)]" "disk s2 = (disk ?s)(?n := blk ?s ?n)"
    using bwrite_at [OF d(1) s1(4) c0] by auto
  have "caches s2 ?n b" using s2(4) c0 s1(4) by (auto simp: keeps_def)
  then obtain s3 where s3: "brelse c b s2 = Ok s3" "holds c p s3 P ({?n} - {?n})" "bsame s2 s3" "blk s3 = blk s2" "dwrites s3 = dwrites s2"
    using brelse_at [OF s2(2) s1(4), of ?n] s2(5,7) by auto
  have "write_head c s = Ok s3"
    using s1(1) s2(1) s3(1) log_fields(1-4) [OF s1(3)] assms(2)
    by (simp add: write_head_def set_data_of_def Let_def hdr_def [abs_def])
  moreover have "bsame s s3" using bsame_trans [OF s1(3) bsame_trans [OF d(2) bsame_trans [OF s2(3) s3(3)]]] .
  moreover have "blk s3 = (blk s)(?n := ?f (blk s ?n))" "dwrites s3 = dwrites s @ [(?n, ?f (blk s ?n))]"
    using s3(4,5) s2(5,6) d(4,5) s1(6,7) by simp_all
  ultimately show ?thesis using s3(2) by auto
qed

lemma length_hdr [simp]: "length (hdr n H d) = length d"
proof -
  have "length (fold (\<lambda>i d. put32 d (4 + 4 * i) (H i)) xs d) = length d" for xs d
    by (induction xs arbitrary: d) simp_all
  then show ?thesis by (simp add: hdr_def)
qed

lemma get_hdr:
  assumes "4 + 4 * k \<le> length d"
  shows "get32 (fold (\<lambda>i d. put32 d (4 + 4 * i) (H i)) [0..<k] d) 0 = get32 d 0"
    and "i < k \<Longrightarrow> get32 (fold (\<lambda>i d. put32 d (4 + 4 * i) (H i)) [0..<k] d) (4 + 4 * i) = H i"
proof -
  let ?F = "\<lambda>k. fold (\<lambda>i d. put32 d (4 + 4 * i) (H i)) [0..<k] d"
  have len: "length (fold (\<lambda>i d. put32 d (4 + 4 * i) (H i)) xs d) = length d" for xs d
    by (induction xs arbitrary: d) simp_all
  show "get32 (?F k) 0 = get32 d 0" by (induction k) simp_all
  show "get32 (?F k) (4 + 4 * i) = H i" if "i < k"
    using assms that
  proof (induction k)
    case (Suc k)
    show ?case
    proof (cases "i = k")
      case True
      then show ?thesis using Suc.prems len [of "[0..<k]" d] by simp
    next
      case False
      then have "i < k" using Suc.prems by simp
      then show ?thesis using Suc by simp
    qed
  qed simp
qed

lemma hdr_fields:
  assumes "0 \<le> n" and "n \<le> int LOGBLOCKS" and "length d = BSIZE"
  shows "sint (get32 (hdr n H d) 0) = n" and "i < nat n \<Longrightarrow> get32 (hdr n H d) (4 + 4 * i) = H i"
proof -
  have "4 + 4 * nat n \<le> length (put32 d 0 (of_int n))" using assms by (simp add: BSIZE_def LOGBLOCKS_def MAXOPBLOCKS_def)
  note g = get_hdr [OF this, where H = H, folded hdr_def]
  have "get32 (hdr n H d) 0 = of_int n" using g(1) assms(3) by (simp add: BSIZE_def)
  then show "sint (get32 (hdr n H d) 0) = n"
    using assms(1,2) by (simp add: signed_of_int LOGBLOCKS_def MAXOPBLOCKS_def signed_take_bit_int_eq_self)
  show "i < nat n \<Longrightarrow> get32 (hdr n H d) (4 + 4 * i) = H i" by (rule g(2))
qed

section \<open>The loops\<close>

abbreviation slot :: "'a lkern_scheme \<Rightarrow> nat \<Rightarrow> u32" where
  "slot s i \<equiv> log_start s + of_nat i + 1"

lemma apply_writes_append: "apply_writes (ws @ vs) d = apply_writes vs (apply_writes ws d)"
  by (induction ws d rule: apply_writes.induct) (simp_all del: fun_upd_apply)

lemma apply_writes_miss: "n \<notin> fst ` set ws \<Longrightarrow> apply_writes ws d n = d n"
  by (induction ws d rule: apply_writes.induct) auto

lemma apply_writes_hit: "distinct (map fst ws) \<Longrightarrow> (n, x) \<in> set ws \<Longrightarrow> apply_writes ws d n = x"
proof (induction ws arbitrary: d)
  case (Cons w ws)
  show ?case
  proof (cases "(n, x) \<in> set ws")
    case True
    then show ?thesis using Cons by (cases w) simp
  next
    case False
    then have w: "w = (n, x)" using Cons.prems(2) by simp
    then have "n \<notin> fst ` set ws" using Cons.prems(1) by simp
    with w show ?thesis by (simp add: apply_writes_miss)
  qed
qed simp

lemma sized_upd: "sized s \<Longrightarrow> blk s' = (blk s)(n := blk s m) \<Longrightarrow> sized s'"
  by (simp add: sized_def)

lemma install_loop:
  fixes s :: "'a lkern_scheme"
  assumes "holds c p s P {}" and "log_dev s = ROOTDEV" and "sized s" and "card P + 2 \<le> NBUF"
    and "distinct (map (lh_block s) is)" and "\<forall>i \<in> set is. slot s i \<notin> P \<and> (recovering \<longleftrightarrow> lh_block s i \<notin> P)"
    and "\<forall>i \<in> set is. \<forall>j \<in> set is. slot s i \<noteq> lh_block s j"
  shows "\<exists>s'. foldR (install_body recovering c) is s = Ok s' \<and> holds c p s' (P - lh_block s ` set is) {} \<and> bsame s s' \<and> sized s' \<and>
    blk s' = apply_writes (map (\<lambda>i. (lh_block s i, blk s (slot s i))) is) (blk s) \<and>
    dwrites s' = dwrites s @ map (\<lambda>i. (lh_block s i, blk s (slot s i))) is"
  using assms
proof (induction "is" arbitrary: s P)
  case (Cons i "is")
  let ?h = "lh_block s i"
  obtain s1 where s1: "install_body recovering c i s = Ok s1" "holds c p s1 (P - {?h}) {}" "bsame s s1"
    "blk s1 = (blk s)(?h := blk s (slot s i))" "dwrites s1 = dwrites s @ [(?h, blk s (slot s i))]"
    using install_step [OF Cons.prems(1-4) refl refl, of i recovering] Cons.prems(6,7) by auto
  note l = log_fields [OF s1(3)]
  have fin: "finite P" using Cons.prems(1) by (simp add: holds_def)
  have b: "blk s1 (slot s j) = blk s (slot s j)" if "j \<in> set is" for j using Cons.prems(7) that s1(4) by auto
  have ws: "map (\<lambda>j. (lh_block s1 j, blk s1 (slot s1 j))) is = map (\<lambda>j. (lh_block s j, blk s (slot s j))) is"
    using b l(2,4) by simp
  have "\<exists>s'. foldR (install_body recovering c) is s1 = Ok s' \<and> holds c p s' (P - {?h} - lh_block s1 ` set is) {} \<and> bsame s1 s' \<and> sized s' \<and>
    blk s' = apply_writes (map (\<lambda>i. (lh_block s1 i, blk s1 (slot s1 i))) is) (blk s1) \<and>
    dwrites s' = dwrites s1 @ map (\<lambda>i. (lh_block s1 i, blk s1 (slot s1 i))) is"
  proof (rule Cons.IH [OF s1(2)])
    show "log_dev s1 = ROOTDEV" using Cons.prems(2) l by simp
    show "sized s1" by (rule sized_upd [OF Cons.prems(3) s1(4)])
    show "card (P - {?h}) + 2 \<le> NBUF" using Cons.prems(4) card_Diff1_le [of P ?h] by linarith
    show "distinct (map (lh_block s1) is)" using Cons.prems(5) l by simp
    show "\<forall>j \<in> set is. slot s1 j \<notin> P - {?h} \<and> (recovering \<longleftrightarrow> lh_block s1 j \<notin> P - {?h})"
    proof
      fix j assume j: "j \<in> set is"
      then have "lh_block s j \<in> lh_block s ` set is" by (rule imageI)
      moreover have "?h \<notin> lh_block s ` set is" using Cons.prems(5) by simp
      ultimately have "lh_block s j \<noteq> ?h" by metis
      moreover have "slot s j \<notin> P \<and> (recovering \<longleftrightarrow> lh_block s j \<notin> P)"
        by (rule bspec [OF Cons.prems(6)]) (simp add: j)
      ultimately show "slot s1 j \<notin> P - {?h} \<and> (recovering \<longleftrightarrow> lh_block s1 j \<notin> P - {?h})"
        unfolding l(2,4) by blast
    qed
    show "\<forall>i \<in> set is. \<forall>j \<in> set is. slot s1 i \<noteq> lh_block s1 j" using Cons.prems(7) l by simp
  qed
  then obtain s' where s': "foldR (install_body recovering c) is s1 = Ok s'" "holds c p s' (P - {?h} - lh_block s1 ` set is) {}" "bsame s1 s'" "sized s'"
    "blk s' = apply_writes (map (\<lambda>i. (lh_block s1 i, blk s1 (slot s1 i))) is) (blk s1)"
    "dwrites s' = dwrites s1 @ map (\<lambda>i. (lh_block s1 i, blk s1 (slot s1 i))) is"
    by (elim exE conjE)
  have "P - {?h} - lh_block s1 ` set is = P - lh_block s ` set (i # is)" unfolding l(4) by auto
  then have "holds c p s' (P - lh_block s ` set (i # is)) {}" using s'(2) by (simp only:)
  then show ?case using s1 s'(1,4) s'(5,6) [unfolded ws] bsame_trans [OF s1(3) s'(3)] by auto
qed (simp add: bsame_def)

lemma write_log_loop:
  fixes s :: "'a lkern_scheme"
  assumes "holds c p s P {}" and "log_dev s = ROOTDEV" and "sized s" and "card P + 2 \<le> NBUF"
    and "\<forall>i \<in> set is. slot s i \<notin> P \<and> lh_block s i \<in> P"
    and "\<forall>i \<in> set is. \<forall>j \<in> set is. slot s i \<noteq> lh_block s j"
  shows "\<exists>s'. foldR (write_log_body c) is s = Ok s' \<and> holds c p s' P {} \<and> bsame s s' \<and> sized s' \<and>
    blk s' = apply_writes (map (\<lambda>i. (slot s i, blk s (lh_block s i))) is) (blk s) \<and>
    dwrites s' = dwrites s @ map (\<lambda>i. (slot s i, blk s (lh_block s i))) is"
  using assms
proof (induction "is" arbitrary: s)
  case (Cons i "is")
  let ?t = "slot s i"
  obtain s1 where s1: "write_log_body c i s = Ok s1" "holds c p s1 P {}" "bsame s s1"
    "blk s1 = (blk s)(?t := blk s (lh_block s i))" "dwrites s1 = dwrites s @ [(?t, blk s (lh_block s i))]"
    using write_log_step [OF Cons.prems(1-4) refl refl, of i] Cons.prems(5,6) by auto
  note l = log_fields [OF s1(3)]
  have b: "blk s1 (lh_block s j) = blk s (lh_block s j)" if "j \<in> set is" for j using Cons.prems(6) that s1(4) by auto
  have ws: "map (\<lambda>j. (slot s1 j, blk s1 (lh_block s1 j))) is = map (\<lambda>j. (slot s j, blk s (lh_block s j))) is"
    using b l(2,4) by simp
  have "\<exists>s'. foldR (write_log_body c) is s1 = Ok s' \<and> holds c p s' P {} \<and> bsame s1 s' \<and> sized s' \<and>
    blk s' = apply_writes (map (\<lambda>i. (slot s1 i, blk s1 (lh_block s1 i))) is) (blk s1) \<and>
    dwrites s' = dwrites s1 @ map (\<lambda>i. (slot s1 i, blk s1 (lh_block s1 i))) is"
    by (rule Cons.IH [OF s1(2) _ sized_upd [OF Cons.prems(3) s1(4)] Cons.prems(4)]) (use Cons.prems l in simp_all)
  then obtain s' where s': "foldR (write_log_body c) is s1 = Ok s'" "holds c p s' P {}" "bsame s1 s'" "sized s'"
    "blk s' = apply_writes (map (\<lambda>i. (slot s i, blk s (lh_block s i))) is) (blk s1)"
    "dwrites s' = dwrites s1 @ map (\<lambda>i. (slot s i, blk s (lh_block s i))) is"
    unfolding ws by (elim exE conjE)
  then show ?case using s1 bsame_trans [OF s1(3) s'(3)] by auto
qed (simp add: bsame_def)

section \<open>Commit and recovery\<close>

lemma view_eqI:
  assumes "bufs s' = bufs s" and "disk0 s' = disk0 s" and "dwrites s' = dwrites s"
  shows "disk s' = disk s" and "blk s' = blk s"
proof -
  show d: "disk s' = disk s" by (simp add: disk_def assms)
  show "blk s' = blk s" by (rule ext) (simp add: blk_def caches_def assms d cong: option.case_cong)
qed

lemma holds_eqI:
  assumes "bufs s' = bufs s" and "disk0 s' = disk0 s" and "dwrites s' = dwrites s" and "bcache_lock s' = bcache_lock s"
    and "procs s' = procs s" and "cpus s' = cpus s" and "sstatus s' = sstatus s"
  shows "holds c p s' P L = holds c p s P L"
  by (simp add: holds_def runs_def quiet_def hart_ok_def intr_get_def bc_inv_def buf_ok_def caches_def usage_def view_eqI(1) [OF assms(1-3)] assms)

lemma holds_log [simp]:
  fixes s :: "'a lkern_scheme"
  shows "holds c p (s\<lparr>lh_n := n\<rparr>) P L = holds c p s P L" "holds c p (s\<lparr>lh_block := h\<rparr>) P L = holds c p s P L"
    "blk (s\<lparr>lh_n := n\<rparr>) = blk s" "blk (s\<lparr>lh_block := h\<rparr>) = blk s" "disk (s\<lparr>lh_n := n\<rparr>) = disk s" "disk (s\<lparr>lh_block := h\<rparr>) = disk s"
    "sized (s\<lparr>lh_n := n\<rparr>) = sized s" "sized (s\<lparr>lh_block := h\<rparr>) = sized s"
    "kframe s0 (s\<lparr>lh_n := n\<rparr>) = kframe s0 s" "kframe s0 (s\<lparr>lh_block := h\<rparr>) = kframe s0 s"
    "kframe (s\<lparr>lh_n := n\<rparr>) s0 = kframe s s0" "kframe (s\<lparr>lh_block := h\<rparr>) s0 = kframe s s0"
proof -
  show "holds c p (s\<lparr>lh_n := n\<rparr>) P L = holds c p s P L" "holds c p (s\<lparr>lh_block := h\<rparr>) P L = holds c p s P L"
    by (rule holds_eqI; simp)+
  show b: "blk (s\<lparr>lh_n := n\<rparr>) = blk s" "blk (s\<lparr>lh_block := h\<rparr>) = blk s" by (rule view_eqI(2); simp)+
  show "disk (s\<lparr>lh_n := n\<rparr>) = disk s" "disk (s\<lparr>lh_block := h\<rparr>) = disk s" by (rule view_eqI(1); simp)+
  show "sized (s\<lparr>lh_n := n\<rparr>) = sized s" "sized (s\<lparr>lh_block := h\<rparr>) = sized s" by (simp_all add: sized_def b)
qed (simp_all add: kframe_def krest_def)

text \<open>The blocks of the log: its header and \<open>LOGBLOCKS\<close> slots.\<close>

definition in_log :: "u32 \<Rightarrow> u32 \<Rightarrow> bool" where
  "in_log start n \<longleftrightarrow> (\<exists>j \<le> LOGBLOCKS. n = start + of_nat j)"

text \<open>A transaction ready to commit: its blocks are distinct, outside the log, cached and pinned.\<close>

definition log_ready :: "nat \<Rightarrow> nat \<Rightarrow> 'a lkern_scheme \<Rightarrow> bool" where
  "log_ready c p s \<longleftrightarrow> holds c p s (lh_block s ` {..<nat (lh_n s)}) {} \<and> log_dev s = ROOTDEV \<and> sized s \<and>
     0 \<le> lh_n s \<and> lh_n s \<le> int LOGBLOCKS \<and> nat (lh_n s) + 2 \<le> NBUF \<and> inj_on (lh_block s) {..<nat (lh_n s)} \<and>
     (\<forall>i < nat (lh_n s). \<not> in_log (log_start s) (lh_block s i))"

definition commit_writes :: "'a lkern_scheme \<Rightarrow> (u32 \<times> u8 list) list" where
  "commit_writes s =
     (let n = nat (lh_n s); h = hdr (lh_n s) (lh_block s) (blk s (log_start s))
      in map (\<lambda>i. (slot s i, blk s (lh_block s i))) [0..<n] @ [(log_start s, h)] @
         map (\<lambda>i. (lh_block s i, blk s (lh_block s i))) [0..<n] @ [(log_start s, hdr 0 (lh_block s) h)])"

lemma slot_in_log: "i < LOGBLOCKS \<Longrightarrow> in_log (log_start s) (slot s i)"
  unfolding in_log_def by (intro exI [of _ "Suc i"]) simp

lemma start_in_log: "in_log s s"
  unfolding in_log_def by (intro exI [of _ 0]) simp

lemma slot_inj:
  assumes "i < LOGBLOCKS" and "j < LOGBLOCKS" and "slot s i = slot s j"
  shows "i = j"
proof -
  have "(word_of_nat i :: u32) = word_of_nat j" using assms(3) by simp
  then have "unat (word_of_nat i :: u32) = unat (word_of_nat j :: u32)" by simp
  then show ?thesis using assms(1,2) by (simp add: unsigned_of_nat take_bit_nat_eq_self LOGBLOCKS_def MAXOPBLOCKS_def)
qed

lemma slot_ne_start: "i < LOGBLOCKS \<Longrightarrow> slot s i \<noteq> log_start s"
proof
  assume i: "i < LOGBLOCKS" and "slot s i = log_start s"
  then have "(word_of_nat (Suc i) :: u32) = 0" by (simp add: add.commute)
  then have "unat (word_of_nat (Suc i) :: u32) = 0" by (simp del: of_nat_Suc)
  then show False using i by (simp add: unsigned_of_nat take_bit_nat_eq_self LOGBLOCKS_def MAXOPBLOCKS_def del: of_nat_Suc)
qed

lemma log_readyD:
  fixes s :: "'a lkern_scheme"
  assumes "log_ready c p s"
  defines "n \<equiv> nat (lh_n s)" and "P \<equiv> lh_block s ` {..<nat (lh_n s)}"
  shows "holds c p s P {}" "log_dev s = ROOTDEV" "sized s" "n \<le> LOGBLOCKS" "card P + 2 \<le> NBUF" "inj_on (lh_block s) {..<n}"
    "\<And>i. i < n \<Longrightarrow> \<not> in_log (log_start s) (lh_block s i)" "\<And>i. i < n \<Longrightarrow> slot s i \<notin> P"
    "\<And>i j. i < n \<Longrightarrow> j < n \<Longrightarrow> slot s i \<noteq> lh_block s j" "log_start s \<notin> P" "inj_on (slot s) {..<n}" "\<And>i. i < n \<Longrightarrow> slot s i \<noteq> log_start s"
proof -
  show r: "holds c p s P {}" "log_dev s = ROOTDEV" "sized s" "n \<le> LOGBLOCKS" "inj_on (lh_block s) {..<n}"
    "\<And>i. i < n \<Longrightarrow> \<not> in_log (log_start s) (lh_block s i)" using assms(1) by (auto simp: log_ready_def n_def P_def)
  show "card P + 2 \<le> NBUF" using card_image_le [of "{..<n}" "lh_block s"] assms(1) by (simp add: log_ready_def n_def P_def)
  show sP: "slot s i \<notin> P" if "i < n" for i
  proof
    assume "slot s i \<in> P"
    then obtain j where "j < n" "slot s i = lh_block s j" by (auto simp: P_def n_def)
    then show False using r(6) [of j] slot_in_log [of i s] that r(4) by simp
  qed
  then show "slot s i \<noteq> lh_block s j" if "i < n" "j < n" for i j using that by (auto simp: P_def n_def)
  show "log_start s \<notin> P"
  proof
    assume "log_start s \<in> P"
    then obtain j where "j < n" "log_start s = lh_block s j" by (auto simp: P_def n_def)
    then show False using r(6) [of j] start_in_log [of "lh_block s j"] by simp
  qed
  show "inj_on (slot s) {..<n}"
  proof (rule inj_onI)
    fix i j assume "i \<in> {..<n}" "j \<in> {..<n}" "slot s i = slot s j"
    then show "i = j" using slot_inj [of i j s] r(4) by simp
  qed
  show "slot s i \<noteq> log_start s" if "i < n" for i using slot_ne_start [of i s] that r(4) by simp
qed

lemma distinct_map_upt: "inj_on f {..<n} \<Longrightarrow> distinct (map f [0..<n])"
  by (simp add: distinct_map atLeast_upt [symmetric] lessThan_atLeast0)

text \<open>Up to the commit point: the blocks in the log, then the header.\<close>

lemma commit_log:
  fixes s :: "'a lkern_scheme"
  assumes "log_ready c p s"
  defines "n \<equiv> nat (lh_n s)" and "P \<equiv> lh_block s ` {..<nat (lh_n s)}"
    and "h \<equiv> hdr (lh_n s) (lh_block s) (blk s (log_start s))"
  shows "\<exists>s1 s2. write_log c s = Ok s1 \<and> write_head c s1 = Ok s2 \<and> holds c p s2 P {} \<and> bsame s s2 \<and> sized s2 \<and>
    dwrites s2 = dwrites s @ map (\<lambda>i. (slot s i, blk s (lh_block s i))) [0..<n] @ [(log_start s, h)] \<and>
    blk s2 (log_start s) = h \<and> (\<forall>i < n. blk s2 (slot s i) = blk s (lh_block s i)) \<and>
    (\<forall>m. \<not> in_log (log_start s) m \<longrightarrow> blk s2 m = blk s m)"
proof -
  note r = log_readyD [OF assms(1), folded n_def P_def]
  let ?ws = "map (\<lambda>i. (slot s i, blk s (lh_block s i))) [0..<n]"
  obtain s1 where s1: "write_log c s = Ok s1" "holds c p s1 P {}" "bsame s s1" "sized s1" "blk s1 = apply_writes ?ws (blk s)"
    "dwrites s1 = dwrites s @ ?ws"
    using write_log_loop [OF r(1-3,5), of "[0..<n]"] r(8,9) by (auto simp: write_log_def n_def P_def)
  note l1 = log_fields [OF s1(3)]
  have b1: "blk s1 m = blk s m" if m: "\<And>i. i < n \<Longrightarrow> slot s i \<noteq> m" for m
    unfolding s1(5)
  proof (rule apply_writes_miss)
    show "m \<notin> fst ` set ?ws"
    proof
      assume "m \<in> fst ` set ?ws"
      then obtain i where "i < n" "m = slot s i" by auto
      then show False using m by blast
    qed
  qed
  have b1s: "blk s1 (slot s i) = blk s (lh_block s i)" if "i < n" for i
    unfolding s1(5) using distinct_map_upt [OF r(11)] that by (intro apply_writes_hit) (auto simp: o_def)
  have b1t: "blk s1 (log_start s) = blk s (log_start s)" by (rule b1) (rule r(12))
  obtain s2 where s2: "write_head c s1 = Ok s2" "holds c p s2 P {}" "bsame s1 s2" "blk s2 = (blk s1)(log_start s := h)"
    "dwrites s2 = dwrites s1 @ [(log_start s, h)]"
    using write_head_effect [OF s1(2)] l1(1-4) r(2,5,10) b1t by (auto simp: h_def)
  have "sized s2" using s1(4) r(3) s2(4) by (simp add: sized_def h_def)
  moreover have "blk s2 (slot s i) = blk s (lh_block s i)" if "i < n" for i using b1s [OF that] r(12) [OF that] s2(4) by simp
  moreover have "blk s2 m = blk s m" if "\<not> in_log (log_start s) m" for m
  proof -
    have "m \<noteq> log_start s" using that start_in_log by blast
    moreover have "slot s i \<noteq> m" if "i < n" for i
      using slot_in_log [of i s] r(4) that \<open>\<not> in_log (log_start s) m\<close> by auto
    ultimately show ?thesis using b1 [of m] s2(4) by simp
  qed
  ultimately show ?thesis using s1(1,6) s2 bsame_trans [OF s1(3) s2(3)] by (intro exI [of _ s1] exI [of _ s2]) simp
qed

text \<open>After the commit point: the blocks to their homes, then an empty header.\<close>

definition finished :: "nat \<Rightarrow> nat \<Rightarrow> 'a lkern_scheme \<Rightarrow> 'a lkern_scheme \<Rightarrow> bool" where
  "finished c p s s' \<longleftrightarrow> holds c p s' {} {} \<and> kframe s s' \<and> lh_n s' = 0 \<and> sized s' \<and> disk0 s' = disk0 s \<and>
    log_start s' = log_start s \<and> log_dev s' = log_dev s \<and> log_outstanding s' = log_outstanding s \<and>
    log_committing s' = log_committing s \<and> log_lock s' = log_lock s \<and> lkern.more s' = lkern.more s"

lemma install_and_clear:
  fixes s :: "'a lkern_scheme"
  assumes "holds c p s P {}" and "log_dev s = ROOTDEV" and "sized s" and "card P + 2 \<le> NBUF" and "n = nat (lh_n s)"
    and "inj_on (lh_block s) {..<n}" and "\<And>i. i < n \<Longrightarrow> slot s i \<notin> P \<and> (recovering \<longleftrightarrow> lh_block s i \<notin> P)"
    and "\<And>i j. i < n \<Longrightarrow> j < n \<Longrightarrow> slot s i \<noteq> lh_block s j" and "\<And>i. i < n \<Longrightarrow> log_start s \<noteq> lh_block s i"
    and "P \<subseteq> lh_block s ` {..<n}"
  defines "ws \<equiv> map (\<lambda>i. (lh_block s i, blk s (slot s i))) [0..<n]" and "h \<equiv> hdr 0 (lh_block s) (blk s (log_start s))"
  shows "\<exists>s1 s2. install_trans recovering c s = Ok s1 \<and> write_head c (s1\<lparr>lh_n := 0\<rparr>) = Ok s2 \<and> finished c p s s2 \<and>
    dwrites s2 = dwrites s @ ws @ [(log_start s, h)] \<and> blk s2 = (apply_writes ws (blk s))(log_start s := h)"
proof -
  have e: "P - lh_block s ` set [0..<n] = {}" using assms(10) by auto
  have "\<exists>s'. foldR (install_body recovering c) [0..<n] s = Ok s' \<and> holds c p s' (P - lh_block s ` set [0..<n]) {} \<and>
      bsame s s' \<and> sized s' \<and> blk s' = apply_writes ws (blk s) \<and> dwrites s' = dwrites s @ ws"
    unfolding ws_def by (rule install_loop [OF assms(1-4) distinct_map_upt [OF assms(6)]]) (use assms(7,8) in simp_all)
  then obtain s1 where s1: "install_trans recovering c s = Ok s1" "holds c p s1 {} {}" "bsame s s1" "sized s1"
    "blk s1 = apply_writes ws (blk s)" "dwrites s1 = dwrites s @ ws"
    unfolding e install_trans_def assms(5) [symmetric] by blast
  note l1 = log_fields [OF s1(3)]
  have "log_start s \<notin> fst ` set ws"
  proof
    assume "log_start s \<in> fst ` set ws"
    then obtain i where "i < n" "log_start s = lh_block s i" by (auto simp: ws_def)
    then show False using assms(9) by blast
  qed
  then have b: "blk s1 (log_start s) = blk s (log_start s)" unfolding s1(5) by (rule apply_writes_miss)
  have "card {} < NBUF" using assms(4) by simp
  then obtain s2 where s2: "write_head c (s1\<lparr>lh_n := 0\<rparr>) = Ok s2" "holds c p s2 {} {}" "bsame (s1\<lparr>lh_n := 0\<rparr>) s2"
    "blk s2 = (blk s1)(log_start s := h)" "dwrites s2 = dwrites s1 @ [(log_start s, h)]"
    using write_head_effect [of c p "s1\<lparr>lh_n := 0\<rparr>" "{}"] s1(2) l1 assms(2) b by (auto simp: h_def)
  note l2 = log_fields [OF s2(3), simplified]
  have "kframe s s2" "disk0 s2 = disk0 s"
    using s1(3) s2(3) kframe_trans [of s s1 s2] by (simp_all add: bsame_def)
  moreover have "sized s2" using s1(4) assms(3) s2(4) by (simp add: sized_def h_def)
  ultimately have "finished c p s s2" using s2(2) l1 l2 by (simp add: finished_def)
  then show ?thesis using s1(1,5,6) s2(1,4,5) by auto
qed

lemma commit_effect:
  fixes s :: "'a lkern_scheme"
  assumes "log_ready c p s" and "0 < lh_n s"
  shows "\<exists>s'. commit c s = Ok s' \<and> finished c p s s' \<and> dwrites s' = dwrites s @ commit_writes s \<and>
    (\<forall>m. \<not> in_log (log_start s) m \<longrightarrow> blk s' m = blk s m)"
proof -
  define n where "n = nat (lh_n s)"
  define P where "P = lh_block s ` {..<nat (lh_n s)}"
  define h where "h = hdr (lh_n s) (lh_block s) (blk s (log_start s))"
  note r = log_readyD [OF assms(1), folded n_def P_def]
  obtain s1 s2 where s2: "write_log c s = Ok s1" "write_head c s1 = Ok s2" "holds c p s2 P {}" "bsame s s2" "sized s2"
    "dwrites s2 = dwrites s @ map (\<lambda>i. (slot s i, blk s (lh_block s i))) [0..<n] @ [(log_start s, h)]"
    "blk s2 (log_start s) = h" "\<And>i. i < n \<Longrightarrow> blk s2 (slot s i) = blk s (lh_block s i)"
    "\<And>m. \<not> in_log (log_start s) m \<Longrightarrow> blk s2 m = blk s m"
    using commit_log [OF assms(1), folded n_def P_def h_def] by blast
  note l = log_fields [OF s2(4)]
  let ?ws = "map (\<lambda>i. (lh_block s i, blk s (lh_block s i))) [0..<n]"
  have ws: "map (\<lambda>i. (lh_block s2 i, blk s2 (slot s2 i))) [0..<n] = ?ws" using s2(8) l(2,4) by simp
  obtain s3 s4 where s4: "install_trans False c s2 = Ok s3" "write_head c (s3\<lparr>lh_n := 0\<rparr>) = Ok s4" "finished c p s2 s4"
    "dwrites s4 = dwrites s2 @ ?ws @ [(log_start s, hdr 0 (lh_block s) h)]"
    "blk s4 = (apply_writes ?ws (blk s2))(log_start s := hdr 0 (lh_block s) h)"
  proof -
    have "\<exists>s1 s4. install_trans False c s2 = Ok s1 \<and> write_head c (s1\<lparr>lh_n := 0\<rparr>) = Ok s4 \<and> finished c p s2 s4 \<and>
      dwrites s4 = dwrites s2 @ map (\<lambda>i. (lh_block s2 i, blk s2 (slot s2 i))) [0..<n] @ [(log_start s2, hdr 0 (lh_block s2) (blk s2 (log_start s2)))] \<and>
      blk s4 = (apply_writes (map (\<lambda>i. (lh_block s2 i, blk s2 (slot s2 i))) [0..<n]) (blk s2))(log_start s2 := hdr 0 (lh_block s2) (blk s2 (log_start s2)))"
      by (rule install_and_clear [OF s2(3) _ s2(5) r(5)]) (use r l in \<open>auto simp: n_def P_def\<close>)
    then show thesis using that unfolding ws unfolding l(2,4) s2(7) by blast
  qed
  have "finished c p s s4"
    using s4(3) s2(4) l kframe_trans [of s s2 s4] by (simp add: finished_def bsame_def)
  moreover have "blk s4 m = blk s m" if m: "\<not> in_log (log_start s) m" for m
  proof -
    have ne: "m \<noteq> log_start s" using m start_in_log by blast
    have "apply_writes ?ws (blk s2) m = blk s m"
    proof (cases "m \<in> P")
      case True
      then obtain i where "i < n" "m = lh_block s i" by (auto simp: P_def n_def)
      then show ?thesis using distinct_map_upt [OF r(6)] by (intro apply_writes_hit) (auto simp: o_def)
    next
      case False
      then have "apply_writes ?ws (blk s2) m = blk s2 m" by (intro apply_writes_miss) (auto simp: P_def n_def)
      then show ?thesis using s2(9) [OF m] by simp
    qed
    then show ?thesis using s4(5) ne by simp
  qed
  moreover have "dwrites s4 = dwrites s @ commit_writes s"
    using s4(4) s2(6) by (simp add: commit_writes_def Let_def n_def h_def)
  moreover have "commit c s = Ok s4" using assms(2) s2(1,2) s4(1,2) by (simp add: commit_def)
  ultimately show ?thesis by blast
qed

lemma fold_blocks:
  fixes s :: "'a lkern_scheme"
  shows "fold (\<lambda>i t. t\<lparr>lh_block := (lh_block t)(i := f i)\<rparr>) [0..<k] s = s\<lparr>lh_block := (\<lambda>i. if i < k then f i else lh_block s i)\<rparr>"
proof (induction k)
  case (Suc k)
  then show ?case by (auto simp: fun_eq_iff)
qed simp

lemma read_head_effect:
  fixes s :: "'a lkern_scheme"
  assumes "holds c p s {} {}" and "log_dev s = ROOTDEV" and "log_start s = st"
  defines "n \<equiv> sint (get32 (blk s st) 0)"
  shows "\<exists>s'. read_head c s = Ok s' \<and> holds c p s' {} {} \<and> kframe s s' \<and> disk0 s' = disk0 s \<and> dwrites s' = dwrites s \<and> blk s' = blk s \<and>
    lh_n s' = n \<and> lh_block s' = (\<lambda>i. if i < nat n then get32 (blk s st) (4 + 4 * i) else lh_block s i) \<and>
    log_start s' = st \<and> log_dev s' = ROOTDEV \<and> log_outstanding s' = log_outstanding s \<and>
    log_committing s' = log_committing s \<and> log_lock s' = log_lock s \<and> lkern.more s' = lkern.more s"
proof -
  have "(0 :: nat) < NBUF" by (simp add: NBUF_def MAXOPBLOCKS_def)
  then obtain b s1 where s1: "bread c ROOTDEV st s = Ok (b, s1)" "holds c p s1 {} {st}" "bsame s s1" "b < NBUF" "caches s1 st b"
    "b_data (bufs s1 b) = blk s st" "blk s1 = blk s" "dwrites s1 = dwrites s" using bread_at [OF assms(1), of st] by auto
  note l1 = log_fields [OF s1(3)]
  define H where "H = (\<lambda>i. if i < nat n then get32 (blk s st) (4 + 4 * i) else lh_block s i)"
  let ?s2 = "s1\<lparr>lh_n := n, lh_block := H\<rparr>"
  have d: "blk ?s2 st = disk ?s2 st"
    using holds_clean [OF assms(1), of st] s1(3,7,8) by (simp add: bsame_def disk_def)
  have h2: "holds c p ?s2 {} {st}" using s1(2) by simp
  have c2: "caches ?s2 st b" using s1(5) by (simp add: caches_def)
  obtain s3 where s3: "brelse c b ?s2 = Ok s3" "holds c p s3 {} ({st} - {st})" "bsame ?s2 s3" "blk s3 = blk ?s2" "dwrites s3 = dwrites ?s2"
    using brelse_at [OF h2 s1(4) c2, of] d by auto
  note l3 = log_fields [OF s3(3), simplified]
  have "read_head c s = Ok s3"
    using s1(1,6) s3(1) assms(2,3) l1 unfolding read_head_def fold_blocks by (simp add: Let_def n_def [symmetric] H_def cong: if_cong)
  moreover have "kframe s s3" "disk0 s3 = disk0 s" using s1(3) s3(3) kframe_trans [of s s1 s3] by (simp_all add: bsame_def)
  ultimately show ?thesis using s3(2,4,5) s1(7,8) l1 l3 assms(2,3) by (auto simp: H_def)
qed

text \<open>A disk with a log that recovery can use: a header with a count and the home blocks, as a commit writes it.\<close>

definition good_log :: "u32 \<Rightarrow> (u32 \<Rightarrow> u8 list) \<Rightarrow> bool" where
  "good_log st d \<longleftrightarrow> (\<forall>n. length (d n) = BSIZE) \<and>
     (let n = sint (get32 (d st) 0); H = (\<lambda>i. get32 (d st) (4 + 4 * i))
      in n \<le> int LOGBLOCKS \<and> inj_on H {..<nat n} \<and> (\<forall>i < nat n. \<not> in_log st (H i)))"

definition recovered :: "u32 \<Rightarrow> (u32 \<Rightarrow> u8 list) \<Rightarrow> u32 \<Rightarrow> u8 list" where
  "recovered st d = apply_writes (map (\<lambda>i. (get32 (d st) (4 + 4 * i), d (st + of_nat i + 1))) [0..<nat (sint (get32 (d st) 0))]) d"

lemma recover_effect:
  fixes s :: "'a lkern_scheme"
  assumes "holds c p s {} {}" and "log_dev s = ROOTDEV" and "log_start s = st" and "good_log st (disk s)"
  shows "\<exists>s'. recover_from_log c s = Ok s' \<and> holds c p s' {} {} \<and> kframe s s' \<and> lh_n s' = 0 \<and>
    blk s' = (recovered st (disk s))(st := hdr 0 (\<lambda>i. 0) (disk s st)) \<and> disk s' = blk s' \<and> log_start s' = st \<and> log_dev s' = ROOTDEV"
proof -
  have bd: "blk s = disk s" using holds_clean [OF assms(1)] by (simp add: fun_eq_iff)
  define n where "n = sint (get32 (disk s st) 0)"
  define H where "H = (\<lambda>i. get32 (disk s st) (4 + 4 * i))"
  have g: "sized s" "nat n \<le> LOGBLOCKS" "inj_on H {..<nat n}" "\<And>i. i < nat n \<Longrightarrow> \<not> in_log st (H i)"
    using assms(4) by (auto simp: good_log_def sized_def bd n_def H_def Let_def)
  obtain s1 where s1: "read_head c s = Ok s1" "holds c p s1 {} {}" "kframe s s1" "disk0 s1 = disk0 s" "dwrites s1 = dwrites s" "blk s1 = blk s"
    "lh_n s1 = n" "lh_block s1 = (\<lambda>i. if i < nat n then H i else lh_block s i)" "log_start s1 = st" "log_dev s1 = ROOTDEV"
    using read_head_effect [OF assms(1-3)] unfolding bd n_def [symmetric] H_def by auto
  have sl: "slot s1 i \<noteq> lh_block s1 j" if "i < nat n" "j < nat n" for i j
    using slot_in_log [of i s1] g(2) g(4) [OF that(2)] that s1(8,9) by auto
  have st: "log_start s1 \<noteq> lh_block s1 i" if "i < nat n" for i using start_in_log [of st] g(4) [OF that] that s1(8,9) by auto
  define ws where "ws = map (\<lambda>i. (lh_block s1 i, blk s1 (slot s1 i))) [0..<nat n]"
  have "\<exists>s2 s3. install_trans True c s1 = Ok s2 \<and> write_head c (s2\<lparr>lh_n := 0\<rparr>) = Ok s3 \<and> finished c p s1 s3 \<and>
    dwrites s3 = dwrites s1 @ ws @ [(log_start s1, hdr 0 (lh_block s1) (blk s1 (log_start s1)))] \<and>
    blk s3 = (apply_writes ws (blk s1))(log_start s1 := hdr 0 (lh_block s1) (blk s1 (log_start s1)))"
    unfolding ws_def
  proof (rule install_and_clear [OF s1(2,10)])
    show "sized s1" using g(1) s1(6) by (simp add: sized_def)
    show "inj_on (lh_block s1) {..<nat n}" using g(3) s1(8) by (auto simp: inj_on_def)
  qed (use sl st s1(7) in \<open>simp_all add: NBUF_def MAXOPBLOCKS_def\<close>)
  then obtain s2 s3 where s3: "install_trans True c s1 = Ok s2" "write_head c (s2\<lparr>lh_n := 0\<rparr>) = Ok s3" "finished c p s1 s3"
    "blk s3 = (apply_writes ws (blk s1))(log_start s1 := hdr 0 (lh_block s1) (blk s1 (log_start s1)))" by blast
  have ws: "ws = map (\<lambda>i. (H i, disk s (st + of_nat i + 1))) [0..<nat n]"
    unfolding ws_def s1(6,8,9) bd by simp
  have h0: "hdr 0 (lh_block s1) d = hdr 0 (\<lambda>i. 0) d" for d by (simp add: hdr_def)
  have "blk s3 = (recovered st (disk s))(st := hdr 0 (\<lambda>i. 0) (disk s st))"
    unfolding s3(4) h0 recovered_def ws s1(6,9) bd by (simp add: n_def H_def)
  moreover have "disk s3 = blk s3" using holds_clean [of c p s3 "{}" "{}"] s3(3) by (simp add: finished_def fun_eq_iff)
  moreover have "recover_from_log c s = Ok s3" using s1(1) s3(1,2) by (simp add: recover_from_log_def)
  ultimately show ?thesis using s3(3) kframe_trans [OF s1(3), of s3] s1(9,10) by (auto simp: finished_def)
qed

section \<open>Crashes\<close>

lemma take_writes: "fst ` set (take j (map (\<lambda>i. (f i, g i)) [0..<n])) \<subseteq> f ` {..<n}"
  using set_take_subset [of j "map (\<lambda>i. (f i, g i)) [0..<n]"] by auto

lemma recovered_empty: "sint (get32 (d st) 0) = 0 \<Longrightarrow> recovered st d = d"
  by (simp add: recovered_def)

lemma good_log_empty: "(\<And>n. length (d n) = BSIZE) \<Longrightarrow> sint (get32 (d st) 0) = 0 \<Longrightarrow> good_log st d"
  by (simp add: good_log_def)

lemma sized_writes: "(\<And>n. length (d n) = k) \<Longrightarrow> (\<And>n x. (n, x) \<in> set ws \<Longrightarrow> length x = k) \<Longrightarrow> length (apply_writes ws d n) = k"
proof (induction ws arbitrary: d n)
  case (Cons w ws)
  obtain a x where w: "w = (a, x)" by fastforce
  have "length (apply_writes ws (d(a := x)) n) = k"
  proof (rule Cons.IH)
    show "length ((d(a := x)) m) = k" for m using Cons.prems(1) Cons.prems(2) [of a x] w by simp
    show "length y = k" if "(b, y) \<in> set ws" for b y using Cons.prems(2) [of b y] that by simp
  qed
  then show ?case by (simp add: w)
qed simp

lemma home_views:
  fixes s :: "'a lkern_scheme"
  assumes "log_ready c p s" and "\<not> in_log (log_start s) m" and "\<And>i. i < nat (lh_n s) \<Longrightarrow> m \<noteq> lh_block s i"
  shows "disk s m = blk s m"
proof -
  have "m \<notin> lh_block s ` {..<nat (lh_n s)}" using assms(3) by auto
  then show ?thesis using holds_clean [OF log_readyD(1) [OF assms(1)], of m] by simp
qed

text \<open>The disk once the header is out: whatever else was written, the log holds the transaction.\<close>

lemma past_commit_point:
  fixes s :: "'a lkern_scheme" and j :: nat
  assumes "log_ready c p s" and "\<And>n. length (disk s n) = BSIZE"
  defines "n \<equiv> nat (lh_n s)"
  defines "h \<equiv> hdr (lh_n s) (lh_block s) (blk s (log_start s))"
    and "logged \<equiv> map (\<lambda>i. (slot s i, blk s (lh_block s i))) [0..<nat (lh_n s)]" and "homes \<equiv> map (\<lambda>i. (lh_block s i, blk s (lh_block s i))) [0..<nat (lh_n s)]"
  defines "d \<equiv> apply_writes (take j homes) (apply_writes (logged @ [(log_start s, h)]) (disk s))"
  shows "d (log_start s) = h" "\<And>i. i < n \<Longrightarrow> d (slot s i) = blk s (lh_block s i)"
    "\<And>m. \<not> in_log (log_start s) m \<Longrightarrow> (\<And>i. i < n \<Longrightarrow> m \<noteq> lh_block s i) \<Longrightarrow> d m = blk s m" "\<And>m. length (d m) = BSIZE"
proof -
  note r = log_readyD [OF assms(1), folded n_def]
  have th: "fst ` set (take j homes) \<subseteq> lh_block s ` {..<n}" unfolding homes_def n_def by (rule take_writes)
  have tl: "fst ` set logged \<subseteq> slot s ` {..<n}" unfolding logged_def n_def by auto
  have d1: "d m = apply_writes (logged @ [(log_start s, h)]) (disk s) m" if "m \<notin> lh_block s ` {..<n}" for m
    unfolding d_def using th that by (intro apply_writes_miss) blast
  have "log_start s \<notin> lh_block s ` {..<n}" using r(10) by (simp add: n_def)
  then show "d (log_start s) = h" using d1 [of "log_start s"] by (simp add: apply_writes_append)
  show "d (slot s i) = blk s (lh_block s i)" if "i < n" for i
  proof -
    have "slot s i \<notin> lh_block s ` {..<n}" using r(8) [OF that] by (simp add: n_def)
    moreover have "apply_writes logged (disk s) (slot s i) = blk s (lh_block s i)"
      unfolding logged_def using distinct_map_upt [OF r(11)] that by (intro apply_writes_hit) (auto simp: o_def n_def)
    ultimately show ?thesis using d1 [of "slot s i"] r(12) [OF that] by (simp add: apply_writes_append)
  qed
  show "d m = blk s m" if m: "\<not> in_log (log_start s) m" "\<And>i. i < n \<Longrightarrow> m \<noteq> lh_block s i" for m
  proof -
    have "m \<notin> lh_block s ` {..<n}" using m(2) by auto
    moreover have "m \<noteq> (log_start s)" using m(1) start_in_log by blast
    moreover have "m \<notin> fst ` set logged"
    proof
      assume "m \<in> fst ` set logged"
      then obtain i where "i < n" "m = slot s i" using tl by auto
      then show False using slot_in_log [of i s] r(4) m(1) by simp
    qed
    moreover have "disk s m = blk s m" using m by (intro home_views [OF assms(1)]) (simp_all add: n_def)
    ultimately show ?thesis using d1 [of m] by (simp add: apply_writes_append apply_writes_miss)
  qed
  show "length (d m) = BSIZE" for m
    unfolding d_def apply_writes_append [symmetric]
  proof (rule sized_writes [OF assms(2)])
    fix k x assume "(k, x) \<in> set ((logged @ [(log_start s, h)]) @ take j homes)"
    then have "(k, x) \<in> set logged \<or> x = h \<or> (k, x) \<in> set homes" by (auto dest: in_set_takeD)
    then show "length x = BSIZE" using r(3) by (auto simp: sized_def h_def logged_def homes_def)
  qed
qed

lemma recovered_committed:
  fixes s :: "'a lkern_scheme"
  assumes "log_ready c p s" and "d (log_start s) = hdr (lh_n s) (lh_block s) (blk s (log_start s))"
    and "\<And>i. i < nat (lh_n s) \<Longrightarrow> d (slot s i) = blk s (lh_block s i)"
    and "\<And>m. \<not> in_log (log_start s) m \<Longrightarrow> (\<And>i. i < nat (lh_n s) \<Longrightarrow> m \<noteq> lh_block s i) \<Longrightarrow> d m = blk s m"
    and "\<And>m. length (d m) = BSIZE"
  shows "good_log (log_start s) d" and "\<And>m. \<not> in_log (log_start s) m \<Longrightarrow> recovered (log_start s) d m = blk s m"
proof -
  note r = log_readyD [OF assms(1)]
  define n where "n = nat (lh_n s)"
  have n: "0 \<le> lh_n s" "lh_n s \<le> int LOGBLOCKS" using assms(1) by (auto simp: log_ready_def)
  have b: "length (blk s (log_start s)) = BSIZE" using r(3) by (simp add: sized_def)
  note h = hdr_fields [OF n b, where H = "lh_block s"]
  have inj: "inj_on (\<lambda>i. get32 (d (log_start s)) (4 + 4 * i)) {..<n}"
    using r(6) h(2) by (simp add: inj_on_def assms(2) n_def)
  then show "good_log (log_start s) d" using assms(5) h n(2) r(7) by (simp add: good_log_def assms(2) Let_def n_def)
  have cn: "nat (sint (get32 (d (log_start s)) 0)) = n" by (simp add: assms(2) h(1) n_def)
  have w: "map (\<lambda>i. (get32 (d (log_start s)) (4 + 4 * i), d (slot s i))) [0..<n] = map (\<lambda>i. (lh_block s i, blk s (lh_block s i))) [0..<n]"
    using h(2) assms(3) by (simp add: assms(2) n_def)
  have e: "recovered (log_start s) d = apply_writes (map (\<lambda>i. (lh_block s i, blk s (lh_block s i))) [0..<n]) d"
    unfolding recovered_def cn w ..
  show "recovered (log_start s) d m = blk s m" if m: "\<not> in_log (log_start s) m" for m
  proof (cases "m \<in> lh_block s ` {..<n}")
    case True
    then obtain i where "i < n" "m = lh_block s i" by auto
    then show ?thesis unfolding e using distinct_map_upt [OF r(6)] by (intro apply_writes_hit) (auto simp: o_def n_def)
  next
    case False
    then have ne: "\<And>i. i < nat (lh_n s) \<Longrightarrow> m \<noteq> lh_block s i" by (auto simp: n_def)
    have "recovered (log_start s) d m = d m" unfolding e using False by (intro apply_writes_miss) (simp add: image_image lessThan_atLeast0)
    then show ?thesis using assms(4) [OF m ne] by simp
  qed
qed

text \<open>Before the commit point a crash leaves the old contents, and an empty log.\<close>

lemma before_commit_point:
  fixes s :: "'a lkern_scheme"
  assumes "log_ready c p s" and "\<And>n. length (disk s n) = BSIZE" and "get32 (disk s (log_start s)) 0 = 0"
    and "d = apply_writes (take k (map (\<lambda>i. (slot s i, blk s (lh_block s i))) [0..<nat (lh_n s)])) (disk s)"
  shows "good_log (log_start s) d" and "\<And>m. \<not> in_log (log_start s) m \<Longrightarrow> recovered (log_start s) d m = disk s m"
proof -
  note r = log_readyD [OF assms(1)]
  let ?ws = "map (\<lambda>i. (slot s i, blk s (lh_block s i))) [0..<nat (lh_n s)]"
  have ne: "m \<notin> fst ` set (take k ?ws)" if "\<And>i. i < nat (lh_n s) \<Longrightarrow> slot s i \<noteq> m" for m
  proof
    assume "m \<in> fst ` set (take k ?ws)"
    then have "m \<in> slot s ` {..<nat (lh_n s)}" by (rule subsetD [OF take_writes])
    then obtain i where "i < nat (lh_n s)" "m = slot s i" by auto
    then show False using that by blast
  qed
  have z: "d (log_start s) = disk s (log_start s)" unfolding assms(4) by (intro apply_writes_miss ne) (rule r(12))
  have sz: "length (d m) = BSIZE" for m unfolding assms(4)
  proof (rule sized_writes [OF assms(2)])
    fix a x assume "(a, x) \<in> set (take k ?ws)"
    then have "(a, x) \<in> set ?ws" by (rule in_set_takeD)
    then show "length x = BSIZE" using r(3) by (auto simp: sized_def)
  qed
  have c: "sint (get32 (d (log_start s)) 0) = 0" by (simp add: z assms(3))
  show "good_log (log_start s) d" by (rule good_log_empty) (rule sz c)+
  show "recovered (log_start s) d m = disk s m" if m: "\<not> in_log (log_start s) m" for m
    unfolding recovered_empty [where d = d, OF c] unfolding assms(4)
  proof (intro apply_writes_miss ne)
    show "slot s i \<noteq> m" if "i < nat (lh_n s)" for i using slot_in_log [of i s] r(4) that m by auto
  qed
qed

text \<open>Once the header is cleared the homes hold the new contents.\<close>

lemma after_clearing:
  fixes s :: "'a lkern_scheme"
  assumes "log_ready c p s" and "\<And>m. length (e m) = BSIZE" and "length h = BSIZE" and "d = e(log_start s := hdr 0 H h)"
    and "\<And>m. \<not> in_log (log_start s) m \<Longrightarrow> e m = blk s m"
  shows "good_log (log_start s) d" and "\<And>m. \<not> in_log (log_start s) m \<Longrightarrow> recovered (log_start s) d m = blk s m"
proof -
  have c: "sint (get32 (d (log_start s)) 0) = 0" using hdr_fields(1) [of 0 h] assms(3) by (simp add: assms(4))
  have sz: "length (d m) = BSIZE" for m using assms(2,3) by (simp add: assms(4))
  show "good_log (log_start s) d" by (rule good_log_empty) (rule sz c)+
  show "recovered (log_start s) d m = blk s m" if "\<not> in_log (log_start s) m" for m
    unfolding recovered_empty [where d = d, OF c] using assms(5) [OF that] that start_in_log [of m] by (auto simp: assms(4))
qed

lemma crash_disk:
  fixes s :: "'a lkern_scheme" and k :: nat
  assumes "log_ready c p s" and "\<And>n. length (disk s n) = BSIZE" and "get32 (disk s (log_start s)) 0 = 0"
  defines "d \<equiv> apply_writes (take k (commit_writes s)) (disk s)"
  shows "good_log (log_start s) d \<and> (\<forall>m. \<not> in_log (log_start s) m \<longrightarrow>
    recovered (log_start s) d m = (if k \<le> nat (lh_n s) then disk s m else blk s m))"
proof -
  note r = log_readyD [OF assms(1)]
  define n where "n = nat (lh_n s)"
  define h where "h = hdr (lh_n s) (lh_block s) (blk s (log_start s))"
  define logged where "logged = map (\<lambda>i. (slot s i, blk s (lh_block s i))) [0..<nat (lh_n s)]"
  define homes where "homes = map (\<lambda>i. (lh_block s i, blk s (lh_block s i))) [0..<nat (lh_n s)]"
  define j where "j = k - Suc n"
  define e where "e = apply_writes (take j homes) (apply_writes (logged @ [(log_start s, h)]) (disk s))"
  have W: "commit_writes s = (logged @ [(log_start s, h)]) @ homes @ [(log_start s, hdr 0 (lh_block s) h)]"
    by (simp add: commit_writes_def Let_def h_def logged_def homes_def)
  have len: "length logged = n" "length homes = n" by (simp_all add: logged_def homes_def n_def)
  have tk: "take k (commit_writes s) = (logged @ [(log_start s, h)]) @ take j (homes @ [(log_start s, hdr 0 (lh_block s) h)])" if "\<not> k \<le> n"
    using that len by (simp add: W j_def take_Cons')
  note q = past_commit_point [OF assms(1,2), where j = j, folded h_def logged_def homes_def n_def, folded e_def]
  consider "k \<le> n" | "\<not> k \<le> n" "j \<le> n" | "\<not> k \<le> n" "\<not> j \<le> n" by blast
  then show ?thesis
  proof cases
    case 1
    then have d: "d = apply_writes (take k logged) (disk s)" unfolding d_def W using len by simp
    show ?thesis using before_commit_point [OF assms(1-3) d [unfolded logged_def]] 1 by (simp add: n_def)
  next
    case 2
    then have "d = e" unfolding d_def tk [OF 2(1)] using len by (simp add: e_def apply_writes_append)
    then show ?thesis using recovered_committed [OF assms(1), of e] q 2 by (simp add: h_def n_def)
  next
    case 3
    then have d: "d = e(log_start s := hdr 0 (lh_block s) h)"
      unfolding d_def tk [OF 3(1)] using len by (simp add: e_def apply_writes_append)
    have hl: "length h = BSIZE" using r(3) by (simp add: h_def sized_def)
    have "e m = blk s m" if m: "\<not> in_log (log_start s) m" for m
    proof (cases "\<exists>i < n. m = lh_block s i")
      case True
      then show ?thesis unfolding e_def using distinct_map_upt [OF r(6)] 3 len by (intro apply_writes_hit) (auto simp: homes_def o_def n_def)
    next
      case False
      then show ?thesis using q(3) [OF m] by blast
    qed
    then show ?thesis using after_clearing [OF assms(1) q(4) hl d] 3 by (simp add: n_def)
  qed
qed

lemma holds_binit:
  fixes t :: "'a bkern_scheme"
  assumes "runs c p t" and "\<forall>b < NBUF. b_dev (bufs t b) = 0 \<and> b_refcnt (bufs t b) = 0 \<and> \<not> b_valid (bufs t b)"
  shows "holds c p (binit t) {} {}"
proof -
  have "usage (binit t) p {} {} b" if "b < NBUF" for b
    using assms(2) that coreD [OF binit_bufs [OF that, of t]]
    by (simp add: usage_def users_def initsleeplock_def)
  then show ?thesis using assms(1) binit_effect [OF assms(2)] by (auto simp: holds_def)
qed

end
