(* ===== verification/Txn.thy ===== *)
theory Txn
  imports Log
begin

text \<open>
  Transactions of \<^verbatim>\<open>kernel/log.c\<close>: what \<^verbatim>\<open>begin_op\<close>, \<^verbatim>\<open>log_write\<close> and \<^verbatim>\<open>end_op\<close> do for
  a thread inside a transaction, how a block is read and changed there, and the guarantee after a
  crash at any point of a commit.
\<close>

section \<open>Transactions\<close>

interpretation ll: spin_cell log_lock "\<lambda>lk. log_lock_update (\<lambda>_. lk)"
  by unfold_locales simp_all

definition logged :: "'a lkern_scheme \<Rightarrow> u32 set" where
  "logged s = lh_block s ` {..<nat (lh_n s)}"

text \<open>A thread inside a transaction, with the blocks in \<open>L\<close> locked.\<close>

definition txn :: "nat \<Rightarrow> nat \<Rightarrow> 'a lkern_scheme \<Rightarrow> u32 set \<Rightarrow> bool" where
  "txn c p s L \<longleftrightarrow> holds c p s (logged s) L \<and> lock_clean (log_lock s) \<and> log_dev s = ROOTDEV \<and>
     0 \<le> lh_n s \<and> inj_on (lh_block s) {..<nat (lh_n s)} \<and> 1 \<le> log_outstanding s \<and> \<not> log_committing s"

definition lsame :: "'a lkern_scheme \<Rightarrow> 'a lkern_scheme \<Rightarrow> bool" where
  "lsame s s' \<longleftrightarrow> kframe s s' \<and> disk0 s' = disk0 s \<and> dwrites s' = dwrites s \<and> log_start s' = log_start s \<and>
     log_outstanding s' = log_outstanding s \<and> lkern.more s' = lkern.more s"

lemma lsame_refl [simp]: "lsame s s"
  by (simp add: lsame_def)

lemma lsame_trans: "lsame s s1 \<Longrightarrow> lsame s1 s2 \<Longrightarrow> lsame s s2"
  using kframe_trans by (auto simp: lsame_def)

lemma kframe_push_off: "kframe (push_off c s) (push_off c s\<lparr>log_lock := l\<rparr>)"
  by (simp add: kframe_def krest_def woken_def)

lemma log_slot_cases:
  fixes s :: "'a lkern_scheme"
  obtains (old) "n \<in> logged s" "log_slot s n < nat (lh_n s)" "lh_block s (log_slot s n) = n"
  | (new) "n \<notin> logged s" "log_slot s n = nat (lh_n s)"
proof (cases "find (\<lambda>i. lh_block s i = n) [0..<nat (lh_n s)]")
  case None
  then have "n \<notin> logged s" by (auto simp: find_None_iff logged_def)
  then show thesis using None new by (simp add: log_slot_def)
next
  case (Some i)
  then have "i < nat (lh_n s)" "lh_block s i = n" by (auto simp: find_Some_iff)
  then show thesis using Some old by (auto simp: log_slot_def logged_def)
qed

lemma acquire_log_effect: "lock_clean (log_lock s) \<Longrightarrow> acquire_log c s = Ok ((push_off c s)\<lparr>log_lock := taken c (log_lock s)\<rparr>)"
  unfolding acquire_log_def by (simp add: ll.acquire_cell)

lemma holds_moves:
  assumes "holds c p s P L" and "runs c p s'" and "bufs s' = bufs s" and "bcache_lock s' = bcache_lock s"
    and "\<And>i. p_pid (procs s' i) = p_pid (procs s i)" and "disk0 s' = disk0 s" and "dwrites s' = dwrites s"
  shows "holds c p s' P L" and "blk s' = blk s" and "disk s' = disk s"
proof -
  show d: "disk s' = disk s" by (rule view_eqI(1) [OF assms(3,6,7)])
  show "blk s' = blk s" by (rule view_eqI(2) [OF assms(3,6,7)])
  have "bc_inv s' xs = bc_inv s xs" for xs by (simp add: bc_inv_def buf_ok_def caches_def assms(3,4) d)
  moreover have "usage s' p P L b = usage s p P L b" for b by (simp add: usage_def assms(3,5))
  moreover have "caches s' n b = caches s n b" for n b by (simp add: caches_def assms(3))
  ultimately show "holds c p s' P L" using assms(1,2) by (simp add: holds_def assms(3))
qed

lemma push_off_fields [simp]:
  "bufs (push_off c s) = bufs s" "bcache_lock (push_off c s) = bcache_lock s"
  "disk0 (push_off c s) = disk0 s" "dwrites (push_off c s) = dwrites s"
  by (simp_all add: push_off_def set_cpu_def intr_off_def Let_def)

lemma push_off_log [simp]:
  "log_lock (push_off c s) = log_lock s" "log_start (push_off c s) = log_start s" "log_outstanding (push_off c s) = log_outstanding s"
  "log_committing (push_off c s) = log_committing s" "log_dev (push_off c s) = log_dev s" "lh_n (push_off c s) = lh_n s"
  "lh_block (push_off c s) = lh_block s" "lkern.more (push_off c s) = lkern.more s"
  by (simp_all add: push_off_def set_cpu_def intr_off_def Let_def)

lemma runs_push_off: "runs c p s \<Longrightarrow> runs c p (push_off c s)"
  by (simp add: runs_def push_off_proc)

lemma release_log_effect:
  fixes s s2 :: "'a lkern_scheme"
  assumes "hart_ok c s" and "lock_clean l" and "log_lock s2 = taken c l" and "kframe (push_off c s) s2"
  shows "\<exists>s3. release_log c s2 = Ok s3 \<and> kframe s s3 \<and> log_lock s3 = l \<and> bufs s3 = bufs s2 \<and> bcache_lock s3 = bcache_lock s2 \<and>
    disk0 s3 = disk0 s2 \<and> dwrites s3 = dwrites s2 \<and> log_start s3 = log_start s2 \<and> log_outstanding s3 = log_outstanding s2 \<and>
    log_committing s3 = log_committing s2 \<and> log_dev s3 = log_dev s2 \<and> lh_n s3 = lh_n s2 \<and> lh_block s3 = lh_block s2 \<and>
    procs s3 = procs s2 \<and> lkern.more s3 = lkern.more s2"
proof -
  obtain t where t: "pop_off c s2 = Ok t" "kframe s t" "hw.more t = hw.more s2" using pop_kframe [OF assms(1,4)] by blast
  have "release_log c s2 = Ok (t\<lparr>log_lock := l\<rparr>)" unfolding release_log_def by (rule ll.release_after [OF assms(3,2) t(1)])
  moreover have "kframe s (t\<lparr>log_lock := l\<rparr>)" using t(2) by (simp add: kframe_def krest_def)
  ultimately show ?thesis using t(3) by (cases t; cases s2) simp
qed

lemma log_pin:
  fixes s :: "'a lkern_scheme"
  assumes "holds c p s P L" and "b < NBUF" and "caches s n b" and "n \<in> L" and "n \<in> P \<longleftrightarrow> int i \<noteq> lh_n s"
  shows "\<exists>s'. (if int i = lh_n s then rbind (bpin c b s) (\<lambda>s'. Ok (s'\<lparr>lh_n := lh_n s' + 1\<rparr>)) else Ok s) = Ok s' \<and>
    holds c p s' (insert n P) L \<and> kframe s s' \<and> keeps UNIV s s' \<and> blk s' = blk s \<and> dwrites s' = dwrites s \<and> disk0 s' = disk0 s \<and>
    lh_block s' = lh_block s \<and> lh_n s' = lh_n s + (if n \<in> P then 0 else 1) \<and> log_dev s' = log_dev s \<and> log_start s' = log_start s \<and>
    log_lock s' = log_lock s \<and> log_outstanding s' = log_outstanding s \<and> log_committing s' = log_committing s \<and> lkern.more s' = lkern.more s"
proof (cases "n \<in> P")
  case True
  then have "insert n P = P" by blast
  then show ?thesis using assms(1,5) True by (simp add: keeps_def)
next
  case False
  then obtain t where t: "bpin c b s = Ok t" "holds c p t (insert n P) L" "bsame s t" "keeps UNIV s t" "blk t = blk s" "dwrites t = dwrites s"
    using bpin_at [OF assms(1-4)] by auto
  note l = log_fields [OF t(3)]
  show ?thesis using False assms(5) t l
    by (intro exI [of _ "t\<lparr>lh_n := lh_n t + 1\<rparr>"]) (simp add: bsame_def keeps_def caches_def)
qed

lemma log_write_effect:
  fixes s :: "'a lkern_scheme"
  assumes "txn c p s L" and "b < NBUF" and "caches s n b" and "n \<in> L" and "lh_n s < int LOGBLOCKS"
  shows "\<exists>s'. log_write c b s = Ok s' \<and> txn c p s' L \<and> lsame s s' \<and> keeps UNIV s s' \<and> blk s' = blk s \<and>
    logged s' = insert n (logged s) \<and> lh_n s' = lh_n s + (if n \<in> logged s then 0 else 1)"
proof -
  have h: "holds c p s (logged s) L" and lc: "lock_clean (log_lock s)" and lo: "1 \<le> log_outstanding s"
    and n0: "0 \<le> lh_n s" and inj: "inj_on (lh_block s) {..<nat (lh_n s)}" using assms(1) by (auto simp: txn_def)
  have r: "runs c p s" and ho: "hart_ok c s" using h runs_hart by (auto simp: holds_def)
  have bn: "b_blockno (bufs s b) = n" using assms(3) by (simp add: caches_def)
  define s1 where "s1 = (push_off c s)\<lparr>log_lock := taken c (log_lock s)\<rparr>"
  define i where "i = log_slot s n"
  define s2 where "s2 = s1\<lparr>lh_block := (lh_block s)(i := n)\<rparr>"
  have a: "acquire_log c s = Ok s1" unfolding s1_def by (rule acquire_log_effect [OF lc])
  have sl: "log_slot s1 n = i" by (simp add: s1_def i_def log_slot_def cong: option.case_cong)
  have r2: "runs c p s2" using runs_push_off [OF r] by (simp add: s2_def s1_def runs_def quiet_def hart_ok_def intr_get_def)
  have kf2: "kframe (push_off c s) s2" by (simp add: s2_def s1_def kframe_def krest_def woken_def)
  have mv: "holds c p s2 (logged s) L" "blk s2 = blk s" "disk s2 = disk s" by (rule holds_moves [OF h r2]; simp add: s2_def s1_def)+
  have ni: "n \<in> logged s \<longleftrightarrow> int i \<noteq> lh_n s2"
    using n0 by (cases rule: log_slot_cases [of n s]) (simp_all add: i_def s2_def s1_def)
  have cb: "caches s2 n b" using assms(3) by (simp add: caches_def s2_def s1_def)
  obtain s3 where s3: "(if int i = lh_n s2 then rbind (bpin c b s2) (\<lambda>s3. Ok (s3\<lparr>lh_n := lh_n s3 + 1\<rparr>)) else Ok s2) = Ok s3"
    "holds c p s3 (insert n (logged s)) L" "kframe s2 s3" "keeps UNIV s2 s3" "blk s3 = blk s2" "dwrites s3 = dwrites s2" "disk0 s3 = disk0 s2"
    "lh_block s3 = lh_block s2" "lh_n s3 = lh_n s2 + (if n \<in> logged s then 0 else 1)" "log_dev s3 = log_dev s2" "log_start s3 = log_start s2"
    "log_lock s3 = log_lock s2" "log_outstanding s3 = log_outstanding s2" "log_committing s3 = log_committing s2" "lkern.more s3 = lkern.more s2"
    using log_pin [OF mv(1) assms(2) cb assms(4) ni] by blast
  have kf3: "kframe (push_off c s) s3" using kframe_trans [OF kf2 s3(3)] .
  obtain s4 where s4: "release_log c s3 = Ok s4" "kframe s s4" "log_lock s4 = log_lock s" "bufs s4 = bufs s3" "bcache_lock s4 = bcache_lock s3"
    "disk0 s4 = disk0 s3" "dwrites s4 = dwrites s3" "log_start s4 = log_start s3" "log_outstanding s4 = log_outstanding s3"
    "log_committing s4 = log_committing s3" "log_dev s4 = log_dev s3" "lh_n s4 = lh_n s3" "lh_block s4 = lh_block s3" "procs s4 = procs s3" "lkern.more s4 = lkern.more s3"
    using release_log_effect [OF ho lc _ kf3] s3(12) by (auto simp: s2_def s1_def)
  have r4: "runs c p s4" using runs_kframe [OF s4(2)] r by simp
  have mv4: "holds c p s4 (insert n (logged s)) L" "blk s4 = blk s3" by (rule holds_moves [OF s3(2) r4]; simp add: s4)+
  have lg: "logged s4 = insert n (logged s) \<and> inj_on (lh_block s4) {..<nat (lh_n s4)}"
  proof (cases rule: log_slot_cases [of n s])
    case old
    then have "lh_block s4 = lh_block s" "lh_n s4 = lh_n s" using s4(12,13) s3(8,9) by (auto simp: s2_def s1_def i_def)
    then show ?thesis using inj old(1) by (auto simp: logged_def)
  next
    case new
    have "lh_block s4 = (lh_block s)(nat (lh_n s) := n)" "lh_n s4 = lh_n s + 1" using s4(12,13) s3(8,9) new by (simp_all add: s2_def s1_def i_def)
    moreover have "{..<nat (lh_n s + 1)} = insert (nat (lh_n s)) {..<nat (lh_n s)}" using n0 by (auto simp: nat_add_distrib)
    ultimately show ?thesis using inj new(1) by (auto simp: logged_def inj_on_def)
  qed
  have f1: "lh_n s1 = lh_n s" "log_outstanding s1 = log_outstanding s" "bufs s1 = bufs s" "lh_block s1 = lh_block s" by (simp_all add: s1_def)
  have "log_write c b s = rbind (if int i = lh_n s2 then rbind (bpin c b s2) (\<lambda>s3. Ok (s3\<lparr>lh_n := lh_n s3 + 1\<rparr>)) else Ok s2) (release_log c)"
    using a assms(5) lo bn sl f1 by (simp add: log_write_def Let_def s2_def cong: if_cong)
  then have "log_write c b s = Ok s4" unfolding s3(1) by (simp add: s4(1))
  moreover have "txn c p s4 L"
    using mv4(1) lg s4 s3 assms(1) n0 by (simp add: txn_def s2_def s1_def)
  moreover have "lsame s s4" using s4 s3 by (simp add: lsame_def s2_def s1_def)
  moreover have "keeps UNIV s s4" using s3(4) s4(4) by (simp add: keeps_def caches_def s2_def s1_def)
  ultimately show ?thesis using mv4(2) s3(5,9) mv(2) lg s4(12) by (auto simp: s2_def s1_def)
qed

lemma txn_set:
  fixes s :: "'a lkern_scheme" and f :: "u8 list \<Rightarrow> u8 list"
  assumes "txn c p s L" and "b < NBUF" and "caches s n b" and "n \<in> L"
  defines "s' \<equiv> set_data_of b f s"
  shows "txn c p s' L" "lsame s s'" "keeps UNIV s s'" "blk s' = (blk s)(n := f (blk s n))" "logged s' = logged s" "lh_n s' = lh_n s"
proof -
  have h: "holds c p s (logged s) L" using assms(1) by (simp add: txn_def)
  note d = set_at [OF h assms(2-4), of f, folded set_data_of_def, folded s'_def]
  note l = log_fields [OF d(2)]
  show "logged s' = logged s" "lh_n s' = lh_n s" using l by (simp_all add: logged_def)
  then show "txn c p s' L" using assms(1) d(1) l by (simp add: txn_def)
  show "lsame s s'" using d(2,5) l by (simp add: lsame_def bsame_def)
  show "keeps UNIV s s'" "blk s' = (blk s)(n := f (blk s n))" by (rule d)+
qed

lemma txn_read:
  fixes s :: "'a lkern_scheme"
  assumes "txn c p s L" and "n \<notin> L" and "card (logged s \<union> L) < NBUF"
  shows "\<exists>b s'. bread c ROOTDEV n s = Ok (b, s') \<and> txn c p s' (insert n L) \<and> lsame s s' \<and> keeps L s s' \<and>
    b < NBUF \<and> caches s' n b \<and> b_data (bufs s' b) = blk s n \<and> blk s' = blk s \<and> logged s' = logged s \<and> lh_n s' = lh_n s"
proof -
  have h: "holds c p s (logged s) L" using assms(1) by (simp add: txn_def)
  obtain b s' where b: "bread c ROOTDEV n s = Ok (b, s')" "holds c p s' (logged s) (insert n L)" "bsame s s'" "keeps L s s'"
    "b < NBUF" "caches s' n b" "b_data (bufs s' b) = blk s n" "blk s' = blk s" "dwrites s' = dwrites s"
    using bread_at [OF h assms(2,3)] by blast
  note l = log_fields [OF b(3)]
  have "logged s' = logged s" "lh_n s' = lh_n s" using l by (simp_all add: logged_def)
  moreover have "txn c p s' (insert n L)" using assms(1) b(2) l calculation by (simp add: txn_def)
  moreover have "lsame s s'" using b(3,9) l by (simp add: lsame_def bsame_def)
  ultimately show ?thesis using b by blast
qed

lemma txn_release:
  fixes s :: "'a lkern_scheme"
  assumes "txn c p s L" and "b < NBUF" and "caches s n b" and "n \<in> L" and "n \<in> logged s \<or> blk s n = disk s n"
  shows "\<exists>s'. brelse c b s = Ok s' \<and> txn c p s' (L - {n}) \<and> lsame s s' \<and> keeps UNIV s s' \<and> blk s' = blk s \<and>
    logged s' = logged s \<and> lh_n s' = lh_n s"
proof -
  have h: "holds c p s (logged s) L" using assms(1) by (simp add: txn_def)
  obtain s' where b: "brelse c b s = Ok s'" "holds c p s' (logged s) (L - {n})" "bsame s s'" "keeps UNIV s s'" "blk s' = blk s" "dwrites s' = dwrites s"
    using brelse_at [OF h assms(2-5)] by blast
  note l = log_fields [OF b(3)]
  have "logged s' = logged s" "lh_n s' = lh_n s" using l by (simp_all add: logged_def)
  moreover have "txn c p s' (L - {n})" using assms(1) b(2) l calculation by (simp add: txn_def)
  moreover have "lsame s s'" using b(3,6) l by (simp add: lsame_def bsame_def)
  ultimately show ?thesis using b by blast
qed

lemma lsame_disk: "lsame s s' \<Longrightarrow> disk s' = disk s"
  by (simp add: lsame_def disk_def)

text \<open>A block looked at and given back, and a block changed through the log.\<close>

lemma txn_peek:
  fixes s :: "'a lkern_scheme"
  assumes "txn c p s L" and "n \<notin> L" and "card (logged s \<union> L) < NBUF"
  shows "\<exists>b s1 s2. bread c ROOTDEV n s = Ok (b, s1) \<and> b_data (bufs s1 b) = blk s n \<and> brelse c b s1 = Ok s2 \<and> txn c p s2 L \<and>
    lsame s s1 \<and> lsame s s2 \<and> keeps L s s2 \<and> blk s2 = blk s \<and> logged s2 = logged s \<and> lh_n s2 = lh_n s"
proof -
  obtain b s1 where s1: "bread c ROOTDEV n s = Ok (b, s1)" "txn c p s1 (insert n L)" "lsame s s1" "keeps L s s1"
    "b < NBUF" "caches s1 n b" "b_data (bufs s1 b) = blk s n" "blk s1 = blk s" "logged s1 = logged s" "lh_n s1 = lh_n s"
    using txn_read [OF assms] by blast
  have h: "holds c p s (logged s) L" using assms(1) by (simp add: txn_def)
  have "n \<in> logged s1 \<or> blk s1 n = disk s1 n"
    using holds_clean [OF h, of n] assms(2) s1(8,9) lsame_disk [OF s1(3)] by auto
  then obtain s2 where s2: "brelse c b s1 = Ok s2" "txn c p s2 (insert n L - {n})" "lsame s1 s2" "keeps UNIV s1 s2" "blk s2 = blk s1"
    "logged s2 = logged s1" "lh_n s2 = lh_n s1" using txn_release [OF s1(2,5,6)] by auto
  have "insert n L - {n} = L" using assms(2) by simp
  moreover have "keeps L s s2" using s1(4) s2(4) by (simp add: keeps_def)
  ultimately show ?thesis using s1 s2 lsame_trans [OF s1(3) s2(3)] by auto
qed

lemma txn_change:
  fixes s :: "'a lkern_scheme"
  assumes "txn c p s L" and "b < NBUF" and "caches s n b" and "n \<in> L" and "lh_n s < int LOGBLOCKS"
  shows "\<exists>s1 s2. log_write c b (set_data_of b f s) = Ok s1 \<and> brelse c b s1 = Ok s2 \<and> txn c p s2 (L - {n}) \<and> lsame s s1 \<and> lsame s s2 \<and>
    keeps UNIV s s2 \<and> blk s2 = (blk s)(n := f (blk s n)) \<and> logged s2 = insert n (logged s) \<and>
    lh_n s2 = lh_n s + (if n \<in> logged s then 0 else 1)"
proof -
  note d = txn_set [OF assms(1-4), of f]
  have cb: "caches (set_data_of b f s) n b" using d(3) assms(2,3) by (simp add: keeps_def)
  obtain s1 where s1: "log_write c b (set_data_of b f s) = Ok s1" "txn c p s1 L" "lsame (set_data_of b f s) s1"
    "keeps UNIV (set_data_of b f s) s1" "blk s1 = blk (set_data_of b f s)" "logged s1 = insert n (logged s)"
    "lh_n s1 = lh_n s + (if n \<in> logged s then 0 else 1)"
    using log_write_effect [OF d(1) assms(2) cb assms(4)] assms(5) unfolding d(5,6) by auto
  have "caches s1 n b" using s1(4) cb assms(2) by (simp add: keeps_def)
  then obtain s2 where s2: "brelse c b s1 = Ok s2" "txn c p s2 (L - {n})" "lsame s1 s2" "keeps UNIV s1 s2" "blk s2 = blk s1"
    "logged s2 = logged s1" "lh_n s2 = lh_n s1" using txn_release [OF s1(2) assms(2) _ assms(4)] s1(6) by auto
  have "keeps UNIV s s2" using d(3) s1(4) s2(4) by (simp add: keeps_def)
  then show ?thesis using s1 s2 d(4) lsame_trans [OF d(2) s1(3)] lsame_trans [OF lsame_trans [OF d(2) s1(3)] s2(3)] by auto
qed

section \<open>Opening and closing a transaction\<close>

lemma begin_op_effect:
  fixes s :: "'a lkern_scheme"
  assumes "hart_ok c s" and "lock_clean (log_lock s)"
  shows "begin_op c s = (if log_committing s \<or> lh_n s + (log_outstanding s + 1) * int MAXOPBLOCKS > int LOGBLOCKS then Hang
    else Ok (settle c (s\<lparr>log_outstanding := log_outstanding s + 1\<rparr>)))"
proof -
  let ?f = "\<lambda>s. s\<lparr>log_outstanding := log_outstanding s + 1\<rparr>"
  have f: "?f (push_off c s\<lparr>log_lock := taken c (log_lock s)\<rparr>) = (push_off c (?f s))\<lparr>log_lock := taken c (log_lock s)\<rparr>"
    by (simp add: push_off_def set_cpu_def intr_off_def intr_get_def Let_def cong: if_cong)
  have "rbind (acquire_log c s) (\<lambda>s1. release_log c (?f s1)) = Ok (settle c (?f s))"
    unfolding acquire_log_def release_log_def
    by (rule ll.spin_section [OF assms f]) (use assms(1) in \<open>simp_all add: hart_ok_def intr_get_def\<close>)
  then show ?thesis by (simp add: begin_op_def acquire_log_effect [OF assms(2)])
qed

definition tidy :: "nat \<Rightarrow> nat \<Rightarrow> 'a lkern_scheme \<Rightarrow> bool" where
  "tidy c p s \<longleftrightarrow> holds c p s {} {} \<and> lock_clean (log_lock s) \<and> log_dev s = ROOTDEV \<and> lh_n s = 0 \<and>
     log_outstanding s = 0 \<and> \<not> log_committing s \<and> sized s"

lemma begin_txn:
  fixes s :: "'a lkern_scheme"
  assumes "tidy c p s"
  shows "\<exists>s'. begin_op c s = Ok s' \<and> txn c p s' {} \<and> kframe s s' \<and> blk s' = blk s \<and> disk s' = disk s \<and> lh_n s' = 0 \<and>
    log_outstanding s' = 1 \<and> log_start s' = log_start s \<and> lkern.more s' = lkern.more s \<and> dwrites s' = dwrites s"
proof -
  let ?s = "settle c (s\<lparr>log_outstanding := log_outstanding s + 1\<rparr>)"
  have t: "holds c p s {} {}" "lock_clean (log_lock s)" "lh_n s = 0" "log_outstanding s = 0" "\<not> log_committing s" "log_dev s = ROOTDEV"
    using assms by (auto simp: tidy_def)
  have r: "runs c p s" using t(1) by (simp add: holds_def)
  have f: "bufs ?s = bufs s" "bcache_lock ?s = bcache_lock s" "disk0 ?s = disk0 s" "dwrites ?s = dwrites s" "procs ?s = procs s"
    "log_lock ?s = log_lock s" "log_dev ?s = log_dev s" "lh_n ?s = lh_n s" "log_committing ?s = log_committing s"
    "log_outstanding ?s = log_outstanding s + 1" "log_start ?s = log_start s" "lkern.more ?s = lkern.more s"
    by (simp_all add: settle_def set_cpu_def)
  have "kframe s (s\<lparr>log_outstanding := log_outstanding s + 1\<rparr>)" by (simp add: kframe_def krest_def woken_def)
  then have kf: "kframe s ?s" by (simp only: kframe_settle)
  have r2: "runs c p ?s" using r runs_kframe [OF kf] by blast
  have mv: "holds c p ?s {} {}" "blk ?s = blk s" "disk ?s = disk s"
    by (rule holds_moves [OF t(1) r2 f(1,2) _ f(3,4)]; simp add: f)+
  have "begin_op c s = Ok ?s" using begin_op_effect [OF runs_hart [OF r] t(2)] t(3-5) by (simp add: LOGBLOCKS_def MAXOPBLOCKS_def)
  moreover have "txn c p ?s {}" using mv(1) t f by (simp add: txn_def logged_def)
  ultimately show ?thesis using kf mv f t(3,4) by auto
qed

text \<open>The fields of the log in which two states agree.\<close>

definition lview :: "'a lkern_scheme \<Rightarrow> u32 \<times> u32 \<times> int \<times> (nat \<Rightarrow> u32) \<times> (nat \<Rightarrow> buf) \<times> spinlock \<times> (u32 \<Rightarrow> u8 list) \<times> (u32 \<times> u8 list) list \<times> 'a" where
  "lview s = (log_start s, log_dev s, lh_n s, lh_block s, bufs s, bcache_lock s, disk0 s, dwrites s, lkern.more s)"

lemma log_section:
  fixes s u :: "'a lkern_scheme"
  assumes "hart_ok c s" and "lock_clean (log_lock s)" and "lview u = lview s" and "log_lock u = taken c (log_lock s)" and "kframe (push_off c s) u"
  shows "\<exists>s'. release_log c u = Ok s' \<and> kframe s s' \<and> log_lock s' = log_lock s \<and> lview s' = lview s \<and>
    log_outstanding s' = log_outstanding u \<and> log_committing s' = log_committing u"
proof -
  obtain s' where s': "release_log c u = Ok s'" "kframe s s'" "log_lock s' = log_lock s" "lview s' = lview u"
    "log_outstanding s' = log_outstanding u" "log_committing s' = log_committing u"
    using release_log_effect [OF assms(1,2,4,5)] by (auto simp: lview_def)
  then show ?thesis using assms(3) by auto
qed

lemma holds_lview:
  fixes s :: "'a lkern_scheme"
  assumes "holds c p s P L" and "kframe s s'" and "lview s' = lview s"
  shows "holds c p s' P L" "blk s' = blk s" "disk s' = disk s"
proof -
  have v: "bufs s' = bufs s" "bcache_lock s' = bcache_lock s" "disk0 s' = disk0 s" "dwrites s' = dwrites s" using assms(3) by (simp_all add: lview_def)
  have r: "runs c p s'" using assms(1) runs_kframe [OF assms(2)] by (simp add: holds_def)
  show "holds c p s' P L" "blk s' = blk s" "disk s' = disk s"
    by (rule holds_moves [OF assms(1) r v(1,2) _ v(3,4)]; use kframe_proc [OF assms(2)] in simp)+
qed

lemma quiet_log [simp]:
  fixes s :: "'a lkern_scheme"
  shows "quiet c (s\<lparr>log_lock := l\<rparr>) = quiet c s" "quiet c (s\<lparr>log_outstanding := n\<rparr>) = quiet c s" "quiet c (s\<lparr>log_committing := e\<rparr>) = quiet c s"
  by (simp_all add: quiet_def hart_ok_def intr_get_def)

lemma wakeup_section:
  fixes s :: "'a lkern_scheme" and n :: int and e :: bool
  assumes "quiet c s" and "lock_clean (log_lock s)"
  defines "u \<equiv> push_off c s\<lparr>log_lock := taken c (log_lock s), log_outstanding := n, log_committing := e\<rparr>"
  shows "\<exists>s1 s2. wakeup c LogChan u = Ok s1 \<and> release_log c s1 = Ok s2 \<and> kframe s s2 \<and> log_lock s2 = log_lock s \<and> lview s2 = lview s \<and>
    log_outstanding s2 = n \<and> log_committing s2 = e"
proof -
  have ho: "hart_ok c s" using assms(1) by (simp add: quiet_def)
  define v where "v = settle c (wake_all (cpu_proc (cpus u c)) LogChan u)"
  have w: "wakeup c LogChan u = Ok v" unfolding u_def v_def using assms(1) by (subst wakeup_effect) simp_all
  have "kframe (push_off c s) u" by (simp add: u_def kframe_def krest_def woken_def)
  then have kw: "kframe (push_off c s) v" unfolding v_def kframe_settle by (rule kframe_wake)
  have f: "lview v = lview s" "log_lock v = taken c (log_lock s)" "log_outstanding v = n" "log_committing v = e"
    by (simp_all add: u_def v_def lview_def settle_def set_cpu_def wake_all_def)
  show ?thesis using log_section [OF ho assms(2) f(1,2) kw] w f by auto
qed

lemma commit_same:
  fixes s :: "'a lkern_scheme"
  assumes "txn c p s {}" and "sized s" and "nat (lh_n s) + 2 \<le> NBUF" and "\<And>n. n \<in> logged s \<Longrightarrow> \<not> in_log (log_start s) n"
    and "kframe s s2" and "lview s2 = lview s"
  shows "\<exists>s3. commit c s2 = Ok s3 \<and> finished c p s2 s3 \<and> dwrites s3 = dwrites s @ (if 0 < lh_n s then commit_writes s else []) \<and>
    (\<forall>m. \<not> in_log (log_start s) m \<longrightarrow> blk s3 m = blk s m)"
proof -
  have t: "holds c p s (logged s) {}" "log_dev s = ROOTDEV" "0 \<le> lh_n s" "inj_on (lh_block s) {..<nat (lh_n s)}"
    using assms(1) by (auto simp: txn_def)
  note h2 = holds_lview [OF t(1) assms(5,6)]
  have f2: "log_start s2 = log_start s" "log_dev s2 = log_dev s" "lh_n s2 = lh_n s" "lh_block s2 = lh_block s" "dwrites s2 = dwrites s"
    using assms(6) by (simp_all add: lview_def)
  show ?thesis
  proof (cases "0 < lh_n s")
    case True
    have "log_ready c p s2"
      using h2 t assms(2-4) by (simp add: log_ready_def f2 logged_def sized_def NBUF_def LOGBLOCKS_def MAXOPBLOCKS_def)
    moreover have "commit_writes s2 = commit_writes s" by (simp add: commit_writes_def f2 h2(2))
    ultimately show ?thesis using commit_effect [of c p s2] True by (auto simp: f2 h2(2))
  next
    case False
    then show ?thesis using t assms(2) h2 by (simp add: commit_def f2 finished_def sized_def logged_def)
  qed
qed

lemma end_op_commits:
  fixes s :: "'a lkern_scheme"
  assumes "txn c p s {}" and "log_outstanding s = 1" and "sized s" and "nat (lh_n s) + 2 \<le> NBUF"
    and "\<And>n. n \<in> logged s \<Longrightarrow> \<not> in_log (log_start s) n"
  shows "\<exists>s'. end_op c s = Ok s' \<and> tidy c p s' \<and> kframe s s' \<and> log_start s' = log_start s \<and> lkern.more s' = lkern.more s \<and>
    dwrites s' = dwrites s @ (if 0 < lh_n s then commit_writes s else []) \<and>
    (\<forall>m. \<not> in_log (log_start s) m \<longrightarrow> blk s' m = blk s m)"
proof -
  have t: "holds c p s (logged s) {}" "lock_clean (log_lock s)" "log_dev s = ROOTDEV" "0 \<le> lh_n s" "inj_on (lh_block s) {..<nat (lh_n s)}" "\<not> log_committing s"
    using assms(1) by (auto simp: txn_def)
  have q: "quiet c s" and ho: "hart_ok c s" using t(1) by (auto simp: holds_def runs_def quiet_def)
  define s1 where "s1 = push_off c s\<lparr>log_lock := taken c (log_lock s)\<rparr>"
  have "\<exists>s'. release_log c (s1\<lparr>log_outstanding := 0, log_committing := True\<rparr>) = Ok s' \<and> kframe s s' \<and> log_lock s' = log_lock s \<and> lview s' = lview s \<and>
      log_outstanding s' = log_outstanding (s1\<lparr>log_outstanding := 0, log_committing := True\<rparr>) \<and> log_committing s' = log_committing (s1\<lparr>log_outstanding := 0, log_committing := True\<rparr>)"
    unfolding s1_def by (rule log_section [OF ho t(2)])
      (simp_all add: lview_def kframe_def krest_def woken_def)
  then obtain s2 where s2: "release_log c (s1\<lparr>log_outstanding := 0, log_committing := True\<rparr>) = Ok s2" "kframe s s2" "log_lock s2 = log_lock s" "lview s2 = lview s"
    "log_outstanding s2 = 0" "log_committing s2" by auto
  note h2 = holds_lview [OF t(1) s2(2,4)]
  have f2: "log_start s2 = log_start s" "log_dev s2 = log_dev s" "lh_n s2 = lh_n s" "lh_block s2 = lh_block s" "dwrites s2 = dwrites s" "disk0 s2 = disk0 s" "lkern.more s2 = lkern.more s"
    using s2(4) by (simp_all add: lview_def)
  obtain s3 where s3: "commit c s2 = Ok s3" "finished c p s2 s3" "dwrites s3 = dwrites s @ (if 0 < lh_n s then commit_writes s else [])"
    "\<And>m. \<not> in_log (log_start s) m \<Longrightarrow> blk s3 m = blk s m"
    using commit_same [OF assms(1,3-5) s2(2,4)] by blast
  have f3: "holds c p s3 {} {}" "kframe s2 s3" "lh_n s3 = 0" "sized s3" "log_start s3 = log_start s" "log_dev s3 = log_dev s" "log_lock s3 = log_lock s"
    "log_outstanding s3 = 0" "lkern.more s3 = lkern.more s"
    using s3(2) s2(3,5) f2 by (simp_all add: finished_def)
  have q3: "quiet c s3" using f3(1) by (simp add: holds_def runs_def)
  have lc3: "lock_clean (log_lock s3)" using t(2) f3(7) by simp
  define s4 where "s4 = push_off c s3\<lparr>log_lock := taken c (log_lock s3)\<rparr>"
  have o4: "s4\<lparr>log_committing := False\<rparr> = push_off c s3\<lparr>log_lock := taken c (log_lock s3), log_outstanding := 0, log_committing := False\<rparr>"
    using f3(8) by (simp add: s4_def)
  obtain s5 s6 where s6: "wakeup c LogChan (s4\<lparr>log_committing := False\<rparr>) = Ok s5" "release_log c s5 = Ok s6" "kframe s3 s6" "log_lock s6 = log_lock s3"
    "lview s6 = lview s3" "log_outstanding s6 = 0" "\<not> log_committing s6" unfolding o4 using wakeup_section [OF q3 lc3, where n = 0 and e = False] by auto
  note h6 = holds_lview [OF f3(1) s6(3,5)]
  have f6: "log_start s6 = log_start s" "log_dev s6 = log_dev s" "lh_n s6 = 0" "dwrites s6 = dwrites s3" "lkern.more s6 = lkern.more s"
    using s6(5) f3 by (simp_all add: lview_def)
  have "end_op c s = Ok s6"
    using acquire_log_effect [OF t(2), of c] acquire_log_effect [OF lc3, of c] t(6) assms(2) s2(1) s3(1) s6(1,2)
    by (simp add: end_op_def Let_def s1_def [symmetric] s4_def [symmetric]) (simp add: s1_def)
  moreover have "tidy c p s6" using h6(1,2) f6 s6(4,6,7) lc3 t(3) f3(4) by (simp add: tidy_def sized_def)
  ultimately show ?thesis using kframe_trans [OF kframe_trans [OF s2(2) f3(2)] s6(3)] f6 s3(3,4) h6(2) by auto
qed

section \<open>Crashes\<close>

lemma initlog_recovers:
  fixes t :: "'a lkern_scheme"
  assumes "runs c p t" and "\<forall>b < NBUF. b_dev (bufs t b) = 0 \<and> b_refcnt (bufs t b) = 0 \<and> \<not> b_valid (bufs t b)"
    and "good_log (sb_logstart sb) (disk t)"
  shows "\<exists>t'. initlog c ROOTDEV sb (binit t) = Ok t' \<and> holds c p t' {} {} \<and> lh_n t' = 0 \<and>
    disk t' = (recovered (sb_logstart sb) (disk t))(sb_logstart sb := hdr 0 (\<lambda>i. 0) (disk t (sb_logstart sb)))"
proof -
  let ?u = "(binit t)\<lparr>log_lock := initlock ''log'', log_start := sb_logstart sb, log_dev := ROOTDEV\<rparr>"
  have h: "holds c p (binit t) {} {}" by (rule holds_binit [OF assms(1,2)])
  have hu: "holds c p ?u {} {}" by (subst holds_eqI [of _ "binit t"]) (simp_all add: h)
  have d: "disk ?u = disk t" using binit_frame(3,4) [of t] by (simp add: disk_def)
  obtain t' where "recover_from_log c ?u = Ok t'" "holds c p t' {} {}" "lh_n t' = 0"
    "blk t' = (recovered (sb_logstart sb) (disk ?u))(sb_logstart sb := hdr 0 (\<lambda>i. 0) (disk ?u (sb_logstart sb)))" "disk t' = blk t'"
    using recover_effect [OF hu, of "sb_logstart sb"] assms(3) d by auto
  then show ?thesis by (simp add: initlog_def BSIZE_def LOGBLOCKS_def MAXOPBLOCKS_def d)
qed

text \<open>
  C21: A transaction is atomic and durable. When its last operation ends the disk outside the log
  holds every block as the transaction left it. If the machine stops after any number \<open>k\<close> of the
  block writes of that commit, then booting and replaying the log gives back, outside the log, the
  disk as it was before the transaction, or, once the header is written, all of its new contents;
  never a mixture.
\<close>

theorem log_crash_atomic:
  fixes s t :: "'a lkern_scheme"
  assumes "txn c p s {}" and "log_outstanding s = 1" and "0 < lh_n s" and "nat (lh_n s) + 2 \<le> NBUF"
    and "\<forall>n \<in> logged s. \<not> in_log (log_start s) n" and "sized s"
    and "\<forall>n. length (disk s n) = BSIZE" and "get32 (disk s (log_start s)) 0 = 0"
    and "runs d q t" and "\<forall>b < NBUF. b_dev (bufs t b) = 0 \<and> b_refcnt (bufs t b) = 0 \<and> \<not> b_valid (bufs t b)"
    and "disk t = apply_writes (take k (commit_writes s)) (disk s)" and "sb_logstart sb = log_start s"
  shows "\<exists>s' t'. end_op c s = Ok s' \<and> dwrites s' = dwrites s @ commit_writes s \<and>
    (\<forall>m. \<not> in_log (log_start s) m \<longrightarrow> disk s' m = blk s m) \<and> initlog d ROOTDEV sb (binit t) = Ok t' \<and>
    (\<forall>m. \<not> in_log (log_start s) m \<longrightarrow> disk t' m = (if k \<le> nat (lh_n s) then disk s m else blk s m))"
proof -
  have T: "holds c p s (logged s) {}" "log_dev s = ROOTDEV" "0 \<le> lh_n s" "inj_on (lh_block s) {..<nat (lh_n s)}"
    using assms(1) by (auto simp: txn_def)
  have r: "log_ready c p s"
    using T assms(4-6) by (simp add: log_ready_def logged_def NBUF_def LOGBLOCKS_def MAXOPBLOCKS_def)
  obtain s' where s': "end_op c s = Ok s'" "tidy c p s'" "dwrites s' = dwrites s @ commit_writes s" "\<And>m. \<not> in_log (log_start s) m \<Longrightarrow> blk s' m = blk s m"
    using end_op_commits [OF assms(1,2,6,4)] assms(3,5) by auto
  have "disk s' = blk s'" using s'(2) holds_clean [of c p s' "{}" "{}"] by (simp add: tidy_def fun_eq_iff)
  moreover have g: "good_log (log_start s) (disk t)" "\<And>m. \<not> in_log (log_start s) m \<Longrightarrow> recovered (log_start s) (disk t) m = (if k \<le> nat (lh_n s) then disk s m else blk s m)"
    using crash_disk [OF r _ assms(8), of k] assms(7) unfolding assms(11) by auto
  moreover obtain t' where "initlog d ROOTDEV sb (binit t) = Ok t'"
    "disk t' = (recovered (log_start s) (disk t))(log_start s := hdr 0 (\<lambda>i. 0) (disk t (log_start s)))"
    using initlog_recovers [OF assms(9,10), of sb] g(1) unfolding assms(12) by auto
  moreover have "m \<noteq> log_start s" if "\<not> in_log (log_start s) m" for m using that start_in_log by blast
  ultimately show ?thesis using s' by auto
qed

section \<open>A sample state\<close>

definition lkern0 :: lkern where
  "lkern0 = bkern.extend bkern0
     \<lparr>log_lock = initlock ''log'', log_start = 256, log_outstanding = 0, log_committing = False, log_dev = ROOTDEV, lh_n = 0, lh_block = (\<lambda>_. 0)\<rparr>"

lemma lkern0_runs: "runs 0 2 (lkern0\<lparr>disk0 := d\<rparr>)"
  by (simp add: runs_def quiet_def hart_ok_def lkern0_def bkern0_def kern.defs bkern.defs lkern.defs intr_get_def one_running_def boot_hw_def)

lemma lkern0_bufs: "b_dev (bufs (lkern0\<lparr>disk0 := d\<rparr>) b) = 0 \<and> b_refcnt (bufs (lkern0\<lparr>disk0 := d\<rparr>) b) = 0 \<and> \<not> b_valid (bufs (lkern0\<lparr>disk0 := d\<rparr>) b)"
  by (simp add: lkern0_def bkern0_def zero_buf_def kern.defs bkern.defs lkern.defs)

lemma lkern0_disk: "disk (lkern0\<lparr>disk0 := d\<rparr>) = d"
  by (simp add: disk_def lkern0_def bkern0_def kern.defs bkern.defs lkern.defs)

lemma binit_lkern:
  fixes s :: "'a lkern_scheme"
  shows "log_lock (binit s) = log_lock s" "log_start (binit s) = log_start s" "log_outstanding (binit s) = log_outstanding s"
    "log_committing (binit s) = log_committing s" "log_dev (binit s) = log_dev s" "lh_n (binit s) = lh_n s" "lkern.more (binit s) = lkern.more s"
  using binit_frame(2) [of s] by (cases "binit s"; cases s; simp)+

lemma lkern0_tidy:
  assumes "\<And>n. length (d n) = BSIZE"
  shows "tidy 0 2 (binit (lkern0\<lparr>disk0 := d\<rparr>))" "blk (binit (lkern0\<lparr>disk0 := d\<rparr>)) = d" "disk (binit (lkern0\<lparr>disk0 := d\<rparr>)) = d"
    "log_start (binit (lkern0\<lparr>disk0 := d\<rparr>)) = 256"
proof -
  let ?s = "lkern0\<lparr>disk0 := d\<rparr>"
  have z: "\<forall>b < NBUF. b_dev (bufs ?s b) = 0 \<and> b_refcnt (bufs ?s b) = 0 \<and> \<not> b_valid (bufs ?s b)" using lkern0_bufs by blast
  show b: "blk (binit ?s) = d" using binit_effect(2) [OF z] lkern0_disk by simp
  show "disk (binit ?s) = d" using binit_frame(3,4) [of ?s] lkern0_disk [of d] by (simp add: disk_def)
  show "log_start (binit ?s) = 256" by (simp add: binit_lkern lkern0_def bkern.defs lkern.defs)
  show "tidy 0 2 (binit ?s)"
    using holds_binit [OF lkern0_runs z] assms b
    by (simp add: tidy_def binit_lkern sized_def lkern0_def bkern.defs lkern.defs initlock_def lock_clean_def)
qed

text \<open>A transaction that has changed block 40.\<close>

lemma sample_txn:
  assumes "\<And>n. length (d n) = BSIZE"
  shows "\<exists>s :: lkern. txn 0 2 s {} \<and> log_outstanding s = 1 \<and> lh_n s = 1 \<and> logged s = {40} \<and> sized s \<and> disk s = d \<and>
    log_start s = 256 \<and> blk s = d(40 := replicate BSIZE 7)"
proof -
  let ?s = "binit (lkern0\<lparr>disk0 := d\<rparr>)"
  note t = lkern0_tidy [where d = d, OF assms]
  obtain s1 :: lkern where s1: "txn 0 2 s1 {}" "blk s1 = d" "disk s1 = d" "lh_n s1 = 0" "log_outstanding s1 = 1" "log_start s1 = 256"
    using begin_txn [OF t(1)] t(2-4) by auto
  have l0: "logged s1 = {}" using s1(4) by (simp add: logged_def)
  have nb: "(0 :: nat) < NBUF" by (simp add: NBUF_def MAXOPBLOCKS_def)
  have ne: "(40 :: u32) \<notin> {}" and cd: "card (logged s1 \<union> {}) < NBUF" using l0 nb by simp_all
  obtain b and s2 :: lkern where s2: "txn 0 2 s2 {40}" "lsame s1 s2" "b < NBUF" "caches s2 40 b" "blk s2 = blk s1" "logged s2 = logged s1" "lh_n s2 = lh_n s1"
    using txn_read [OF s1(1) ne cd] by auto
  have lb: "lh_n s2 < int LOGBLOCKS" using s2(7) s1(4) by (simp add: LOGBLOCKS_def MAXOPBLOCKS_def)
  obtain s3 :: lkern where s3: "txn 0 2 s3 ({40} - {40})" "lsame s2 s3" "blk s3 = (blk s2)(40 := replicate BSIZE 7)"
    "logged s3 = insert 40 (logged s2)" "lh_n s3 = lh_n s2 + (if 40 \<in> logged s2 then 0 else 1)"
    using txn_change [OF s2(1,3,4) _ lb, of "\<lambda>_. replicate BSIZE 7"] by auto
  have ls: "lsame s1 s3" by (rule lsame_trans [OF s2(2) s3(2)])
  have "txn 0 2 s3 {}" "log_outstanding s3 = 1" "lh_n s3 = 1" "logged s3 = {40}" "disk s3 = d" "log_start s3 = 256" "blk s3 = d(40 := replicate BSIZE 7)"
    using s3 s2(5-7) s1 l0 ls lsame_disk [OF ls] by (simp_all add: lsame_def)
  moreover have "sized s3" using assms calculation(7) by (simp add: sized_def)
  ultimately show ?thesis by blast
qed

theorem log_crash_atomic_witness:
  "\<exists>(s :: lkern) s' t'. log_start s = 256 \<and> disk s 40 = replicate BSIZE 0 \<and> end_op 0 s = Ok s' \<and> disk s' 40 = replicate BSIZE 7 \<and>
    initlog 0 ROOTDEV \<lparr>sb_magic = 0, sb_size = 0, sb_nblocks = 0, sb_ninodes = 0, sb_nlog = 0, sb_logstart = 256, sb_inodestart = 0, sb_bmapstart = 0\<rparr>
      (binit (lkern0\<lparr>disk0 := apply_writes (take 2 (commit_writes s)) (disk s)\<rparr>)) = Ok t' \<and> disk t' 40 = replicate BSIZE 7"
proof -
  let ?d = "\<lambda>_ :: u32. replicate BSIZE (0 :: u8)"
  let ?sb = "\<lparr>sb_magic = 0, sb_size = 0, sb_nblocks = 0, sb_ninodes = 0, sb_nlog = 0, sb_logstart = 256, sb_inodestart = 0, sb_bmapstart = 0\<rparr>"
  obtain s :: lkern where s: "txn 0 2 s {}" "log_outstanding s = 1" "lh_n s = 1" "logged s = {40}" "sized s" "disk s = ?d"
    "log_start s = 256" "blk s = ?d(40 := replicate BSIZE 7)" using sample_txn [of ?d] by auto
  let ?t = "lkern0\<lparr>disk0 := apply_writes (take 2 (commit_writes s)) (disk s)\<rparr>"
  have no: "\<not> in_log 256 40"
  proof
    assume "in_log 256 40"
    then obtain j where j: "j \<le> 30" "(40 :: u32) = 256 + of_nat j" by (auto simp: in_log_def LOGBLOCKS_def MAXOPBLOCKS_def)
    have "unat (40 :: u32) = unat (256 + of_nat j :: u32)" by (simp only: j(2))
    also have "\<dots> = 256 + j" using j(1) by (simp add: unat_word_ariths unsigned_of_nat take_bit_nat_eq_self)
    finally show False by simp
  qed
  have "\<exists>s' t'. end_op 0 s = Ok s' \<and> dwrites s' = dwrites s @ commit_writes s \<and>
    (\<forall>m. \<not> in_log (log_start s) m \<longrightarrow> disk s' m = blk s m) \<and> initlog 0 ROOTDEV ?sb (binit ?t) = Ok t' \<and>
    (\<forall>m. \<not> in_log (log_start s) m \<longrightarrow> disk t' m = (if 2 \<le> nat (lh_n s) then disk s m else blk s m))"
  proof (rule log_crash_atomic [OF s(1,2)])
    show "get32 (disk s (log_start s)) 0 = 0" by (simp add: s(6) get32_def BSIZE_def)
  qed (use s no lkern0_runs lkern0_bufs lkern0_disk in \<open>simp_all add: NBUF_def MAXOPBLOCKS_def\<close>)
  then show ?thesis using s no by auto
qed

end
