(* ===== verification/Printf.thy ===== *)
theory Printf
  imports Prelude
begin

text \<open>
  Formatted output: \<^verbatim>\<open>kernel/printf.c\<close> and \<^verbatim>\<open>user/printf.c\<close>, each from its own source, with \<^verbatim>\<open>atoi\<close> of \<^verbatim>\<open>user/ulib.c\<close>. The text a call sends out is
  the result. Arguments are the values passed; fetching one that was not passed, or of the other
  kind, is \<open>None\<close>. Both are compared with a description of formats that follows neither.
\<close>

section \<open>Numbers\<close>

definition digits :: string where "digits = ''0123456789abcdef''"
definition udigits :: string where "udigits = ''0123456789ABCDEF''"

text \<open>The filling of \<^verbatim>\<open>buf\<close>, least digit first. The bases in use are 10 and 16.\<close>

function fill :: "string \<Rightarrow> nat \<Rightarrow> nat \<Rightarrow> string" where
  "fill ds b x = (if b < 2 then [] else ds ! (x mod b) # (if x div b \<noteq> 0 then fill ds b (x div b) else []))"
  by pat_completeness auto
termination
proof (relation "measure (\<lambda>(ds, b, x). x)", simp)
  fix ds :: string and b x :: nat
  assume "\<not> b < 2" "x div b \<noteq> 0"
  then have "x div b < x" by (cases "x = 0") (simp_all add: div_less_dividend)
  then show "((ds, b, x div b), ds, b, x) \<in> measure (\<lambda>(ds, b, x). x)" by simp
qed

declare fill.simps [simp del]

text \<open>
  What \<^verbatim>\<open>consputc\<close> sends for a character of the kernel's \<^verbatim>\<open>printf\<close>: the number \<^verbatim>\<open>BACKSPACE\<close>,
  outside the range of a \<^verbatim>\<open>char\<close>, rubs out; of any other the low byte is sent.
\<close>

definition cons_text :: "u32 \<Rightarrow> string" where
  "cons_text c = (if c = 0x100 then [CHR 0x08, CHR '' '', CHR 0x08] else [char_of (unat (ucast c :: u8))])"

definition printint :: "u64 \<Rightarrow> nat \<Rightarrow> bool \<Rightarrow> string" where
  "printint xx b sign =
     (let sign = (sign \<and> sint xx < 0);
          x = (if sign then - xx else xx);
          buf = fill digits b (unat x) @ (if sign then ''-'' else [])
      in rev buf)"

definition uprintint :: "u64 \<Rightarrow> nat \<Rightarrow> bool \<Rightarrow> string" where
  "uprintint xx b sg =
     (let (neg, x) = (if sg \<and> sint xx < 0 then (True, - xx) else (False, xx));
          buf = fill udigits b (unat x);
          buf = (if neg then buf @ ''-'' else buf)
      in rev buf)"

primrec ptr_digits :: "string \<Rightarrow> nat \<Rightarrow> u64 \<Rightarrow> string" where
  "ptr_digits ds 0 x = []"
| "ptr_digits ds (Suc n) x = ds ! unat (drop_bit 60 x) # ptr_digits ds n (push_bit 4 x)"

definition printptr :: "u64 \<Rightarrow> string" where "printptr x = ''0x'' @ ptr_digits digits 16 x"
definition uprintptr :: "u64 \<Rightarrow> string" where "uprintptr x = ''0x'' @ ptr_digits udigits 16 x"

section \<open>Formats\<close>

datatype parg = ArgInt u64 | ArgStr "string option"

text \<open>The next argument, as an integer or as a string; the character at a place of the format, NUL after its end.\<close>

fun arg_int :: "parg list \<Rightarrow> (u64 \<times> parg list) option" where
  "arg_int (ArgInt x # as) = Some (x, as)"
| "arg_int as = None"

fun arg_str :: "parg list \<Rightarrow> (string option \<times> parg list) option" where
  "arg_str (ArgStr t # as) = Some (t, as)"
| "arg_str as = None"

definition fmt_at :: "string \<Rightarrow> nat \<Rightarrow> char" where
  "fmt_at r i = (if i < length r then r ! i else CHR 0x00)"

text \<open>
  The cascade of tests of the kernel's \<^verbatim>\<open>printf\<close>, on the format after a \<open>%\<close>: what is printed, how
  far \<^verbatim>\<open>i\<close> moves beyond the first character, and the arguments left.
\<close>

definition directive :: "string \<Rightarrow> parg list \<Rightarrow> (string \<times> nat \<times> parg list) option" where
  "directive r as =
     (let c0 = fmt_at r 0;
          c1 = (if c0 \<noteq> CHR 0x00 then fmt_at r 1 else CHR 0x00);
          c2 = (if c1 \<noteq> CHR 0x00 then fmt_at r 2 else CHR 0x00) in
      if c0 = CHR ''d'' then map_option (\<lambda>(x, as'). (printint (scast (ucast x :: u32)) 10 True, 0, as')) (arg_int as)
      else if c0 = CHR ''l'' \<and> c1 = CHR ''d'' then map_option (\<lambda>(x, as'). (printint x 10 True, 1, as')) (arg_int as)
      else if c0 = CHR ''l'' \<and> c1 = CHR ''l'' \<and> c2 = CHR ''d'' then map_option (\<lambda>(x, as'). (printint x 10 True, 2, as')) (arg_int as)
      else if c0 = CHR ''u'' then map_option (\<lambda>(x, as'). (printint (ucast (ucast x :: u32)) 10 False, 0, as')) (arg_int as)
      else if c0 = CHR ''l'' \<and> c1 = CHR ''u'' then map_option (\<lambda>(x, as'). (printint x 10 False, 1, as')) (arg_int as)
      else if c0 = CHR ''l'' \<and> c1 = CHR ''l'' \<and> c2 = CHR ''u'' then map_option (\<lambda>(x, as'). (printint x 10 False, 2, as')) (arg_int as)
      else if c0 = CHR ''x'' then map_option (\<lambda>(x, as'). (printint (ucast (ucast x :: u32)) 16 False, 0, as')) (arg_int as)
      else if c0 = CHR ''l'' \<and> c1 = CHR ''x'' then map_option (\<lambda>(x, as'). (printint x 16 False, 1, as')) (arg_int as)
      else if c0 = CHR ''l'' \<and> c1 = CHR ''l'' \<and> c2 = CHR ''x'' then map_option (\<lambda>(x, as'). (printint x 16 False, 2, as')) (arg_int as)
      else if c0 = CHR ''p'' then map_option (\<lambda>(x, as'). (printptr x, 0, as')) (arg_int as)
      else if c0 = CHR ''c'' then map_option (\<lambda>(x, as'). (cons_text (ucast x), 0, as')) (arg_int as)
      else if c0 = CHR ''s'' then map_option (\<lambda>(t, as'). (case t of None \<Rightarrow> ''(null)'' | Some t \<Rightarrow> t, 0, as')) (arg_str as)
      else if c0 = CHR ''%'' then Some (''%'', 0, as)
      else Some ([CHR ''%'', c0], 0, as))"

text \<open>The loop of the kernel's \<^verbatim>\<open>printf\<close>; a lone \<open>%\<close> at the end stops it.\<close>

function printf :: "string \<Rightarrow> parg list \<Rightarrow> string option" where
  "printf [] as = Some []"
| "printf (cx # r) as =
     (if cx \<noteq> CHR ''%'' then map_option (Cons cx) (printf r as)
      else if r = [] then Some []
      else case directive r as of
             None \<Rightarrow> None
           | Some (t, k, as') \<Rightarrow> map_option ((@) t) (printf (drop (Suc k) r) as'))"
  by pat_completeness auto
termination
  by (relation "measure (\<lambda>(cs, as). length cs)") auto

text \<open>
  The cascade of the user library, and its scanner, which has a state: \<open>False\<close> between directives,
  \<open>True\<close> after a \<open>%\<close>.
\<close>

definition udirective :: "string \<Rightarrow> parg list \<Rightarrow> (string \<times> nat \<times> parg list) option" where
  "udirective r as =
     (let c0 = fmt_at r 0;
          c1 = (if c0 \<noteq> CHR 0x00 then fmt_at r 1 else CHR 0x00);
          c2 = (if c1 \<noteq> CHR 0x00 then fmt_at r 2 else CHR 0x00) in
      if c0 = CHR ''d'' then map_option (\<lambda>(x, as'). (uprintint (scast (ucast x :: u32)) 10 True, 0, as')) (arg_int as)
      else if c0 = CHR ''l'' \<and> c1 = CHR ''d'' then map_option (\<lambda>(x, as'). (uprintint x 10 True, 1, as')) (arg_int as)
      else if c0 = CHR ''l'' \<and> c1 = CHR ''l'' \<and> c2 = CHR ''d'' then map_option (\<lambda>(x, as'). (uprintint x 10 True, 2, as')) (arg_int as)
      else if c0 = CHR ''u'' then map_option (\<lambda>(x, as'). (uprintint (ucast (ucast x :: u32)) 10 False, 0, as')) (arg_int as)
      else if c0 = CHR ''l'' \<and> c1 = CHR ''u'' then map_option (\<lambda>(x, as'). (uprintint x 10 False, 1, as')) (arg_int as)
      else if c0 = CHR ''l'' \<and> c1 = CHR ''l'' \<and> c2 = CHR ''u'' then map_option (\<lambda>(x, as'). (uprintint x 10 False, 2, as')) (arg_int as)
      else if c0 = CHR ''x'' then map_option (\<lambda>(x, as'). (uprintint (ucast (ucast x :: u32)) 16 False, 0, as')) (arg_int as)
      else if c0 = CHR ''l'' \<and> c1 = CHR ''x'' then map_option (\<lambda>(x, as'). (uprintint x 16 False, 1, as')) (arg_int as)
      else if c0 = CHR ''l'' \<and> c1 = CHR ''l'' \<and> c2 = CHR ''x'' then map_option (\<lambda>(x, as'). (uprintint x 16 False, 2, as')) (arg_int as)
      else if c0 = CHR ''p'' then map_option (\<lambda>(x, as'). (uprintptr x, 0, as')) (arg_int as)
      else if c0 = CHR ''c'' then map_option (\<lambda>(x, as'). ([char_of (unat (ucast x :: u8))], 0, as')) (arg_int as)
      else if c0 = CHR ''s'' then map_option (\<lambda>(t, as'). (case t of None \<Rightarrow> ''(null)'' | Some t \<Rightarrow> t, 0, as')) (arg_str as)
      else if c0 = CHR ''%'' then Some (''%'', 0, as)
      else Some ([CHR ''%'', c0], 0, as))"

function vprintf :: "bool \<Rightarrow> string \<Rightarrow> parg list \<Rightarrow> string option" where
  "vprintf state [] as = Some []"
| "vprintf state (c0 # r) as =
     (if \<not> state then (if c0 = CHR ''%'' then vprintf True r as else map_option (Cons c0) (vprintf False r as))
      else case udirective (c0 # r) as of
             None \<Rightarrow> None
           | Some (t, k, as') \<Rightarrow> map_option ((@) t) (vprintf False (drop k r) as'))"
  by pat_completeness auto
termination
  by (relation "measure (\<lambda>(st, cs, as). length cs)") auto

definition uprintf :: "string \<Rightarrow> parg list \<Rightarrow> string option" where
  "uprintf fmt as = vprintf False fmt as"

section \<open>Reading numbers\<close>

definition is_digit :: "char \<Rightarrow> bool" where
  "is_digit c \<longleftrightarrow> (of_char (CHR ''0'') :: nat) \<le> of_char c \<and> (of_char c :: nat) \<le> of_char (CHR ''9'')"

text \<open>\<^verbatim>\<open>atoi\<close>; the accumulator is an \<^verbatim>\<open>int\<close>, computed modulo \<open>2 ^ 32\<close>.\<close>

fun atoi_loop :: "u32 \<Rightarrow> string \<Rightarrow> u32" where
  "atoi_loop n [] = n"
| "atoi_loop n (c # cs) = (if is_digit c then atoi_loop (n * 10 + of_nat (of_char c) - 48) cs else n)"

definition atoi :: "string \<Rightarrow> int" where
  "atoi s = sint (atoi_loop 0 s)"

section \<open>Buffers\<close>

lemma length_fill: "2 \<le> b \<Longrightarrow> x < b ^ n \<Longrightarrow> 0 < n \<Longrightarrow> length (fill ds b x) \<le> n"
proof (induction n arbitrary: x)
  case (Suc n)
  show ?case
  proof (cases "x div b = 0")
    case True
    then show ?thesis using Suc.prems by (simp add: fill.simps [of ds b x])
  next
    case False
    have "x div b < b ^ n" using Suc.prems by (simp add: less_mult_imp_div_less mult.commute)
    moreover have "0 < n" using calculation False by (cases n) simp_all
    ultimately show ?thesis using Suc.IH [of "x div b"] Suc.prems(1) False by (simp add: fill.simps [of ds b x])
  qed
qed simp

text \<open>A negative number has at most 19 digits: its magnitude is at most \<open>2 ^ 63\<close>.\<close>

lemma negative_small:
  assumes "sint (x :: u64) < 0"
  shows "unat (- x) \<le> 2 ^ 63"
proof -
  have l: "sint x \<ge> - (2 ^ 63)" using sint_ge [of x] by simp
  have "- x = word_of_int (- sint x)" by simp
  then have "uint (- x) = take_bit 64 (- sint x)" by (simp only: uint_word_of_int_eq) simp
  also have "\<dots> = - sint x" using assms l by (intro take_bit_int_eq_self) simp_all
  finally have "uint (- x) \<le> 2 ^ 63" using l by simp
  then have "int (unat (- x)) \<le> int (2 ^ 63)" by simp
  then show ?thesis by (simp only: of_nat_le_iff)
qed

text \<open>
  The 20-byte buffer of \<^verbatim>\<open>printint\<close> is always large enough: whatever the number, in base 10
  with or without sign and in base 16, no more than 20 characters are put into it.
\<close>

theorem printint_fits:
  "length (printint x 10 sign) \<le> 20 \<and> length (printint x 16 False) \<le> 20"
proof -
  have "unat x < 2 ^ LENGTH(64)" by (rule unsigned_less)
  then have x: "unat x < 10 ^ 20" "unat x < 16 ^ 20" by simp_all
  show ?thesis
  proof (cases "sign \<and> sint x < 0")
    case True
    have "unat (- x) < 10 ^ 19" using negative_small [of x] True by simp
    then have "length (fill digits 10 (unat (- x))) \<le> 19" by (intro length_fill) simp_all
    moreover have "length (fill digits 16 (unat x)) \<le> 20" using x by (intro length_fill) simp_all
    ultimately show ?thesis using True by (simp add: printint_def Let_def)
  next
    case False
    then show ?thesis using x length_fill [of 10 "unat x" 20 digits] length_fill [of 16 "unat x" 20 digits]
      by (auto simp: printint_def Let_def)
  qed
qed

section \<open>Round trip\<close>

lemma sint_of_nat:
  assumes "n < 2 ^ (LENGTH('a :: len) - 1)"
  shows "sint (word_of_nat n :: 'a word) = int n"
proof -
  have "int n < int (2 ^ (LENGTH('a) - 1))" using assms by (simp only: of_nat_less_iff)
  then have u: "int n < 2 ^ (LENGTH('a) - 1)" by simp
  have l: "- (2 ^ (LENGTH('a) - 1)) \<le> int n" by (rule order_trans [of _ 0]) simp_all
  show ?thesis using signed_take_bit_int_eq_self [OF l u] by (simp add: signed_of_nat)
qed

lemma digit_char:
  assumes "k < 10" and "ds = digits \<or> ds = udigits"
  shows "is_digit (ds ! k)" and "(of_nat (of_char (ds ! k)) :: u32) - 48 = of_nat k"
proof -
  have "k = 0 \<or> k = 1 \<or> k = 2 \<or> k = 3 \<or> k = 4 \<or> k = 5 \<or> k = 6 \<or> k = 7 \<or> k = 8 \<or> k = 9" using assms(1) by auto
  then show "is_digit (ds ! k)" "(of_nat (of_char (ds ! k)) :: u32) - 48 = of_nat k"
    using assms(2) by (auto simp: is_digit_def digits_def udigits_def)
qed

lemma atoi_loop_append: "(\<And>c. c \<in> set xs \<Longrightarrow> is_digit c) \<Longrightarrow> atoi_loop n (xs @ ys) = atoi_loop (atoi_loop n xs) ys"
  by (induction n xs rule: atoi_loop.induct) simp_all

lemma fill_digits: "c \<in> set (fill digits 10 x) \<Longrightarrow> is_digit c"
proof (induction x rule: less_induct)
  case (less x)
  show ?case
  proof (cases "x div 10 = 0")
    case True
    then show ?thesis using less.prems digit_char(1) [of "x mod 10" digits] by (simp add: fill.simps [of digits 10 x])
  next
    case False
    then have "c = digits ! (x mod 10) \<or> c \<in> set (fill digits 10 (x div 10))" using less.prems by (simp add: fill.simps [of digits 10 x])
    then show ?thesis using less.IH [of "x div 10"] digit_char(1) [of "x mod 10" digits] False by auto
  qed
qed

lemma atoi_fill: "atoi_loop 0 (rev (fill digits 10 x)) = of_nat x"
proof (induction x rule: less_induct)
  case (less x)
  have dg: "atoi_loop n [digits ! (x mod 10)] = n * 10 + of_nat (x mod 10)" for n
    using digit_char [of "x mod 10" digits] by (simp add: add_diff_eq [symmetric])
  show ?case
  proof (cases "x div 10 = 0")
    case True
    then have "rev (fill digits 10 x) = [digits ! (x mod 10)]" by (simp add: fill.simps [of digits 10 x])
    then show ?thesis using dg [of 0] True by simp
  next
    case False
    then have e: "rev (fill digits 10 x) = rev (fill digits 10 (x div 10)) @ [digits ! (x mod 10)]" by (simp add: fill.simps [of digits 10 x])
    have "atoi_loop 0 (rev (fill digits 10 x)) = of_nat (x div 10) * 10 + of_nat (x mod 10)"
    proof -
      have "atoi_loop 0 (rev (fill digits 10 x)) = atoi_loop (atoi_loop 0 (rev (fill digits 10 (x div 10)))) [digits ! (x mod 10)]"
        unfolding e by (rule atoi_loop_append) (use fill_digits in simp)
      then show ?thesis using less.IH [of "x div 10"] False by (simp only: dg)
    qed
    also have "\<dots> = of_nat (x div 10 * 10 + x mod 10)" by (simp only: of_nat_add of_nat_mult of_nat_numeral)
    finally show ?thesis by simp
  qed
qed

text \<open>
  C29: Printing and reading decimal numbers is a round trip: what the kernel prints for a
  non-negative \<^verbatim>\<open>int\<close> is read back by \<^verbatim>\<open>atoi\<close> of the user library as the same number.
\<close>

theorem atoi_printint:
  assumes "unat x < 2 ^ 31"
  shows "atoi (printint x 10 sign) = int (unat x)"
proof -
  have "sint x = sint (word_of_nat (unat x) :: u64)" by simp
  also have "\<dots> = int (unat x)" by (rule sint_of_nat) (use assms in simp)
  finally have "printint x 10 sign = rev (fill digits 10 (unat x))" by (simp add: printint_def Let_def)
  then have "atoi (printint x 10 sign) = sint (of_nat (unat x) :: u32)" using atoi_fill by (simp add: atoi_def)
  also have "\<dots> = int (unat x)" by (rule sint_of_nat) (use assms in simp)
  finally show ?thesis .
qed

theorem atoi_printint_witness: "atoi (printint 2047 10 True) = 2047"
  using atoi_printint [of 2047 True] by simp

section \<open>What a format means\<close>

text \<open>
  A description of formatted output that does not follow the code: the directives are a table of
  words; a number is written in its positional notation, after a minus sign if it is negative; a
  pointer is its sixteen hexadecimal digits. \<open>ds\<close> are the digits of the printer, \<open>rub\<close> tells
  whether the character \<open>0x100\<close> rubs out.
\<close>

datatype kind = Number nat nat bool | Pointer | Character | Text | Percent

definition dir_words :: "(string \<times> kind) list" where
  "dir_words =
    [(''d'', Number 32 10 True), (''ld'', Number 64 10 True), (''lld'', Number 64 10 True),
     (''u'', Number 32 10 False), (''lu'', Number 64 10 False), (''llu'', Number 64 10 False),
     (''x'', Number 32 16 False), (''lx'', Number 64 16 False), (''llx'', Number 64 16 False),
     (''p'', Pointer), (''c'', Character), (''s'', Text), (''%'', Percent)]"

definition begins :: "string \<Rightarrow> string \<Rightarrow> bool" where
  "begins w r \<longleftrightarrow> take (length w) r = w"

function numeral_text :: "string \<Rightarrow> nat \<Rightarrow> nat \<Rightarrow> string" where
  "numeral_text ds b n = (if b < 2 \<or> n < b then [ds ! n] else numeral_text ds b (n div b) @ [ds ! (n mod b)])"
  by pat_completeness auto
termination
  by (relation "measure (\<lambda>(ds, b, n). n)") (auto simp: div_less_dividend)

declare numeral_text.simps [simp del]

definition value_of :: "nat \<Rightarrow> bool \<Rightarrow> u64 \<Rightarrow> int" where
  "value_of w sg x = (if w = 64 then (if sg then sint x else uint x) else if sg then sint (ucast x :: u32) else uint (ucast x :: u32))"

definition number_text :: "string \<Rightarrow> nat \<Rightarrow> int \<Rightarrow> string" where
  "number_text ds b v = (if v < 0 then ''-'' @ numeral_text ds b (nat (- v)) else numeral_text ds b (nat v))"

definition pointer_text :: "string \<Rightarrow> u64 \<Rightarrow> string" where
  "pointer_text ds x = ''0x'' @ map (\<lambda>i. ds ! (unat x div 16 ^ i mod 16)) (rev [0..<16])"

fun kind_text :: "string \<Rightarrow> bool \<Rightarrow> kind \<Rightarrow> parg list \<Rightarrow> (string \<times> parg list) option" where
  "kind_text ds rub (Number w b sg) (ArgInt x # as) = Some (number_text ds b (value_of w sg x), as)"
| "kind_text ds rub Pointer (ArgInt x # as) = Some (pointer_text ds x, as)"
| "kind_text ds rub Character (ArgInt x # as) =
     Some (if rub \<and> unat x mod 2 ^ 32 = 256 then [CHR 0x08, CHR '' '', CHR 0x08] else [char_of (unat x mod 256)], as)"
| "kind_text ds rub Text (ArgStr t # as) = Some (case t of None \<Rightarrow> ''(null)'' | Some t \<Rightarrow> t, as)"
| "kind_text ds rub Percent as = Some (''%'', as)"
| "kind_text ds rub k as = None"

definition item :: "string \<Rightarrow> bool \<Rightarrow> string \<Rightarrow> parg list \<Rightarrow> (string \<times> nat \<times> parg list) option" where
  "item ds rub r as = (case find (\<lambda>(w, k). begins w r) dir_words of
       None \<Rightarrow> Some ([CHR ''%'', hd r], 1, as)
     | Some (w, k) \<Rightarrow> map_option (\<lambda>(t, as'). (t, length w, as')) (kind_text ds rub k as))"

lemma item_length:
  assumes "item ds rub r as = Some (t, k, as')"
  shows "0 < k"
proof -
  have "0 < length w" if "find (\<lambda>(w, k). begins w r) dir_words = Some (w, kd)" for w kd
    using that by (auto simp: dir_words_def split: if_splits)
  then show ?thesis using assms by (auto simp: item_def split: option.splits prod.splits)
qed

function formatted :: "string \<Rightarrow> bool \<Rightarrow> string \<Rightarrow> parg list \<Rightarrow> string option" where
  "formatted ds rub [] as = Some []"
| "formatted ds rub (c # r) as =
     (if c \<noteq> CHR ''%'' then map_option (Cons c) (formatted ds rub r as)
      else if r = [] then Some []
      else case item ds rub r as of
             None \<Rightarrow> None
           | Some (t, k, as') \<Rightarrow> map_option ((@) t) (formatted ds rub (drop k r) as'))"
  by pat_completeness auto
termination
  by (relation "measure (\<lambda>(ds, rub, cs, as). length cs)") auto

section \<open>The two printers\<close>

lemma rev_fill: "2 \<le> b \<Longrightarrow> rev (fill ds b x) = numeral_text ds b x"
proof (induction x rule: less_induct)
  case (less x)
  show ?case
  proof (cases "x < b")
    case True
    then show ?thesis using less.prems by (simp add: fill.simps [of ds b x] numeral_text.simps [of ds b x])
  next
    case False
    then have "x div b < x" "x div b \<noteq> 0" using less.prems by (auto simp: div_less_dividend div_eq_0_iff)
    then show ?thesis using less False by (simp add: fill.simps [of ds b x] numeral_text.simps [of ds b x])
  qed
qed

lemma unat_neg: "sint (x :: u64) < 0 \<Longrightarrow> unat (- x) = nat (- sint x)"
proof -
  assume neg: "sint x < 0"
  have l: "sint x \<ge> - (2 ^ 63)" using sint_ge [of x] by simp
  have "- x = word_of_int (- sint x)" by simp
  then have "uint (- x) = take_bit 64 (- sint x)" by (simp only: uint_word_of_int_eq) simp
  also have "\<dots> = - sint x" using neg l by (intro take_bit_int_eq_self) simp_all
  finally show ?thesis by (simp add: nat_uint_eq [symmetric] del: nat_uint_eq)
qed

lemma unat_nonneg: "\<not> sint (x :: u64) < 0 \<Longrightarrow> unat x = nat (sint x)"
proof -
  assume pos: "\<not> sint x < 0"
  have l: "sint x < 2 ^ 63" using sint_lt [of x] by simp
  have "x = word_of_int (sint x)" by simp
  then have "uint x = take_bit 64 (sint x)" using uint_word_of_int_eq [where 'a = 64, of "sint x"] by simp
  also have "\<dots> = sint x" using pos l by (intro take_bit_int_eq_self) simp_all
  finally show ?thesis by (simp add: nat_uint_eq [symmetric] del: nat_uint_eq)
qed

lemma number_text_fill:
  fixes x :: u64
  assumes "2 \<le> b"
  shows "rev (fill ds b (unat (if sg \<and> sint x < 0 then - x else x)) @ (if sg \<and> sint x < 0 then ''-'' else [])) =
    number_text ds b (if sg then sint x else uint x)"
  using unat_neg [of x] unat_nonneg [of x] by (simp add: rev_fill [OF assms] number_text_def)

lemma printint_number: "2 \<le> b \<Longrightarrow> printint x b sg = number_text digits b (if sg then sint x else uint x)"
  by (simp only: number_text_fill [symmetric] printint_def Let_def)

lemma uprintint_number: "2 \<le> b \<Longrightarrow> uprintint x b sg = number_text udigits b (if sg then sint x else uint x)"
  by (simp only: number_text_fill [symmetric] uprintint_def Let_def) auto

lemma sint_scast32: "sint (scast (y :: u32) :: u64) = sint y"
proof -
  have "- (2 ^ 63) \<le> sint y" "sint y < 2 ^ 63" using sint_ge [of y] sint_lt [of y] by simp_all
  then have "signed_take_bit 63 (sint y) = sint y" by (intro signed_take_bit_int_eq_self) simp_all
  then show ?thesis by (simp add: signed_scast_eq)
qed

lemma uint_ucast32: "uint (ucast (y :: u32) :: u64) = uint y"
proof -
  have "uint y < 2 ^ 32" using unsigned_less [of y] by simp
  then have "take_bit 64 (uint y) = uint y" by (intro take_bit_int_eq_self) simp_all
  then show ?thesis by (simp add: unsigned_ucast_eq)
qed

lemma drop_push:
  assumes "k \<le> 15"
  shows "unat (drop_bit 60 (push_bit (4 * k) (x :: u64))) = unat x div 16 ^ (15 - k) mod 16"
proof -
  have "drop_bit 60 (push_bit (4 * k) x) = take_bit 4 (drop_bit (60 - 4 * k) x)"
  proof (rule bit_word_eqI)
    fix n assume "n < LENGTH(64)"
    show "bit (drop_bit 60 (push_bit (4 * k) x)) n = bit (take_bit 4 (drop_bit (60 - 4 * k) x)) n"
      using assms by (auto simp: bit_simps algebra_simps Suc_le_eq dest: bit_imp_le_length)
  qed
  moreover have "16 ^ (15 - k) = (2 :: nat) ^ (60 - 4 * k)"
  proof -
    have "(16 :: nat) ^ (15 - k) = (2 ^ 4) ^ (15 - k)" by simp
    also have "\<dots> = 2 ^ (4 * (15 - k))" by (simp only: power_mult)
    finally show ?thesis by (simp add: diff_mult_distrib2)
  qed
  moreover have "unat x < 2 ^ LENGTH(64)" by (rule unsigned_less)
  ultimately show ?thesis
    by (simp only: unsigned_take_bit_eq unsigned_drop_bit_eq) (simp add: take_bit_eq_mod drop_bit_eq_div)
qed

lemma ptr_digits_shift:
  "k + n \<le> 16 \<Longrightarrow> ptr_digits ds n (push_bit (4 * k) x) = map (\<lambda>i. ds ! (unat x div 16 ^ i mod 16)) (rev [16 - k - n..<16 - k])"
proof (induction n arbitrary: k)
  case (Suc n)
  have e: "[16 - k - Suc n..<16 - k] = [16 - k - Suc n..<15 - k] @ [15 - k]"
  proof -
    have "16 - k = Suc (15 - k)" using Suc.prems by simp
    then show ?thesis using Suc.prems by (simp only: upt_Suc) simp
  qed
  have "push_bit 4 (push_bit (4 * k) x) = push_bit (4 * Suc k) x" by (simp add: push_bit_push_bit algebra_simps)
  then show ?case using Suc.IH [of "Suc k"] Suc.prems e by (simp add: drop_push)
qed simp

lemma printptr_text: "printptr x = pointer_text digits x" "uprintptr x = pointer_text udigits x"
  using ptr_digits_shift [of 0 16 _ x] by (simp_all add: pointer_text_def printptr_def uprintptr_def)

lemma character_text:
  "unat (ucast (x :: u64) :: u8) = unat x mod 256" "(ucast x :: u32) = 0x100 \<longleftrightarrow> unat x mod 2 ^ 32 = 256"
  "unat (ucast (ucast x :: u32) :: u8) = unat x mod 256"
proof -
  show "unat (ucast x :: u8) = unat x mod 256" by (simp add: unsigned_ucast_eq take_bit_eq_mod)
  show "(ucast x :: u32) = 0x100 \<longleftrightarrow> unat x mod 2 ^ 32 = 256"
    by (simp add: word_eq_iff_unsigned [where 'a = nat] unsigned_ucast_eq take_bit_eq_mod)
  have y: "unat (ucast y :: u8) = unat y mod 256" for y :: u32 by (simp add: unsigned_ucast_eq take_bit_eq_mod)
  have "unat (ucast x :: u32) = unat x mod 2 ^ 32" by (simp add: unsigned_ucast_eq take_bit_eq_mod)
  then show "unat (ucast (ucast x :: u32) :: u8) = unat x mod 256" unfolding y by (simp add: mod_mod_cancel)
qed

lemmas item_simps = item_def dir_words_def begins_def fmt_at_def Let_def value_of_def cons_text_def printint_number uprintint_number
  sint_scast32 uint_ucast32 printptr_text character_text

lemma item_directive:
  assumes "r \<noteq> []"
  shows "item digits True r as = map_option (\<lambda>(t, k, as'). (t, Suc k, as')) (directive r as)"
proof -
  obtain c0 r1 where r: "r = c0 # r1" using assms by (cases r) auto
  consider "as = []" | x as' where "as = ArgInt x # as'" | s as' where "as = ArgStr s # as'"
    by (cases as rule: arg_int.cases) auto
  then show ?thesis
  proof cases
    case 1
    then show ?thesis unfolding r directive_def
      by (cases r1; cases "tl r1") (simp_all add: item_simps)
  next
    case 2
    then show ?thesis unfolding r directive_def
      by (cases r1; cases "tl r1") (simp_all add: item_simps)
  next
    case 3
    then show ?thesis unfolding r directive_def
      by (cases r1; cases "tl r1") (simp_all add: item_simps)
  qed
qed

lemma item_udirective:
  assumes "r \<noteq> []"
  shows "item udigits False r as = map_option (\<lambda>(t, k, as'). (t, Suc k, as')) (udirective r as)"
proof -
  obtain c0 r1 where r: "r = c0 # r1" using assms by (cases r) auto
  consider "as = []" | x as' where "as = ArgInt x # as'" | s as' where "as = ArgStr s # as'"
    by (cases as rule: arg_int.cases) auto
  then show ?thesis
  proof cases
    case 1
    then show ?thesis unfolding r udirective_def
      by (cases r1; cases "tl r1") (simp_all add: item_simps)
  next
    case 2
    then show ?thesis unfolding r udirective_def
      by (cases r1; cases "tl r1") (simp_all add: item_simps)
  next
    case 3
    then show ?thesis unfolding r udirective_def
      by (cases r1; cases "tl r1") (simp_all add: item_simps)
  qed
qed

lemma printf_formatted: "printf fmt as = formatted digits True fmt as"
proof (induction fmt as rule: printf.induct)
  case (2 cx r as)
  show ?case
  proof (cases "cx = CHR ''%'' \<and> r \<noteq> []")
    case True
    then show ?thesis using 2(2) item_directive [of r as] by (auto split: option.splits prod.splits)
  qed (use 2(1) in auto)
qed simp

lemma vprintf_formatted: "vprintf False fmt as = formatted udigits False fmt as"
proof (induction "length fmt" arbitrary: fmt as rule: less_induct)
  case less
  note IH = less
  show ?case
  proof (cases fmt)
    case (Cons cx r)
    show ?thesis
    proof (cases "cx = CHR ''%'' \<and> r \<noteq> []")
      case True
      then obtain c0 r1 where r: "r = c0 # r1" by (cases r) auto
      have "vprintf False (drop k r1) as' = formatted udigits False (drop k r1) as'" for k as' using IH Cons r by simp
      then show ?thesis using True Cons r item_udirective [of r as] by (auto split: option.splits prod.splits)
    next
      case False
      have "vprintf False r as = formatted udigits False r as" using IH Cons by simp
      then show ?thesis using False Cons by auto
    qed
  qed simp
qed


end
