(* ===== verification/Cstr.thy ===== *)
theory Cstr
  imports Prelude
begin

text \<open>
  C strings as byte lists: a pointer into a string is the rest of the list, which ends at its first
  NUL or at the end of the list. The fields of a text between two separators are its \<open>split_on\<close>.
\<close>

definition ch :: "u8 list \<Rightarrow> u8" where
  "ch p = (case p of [] \<Rightarrow> 0 | x # _ \<Rightarrow> x)"

lemma ch_simps [simp]: "ch [] = 0" "ch (x # xs) = x"
  by (simp_all add: ch_def)

lemma ch_nonzero: "ch p \<noteq> 0 \<Longrightarrow> \<exists>xs. p = ch p # xs"
  by (cases p) simp_all

lemma ch_zero: "0 \<notin> set p \<Longrightarrow> ch p = 0 \<longleftrightarrow> p = []"
  by (cases p) auto

fun split_on :: "'a \<Rightarrow> 'a list \<Rightarrow> 'a list list" where
  "split_on x [] = [[]]"
| "split_on x (y # ys) = (if y = x then [] # split_on x ys else (case split_on x ys of [] \<Rightarrow> [[y]] | h # t \<Rightarrow> (y # h) # t))"

lemma split_on_nonempty [simp]: "split_on x p \<noteq> []"
  by (cases p) (auto split: list.splits)

end
