(* ===== verification/Fs.thy ===== *)
theory Fs
  imports Txn Vm Printf Cstr
begin

text \<open>
  The file system of \<^verbatim>\<open>kernel/fs.c\<close>: block allocation, inodes, their contents, directories and
  path names. Structures on disk are laid out in blocks of bytes as \<^verbatim>\<open>fs.h\<close> says. An
  in-memory inode is named by its slot in the table; a null inode pointer is \<open>None\<close>. What the
  kernel prints is collected in \<open>printed\<close>.
\<close>

section \<open>Data (fs.h, file.h, stat.h)\<close>

definition ROOTINO :: u32 where "ROOTINO = 1"
definition FSMAGIC :: u32 where "FSMAGIC = 0x10203040"
definition NDIRECT :: nat where "NDIRECT = 12"
definition NINDIRECT :: nat where "NINDIRECT = BSIZE div 4"
definition MAXFILE :: nat where "MAXFILE = NDIRECT + NINDIRECT"
definition IPB :: nat where "IPB = BSIZE div 64"
definition BPB :: nat where "BPB = BSIZE * 8"

definition IBLOCK :: "u32 \<Rightarrow> superblock \<Rightarrow> u32" where
  "IBLOCK i sb = i div of_nat IPB + sb_inodestart sb"

definition BBLOCK :: "u32 \<Rightarrow> superblock \<Rightarrow> u32" where
  "BBLOCK b sb = b div of_nat BPB + sb_bmapstart sb"

record dinode =
  d_type :: u16
  d_major :: u16
  d_minor :: u16
  d_nlink :: u16
  d_size :: u32
  d_addrs :: "u32 list"

text \<open>The structure at byte \<open>o\<close> of a block: four shorts, the size, and \<open>NDIRECT + 1\<close> addresses.\<close>

definition get_dinode :: "u8 list \<Rightarrow> nat \<Rightarrow> dinode" where
  "get_dinode d k =
     \<lparr>d_type = get16 d k, d_major = get16 d (k + 2), d_minor = get16 d (k + 4), d_nlink = get16 d (k + 6),
      d_size = get32 d (k + 8), d_addrs = map (\<lambda>i. get32 d (k + 12 + 4 * i)) [0..<Suc NDIRECT]\<rparr>"

definition put_dinode :: "u8 list \<Rightarrow> nat \<Rightarrow> dinode \<Rightarrow> u8 list" where
  "put_dinode d k x =
     fold (\<lambda>i d. put32 d (k + 12 + 4 * i) (d_addrs x ! i)) [0..<Suc NDIRECT]
       (put32 (put16 (put16 (put16 (put16 d k (d_type x)) (k + 2) (d_major x)) (k + 4) (d_minor x)) (k + 6) (d_nlink x))
         (k + 8) (d_size x))"

record inode =
  i_dev :: u32
  i_inum :: u32
  i_ref :: int
  i_lock :: sleeplock
  i_valid :: bool
  i_type :: u16
  i_major :: u16
  i_minor :: u16
  i_nlink :: u16
  i_size :: u32
  i_addrs :: "u32 list"

record stat =
  st_dev :: u32
  st_ino :: u32
  st_type :: u16
  st_nlink :: u16
  st_size :: u64

record fkern = lkern +
  sb :: superblock
  itable_lock :: spinlock
  inodes :: "nat \<Rightarrow> inode"
  printed :: string

definition upd_inode :: "nat \<Rightarrow> (inode \<Rightarrow> inode) \<Rightarrow> 'a fkern_scheme \<Rightarrow> 'a fkern_scheme" where
  "upd_inode i f s = s\<lparr>inodes := (inodes s)(i := f (inodes s i))\<rparr>"

definition kprintf :: "string \<Rightarrow> parg list \<Rightarrow> 'a fkern_scheme \<Rightarrow> 'a fkern_scheme" where
  "kprintf fmt as s = (case printf fmt as of Some t \<Rightarrow> s\<lparr>printed := printed s @ t\<rparr> | None \<Rightarrow> s)"

definition i_rd :: "nat \<Rightarrow> 'a fkern_scheme \<Rightarrow> sleeplock" where
  "i_rd i s = i_lock (inodes s i)"

definition i_st :: "nat \<Rightarrow> sleeplock \<Rightarrow> 'a fkern_scheme \<Rightarrow> 'a fkern_scheme" where
  "i_st i l s = upd_inode i (i_lock_update (\<lambda>_. l)) s"

definition acquire_itable :: "nat \<Rightarrow> 'a fkern_scheme \<Rightarrow> 'a fkern_scheme result" where
  "acquire_itable = acquire_at itable_lock (\<lambda>lk. itable_lock_update (\<lambda>_. lk))"

definition release_itable :: "nat \<Rightarrow> 'a fkern_scheme \<Rightarrow> 'a fkern_scheme result" where
  "release_itable = release_at itable_lock (\<lambda>lk. itable_lock_update (\<lambda>_. lk))"

section \<open>The super block and the block allocator\<close>

definition get_superblock :: "u8 list \<Rightarrow> superblock" where
  "get_superblock d =
     \<lparr>sb_magic = get32 d 0, sb_size = get32 d 4, sb_nblocks = get32 d 8, sb_ninodes = get32 d 12, sb_nlog = get32 d 16,
      sb_logstart = get32 d 20, sb_inodestart = get32 d 24, sb_bmapstart = get32 d 28\<rparr>"

definition readsb :: "nat \<Rightarrow> u32 \<Rightarrow> 'a fkern_scheme \<Rightarrow> 'a fkern_scheme result" where
  "readsb c dev s =
     rbind (bread c dev 1 s) (\<lambda>(bp, s1). brelse c bp (s1\<lparr>sb := get_superblock (b_data (bufs s1 bp))\<rparr>))"

definition bzero :: "nat \<Rightarrow> u32 \<Rightarrow> u32 \<Rightarrow> 'a fkern_scheme \<Rightarrow> 'a fkern_scheme result" where
  "bzero c dev bno s =
     rbind (bread c dev bno s) (\<lambda>(bp, s1).
     rbind (log_write c bp (set_data_of bp (\<lambda>d. replicate BSIZE 0 @ drop BSIZE d) s1)) (\<lambda>s2. brelse c bp s2))"

definition bit_free :: "u8 list \<Rightarrow> nat \<Rightarrow> bool" where
  "bit_free d bi \<longleftrightarrow> d ! (bi div 8) AND push_bit (bi mod 8) 1 = 0"

definition set_bit_at :: "nat \<Rightarrow> u8 list \<Rightarrow> u8 list" where
  "set_bit_at bi d = d[bi div 8 := d ! (bi div 8) OR push_bit (bi mod 8) 1]"

definition clear_bit_at :: "nat \<Rightarrow> u8 list \<Rightarrow> u8 list" where
  "clear_bit_at bi d = d[bi div 8 := d ! (bi div 8) AND NOT (push_bit (bi mod 8) 1)]"

text \<open>The inner loop of \<^verbatim>\<open>balloc\<close>: the first clear bit of this bitmap block below \<^verbatim>\<open>sb.size\<close>.\<close>

definition balloc_scan :: "u8 list \<Rightarrow> u32 \<Rightarrow> u32 \<Rightarrow> nat option" where
  "balloc_scan d b sz = find (bit_free d) (takeWhile (\<lambda>bi. b + of_nat bi < sz) [0..<BPB])"

primrec balloc_loop :: "nat \<Rightarrow> nat \<Rightarrow> u32 \<Rightarrow> u32 \<Rightarrow> 'a fkern_scheme \<Rightarrow> (u32 \<times> 'a fkern_scheme) result" where
  "balloc_loop 0 c dev b s = Hang"
| "balloc_loop (Suc n) c dev b s =
     (if b < sb_size (sb s) then
        rbind (bread c dev (BBLOCK b (sb s)) s) (\<lambda>(bp, s1).
          case balloc_scan (b_data (bufs s1 bp)) b (sb_size (sb s1)) of
            Some bi \<Rightarrow>
              rbind (log_write c bp (set_data_of bp (set_bit_at bi) s1)) (\<lambda>s2.
              rbind (brelse c bp s2) (\<lambda>s3.
              rbind (bzero c dev (b + of_nat bi) s3) (\<lambda>s4. Ok (b + of_nat bi, s4))))
          | None \<Rightarrow> rbind (brelse c bp s1) (\<lambda>s2. balloc_loop n c dev (b + of_nat BPB) s2))
      else Ok (0, kprintf ''balloc: out of blocks\<newline>'' [] s))"

definition balloc :: "nat \<Rightarrow> u32 \<Rightarrow> 'a fkern_scheme \<Rightarrow> (u32 \<times> 'a fkern_scheme) result" where
  "balloc c dev s = balloc_loop (unat (sb_size (sb s)) div BPB + 2) c dev 0 s"

definition bfree :: "nat \<Rightarrow> u32 \<Rightarrow> u32 \<Rightarrow> 'a fkern_scheme \<Rightarrow> 'a fkern_scheme result" where
  "bfree c dev b s =
     rbind (bread c dev (BBLOCK b (sb s)) s) (\<lambda>(bp, s1).
       let bi = unat b mod BPB
       in if bit_free (b_data (bufs s1 bp)) bi then Panic ''freeing free block''
          else rbind (log_write c bp (set_data_of bp (clear_bit_at bi) s1)) (\<lambda>s2. brelse c bp s2))"

section \<open>Inodes\<close>

definition iinit :: "'a fkern_scheme \<Rightarrow> 'a fkern_scheme" where
  "iinit s = fold (\<lambda>i. i_st i (initsleeplock ''inode'')) [0..<NINODE] (s\<lparr>itable_lock := initlock ''itable''\<rparr>)"

text \<open>Where inode \<open>inum\<close> lies in its block.\<close>

definition ioff :: "u32 \<Rightarrow> nat" where
  "ioff inum = 64 * (unat inum mod IPB)"

text \<open>The scan of \<^verbatim>\<open>iget\<close> over slots \<open>is\<close>: a match, or the first empty slot remembered.\<close>

fun iget_scan :: "(nat \<Rightarrow> inode) \<Rightarrow> u32 \<Rightarrow> u32 \<Rightarrow> nat option \<Rightarrow> nat list \<Rightarrow> nat option \<times> nat option" where
  "iget_scan t dev inum e [] = (None, e)"
| "iget_scan t dev inum e (i # is) =
     (if i_ref (t i) > 0 \<and> i_dev (t i) = dev \<and> i_inum (t i) = inum then (Some i, e)
      else iget_scan t dev inum (if e = None \<and> i_ref (t i) = 0 then Some i else e) is)"

definition iget :: "nat \<Rightarrow> u32 \<Rightarrow> u32 \<Rightarrow> 'a fkern_scheme \<Rightarrow> (nat \<times> 'a fkern_scheme) result" where
  "iget c dev inum s =
     rbind (acquire_itable c s) (\<lambda>s1.
       case iget_scan (inodes s1) dev inum None [0..<NINODE] of
         (Some ip, _) \<Rightarrow>
           rbind (release_itable c (upd_inode ip (\<lambda>x. x\<lparr>i_ref := i_ref x + 1\<rparr>) s1)) (\<lambda>s2. Ok (ip, s2))
       | (None, None) \<Rightarrow> Panic ''iget: no inodes''
       | (None, Some ip) \<Rightarrow>
           rbind (release_itable c (upd_inode ip (\<lambda>x. x\<lparr>i_dev := dev, i_inum := inum, i_ref := 1, i_valid := False\<rparr>) s1))
             (\<lambda>s2. Ok (ip, s2)))"

primrec ialloc_loop :: "nat \<Rightarrow> nat \<Rightarrow> u32 \<Rightarrow> u16 \<Rightarrow> u32 \<Rightarrow> 'a fkern_scheme \<Rightarrow> (nat option \<times> 'a fkern_scheme) result" where
  "ialloc_loop 0 c dev ty inum s = Hang"
| "ialloc_loop (Suc n) c dev ty inum s =
     (if inum < sb_ninodes (sb s) then
        rbind (bread c dev (IBLOCK inum (sb s)) s) (\<lambda>(bp, s1).
          if d_type (get_dinode (b_data (bufs s1 bp)) (ioff inum)) = 0 then
            rbind (log_write c bp (set_data_of bp (\<lambda>d. put_dinode d (ioff inum)
                \<lparr>d_type = ty, d_major = 0, d_minor = 0, d_nlink = 0, d_size = 0, d_addrs = replicate (Suc NDIRECT) 0\<rparr>) s1)) (\<lambda>s2.
            rbind (brelse c bp s2) (\<lambda>s3.
            rbind (iget c dev inum s3) (\<lambda>(ip, s4). Ok (Some ip, s4))))
          else rbind (brelse c bp s1) (\<lambda>s2. ialloc_loop n c dev ty (inum + 1) s2))
      else Ok (None, kprintf ''ialloc: no inodes\<newline>'' [] s))"

definition ialloc :: "nat \<Rightarrow> u32 \<Rightarrow> u16 \<Rightarrow> 'a fkern_scheme \<Rightarrow> (nat option \<times> 'a fkern_scheme) result" where
  "ialloc c dev ty s = ialloc_loop (unat (sb_ninodes (sb s)) + 1) c dev ty 1 s"

definition iupdate :: "nat \<Rightarrow> nat \<Rightarrow> 'a fkern_scheme \<Rightarrow> 'a fkern_scheme result" where
  "iupdate c ip s =
     rbind (bread c (i_dev (inodes s ip)) (IBLOCK (i_inum (inodes s ip)) (sb s)) s) (\<lambda>(bp, s1).
       let x = inodes s1 ip
       in rbind (log_write c bp (set_data_of bp (\<lambda>d. put_dinode d (ioff (i_inum x))
              \<lparr>d_type = i_type x, d_major = i_major x, d_minor = i_minor x, d_nlink = i_nlink x, d_size = i_size x,
               d_addrs = i_addrs x\<rparr>) s1)) (\<lambda>s2. brelse c bp s2))"

definition idup :: "nat \<Rightarrow> nat \<Rightarrow> 'a fkern_scheme \<Rightarrow> 'a fkern_scheme result" where
  "idup c ip s =
     rbind (acquire_itable c s) (\<lambda>s1. release_itable c (upd_inode ip (\<lambda>x. x\<lparr>i_ref := i_ref x + 1\<rparr>) s1))"

definition load_inode :: "dinode \<Rightarrow> inode \<Rightarrow> inode" where
  "load_inode d x = x\<lparr>i_type := d_type d, i_major := d_major d, i_minor := d_minor d, i_nlink := d_nlink d,
     i_size := d_size d, i_addrs := d_addrs d\<rparr>"

definition ilock :: "nat \<Rightarrow> nat \<Rightarrow> 'a fkern_scheme \<Rightarrow> 'a fkern_scheme result" where
  "ilock c ip s =
     (if i_ref (inodes s ip) < 1 then Panic ''ilock''
      else rbind (acquiresleep (i_rd ip) (i_st ip) c s) (\<lambda>s1.
        if \<not> i_valid (inodes s1 ip) then
          rbind (bread c (i_dev (inodes s1 ip)) (IBLOCK (i_inum (inodes s1 ip)) (sb s1)) s1) (\<lambda>(bp, s2).
            let dip = get_dinode (b_data (bufs s2 bp)) (ioff (i_inum (inodes s2 ip)))
            in rbind (brelse c bp (upd_inode ip (load_inode dip) s2)) (\<lambda>s3.
                 let s4 = upd_inode ip (i_valid_update (\<lambda>_. True)) s3
                 in if i_type (inodes s4 ip) = 0 then Panic ''ilock: no type'' else Ok s4))
        else Ok s1))"

definition iunlock :: "nat \<Rightarrow> nat \<Rightarrow> 'a fkern_scheme \<Rightarrow> 'a fkern_scheme result" where
  "iunlock c ip s =
     rbind (holdingsleep (i_rd ip) (i_st ip) c s) (\<lambda>(h, s1).
       if \<not> h \<or> i_ref (inodes s1 ip) < 1 then Panic ''iunlock''
       else releasesleep (i_rd ip) (i_st ip) (InodeLockChan ip) c s1)"

section \<open>Contents\<close>

definition bmap :: "nat \<Rightarrow> nat \<Rightarrow> nat \<Rightarrow> 'a fkern_scheme \<Rightarrow> (u32 \<times> 'a fkern_scheme) result" where
  "bmap c ip bn s =
     (if bn < NDIRECT then
        (if i_addrs (inodes s ip) ! bn = 0 then
           rbind (balloc c (i_dev (inodes s ip)) s) (\<lambda>(addr, s1).
             if addr = 0 then Ok (0, s1)
             else Ok (addr, upd_inode ip (i_addrs_update (\<lambda>a. a[bn := addr])) s1))
         else Ok (i_addrs (inodes s ip) ! bn, s))
      else if bn - NDIRECT < NINDIRECT then
        rbind (if i_addrs (inodes s ip) ! NDIRECT = 0 then
                 rbind (balloc c (i_dev (inodes s ip)) s) (\<lambda>(addr, s1).
                   if addr = 0 then Ok (0, s1)
                   else Ok (addr, upd_inode ip (i_addrs_update (\<lambda>a. a[NDIRECT := addr])) s1))
               else Ok (i_addrs (inodes s ip) ! NDIRECT, s)) (\<lambda>(ind, s1).
          if ind = 0 then Ok (0, s1)
          else rbind (bread c (i_dev (inodes s1 ip)) ind s1) (\<lambda>(bp, s2).
            let k = 4 * (bn - NDIRECT);
                addr = get32 (b_data (bufs s2 bp)) k
            in rbind (if addr = 0 then
                        rbind (balloc c (i_dev (inodes s2 ip)) s2) (\<lambda>(addr', s3).
                          if addr' \<noteq> 0 then
                            rbind (log_write c bp (set_data_of bp (\<lambda>d. put32 d k addr') s3)) (\<lambda>s4. Ok (addr', s4))
                          else Ok (0, s3))
                      else Ok (addr, s2)) (\<lambda>(addr, s5).
               rbind (brelse c bp s5) (\<lambda>s6. Ok (addr, s6)))))
      else Panic ''bmap: out of range'')"

definition itrunc_direct :: "nat \<Rightarrow> nat \<Rightarrow> nat \<Rightarrow> 'a fkern_scheme \<Rightarrow> 'a fkern_scheme result" where
  "itrunc_direct c ip i s =
     (if i_addrs (inodes s ip) ! i \<noteq> 0 then
        rbind (bfree c (i_dev (inodes s ip)) (i_addrs (inodes s ip) ! i) s) (\<lambda>s1.
          Ok (upd_inode ip (i_addrs_update (\<lambda>a. a[i := 0])) s1))
      else Ok s)"

definition itrunc_indirect :: "nat \<Rightarrow> nat \<Rightarrow> nat \<Rightarrow> nat \<Rightarrow> 'a fkern_scheme \<Rightarrow> 'a fkern_scheme result" where
  "itrunc_indirect c ip bp j s =
     (let a = get32 (b_data (bufs s bp)) (4 * j) in if a \<noteq> 0 then bfree c (i_dev (inodes s ip)) a s else Ok s)"

definition itrunc :: "nat \<Rightarrow> nat \<Rightarrow> 'a fkern_scheme \<Rightarrow> 'a fkern_scheme result" where
  "itrunc c ip s =
     rbind (foldR (itrunc_direct c ip) [0..<NDIRECT] s) (\<lambda>s1.
     rbind (if i_addrs (inodes s1 ip) ! NDIRECT \<noteq> 0 then
              rbind (bread c (i_dev (inodes s1 ip)) (i_addrs (inodes s1 ip) ! NDIRECT) s1) (\<lambda>(bp, s2).
              rbind (foldR (itrunc_indirect c ip bp) [0..<NINDIRECT] s2) (\<lambda>s3.
              rbind (brelse c bp s3) (\<lambda>s4.
              rbind (bfree c (i_dev (inodes s4 ip)) (i_addrs (inodes s4 ip) ! NDIRECT) s4) (\<lambda>s5.
                Ok (upd_inode ip (i_addrs_update (\<lambda>a. a[NDIRECT := 0])) s5)))))
            else Ok s1) (\<lambda>s6.
     iupdate c ip (upd_inode ip (i_size_update (\<lambda>_. 0)) s6)))"

definition stati :: "inode \<Rightarrow> stat" where
  "stati ip = \<lparr>st_dev = i_dev ip, st_ino = i_inum ip, st_type = i_type ip, st_nlink = i_nlink ip, st_size = ucast (i_size ip)\<rparr>"

definition iput :: "nat \<Rightarrow> nat \<Rightarrow> 'a fkern_scheme \<Rightarrow> 'a fkern_scheme result" where
  "iput c ip s =
     rbind (acquire_itable c s) (\<lambda>s1.
     rbind (if i_ref (inodes s1 ip) = 1 \<and> i_valid (inodes s1 ip) \<and> i_nlink (inodes s1 ip) = 0 then
              rbind (acquiresleep (i_rd ip) (i_st ip) c s1) (\<lambda>s2.
              rbind (release_itable c s2) (\<lambda>s3.
              rbind (itrunc c ip s3) (\<lambda>s4.
              rbind (iupdate c ip (upd_inode ip (i_type_update (\<lambda>_. 0)) s4)) (\<lambda>s5.
              rbind (releasesleep (i_rd ip) (i_st ip) (InodeLockChan ip) c (upd_inode ip (i_valid_update (\<lambda>_. False)) s5)) (\<lambda>s6.
              acquire_itable c s6)))))
            else Ok s1) (\<lambda>s7.
     release_itable c (upd_inode ip (\<lambda>x. x\<lparr>i_ref := i_ref x - 1\<rparr>) s7)))"

definition iunlockput :: "nat \<Rightarrow> nat \<Rightarrow> 'a fkern_scheme \<Rightarrow> 'a fkern_scheme result" where
  "iunlockput c ip s = rbind (iunlock c ip s) (\<lambda>s1. iput c ip s1)"

definition ireclaim_body :: "nat \<Rightarrow> u32 \<Rightarrow> nat \<Rightarrow> 'a fkern_scheme \<Rightarrow> 'a fkern_scheme result" where
  "ireclaim_body c dev k s =
     (let inum = of_nat k :: u32 in
      rbind (bread c dev (IBLOCK inum (sb s)) s) (\<lambda>(bp, s1).
        let dip = get_dinode (b_data (bufs s1 bp)) (ioff inum) in
        rbind (if d_type dip \<noteq> 0 \<and> d_nlink dip = 0 then
                 rbind (iget c dev inum (kprintf ''ireclaim: orphaned inode %d\<newline>'' [ArgInt (ucast inum)] s1)) (\<lambda>(ip, s2). Ok (Some ip, s2))
               else Ok (None, s1)) (\<lambda>(ip, s2).
        rbind (brelse c bp s2) (\<lambda>s3.
          case ip of
            None \<Rightarrow> Ok s3
          | Some i \<Rightarrow>
              rbind (begin_op c s3) (\<lambda>s4. rbind (ilock c i s4) (\<lambda>s5. rbind (iunlock c i s5) (\<lambda>s6.
              rbind (iput c i s6) (\<lambda>s7. end_op c s7))))))))"

definition ireclaim :: "nat \<Rightarrow> u32 \<Rightarrow> 'a fkern_scheme \<Rightarrow> 'a fkern_scheme result" where
  "ireclaim c dev s = foldR (ireclaim_body c dev) [1..<unat (sb_ninodes (sb s))] s"

definition fsinit :: "nat \<Rightarrow> u32 \<Rightarrow> 'a fkern_scheme \<Rightarrow> 'a fkern_scheme result" where
  "fsinit c dev s =
     rbind (readsb c dev s) (\<lambda>s1.
       if sb_magic (sb s1) \<noteq> FSMAGIC then Panic ''invalid file system''
       else rbind (initlog c dev (sb s1) s1) (\<lambda>s2. ireclaim c dev s2))"

text \<open>
  \<open>tot\<close> and \<open>off\<close> are the loop variables; the third result is where the destination has got to. A
  round moves at least one byte.
\<close>

primrec readi_loop :: "nat \<Rightarrow> nat \<Rightarrow> nat \<Rightarrow> place \<Rightarrow> u32 \<Rightarrow> u32 \<Rightarrow> u32 \<Rightarrow> 'a fkern_scheme \<Rightarrow>
    (u32 \<times> place \<times> 'a fkern_scheme) result" where
  "readi_loop 0 c ip dst off n tot s = Hang"
| "readi_loop (Suc k) c ip dst off n tot s =
     (if tot < n then
        rbind (bmap c ip (unat off div BSIZE) s) (\<lambda>(addr, s1).
          if addr = 0 then Ok (tot, dst, s1)
          else rbind (bread c (i_dev (inodes s1 ip)) addr s1) (\<lambda>(bp, s2).
            let m = min (n - tot) (of_nat BSIZE - of_nat (unat off mod BSIZE))
            in rbind (either_copyout c dst (take (unat m) (drop (unat off mod BSIZE) (b_data (bufs s2 bp)))) s2) (\<lambda>(r, dst', s3).
                 if r = -1 then rbind (brelse c bp s3) (\<lambda>s4. Ok (- 1, dst', s4))
                 else rbind (brelse c bp s3) (\<lambda>s4. readi_loop k c ip dst' (off + m) n (tot + m) s4))))
      else Ok (tot, dst, s))"

definition readi :: "nat \<Rightarrow> nat \<Rightarrow> place \<Rightarrow> u32 \<Rightarrow> u32 \<Rightarrow> 'a fkern_scheme \<Rightarrow> (int \<times> place \<times> 'a fkern_scheme) result" where
  "readi c ip dst off n s =
     (if off > i_size (inodes s ip) \<or> off + n < off then Ok (0, dst, s)
      else let n' = (if off + n > i_size (inodes s ip) then i_size (inodes s ip) - off else n)
        in rbind (readi_loop (Suc (unat n')) c ip dst off n' 0 s) (\<lambda>(tot, dst', s1). Ok (sint tot, dst', s1)))"

definition put_at :: "nat \<Rightarrow> u8 list \<Rightarrow> u8 list \<Rightarrow> u8 list" where
  "put_at k bs d = take k d @ bs @ drop (k + length bs) d"

primrec writei_loop :: "nat \<Rightarrow> nat \<Rightarrow> nat \<Rightarrow> place \<Rightarrow> u32 \<Rightarrow> u32 \<Rightarrow> u32 \<Rightarrow> 'a fkern_scheme \<Rightarrow>
    (u32 \<times> u32 \<times> 'a fkern_scheme) result" where
  "writei_loop 0 c ip src off n tot s = Hang"
| "writei_loop (Suc k) c ip src off n tot s =
     (if tot < n then
        rbind (bmap c ip (unat off div BSIZE) s) (\<lambda>(addr, s1).
          if addr = 0 then Ok (tot, off, s1)
          else rbind (bread c (i_dev (inodes s1 ip)) addr s1) (\<lambda>(bp, s2).
            let m = min (n - tot) (of_nat BSIZE - of_nat (unat off mod BSIZE))
            in rbind (either_copyin c src (ucast m) s2) (\<lambda>(r, bs, src', s3).
                 let s4 = set_data_of bp (put_at (unat off mod BSIZE) bs) s3
                 in if r = -1 then rbind (brelse c bp s4) (\<lambda>s5. Ok (tot, off, s5))
                    else rbind (log_write c bp s4) (\<lambda>s5.
                         rbind (brelse c bp s5) (\<lambda>s6. writei_loop k c ip src' (off + m) n (tot + m) s6)))))
      else Ok (tot, off, s))"

definition writei :: "nat \<Rightarrow> nat \<Rightarrow> place \<Rightarrow> u32 \<Rightarrow> u32 \<Rightarrow> 'a fkern_scheme \<Rightarrow> (int \<times> 'a fkern_scheme) result" where
  "writei c ip src off n s =
     (if off > i_size (inodes s ip) \<or> off + n < off then Ok (-1, s)
      else if unat (off + n) > MAXFILE * BSIZE then Ok (-1, s)
      else rbind (writei_loop (Suc (unat n)) c ip src off n 0 s) (\<lambda>(tot, off', s1).
        let s2 = (if off' > i_size (inodes s1 ip) then upd_inode ip (i_size_update (\<lambda>_. off')) s1 else s1)
        in rbind (iupdate c ip s2) (\<lambda>s3. Ok (sint tot, s3))))"

section \<open>Directories\<close>

text \<open>
  \<open>strncmp_l\<close> and
  \<open>strncpy_l\<close> are \<^verbatim>\<open>strncmp\<close> and \<^verbatim>\<open>strncpy\<close> on byte lists.
\<close>

fun strncmp_l :: "u8 list \<Rightarrow> u8 list \<Rightarrow> nat \<Rightarrow> int" where
  "strncmp_l p q 0 = 0"
| "strncmp_l p q (Suc n) =
     (if ch p \<noteq> 0 \<and> ch p = ch q then strncmp_l (tl p) (tl q) n else uint (ch p) - uint (ch q))"

fun strncpy_l :: "u8 list \<Rightarrow> nat \<Rightarrow> u8 list" where
  "strncpy_l t 0 = []"
| "strncpy_l t (Suc n) = (if ch t \<noteq> 0 then ch t # strncpy_l (tl t) n else replicate (Suc n) 0)"

definition namecmp :: "u8 list \<Rightarrow> u8 list \<Rightarrow> int" where
  "namecmp s t = strncmp_l s t DIRSIZ"

text \<open>A directory entry: two bytes of inode number, then the name.\<close>

fun var_bytes :: "place \<Rightarrow> u8 list" where
  "var_bytes (Var bs) = bs"
| "var_bytes _ = []"

definition de_inum :: "u8 list \<Rightarrow> u16" where "de_inum de = get16 de 0"
definition de_name :: "u8 list \<Rightarrow> u8 list" where "de_name de = take DIRSIZ (drop 2 de)"

primrec dirlookup_loop :: "nat \<Rightarrow> nat \<Rightarrow> nat \<Rightarrow> u8 list \<Rightarrow> u32 \<Rightarrow> 'a fkern_scheme \<Rightarrow>
    ((nat \<times> u32) option \<times> 'a fkern_scheme) result" where
  "dirlookup_loop 0 c dp name off s = Hang"
| "dirlookup_loop (Suc n) c dp name off s =
     (if off < i_size (inodes s dp) then
        rbind (readi c dp (Var []) off 16 s) (\<lambda>(r, de, s1).
          if r \<noteq> 16 then Panic ''dirlookup read''
          else if de_inum (var_bytes de) = 0 then dirlookup_loop n c dp name (off + 16) s1
          else if namecmp name (de_name (var_bytes de)) = 0 then
            rbind (iget c (i_dev (inodes s1 dp)) (ucast (de_inum (var_bytes de))) s1) (\<lambda>(ip, s2). Ok (Some (ip, off), s2))
          else dirlookup_loop n c dp name (off + 16) s1)
      else Ok (None, s))"

definition dirlookup :: "nat \<Rightarrow> nat \<Rightarrow> u8 list \<Rightarrow> 'a fkern_scheme \<Rightarrow> ((nat \<times> u32) option \<times> 'a fkern_scheme) result" where
  "dirlookup c dp name s =
     (if i_type (inodes s dp) \<noteq> T_DIR then Panic ''dirlookup not DIR''
      else dirlookup_loop (unat (i_size (inodes s dp)) div 16 + 2) c dp name 0 s)"

primrec dirlink_slot :: "nat \<Rightarrow> nat \<Rightarrow> nat \<Rightarrow> u32 \<Rightarrow> 'a fkern_scheme \<Rightarrow> (u32 \<times> 'a fkern_scheme) result" where
  "dirlink_slot 0 c dp off s = Hang"
| "dirlink_slot (Suc n) c dp off s =
     (if off < i_size (inodes s dp) then
        rbind (readi c dp (Var []) off 16 s) (\<lambda>(r, de, s1).
          if r \<noteq> 16 then Panic ''dirlink read''
          else if de_inum (var_bytes de) = 0 then Ok (off, s1)
          else dirlink_slot n c dp (off + 16) s1)
      else Ok (off, s))"

definition make_dirent :: "u8 list \<Rightarrow> u32 \<Rightarrow> u8 list" where
  "make_dirent name inum = put16 (replicate 2 0) 0 (ucast inum) @ strncpy_l name DIRSIZ"

definition dirlink :: "nat \<Rightarrow> nat \<Rightarrow> u8 list \<Rightarrow> u32 \<Rightarrow> 'a fkern_scheme \<Rightarrow> (int \<times> 'a fkern_scheme) result" where
  "dirlink c dp name inum s =
     rbind (dirlookup c dp name s) (\<lambda>(r, s1).
       case r of
         Some (ip, _) \<Rightarrow> rbind (iput c ip s1) (\<lambda>s2. Ok (-1, s2))
       | None \<Rightarrow>
           rbind (dirlink_slot (unat (i_size (inodes s1 dp)) div 16 + 2) c dp 0 s1) (\<lambda>(off, s2).
           rbind (writei c dp (Var (make_dirent name inum)) off 16 s2) (\<lambda>(r, s3).
             if r \<noteq> 16 then Ok (-1, s3) else Ok (0, s3))))"

section \<open>Path names\<close>

definition slash :: u8 where "slash = 47"

text \<open>
  The name buffer of \<open>DIRSIZ\<close> bytes keeps its old bytes behind the terminating NUL, as the array
  does. The result is null when there is no element left.
\<close>

definition skipelem :: "u8 list \<Rightarrow> u8 list \<Rightarrow> (u8 list \<times> u8 list) option" where
  "skipelem pth name =
     (let p = dropWhile (\<lambda>x. x = slash) pth in
      if ch p = 0 then None
      else let s = takeWhile (\<lambda>x. x \<noteq> slash \<and> x \<noteq> 0) p;
               rest = dropWhile (\<lambda>x. x \<noteq> slash \<and> x \<noteq> 0) p;
               len = length s;
               name' = (if len \<ge> DIRSIZ then take DIRSIZ s else s @ [0] @ drop (len + 1) name)
           in Some (dropWhile (\<lambda>x. x = slash) rest, name'))"

text \<open>Every round consumes at least one byte of the path.\<close>

primrec namex_loop :: "nat \<Rightarrow> nat \<Rightarrow> u8 list \<Rightarrow> bool \<Rightarrow> u8 list \<Rightarrow> nat \<Rightarrow> 'a fkern_scheme \<Rightarrow>
    (nat option \<times> u8 list \<times> 'a fkern_scheme) result" where
  "namex_loop 0 c pth parent name ip s = Hang"
| "namex_loop (Suc n) c pth parent name ip s =
     (case skipelem pth name of
        None \<Rightarrow>
          if parent then rbind (iput c ip s) (\<lambda>s1. Ok (None, name, s1)) else Ok (Some ip, name, s)
      | Some (pth', name') \<Rightarrow>
          rbind (ilock c ip s) (\<lambda>s1.
            if i_type (inodes s1 ip) \<noteq> T_DIR then rbind (iunlockput c ip s1) (\<lambda>s2. Ok (None, name', s2))
            else if parent \<and> ch pth' = 0 then rbind (iunlock c ip s1) (\<lambda>s2. Ok (Some ip, name', s2))
            else rbind (dirlookup c ip name' s1) (\<lambda>(r, s2).
              case r of
                None \<Rightarrow> rbind (iunlockput c ip s2) (\<lambda>s3. Ok (None, name', s3))
              | Some (next, _) \<Rightarrow>
                  rbind (iunlockput c ip s2) (\<lambda>s3. namex_loop n c pth' parent name' next s3))))"

definition namex :: "nat \<Rightarrow> u8 list \<Rightarrow> bool \<Rightarrow> u8 list \<Rightarrow> 'a fkern_scheme \<Rightarrow> (nat option \<times> u8 list \<times> 'a fkern_scheme) result" where
  "namex c pth parent name s =
     rbind (if ch pth = slash then iget c ROOTDEV ROOTINO s
            else rbind (myproc c s) (\<lambda>ps. the_proc ps (\<lambda>p s1.
              case p_cwd (procs s1 p) of None \<Rightarrow> Panic ''kerneltrap'' | Some ip \<Rightarrow> rbind (idup c ip s1) (\<lambda>s2. Ok (ip, s2))))) (\<lambda>(ip, s3).
     namex_loop (Suc (length pth)) c pth parent name ip s3)"

text \<open>The name buffer of a caller is a local array; its first contents are never read.\<close>

definition namei :: "nat \<Rightarrow> u8 list \<Rightarrow> 'a fkern_scheme \<Rightarrow> (nat option \<times> 'a fkern_scheme) result" where
  "namei c pth s = rbind (namex c pth False (replicate DIRSIZ 0) s) (\<lambda>(ip, name, s1). Ok (ip, s1))"

definition nameiparent :: "nat \<Rightarrow> u8 list \<Rightarrow> u8 list \<Rightarrow> 'a fkern_scheme \<Rightarrow> (nat option \<times> u8 list \<times> 'a fkern_scheme) result" where
  "nameiparent c pth name s = namex c pth True name s"

end
