(* ===== verification/File.thy ===== *)
theory File
  imports Fs
begin

text \<open>
  Open files and pipes: \<^verbatim>\<open>kernel/file.c\<close> and \<^verbatim>\<open>kernel/pipe.c\<close>. A pipe lives in a page of
  its own and is named by the address of that page. Operations that may give up the CPU take what
  happens meanwhile as \<open>sw\<close>, return the hart they resume on, and count the tests of their waiting
  loop with \<open>k\<close>. The device switch is a parameter: \<open>rd\<close> and \<open>wr\<close> give the functions of a major number.
\<close>

section \<open>Data (file.h, pipe.c)\<close>

datatype ftype = FD_NONE | FD_PIPE | FD_INODE | FD_DEVICE

record kfile =
  f_type :: ftype
  f_ref :: int
  f_readable :: bool
  f_writable :: bool
  f_pipe :: u64
  f_ip :: "nat option"
  f_off :: u32
  f_major :: u16

definition PIPESIZE :: nat where "PIPESIZE = 512"

record pipe =
  pi_lock :: spinlock
  pi_data :: "u8 list"
  pi_nread :: u32
  pi_nwrite :: u32
  pi_readopen :: bool
  pi_writeopen :: bool

record pkern = fkern +
  ftable_lock :: spinlock
  files :: "nat \<Rightarrow> kfile"
  pipes :: "u64 \<Rightarrow> pipe"

type_synonym 's dev_fun = "nat \<Rightarrow> u64 \<Rightarrow> int \<Rightarrow> 's \<Rightarrow> (int \<times> nat \<times> 's) result"

definition upd_file :: "nat \<Rightarrow> (kfile \<Rightarrow> kfile) \<Rightarrow> 'a pkern_scheme \<Rightarrow> 'a pkern_scheme" where
  "upd_file i f s = s\<lparr>files := (files s)(i := f (files s i))\<rparr>"

definition upd_pipe :: "u64 \<Rightarrow> (pipe \<Rightarrow> pipe) \<Rightarrow> 'a pkern_scheme \<Rightarrow> 'a pkern_scheme" where
  "upd_pipe i f s = s\<lparr>pipes := (pipes s)(i := f (pipes s i))\<rparr>"

definition acquire_ftable :: "nat \<Rightarrow> 'a pkern_scheme \<Rightarrow> 'a pkern_scheme result" where
  "acquire_ftable = acquire_at ftable_lock (\<lambda>lk. ftable_lock_update (\<lambda>_. lk))"

definition release_ftable :: "nat \<Rightarrow> 'a pkern_scheme \<Rightarrow> 'a pkern_scheme result" where
  "release_ftable = release_at ftable_lock (\<lambda>lk. ftable_lock_update (\<lambda>_. lk))"

definition pi_rd :: "u64 \<Rightarrow> 'a pkern_scheme \<Rightarrow> spinlock" where
  "pi_rd pi s = pi_lock (pipes s pi)"

definition pi_st :: "u64 \<Rightarrow> spinlock \<Rightarrow> 'a pkern_scheme \<Rightarrow> 'a pkern_scheme" where
  "pi_st pi l s = upd_pipe pi (pi_lock_update (\<lambda>_. l)) s"

text \<open>Following a null pointer faults in the kernel.\<close>

definition the_ip :: "nat option \<Rightarrow> (nat \<Rightarrow> 'b result) \<Rightarrow> 'b result" where
  "the_ip ip f = (case ip of Some i \<Rightarrow> f i | None \<Rightarrow> Panic ''kerneltrap'')"

section \<open>Pipes\<close>

definition pipeclose :: "nat \<Rightarrow> u64 \<Rightarrow> bool \<Rightarrow> 'a pkern_scheme \<Rightarrow> 'a pkern_scheme result" where
  "pipeclose c pi writable s =
     rbind (acquire_at (pi_rd pi) (pi_st pi) c s) (\<lambda>s1.
     rbind (if writable then wakeup c (PipeReadChan pi) (upd_pipe pi (pi_writeopen_update (\<lambda>_. False)) s1)
            else wakeup c (PipeWriteChan pi) (upd_pipe pi (pi_readopen_update (\<lambda>_. False)) s1)) (\<lambda>s2.
       if \<not> pi_readopen (pipes s2 pi) \<and> \<not> pi_writeopen (pipes s2 pi) then
         rbind (release_at (pi_rd pi) (pi_st pi) c s2) (\<lambda>s3. kfree c pi s3)
       else release_at (pi_rd pi) (pi_st pi) c s2))"

definition pipe_put :: "u8 \<Rightarrow> pipe \<Rightarrow> pipe" where
  "pipe_put x p = p\<lparr>pi_data := (pi_data p)[unat (pi_nwrite p) mod PIPESIZE := x], pi_nwrite := pi_nwrite p + 1\<rparr>"

text \<open>The loop of \<^verbatim>\<open>pipewrite\<close>; \<open>None\<close> is the early return of -1, with the lock released.\<close>

primrec pipewrite_loop :: "nat \<Rightarrow> 'a pkern_scheme away \<Rightarrow> nat \<Rightarrow> nat \<Rightarrow> u64 \<Rightarrow> u64 \<Rightarrow> int \<Rightarrow> int \<Rightarrow> 'a pkern_scheme \<Rightarrow>
    (int option \<times> nat \<times> 'a pkern_scheme) result" where
  "pipewrite_loop 0 sw c pr pi addr n i s = Hang"
| "pipewrite_loop (Suc k) sw c pr pi addr n i s =
     (if i < n then
        rbind (if \<not> pi_readopen (pipes s pi) then Ok (True, s)
               else rbind (killed c pr s) (\<lambda>(kd, s1). Ok (kd \<noteq> 0, s1))) (\<lambda>(stop, s1).
          if stop then rbind (release_at (pi_rd pi) (pi_st pi) c s1) (\<lambda>s2. Ok (None, c, s2))
          else if pi_nwrite (pipes s1 pi) = pi_nread (pipes s1 pi) + of_nat PIPESIZE then
            rbind (wakeup c (PipeReadChan pi) s1) (\<lambda>s2.
            rbind (sleep sw (PipeWriteChan pi) (pi_rd pi) (pi_st pi) c s2) (\<lambda>(c', s3).
              pipewrite_loop k sw c' pr pi addr n i s3))
          else
            rbind (copyin c (p_pagetable (procs s1 pr)) (addr + of_int i) 1 s1) (\<lambda>(r, bs, s2).
              if r = -1 then Ok (Some i, c, s2)
              else pipewrite_loop k sw c pr pi addr n (i + 1) (upd_pipe pi (pipe_put (hd bs)) s2)))
      else Ok (Some i, c, s))"

definition pipewrite :: "nat \<Rightarrow> 'a pkern_scheme away \<Rightarrow> nat \<Rightarrow> u64 \<Rightarrow> u64 \<Rightarrow> int \<Rightarrow> 'a pkern_scheme \<Rightarrow>
    (int \<times> nat \<times> 'a pkern_scheme) result" where
  "pipewrite k sw c pi addr n s =
     rbind (myproc c s) (\<lambda>ps. the_proc ps (\<lambda>pr s1.
     rbind (acquire_at (pi_rd pi) (pi_st pi) c s1) (\<lambda>s2.
     rbind (pipewrite_loop k sw c pr pi addr n 0 s2) (\<lambda>(r, c', s3).
       case r of
         None \<Rightarrow> Ok (-1, c', s3)
       | Some i \<Rightarrow>
           rbind (wakeup c' (PipeReadChan pi) s3) (\<lambda>s4.
           rbind (release_at (pi_rd pi) (pi_st pi) c' s4) (\<lambda>s5. Ok (i, c', s5)))))))"

text \<open>The waiting loop of \<^verbatim>\<open>piperead\<close>: whether it may go on, or was killed and returned.\<close>

primrec piperead_wait :: "nat \<Rightarrow> 'a pkern_scheme away \<Rightarrow> nat \<Rightarrow> nat \<Rightarrow> u64 \<Rightarrow> 'a pkern_scheme \<Rightarrow>
    (bool \<times> nat \<times> 'a pkern_scheme) result" where
  "piperead_wait 0 sw c pr pi s = Hang"
| "piperead_wait (Suc k) sw c pr pi s =
     (if pi_nread (pipes s pi) = pi_nwrite (pipes s pi) \<and> pi_writeopen (pipes s pi) then
        rbind (killed c pr s) (\<lambda>(kd, s1).
          if kd \<noteq> 0 then rbind (release_at (pi_rd pi) (pi_st pi) c s1) (\<lambda>s2. Ok (False, c, s2))
          else rbind (sleep sw (PipeReadChan pi) (pi_rd pi) (pi_st pi) c s1) (\<lambda>(c', s2). piperead_wait k sw c' pr pi s2))
      else Ok (True, c, s))"

text \<open>The copying loop with \<open>k\<close> bytes still wanted, \<open>i\<close> copied.\<close>

primrec piperead_loop :: "nat \<Rightarrow> nat \<Rightarrow> nat \<Rightarrow> u64 \<Rightarrow> u64 \<Rightarrow> int \<Rightarrow> 'a pkern_scheme \<Rightarrow> (int \<times> 'a pkern_scheme) result" where
  "piperead_loop 0 c pr pi addr i s = Ok (i, s)"
| "piperead_loop (Suc k) c pr pi addr i s =
     (if pi_nread (pipes s pi) = pi_nwrite (pipes s pi) then Ok (i, s)
      else
        let x = pi_data (pipes s pi) ! (unat (pi_nread (pipes s pi)) mod PIPESIZE)
        in rbind (copyout c (p_pagetable (procs s pr)) (addr + of_int i) [x] s) (\<lambda>(r, s1).
             if r = -1 then Ok (if i = 0 then -1 else i, s1)
             else piperead_loop k c pr pi addr (i + 1) (upd_pipe pi (\<lambda>p. p\<lparr>pi_nread := pi_nread p + 1\<rparr>) s1)))"

definition piperead :: "nat \<Rightarrow> 'a pkern_scheme away \<Rightarrow> nat \<Rightarrow> u64 \<Rightarrow> u64 \<Rightarrow> int \<Rightarrow> 'a pkern_scheme \<Rightarrow>
    (int \<times> nat \<times> 'a pkern_scheme) result" where
  "piperead k sw c pi addr n s =
     rbind (myproc c s) (\<lambda>ps. the_proc ps (\<lambda>pr s1.
     rbind (acquire_at (pi_rd pi) (pi_st pi) c s1) (\<lambda>s2.
     rbind (piperead_wait k sw c pr pi s2) (\<lambda>(go, c', s3).
       if \<not> go then Ok (-1, c', s3)
       else
         rbind (piperead_loop (nat n) c' pr pi addr 0 s3) (\<lambda>(i, s4).
         rbind (wakeup c' (PipeWriteChan pi) s4) (\<lambda>s5.
         rbind (release_at (pi_rd pi) (pi_st pi) c' s5) (\<lambda>s6. Ok (i, c', s6))))))))"

section \<open>Open files\<close>

definition fileinit :: "'a pkern_scheme \<Rightarrow> 'a pkern_scheme" where
  "fileinit s = s\<lparr>ftable_lock := initlock ''ftable''\<rparr>"

definition filealloc :: "nat \<Rightarrow> 'a pkern_scheme \<Rightarrow> (nat option \<times> 'a pkern_scheme) result" where
  "filealloc c s =
     rbind (acquire_ftable c s) (\<lambda>s1.
       case find (\<lambda>f. f_ref (files s1 f) = 0) [0..<NFILE] of
         Some f \<Rightarrow> rbind (release_ftable c (upd_file f (f_ref_update (\<lambda>_. 1)) s1)) (\<lambda>s2. Ok (Some f, s2))
       | None \<Rightarrow> rbind (release_ftable c s1) (\<lambda>s2. Ok (None, s2)))"

definition filedup :: "nat \<Rightarrow> nat \<Rightarrow> 'a pkern_scheme \<Rightarrow> 'a pkern_scheme result" where
  "filedup c f s =
     rbind (acquire_ftable c s) (\<lambda>s1.
       if f_ref (files s1 f) < 1 then Panic ''filedup''
       else release_ftable c (upd_file f (\<lambda>x. x\<lparr>f_ref := f_ref x + 1\<rparr>) s1))"

definition fileclose :: "nat \<Rightarrow> nat \<Rightarrow> 'a pkern_scheme \<Rightarrow> 'a pkern_scheme result" where
  "fileclose c f s =
     rbind (acquire_ftable c s) (\<lambda>s1.
       if f_ref (files s1 f) < 1 then Panic ''fileclose''
       else if f_ref (files s1 f) - 1 > 0 then release_ftable c (upd_file f (\<lambda>x. x\<lparr>f_ref := f_ref x - 1\<rparr>) s1)
       else let ff = files s1 f in
         rbind (release_ftable c (upd_file f (\<lambda>x. x\<lparr>f_ref := 0, f_type := FD_NONE\<rparr>) s1)) (\<lambda>s2.
           if f_type ff = FD_PIPE then pipeclose c (f_pipe ff) (f_writable ff) s2
           else if f_type ff = FD_INODE \<or> f_type ff = FD_DEVICE then
             the_ip (f_ip ff) (\<lambda>ip. rbind (begin_op c s2) (\<lambda>s3. rbind (iput c ip s3) (\<lambda>s4. end_op c s4)))
           else Ok s2))"

definition le_bytes :: "nat \<Rightarrow> 'w :: len word \<Rightarrow> u8 list" where
  "le_bytes n w = map (\<lambda>i. ucast (drop_bit (8 * i) w)) [0..<n]"

text \<open>The layout of \<^verbatim>\<open>struct stat\<close>; \<open>pad\<close> is what the padding before the size holds.\<close>

definition stat_bytes :: "u8 list \<Rightarrow> stat \<Rightarrow> u8 list" where
  "stat_bytes pad st = le_bytes 4 (st_dev st) @ le_bytes 4 (st_ino st) @ le_bytes 2 (st_type st) @ le_bytes 2 (st_nlink st) @
     take 4 (pad @ replicate 4 0) @ le_bytes 8 (st_size st)"

definition filestat :: "u8 list \<Rightarrow> nat \<Rightarrow> nat \<Rightarrow> u64 \<Rightarrow> 'a pkern_scheme \<Rightarrow> (int \<times> 'a pkern_scheme) result" where
  "filestat pad c f addr s =
     rbind (myproc c s) (\<lambda>ps. the_proc ps (\<lambda>p s1.
       if f_type (files s1 f) = FD_INODE \<or> f_type (files s1 f) = FD_DEVICE then
         the_ip (f_ip (files s1 f)) (\<lambda>ip.
           rbind (ilock c ip s1) (\<lambda>s2.
             let st = stati (inodes s2 ip)
             in rbind (iunlock c ip s2) (\<lambda>s3.
                rbind (copyout c (p_pagetable (procs s3 p)) addr (stat_bytes pad st) s3) (\<lambda>(r, s4).
                  if r < 0 then Ok (-1, s4) else Ok (0, s4)))))
       else Ok (-1, s1)))"

definition fileread :: "(nat \<Rightarrow> 'a pkern_scheme dev_fun option) \<Rightarrow> nat \<Rightarrow> 'a pkern_scheme away \<Rightarrow> nat \<Rightarrow> nat \<Rightarrow> u64 \<Rightarrow> int \<Rightarrow>
    'a pkern_scheme \<Rightarrow> (int \<times> nat \<times> 'a pkern_scheme) result" where
  "fileread rd k sw c f addr n s =
     (let x = files s f in
      if \<not> f_readable x then Ok (-1, c, s)
      else case f_type x of
        FD_PIPE \<Rightarrow> piperead k sw c (f_pipe x) addr n s
      | FD_DEVICE \<Rightarrow>
          if sint (f_major x) < 0 \<or> sint (f_major x) \<ge> int NDEV then Ok (-1, c, s)
          else (case rd (unat (f_major x)) of None \<Rightarrow> Ok (-1, c, s) | Some g \<Rightarrow> g c addr n s)
      | FD_INODE \<Rightarrow>
          the_ip (f_ip x) (\<lambda>ip.
            rbind (ilock c ip s) (\<lambda>s1.
            rbind (readi c ip (User addr) (f_off (files s1 f)) (of_int n) s1) (\<lambda>(r, _, s2).
              let s3 = (if r > 0 then upd_file f (\<lambda>x. x\<lparr>f_off := f_off x + of_int r\<rparr>) s2 else s2)
              in rbind (iunlock c ip s3) (\<lambda>s4. Ok (r, c, s4)))))
      | FD_NONE \<Rightarrow> Panic ''fileread'')"

text \<open>The writing loop: \<open>i\<close> bytes are written; a chunk fits into one transaction.\<close>

primrec filewrite_loop :: "nat \<Rightarrow> nat \<Rightarrow> nat \<Rightarrow> nat \<Rightarrow> u64 \<Rightarrow> int \<Rightarrow> int \<Rightarrow> 'a pkern_scheme \<Rightarrow> (int \<times> 'a pkern_scheme) result" where
  "filewrite_loop 0 c f ip addr n i s = Hang"
| "filewrite_loop (Suc k) c f ip addr n i s =
     (if i < n then
        let mx = int (((MAXOPBLOCKS - 1 - 1 - 2) div 2) * BSIZE);
            n1 = min (n - i) mx
        in rbind (begin_op c s) (\<lambda>s1.
           rbind (ilock c ip s1) (\<lambda>s2.
           rbind (writei c ip (User (addr + of_int i)) (f_off (files s2 f)) (of_int n1) s2) (\<lambda>(r, s3).
             let s4 = (if r > 0 then upd_file f (\<lambda>x. x\<lparr>f_off := f_off x + of_int r\<rparr>) s3 else s3)
             in rbind (iunlock c ip s4) (\<lambda>s5.
                rbind (end_op c s5) (\<lambda>s6.
                  if r \<noteq> n1 then Ok (i, s6) else filewrite_loop k c f ip addr n (i + r) s6)))))
      else Ok (i, s))"

definition filewrite :: "(nat \<Rightarrow> 'a pkern_scheme dev_fun option) \<Rightarrow> nat \<Rightarrow> 'a pkern_scheme away \<Rightarrow> nat \<Rightarrow> nat \<Rightarrow> u64 \<Rightarrow> int \<Rightarrow>
    'a pkern_scheme \<Rightarrow> (int \<times> nat \<times> 'a pkern_scheme) result" where
  "filewrite wr k sw c f addr n s =
     (let x = files s f in
      if \<not> f_writable x then Ok (-1, c, s)
      else case f_type x of
        FD_PIPE \<Rightarrow> pipewrite k sw c (f_pipe x) addr n s
      | FD_DEVICE \<Rightarrow>
          if sint (f_major x) < 0 \<or> sint (f_major x) \<ge> int NDEV then Ok (-1, c, s)
          else (case wr (unat (f_major x)) of None \<Rightarrow> Ok (-1, c, s) | Some g \<Rightarrow> g c addr n s)
      | FD_INODE \<Rightarrow>
          the_ip (f_ip x) (\<lambda>ip.
            rbind (filewrite_loop (Suc (nat n)) c f ip addr n 0 s) (\<lambda>(i, s1). Ok (if i = n then n else -1, c, s1)))
      | FD_NONE \<Rightarrow> Panic ''filewrite'')"

definition pipealloc_bad :: "nat \<Rightarrow> nat option \<Rightarrow> nat option \<Rightarrow> 'a pkern_scheme \<Rightarrow> ((nat \<times> nat) option \<times> 'a pkern_scheme) result" where
  "pipealloc_bad c f0 f1 s =
     rbind (case f0 of Some f \<Rightarrow> fileclose c f s | None \<Rightarrow> Ok s) (\<lambda>s1.
     rbind (case f1 of Some f \<Rightarrow> fileclose c f s1 | None \<Rightarrow> Ok s1) (\<lambda>s2. Ok (None, s2)))"

text \<open>The page holds whatever it held before; only the fields that are assigned are set.\<close>

definition pipealloc :: "nat \<Rightarrow> 'a pkern_scheme \<Rightarrow> ((nat \<times> nat) option \<times> 'a pkern_scheme) result" where
  "pipealloc c s =
     rbind (filealloc c s) (\<lambda>(f0, s1).
       case f0 of None \<Rightarrow> pipealloc_bad c None None s1
       | Some a \<Rightarrow>
         rbind (filealloc c s1) (\<lambda>(f1, s2).
           case f1 of None \<Rightarrow> pipealloc_bad c (Some a) None s2
           | Some b \<Rightarrow>
             rbind (kalloc c s2) (\<lambda>(pi, s3).
               if pi = 0 then pipealloc_bad c (Some a) (Some b) s3
               else let s4 = upd_pipe pi (\<lambda>p. p\<lparr>pi_readopen := True, pi_writeopen := True, pi_nwrite := 0, pi_nread := 0,
                                pi_lock := initlock ''pipe''\<rparr>) s3;
                        s5 = upd_file a (\<lambda>x. x\<lparr>f_type := FD_PIPE, f_readable := True, f_writable := False, f_pipe := pi\<rparr>) s4;
                        s6 = upd_file b (\<lambda>x. x\<lparr>f_type := FD_PIPE, f_readable := False, f_writable := True, f_pipe := pi\<rparr>) s5
                    in Ok (Some (a, b), s6))))"

end
