(* ===== verification/Life.thy ===== *)
theory Life
  imports Sched File
begin

text \<open>
  The life of a process, the rest of \<^verbatim>\<open>kernel/proc.c\<close>: allocation and release of a slot, its page
  table, the first process, growing, fork, exit and wait. The addresses of the trampoline and of
  \<^verbatim>\<open>forkret\<close> are fixed by the linker and given as \<open>tramp\<close> and \<open>fret\<close>.
\<close>

section \<open>Helpers\<close>

text \<open>\<^verbatim>\<open>safestrcpy\<close> into the byte array \<open>old\<close> of at least \<open>n\<close> bytes.\<close>

definition safestrcpy_l :: "u8 list \<Rightarrow> u8 list \<Rightarrow> nat \<Rightarrow> u8 list" where
  "safestrcpy_l old t n =
     (let k = takeWhile (\<lambda>x. x \<noteq> 0) (take (n - 1) t)
      in if n = 0 then old else put_at 0 (k @ (if length k < n - 1 then [0, 0] else [0])) old)"

definition acquire_wait :: "nat \<Rightarrow> 'a kern_scheme \<Rightarrow> 'a kern_scheme result" where
  "acquire_wait = acquire_at wait_lock (\<lambda>lk. wait_lock_update (\<lambda>_. lk))"

definition release_wait :: "nat \<Rightarrow> 'a kern_scheme \<Rightarrow> 'a kern_scheme result" where
  "release_wait = release_at wait_lock (\<lambda>lk. wait_lock_update (\<lambda>_. lk))"

text \<open>The channel of a process pointer.\<close>

definition proc_chan :: "nat option \<Rightarrow> chan" where
  "proc_chan p = (case p of None \<Rightarrow> NullChan | Some i \<Rightarrow> ProcChan i)"

section \<open>Slots and page tables\<close>

definition proc_pagetable :: "u64 \<Rightarrow> nat \<Rightarrow> nat \<Rightarrow> 'a kern_scheme \<Rightarrow> (u64 \<times> 'a kern_scheme) result" where
  "proc_pagetable tramp c p s =
     rbind (uvmcreate c s) (\<lambda>(pagetable, s1).
       if pagetable = 0 then Ok (0, s1)
       else rbind (mappages c pagetable TRAMPOLINE PGSIZE tramp (PTE_R OR PTE_X) s1) (\<lambda>(r, s2).
         if r < 0 then rbind (uvmfree c pagetable 0 s2) (\<lambda>s3. Ok (0, s3))
         else rbind (mappages c pagetable TRAPFRAME PGSIZE (p_trapframe (procs s2 p)) (PTE_R OR PTE_W) s2) (\<lambda>(r', s3).
           if r' < 0 then
             rbind (uvmunmap c pagetable TRAMPOLINE 1 False s3) (\<lambda>s4.
             rbind (uvmfree c pagetable 0 s4) (\<lambda>s5. Ok (0, s5)))
           else Ok (pagetable, s3))))"

definition proc_freepagetable :: "nat \<Rightarrow> u64 \<Rightarrow> u64 \<Rightarrow> 'a km_scheme \<Rightarrow> 'a km_scheme result" where
  "proc_freepagetable c pagetable sz s =
     rbind (uvmunmap c pagetable TRAMPOLINE 1 False s) (\<lambda>s1.
     rbind (uvmunmap c pagetable TRAPFRAME 1 False s1) (\<lambda>s2. uvmfree c pagetable sz s2))"

definition clear_proc :: "proc \<Rightarrow> proc" where
  "clear_proc q = q\<lparr>p_pagetable := 0, p_sz := 0, p_pid := 0, p_parent := None, p_name := (p_name q)[0 := 0],
     p_chan := NullChan, p_killed := 0, p_xstate := 0, p_ctime := 0, p_etime := 0, p_rtime := 0, p_stime := 0,
     p_ltime := 0, p_expected_runtime := 0, p_priority := 0, p_queue_level := 0, p_time_slice := 0, p_demote := 0,
     p_state := UNUSED\<rparr>"

definition freeproc :: "nat \<Rightarrow> nat \<Rightarrow> 'a kern_scheme \<Rightarrow> 'a kern_scheme result" where
  "freeproc c p s =
     rbind (if p_trapframe (procs s p) \<noteq> 0 then kfree c (p_trapframe (procs s p)) s else Ok s) (\<lambda>s1.
       let s2 = upd_proc p (p_trapframe_update (\<lambda>_. 0)) s1
       in rbind (if p_pagetable (procs s2 p) \<noteq> 0 then proc_freepagetable c (p_pagetable (procs s2 p)) (p_sz (procs s2 p)) s2
                 else Ok s2) (\<lambda>s3. Ok (upd_proc p clear_proc s3)))"

lemma clear_proc_levels: "level_write p (clear_proc p)"
  by (rule lw_reset) (simp_all add: clear_proc_def)

text \<open>The search of \<^verbatim>\<open>allocproc\<close>: the first \<open>UNUSED\<close> slot, with its lock held.\<close>

fun allocproc_scan :: "nat \<Rightarrow> nat list \<Rightarrow> 'a kern_scheme \<Rightarrow> (nat option \<times> 'a kern_scheme) result" where
  "allocproc_scan c [] s = Ok (None, s)"
| "allocproc_scan c (p # ps) s =
     rbind (acquire_p c p s) (\<lambda>s1.
       if p_state (procs s1 p) = UNUSED then Ok (Some p, s1)
       else rbind (release_p c p s1) (\<lambda>s2. allocproc_scan c ps s2))"

definition new_sched_fields :: "u64 \<Rightarrow> u64 \<Rightarrow> proc \<Rightarrow> proc" where
  "new_sched_fields fret now q = q\<lparr>p_context := \<lparr>ctx_ra = fret, ctx_sp = p_kstack q + PGSIZE, ctx_s = replicate 12 0\<rparr>,
     p_ctime := now, p_etime := 0, p_rtime := 0, p_stime := 0, p_ltime := 0, p_expected_runtime := 0, p_time_left := 0,
     p_priority := 0, p_queue_level := 0, p_time_slice := quantum ! 0, p_demote := 0\<rparr>"

lemma new_sched_fields_levels: "level_write p (new_sched_fields fret now p)"
  by (rule lw_reset) (simp_all add: new_sched_fields_def)

definition allocproc :: "u64 \<Rightarrow> u64 \<Rightarrow> nat \<Rightarrow> 'a kern_scheme \<Rightarrow> (nat option \<times> 'a kern_scheme) result" where
  "allocproc tramp fret c s =
     rbind (allocproc_scan c [0..<NPROC] s) (\<lambda>(r, s1).
       case r of None \<Rightarrow> Ok (None, s1)
       | Some p \<Rightarrow>
         rbind (allocpid c s1) (\<lambda>(pid, s2).
         rbind (kalloc c (upd_proc p (\<lambda>q. q\<lparr>p_pid := pid, p_state := USED\<rparr>) s2)) (\<lambda>(tf, s3).
           let s4 = upd_proc p (p_trapframe_update (\<lambda>_. tf)) s3
           in if tf = 0 then rbind (freeproc c p s4) (\<lambda>s5. rbind (release_p c p s5) (\<lambda>s6. Ok (None, s6)))
              else rbind (proc_pagetable tramp c p s4) (\<lambda>(pt, s5).
                let s6 = upd_proc p (p_pagetable_update (\<lambda>_. pt)) s5
                in if pt = 0 then rbind (freeproc c p s6) (\<lambda>s7. rbind (release_p c p s7) (\<lambda>s8. Ok (None, s8)))
                   else let (now, s7) = getTime s6 in Ok (Some p, upd_proc p (new_sched_fields fret now) s7)))))"

definition growproc :: "nat \<Rightarrow> int \<Rightarrow> 'a kern_scheme \<Rightarrow> (int \<times> 'a kern_scheme) result" where
  "growproc c n s =
     rbind (myproc c s) (\<lambda>ps. the_proc ps (\<lambda>p s1.
       let sz = p_sz (procs s1 p); pt = p_pagetable (procs s1 p)
       in if n > 0 then
            (if sz + of_int n > TRAPFRAME then Ok (-1, s1)
             else rbind (uvmalloc c pt sz (sz + of_int n) PTE_W s1) (\<lambda>(sz', s2).
               if sz' = 0 then Ok (-1, s2) else Ok (0, upd_proc p (p_sz_update (\<lambda>_. sz')) s2)))
          else if n < 0 then
            rbind (uvmdealloc c pt sz (sz + of_int n) s1) (\<lambda>(sz', s2). Ok (0, upd_proc p (p_sz_update (\<lambda>_. sz')) s2))
          else Ok (0, upd_proc p (p_sz_update (\<lambda>_. sz)) s1)))"

section \<open>The first process\<close>

definition userinit :: "u64 \<Rightarrow> u64 \<Rightarrow> nat \<Rightarrow> 'a fkern_scheme \<Rightarrow> 'a fkern_scheme result" where
  "userinit tramp fret c s =
     rbind (allocproc tramp fret c s) (\<lambda>ps.
       the_proc (fst ps, (snd ps)\<lparr>initproc := fst ps\<rparr>) (\<lambda>p s2.
       rbind (namei c [slash] s2) (\<lambda>(ip, s3).
         let s4 = upd_proc p (\<lambda>q. q\<lparr>p_cwd := ip, p_state := RUNNABLE\<rparr>) s3;
             (time, s5) = getTime s4
         in release_p c p (upd_proc p (p_ctime_update (\<lambda>_. time)) s5))))"

section \<open>Fork, exit and wait\<close>

text \<open>A \<^verbatim>\<open>struct trapframe\<close> has 288 bytes; a0 is at offset 112.\<close>

definition copy_trapframe :: "u64 \<Rightarrow> u64 \<Rightarrow> mem \<Rightarrow> mem" where
  "copy_trapframe dst src m = store64 (dst + 112) 0 (put_bytes dst (get_bytes m src 288) m)"

definition kfork_file :: "nat \<Rightarrow> nat \<Rightarrow> nat \<Rightarrow> nat \<Rightarrow> 'a pkern_scheme \<Rightarrow> 'a pkern_scheme result" where
  "kfork_file c p np i s =
     (case p_ofile (procs s p) ! i of
        None \<Rightarrow> Ok s
      | Some f \<Rightarrow> rbind (filedup c f s) (\<lambda>s1. Ok (upd_proc np (p_ofile_update (\<lambda>fs. fs[i := Some f])) s1)))"

definition kfork :: "u64 \<Rightarrow> u64 \<Rightarrow> nat \<Rightarrow> 'a pkern_scheme \<Rightarrow> (int \<times> 'a pkern_scheme) result" where
  "kfork tramp fret c s =
     rbind (myproc c s) (\<lambda>ps. the_proc ps (\<lambda>p s1.
     rbind (allocproc tramp fret c s1) (\<lambda>(r, s2).
       case r of None \<Rightarrow> Ok (-1, s2)
       | Some np \<Rightarrow>
         rbind (uvmcopy c (p_pagetable (procs s2 p)) (p_pagetable (procs s2 np)) (p_sz (procs s2 p)) s2) (\<lambda>(r, s3).
           if r < 0 then rbind (freeproc c np s3) (\<lambda>s4. rbind (release_p c np s4) (\<lambda>s5. Ok (-1, s5)))
           else
             let s4 = upd_proc np (p_sz_update (\<lambda>_. p_sz (procs s3 p))) s3;
                 s5 = upd_mem (copy_trapframe (p_trapframe (procs s4 np)) (p_trapframe (procs s4 p))) s4
             in rbind (foldR (kfork_file c p np) [0..<NOFILE] s5) (\<lambda>s6.
                the_ip (p_cwd (procs s6 p)) (\<lambda>ip.
                rbind (idup c ip s6) (\<lambda>s7.
                  let s8 = upd_proc np (\<lambda>q. q\<lparr>p_cwd := Some ip, p_name := safestrcpy_l (p_name q) (p_name (procs s7 p)) 16,
                             p_expected_runtime := p_expected_runtime (procs s7 p)\<rparr>) s7;
                      pid = p_pid (procs s8 np)
                  in rbind (release_p c np s8) (\<lambda>s9.
                     rbind (acquire_wait c s9) (\<lambda>s10.
                     rbind (release_wait c (upd_proc np (p_parent_update (\<lambda>_. Some p)) s10)) (\<lambda>s11.
                     rbind (acquire_p c np s11) (\<lambda>s12.
                     rbind (release_p c np (upd_proc np (p_state_update (\<lambda>_. RUNNABLE)) s12)) (\<lambda>s13.
                       Ok (pid, s13)))))))))))))"

definition reparent_body :: "nat \<Rightarrow> nat \<Rightarrow> nat \<Rightarrow> 'a kern_scheme \<Rightarrow> 'a kern_scheme result" where
  "reparent_body c p pp s =
     (if p_parent (procs s pp) = Some p
      then wakeup c (proc_chan (initproc s)) (upd_proc pp (p_parent_update (\<lambda>_. initproc s)) s) else Ok s)"

definition reparent :: "nat \<Rightarrow> nat \<Rightarrow> 'a kern_scheme \<Rightarrow> 'a kern_scheme result" where
  "reparent c p s = foldR (reparent_body c p) [0..<NPROC] s"

definition kexit_file :: "nat \<Rightarrow> nat \<Rightarrow> nat \<Rightarrow> 'a pkern_scheme \<Rightarrow> 'a pkern_scheme result" where
  "kexit_file c p fd s =
     (case p_ofile (procs s p) ! fd of
        None \<Rightarrow> Ok s
      | Some f \<Rightarrow> rbind (fileclose c f s) (\<lambda>s1. Ok (upd_proc p (p_ofile_update (\<lambda>fs. fs[fd := None])) s1)))"

definition exit_account :: "u64 \<Rightarrow> u64 \<Rightarrow> int \<Rightarrow> proc \<Rightarrow> proc" where
  "exit_account time elapsed status q =
     (let q1 = (if elapsed < p_time_slice q then q\<lparr>p_time_slice := p_time_slice q - elapsed\<rparr>
                else q\<lparr>p_time_slice := 0, p_demote := 1\<rparr>);
          q2 = q1\<lparr>p_xstate := status, p_rtime := p_rtime q1 + elapsed\<rparr>;
          q3 = (if p_time_left q2 > 0 then q2\<lparr>p_time_left := p_time_left q2 - elapsed\<rparr> else q2);
          q4 = (if p_time_left q3 < 0 then q3\<lparr>p_time_left := 0\<rparr> else q3)
      in q4\<lparr>p_etime := time, p_state := ZOMBIE\<rparr>)"

text \<open>Everything \<^verbatim>\<open>kexit\<close> does before it switches to the scheduler for the last time.\<close>

definition kexit_prepare :: "nat \<Rightarrow> int \<Rightarrow> 'a pkern_scheme \<Rightarrow> 'a pkern_scheme result" where
  "kexit_prepare c status s =
     rbind (myproc c s) (\<lambda>ps. the_proc ps (\<lambda>p s1.
       if Some p = initproc s1 then Panic ''init exiting''
       else
         rbind (foldR (kexit_file c p) [0..<NOFILE] s1) (\<lambda>s2.
         rbind (begin_op c s2) (\<lambda>s3.
         the_ip (p_cwd (procs s3 p)) (\<lambda>ip.
         rbind (iput c ip s3) (\<lambda>s4.
         rbind (end_op c s4) (\<lambda>s5.
         rbind (acquire_wait c (upd_proc p (p_cwd_update (\<lambda>_. None)) s5)) (\<lambda>s6.
         rbind (reparent c p s6) (\<lambda>s7.
         rbind (wakeup c (proc_chan (p_parent (procs s7 p))) s7) (\<lambda>s8.
         rbind (acquire_p c p s8) (\<lambda>s9.
           let (time, s10) = getTime s9; (now, s11) = getTime s10; elapsed = now - p_ltime (procs s11 p)
           in release_wait c (upd_proc p (exit_account time elapsed status) s11))))))))))))"

definition kexit :: "'a pkern_scheme away \<Rightarrow> nat \<Rightarrow> int \<Rightarrow> 'a pkern_scheme \<Rightarrow> (nat \<times> 'a pkern_scheme) result" where
  "kexit sw c status s =
     rbind (kexit_prepare c status s) (\<lambda>s1. rbind (sched sw c s1) (\<lambda>_. Panic ''zombie exit''))"

text \<open>One scan of the table by \<^verbatim>\<open>kwait\<close>: a value to return, or whether there are children.\<close>

fun kwait_scan :: "nat \<Rightarrow> nat \<Rightarrow> u64 \<Rightarrow> nat list \<Rightarrow> bool \<Rightarrow> 'a kern_scheme \<Rightarrow> ((int + bool) \<times> 'a kern_scheme) result" where
  "kwait_scan c p addr [] havekids s = Ok (Inr havekids, s)"
| "kwait_scan c p addr (pp # ps) havekids s =
     (if p_parent (procs s pp) = Some p then
        rbind (acquire_p c pp s) (\<lambda>s1.
          if p_state (procs s1 pp) = ZOMBIE then
            let pid = p_pid (procs s1 pp)
            in rbind (if addr \<noteq> 0 then copyout c (p_pagetable (procs s1 p)) addr
                        (le_bytes 4 (of_int (p_xstate (procs s1 pp)) :: u32)) s1 else Ok (0, s1)) (\<lambda>(r, s2).
                 if r < 0 then
                   rbind (release_p c pp s2) (\<lambda>s3. rbind (release_wait c s3) (\<lambda>s4. Ok (Inl (-1), s4)))
                 else
                   rbind (freeproc c pp s2) (\<lambda>s3. rbind (release_p c pp s3) (\<lambda>s4.
                   rbind (release_wait c s4) (\<lambda>s5. Ok (Inl pid, s5)))))
          else rbind (release_p c pp s1) (\<lambda>s2. kwait_scan c p addr ps True s2))
      else kwait_scan c p addr ps havekids s)"

text \<open>\<open>k\<close> counts the scans.\<close>

primrec kwait_loop :: "nat \<Rightarrow> 'a kern_scheme away \<Rightarrow> nat \<Rightarrow> nat \<Rightarrow> u64 \<Rightarrow> 'a kern_scheme \<Rightarrow> (int \<times> nat \<times> 'a kern_scheme) result" where
  "kwait_loop 0 sw c p addr s = Hang"
| "kwait_loop (Suc k) sw c p addr s =
     rbind (kwait_scan c p addr [0..<NPROC] False s) (\<lambda>(r, s1).
       case r of
         Inl v \<Rightarrow> Ok (v, c, s1)
       | Inr havekids \<Rightarrow>
           rbind (if \<not> havekids then Ok (True, s1)
                  else rbind (killed c p s1) (\<lambda>(kd, s2). Ok (kd \<noteq> 0, s2))) (\<lambda>(stop, s2).
             if stop then rbind (release_wait c s2) (\<lambda>s3. Ok (-1, c, s3))
             else rbind (sleep sw (ProcChan p) wait_lock (\<lambda>lk. wait_lock_update (\<lambda>_. lk)) c s2) (\<lambda>(c', s3).
                    kwait_loop k sw c' p addr s3)))"

definition kwait :: "nat \<Rightarrow> 'a kern_scheme away \<Rightarrow> nat \<Rightarrow> u64 \<Rightarrow> 'a kern_scheme \<Rightarrow> (int \<times> nat \<times> 'a kern_scheme) result" where
  "kwait k sw c addr s =
     rbind (myproc c s) (\<lambda>ps. the_proc ps (\<lambda>p s1.
     rbind (acquire_wait c s1) (\<lambda>s2. kwait_loop k sw c p addr s2)))"

section \<open>Listing\<close>

definition state_name :: "procstate \<Rightarrow> string" where
  "state_name st = (case st of UNUSED \<Rightarrow> ''unused'' | USED \<Rightarrow> ''used'' | SLEEPING \<Rightarrow> ''sleep '' | RUNNABLE \<Rightarrow> ''runble''
     | RUNNING \<Rightarrow> ''run   '' | ZOMBIE \<Rightarrow> ''zombie'')"

definition str_of :: "u8 list \<Rightarrow> string" where
  "str_of bs = map (\<lambda>x. char_of (unat x)) (takeWhile (\<lambda>x. x \<noteq> 0) bs)"

definition procdump_line :: "nat \<Rightarrow> 'a fkern_scheme \<Rightarrow> 'a fkern_scheme" where
  "procdump_line i s =
     (let p = procs s i in
      if p_state p = UNUSED then s
      else kprintf ''\<newline>'' [] (kprintf ''%d %s %s''
        [ArgInt (of_int (p_pid p)), ArgStr (Some (state_name (p_state p))), ArgStr (Some (str_of (p_name p)))] s))"

definition procdump :: "'a fkern_scheme \<Rightarrow> 'a fkern_scheme" where
  "procdump s = fold procdump_line [0..<NPROC] (kprintf ''\<newline>'' [] s)"

end
