(* ===== verification/Exec.thy ===== *)
theory Exec
  imports Life
begin

text \<open>
  Loading a program: \<^verbatim>\<open>kernel/exec.c\<close>. The path and the argument strings are given as their
  bytes. Jumps to \<^verbatim>\<open>bad\<close> are calls of \<open>kexec_bad\<close> with the variables that label uses.
\<close>

section \<open>ELF structures (elf.h)\<close>

definition get64 :: "u8 list \<Rightarrow> nat \<Rightarrow> u64" where
  "get64 d k = ucast (get32 d k) OR push_bit 32 (ucast (get32 d (k + 4)))"

definition ELF_MAGIC :: u32 where "ELF_MAGIC = 0x464C457F"
definition ELF_PROG_LOAD :: u32 where "ELF_PROG_LOAD = 1"
definition USERSTACK :: u64 where "USERSTACK = 1"
definition MAXPATH :: nat where "MAXPATH = 128"

record elfhdr =
  e_magic :: u32
  e_entry :: u64
  e_phoff :: u64
  e_phnum :: u16

record proghdr =
  ph_type :: u32
  ph_flags :: u32
  ph_off :: u64
  ph_vaddr :: u64
  ph_filesz :: u64
  ph_memsz :: u64

definition get_elfhdr :: "u8 list \<Rightarrow> elfhdr" where
  "get_elfhdr d = \<lparr>e_magic = get32 d 0, e_entry = get64 d 24, e_phoff = get64 d 32, e_phnum = get16 d 56\<rparr>"

definition get_proghdr :: "u8 list \<Rightarrow> proghdr" where
  "get_proghdr d = \<lparr>ph_type = get32 d 0, ph_flags = get32 d 4, ph_off = get64 d 8, ph_vaddr = get64 d 16,
     ph_filesz = get64 d 32, ph_memsz = get64 d 40\<rparr>"

section \<open>Loading\<close>

definition flags2perm :: "u32 \<Rightarrow> u64" where
  "flags2perm flags =
     (let perm = (if flags AND 1 \<noteq> 0 then PTE_X else 0)
      in if flags AND 2 \<noteq> 0 then perm OR PTE_W else perm)"

primrec loadseg_loop :: "nat \<Rightarrow> nat \<Rightarrow> u64 \<Rightarrow> u64 \<Rightarrow> nat \<Rightarrow> u32 \<Rightarrow> u32 \<Rightarrow> u32 \<Rightarrow> 'a fkern_scheme \<Rightarrow> (int \<times> 'a fkern_scheme) result" where
  "loadseg_loop 0 c pagetable va ip offset sz i s = Hang"
| "loadseg_loop (Suc k) c pagetable va ip offset sz i s =
     (if i < sz then
        rbind (walkaddr c pagetable (va + ucast i) s) (\<lambda>(pa, s1).
          if pa = 0 then Panic ''loadseg: address should exist''
          else let n = (if sz - i < ucast PGSIZE then sz - i else ucast PGSIZE)
               in rbind (readi c ip (Kern pa) (offset + i) n s1) (\<lambda>(r, _, s2).
                    if of_int r \<noteq> n then Ok (-1, s2)
                    else loadseg_loop k c pagetable va ip offset sz (i + ucast PGSIZE) s2))
      else Ok (0, s))"

definition loadseg :: "nat \<Rightarrow> u64 \<Rightarrow> u64 \<Rightarrow> nat \<Rightarrow> u32 \<Rightarrow> u32 \<Rightarrow> 'a fkern_scheme \<Rightarrow> (int \<times> 'a fkern_scheme) result" where
  "loadseg c pagetable va ip offset sz s = loadseg_loop (unat sz div 4096 + 2) c pagetable va ip offset sz 0 s"

definition kexec_bad :: "nat \<Rightarrow> u64 \<Rightarrow> u64 \<Rightarrow> nat option \<Rightarrow> 'a fkern_scheme \<Rightarrow> (int \<times> 'a fkern_scheme) result" where
  "kexec_bad c pagetable sz ip s =
     rbind (if pagetable \<noteq> 0 then proc_freepagetable c pagetable sz s else Ok s) (\<lambda>s1.
       case ip of
         None \<Rightarrow> Ok (-1, s1)
       | Some i \<Rightarrow> rbind (iunlockput c i s1) (\<lambda>s2. rbind (end_op c s2) (\<lambda>s3. Ok (-1, s3))))"

text \<open>The loop over the \<open>k\<close> program headers left; it returns whether it got through, and the size.\<close>

primrec kexec_segs :: "nat \<Rightarrow> nat \<Rightarrow> u64 \<Rightarrow> nat \<Rightarrow> u32 \<Rightarrow> u64 \<Rightarrow> 'a fkern_scheme \<Rightarrow> (bool \<times> u64 \<times> 'a fkern_scheme) result" where
  "kexec_segs 0 c pagetable ip off sz s = Ok (True, sz, s)"
| "kexec_segs (Suc k) c pagetable ip off sz s =
     rbind (readi c ip (Var []) off 56 s) (\<lambda>(r, bs, s1).
       let ph = get_proghdr (var_bytes bs) in
       if r \<noteq> 56 then Ok (False, sz, s1)
       else if ph_type ph \<noteq> ELF_PROG_LOAD then kexec_segs k c pagetable ip (off + 56) sz s1
       else if ph_memsz ph < ph_filesz ph then Ok (False, sz, s1)
       else if ph_vaddr ph + ph_memsz ph < ph_vaddr ph then Ok (False, sz, s1)
       else if ph_vaddr ph mod PGSIZE \<noteq> 0 then Ok (False, sz, s1)
       else rbind (uvmalloc c pagetable sz (ph_vaddr ph + ph_memsz ph) (flags2perm (ph_flags ph)) s1) (\<lambda>(sz1, s2).
         if sz1 = 0 then Ok (False, sz, s2)
         else rbind (loadseg c pagetable (ph_vaddr ph) ip (ucast (ph_off ph)) (ucast (ph_filesz ph)) s2) (\<lambda>(r, s3).
           if r < 0 then Ok (False, sz1, s3) else kexec_segs k c pagetable ip (off + 56) sz1 s3)))"

text \<open>Pushing the argument strings; \<open>us\<close> is \<^verbatim>\<open>ustack[]\<close> so far.\<close>

fun kexec_args :: "nat \<Rightarrow> u64 \<Rightarrow> u64 \<Rightarrow> u8 list list \<Rightarrow> u64 list \<Rightarrow> u64 \<Rightarrow> 'a kern_scheme \<Rightarrow>
    (bool \<times> u64 list \<times> u64 \<times> 'a kern_scheme) result" where
  "kexec_args c pagetable stackbase [] us sp s = Ok (True, us, sp, s)"
| "kexec_args c pagetable stackbase (a # as) us sp s =
     (if length us \<ge> MAXARG then Ok (False, us, sp, s)
      else let sp1 = sp - (of_nat (length a) + 1); sp2 = sp1 - sp1 mod 16
        in if sp2 < stackbase then Ok (False, us, sp2, s)
           else rbind (copyout c pagetable sp2 (a @ [0]) s) (\<lambda>(r, s1).
                  if r < 0 then Ok (False, us, sp2, s1)
                  else kexec_args c pagetable stackbase as (us @ [sp2]) sp2 s1))"

definition last_elem :: "u8 list \<Rightarrow> u8 list" where
  "last_elem pth = rev (takeWhile (\<lambda>x. x \<noteq> slash) (rev pth))"

definition tf_epc :: u64 where "tf_epc = 24"
definition tf_sp :: u64 where "tf_sp = 48"
definition tf_a1 :: u64 where "tf_a1 = 120"

text \<open>The second half of \<^verbatim>\<open>kexec\<close>: the stack, the arguments, and the switch to the new image.\<close>

definition kexec_image :: "nat \<Rightarrow> u8 list \<Rightarrow> u8 list list \<Rightarrow> u64 \<Rightarrow> u64 \<Rightarrow> u64 \<Rightarrow> 'a fkern_scheme \<Rightarrow> (int \<times> 'a fkern_scheme) result" where
  "kexec_image c pth argv pagetable sz ent s =
     rbind (myproc c s) (\<lambda>ps. the_proc ps (\<lambda>p s1.
       let oldsz = p_sz (procs s1 p); sz' = PGROUNDUP sz
       in rbind (uvmalloc c pagetable sz' (sz' + (USERSTACK + 1) * PGSIZE) PTE_W s1) (\<lambda>(sz1, s2).
            if sz1 = 0 then kexec_bad c pagetable sz' None s2
            else rbind (uvmclear c pagetable (sz1 - (USERSTACK + 1) * PGSIZE) s2) (\<lambda>s3.
              let stackbase = sz1 - USERSTACK * PGSIZE
              in rbind (kexec_args c pagetable stackbase argv [] sz1 s3) (\<lambda>(ok, us, sp, s4).
                   if \<not> ok then kexec_bad c pagetable sz1 None s4
                   else let sp1 = sp - (of_nat (length us) + 1) * 8; sp2 = sp1 - sp1 mod 16
                     in if sp2 < stackbase then kexec_bad c pagetable sz1 None s4
                        else rbind (copyout c pagetable sp2 (concat (map (le_bytes 8) (us @ [0]))) s4) (\<lambda>(r, s5).
                          if r < 0 then kexec_bad c pagetable sz1 None s5
                          else
                            let tf = p_trapframe (procs s5 p);
                                s6 = upd_mem (store64 (tf + tf_a1) sp2) s5;
                                s7 = upd_proc p (\<lambda>q. q\<lparr>p_name := safestrcpy_l (p_name q) (last_elem pth) 16\<rparr>) s6;
                                oldpagetable = p_pagetable (procs s7 p);
                                s8 = upd_proc p (\<lambda>q. q\<lparr>p_pagetable := pagetable, p_sz := sz1\<rparr>) s7;
                                s9 = upd_mem (\<lambda>m. store64 (tf + tf_sp) sp2 (store64 (tf + tf_epc) ent m)) s8
                            in rbind (proc_freepagetable c oldpagetable oldsz s9) (\<lambda>s10. Ok (int (length us), s10))))))))"

definition kexec :: "u64 \<Rightarrow> nat \<Rightarrow> u8 list \<Rightarrow> u8 list list \<Rightarrow> 'a fkern_scheme \<Rightarrow> (int \<times> 'a fkern_scheme) result" where
  "kexec tramp c pth argv s =
     rbind (myproc c s) (\<lambda>ps. the_proc ps (\<lambda>p s0.
     rbind (begin_op c s0) (\<lambda>s1.
     rbind (namei c pth s1) (\<lambda>(r, s2).
       case r of
         None \<Rightarrow> rbind (end_op c s2) (\<lambda>s3. Ok (-1, s3))
       | Some ip \<Rightarrow>
           rbind (ilock c ip s2) (\<lambda>s3.
           rbind (readi c ip (Var []) 0 64 s3) (\<lambda>(r, bs, s4).
             let elf = get_elfhdr (var_bytes bs) in
             if r \<noteq> 64 then kexec_bad c 0 0 (Some ip) s4
             else if e_magic elf \<noteq> ELF_MAGIC then kexec_bad c 0 0 (Some ip) s4
             else rbind (proc_pagetable tramp c p s4) (\<lambda>(pagetable, s5).
               if pagetable = 0 then kexec_bad c 0 0 (Some ip) s5
               else rbind (kexec_segs (unat (e_phnum elf)) c pagetable ip (ucast (e_phoff elf)) 0 s5) (\<lambda>(ok, sz, s6).
                 if \<not> ok then kexec_bad c pagetable sz (Some ip) s6
                 else rbind (iunlockput c ip s6) (\<lambda>s7.
                      rbind (end_op c s7) (\<lambda>s8. kexec_image c pth argv pagetable sz (e_entry elf) s8))))))))))"

end
