(* ===== verification/Syscall.thy ===== *)
theory Syscall
  imports Exec
begin

text \<open>
  System calls: the argument fetching of \<^verbatim>\<open>kernel/syscall.c\<close> and the process
  calls of \<^verbatim>\<open>kernel/sysproc.c\<close>. A handler runs on
  hart \<open>c\<close> and returns the word the dispatcher stores into a0, the hart it returns on, and the state.
\<close>

section \<open>The surroundings of a system call\<close>

text \<open>
  What the handlers use and do not compute: the addresses of the trampoline and of \<^verbatim>\<open>forkret\<close>
  (fixed by the linker), what other threads do while this one is switched out, how often a loop that
  waits for them goes round, the device switch, and what a stack variable holds before it is
  assigned.
\<close>

record 's env =
  e_tramp :: u64
  e_forkret :: u64
  e_away :: "'s away"
  e_rounds :: nat
  dev_read :: "nat \<Rightarrow> 's dev_fun option"
  dev_write :: "nat \<Rightarrow> 's dev_fun option"
  e_junk :: "u8 list"

type_synonym 's handler = "'s env \<Rightarrow> nat \<Rightarrow> 's \<Rightarrow> (u64 \<times> nat \<times> 's) result"

text \<open>A handler that does not leave its hart returns an \<^verbatim>\<open>int\<close> or a word.\<close>

definition ret_int :: "nat \<Rightarrow> (int \<times> 's) result \<Rightarrow> (u64 \<times> nat \<times> 's) result" where
  "ret_int c r = rbind r (\<lambda>(v, s). Ok (of_int v, c, s))"

definition ret_int_at :: "(int \<times> nat \<times> 's) result \<Rightarrow> (u64 \<times> nat \<times> 's) result" where
  "ret_int_at r = rbind r (\<lambda>(v, c, s). Ok (of_int v, c, s))"

section \<open>Arguments (syscall.c)\<close>

definition fetchaddr :: "nat \<Rightarrow> u64 \<Rightarrow> 'a kern_scheme \<Rightarrow> (u64 option \<times> 'a kern_scheme) result" where
  "fetchaddr c addr s =
     rbind (myproc c s) (\<lambda>ps. the_proc ps (\<lambda>p s1.
       if addr \<ge> p_sz (procs s1 p) \<or> addr + 8 > p_sz (procs s1 p) then Ok (None, s1)
       else rbind (copyin c (p_pagetable (procs s1 p)) addr 8 s1) (\<lambda>(r, bs, s2).
         if r \<noteq> 0 then Ok (None, s2) else Ok (Some (get64 bs 0), s2))))"

text \<open>
  \<^verbatim>\<open>fetchstr\<close> fills a buffer; its bytes are returned, up to and with the nul when the result is a
  length.
\<close>

definition fetchstr :: "nat \<Rightarrow> u64 \<Rightarrow> nat \<Rightarrow> 'a kern_scheme \<Rightarrow> (int \<times> u8 list \<times> 'a kern_scheme) result" where
  "fetchstr c addr mx s =
     rbind (myproc c s) (\<lambda>ps. the_proc ps (\<lambda>p s1.
       rbind (copyinstr c (p_pagetable (procs s1 p)) addr (of_nat mx) s1) (\<lambda>(r, bs, s2).
         if r < 0 then Ok (-1, bs, s2) else Ok (int (length (takeWhile (\<lambda>x. x \<noteq> 0) bs)), bs, s2))))"

text \<open>The registers a0 to a5 of a \<^verbatim>\<open>struct trapframe\<close> are at offset 112 on, a7 is at 168.\<close>

definition tf_a :: "nat \<Rightarrow> u64" where "tf_a n = 112 + 8 * of_nat n"

definition argraw :: "nat \<Rightarrow> nat \<Rightarrow> 'a kern_scheme \<Rightarrow> (u64 \<times> 'a kern_scheme) result" where
  "argraw c n s =
     rbind (myproc c s) (\<lambda>ps. the_proc ps (\<lambda>p s1.
       if n \<le> 5 then Ok (load64 (memory s1) (p_trapframe (procs s1 p) + tf_a n), s1) else Panic ''argraw''))"

definition argint :: "nat \<Rightarrow> nat \<Rightarrow> 'a kern_scheme \<Rightarrow> (int \<times> 'a kern_scheme) result" where
  "argint c n s = rbind (argraw c n s) (\<lambda>(w, s1). Ok (sint (ucast w :: u32), s1))"

definition argaddr :: "nat \<Rightarrow> nat \<Rightarrow> 'a kern_scheme \<Rightarrow> (u64 \<times> 'a kern_scheme) result" where
  "argaddr c n s = argraw c n s"

definition argstr :: "nat \<Rightarrow> nat \<Rightarrow> nat \<Rightarrow> 'a kern_scheme \<Rightarrow> (int \<times> u8 list \<times> 'a kern_scheme) result" where
  "argstr c n mx s = rbind (argaddr c n s) (\<lambda>(addr, s1). fetchstr c addr mx s1)"

section \<open>Process calls (sysproc.c)\<close>

definition sys_exit :: "'a pkern_scheme handler" where
  "sys_exit e c s =
     rbind (argint c 0 s) (\<lambda>(n, s1). rbind (kexit (e_away e) c n s1) (\<lambda>(c', s2). Ok (0, c', s2)))"

definition sys_getpid :: "'a pkern_scheme handler" where
  "sys_getpid e c s = rbind (myproc c s) (\<lambda>ps. the_proc ps (\<lambda>p s1. Ok (of_int (p_pid (procs s1 p)), c, s1)))"

definition sys_fork :: "'a pkern_scheme handler" where
  "sys_fork e c s = ret_int c (kfork (e_tramp e) (e_forkret e) c s)"

definition sys_wait :: "'a pkern_scheme handler" where
  "sys_wait e c s = rbind (argaddr c 0 s) (\<lambda>(p, s1). ret_int_at (kwait (e_rounds e) (e_away e) c p s1))"

definition SBRK_EAGER :: int where "SBRK_EAGER = 1"

definition sys_sbrk :: "'a pkern_scheme handler" where
  "sys_sbrk e c s =
     rbind (argint c 0 s) (\<lambda>(n, s1).
     rbind (argint c 1 s1) (\<lambda>(t, s2).
     rbind (myproc c s2) (\<lambda>ps. the_proc ps (\<lambda>p s3.
       let addr = p_sz (procs s3 p)
       in if t = SBRK_EAGER \<or> n < 0 then
            rbind (growproc c n s3) (\<lambda>(r, s4). if r < 0 then Ok (-1, c, s4) else Ok (addr, c, s4))
          else if addr + of_int n < addr then Ok (-1, c, s3)
          else if addr + of_int n > TRAPFRAME then Ok (-1, c, s3)
          else rbind (myproc c s3) (\<lambda>ps. the_proc ps (\<lambda>p s4.
                 Ok (addr, c, upd_proc p (\<lambda>q. q\<lparr>p_sz := p_sz q + of_int n\<rparr>) s4)))))))"

definition acquire_ticks :: "nat \<Rightarrow> 'a kern_scheme \<Rightarrow> 'a kern_scheme result" where
  "acquire_ticks = acquire_at tickslock (\<lambda>lk. tickslock_update (\<lambda>_. lk))"

definition release_ticks :: "nat \<Rightarrow> 'a kern_scheme \<Rightarrow> 'a kern_scheme result" where
  "release_ticks = release_at tickslock (\<lambda>lk. tickslock_update (\<lambda>_. lk))"

primrec pause_loop :: "nat \<Rightarrow> 'a kern_scheme away \<Rightarrow> nat \<Rightarrow> u32 \<Rightarrow> u32 \<Rightarrow> 'a kern_scheme \<Rightarrow> (u64 \<times> nat \<times> 'a kern_scheme) result" where
  "pause_loop 0 sw c ticks0 n s = Hang"
| "pause_loop (Suc k) sw c ticks0 n s =
     (if ticks s - ticks0 < n then
        rbind (myproc c s) (\<lambda>ps. the_proc ps (\<lambda>p s1.
        rbind (killed c p s1) (\<lambda>(kd, s2).
          if kd \<noteq> 0 then rbind (release_ticks c s2) (\<lambda>s3. Ok (-1, c, s3))
          else rbind (sleep sw TicksChan tickslock (\<lambda>lk. tickslock_update (\<lambda>_. lk)) c s2) (\<lambda>(c', s3).
                 pause_loop k sw c' ticks0 n s3))))
      else rbind (release_ticks c s) (\<lambda>s1. Ok (0, c, s1)))"

definition sys_pause :: "'a pkern_scheme handler" where
  "sys_pause e c s =
     rbind (argint c 0 s) (\<lambda>(n, s1).
     rbind (acquire_ticks c s1) (\<lambda>s2.
       pause_loop (e_rounds e) (e_away e) c (ticks s2) (of_int (if n < 0 then 0 else n)) s2))"

definition sys_kill :: "'a pkern_scheme handler" where
  "sys_kill e c s = rbind (argint c 0 s) (\<lambda>(pid, s1). ret_int c (kkill c pid s1))"

definition sys_uptime :: "'a pkern_scheme handler" where
  "sys_uptime e c s =
     rbind (acquire_ticks c s) (\<lambda>s1. rbind (release_ticks c s1) (\<lambda>s2. Ok (ucast (ticks s1), c, s2)))"

definition sys_setexpected :: "'a pkern_scheme handler" where
  "sys_setexpected e c s =
     rbind (argint c 0 s) (\<lambda>(n, s1).
       let expected = (if n < 0 then 0 else n)
       in rbind (myproc c s1) (\<lambda>ps. the_proc ps (\<lambda>p s2.
          rbind (acquire_p c p s2) (\<lambda>s3.
          rbind (release_p c p (upd_proc p (\<lambda>q. q\<lparr>p_expected_runtime := of_int expected\<rparr>) s3)) (\<lambda>s4. Ok (0, c, s4))))))"

definition sys_setstcfvals :: "'a pkern_scheme handler" where
  "sys_setstcfvals e c s =
     rbind (argint c 0 s) (\<lambda>(n, s1).
       let expected = (if n < 0 then 0 else n)
       in rbind (myproc c s1) (\<lambda>ps. the_proc ps (\<lambda>p s2.
          rbind (acquire_p c p s2) (\<lambda>s3.
          rbind (release_p c p (upd_proc p (\<lambda>q. q\<lparr>p_expected_runtime := of_int expected,
              p_time_left := of_int expected + 1\<rparr>) s3)) (\<lambda>s4. Ok (0, c, s4))))))"

definition sys_yield :: "'a pkern_scheme handler" where
  "sys_yield e c s = rbind (yield (e_away e) c s) (\<lambda>(c', s1). Ok (0, c', s1))"

definition state_num :: "procstate \<Rightarrow> u32" where
  "state_num st = (case st of UNUSED \<Rightarrow> 0 | USED \<Rightarrow> 1 | SLEEPING \<Rightarrow> 2 | RUNNABLE \<Rightarrow> 3 | RUNNING \<Rightarrow> 4 | ZOMBIE \<Rightarrow> 5)"

text \<open>
  The bytes of \<^verbatim>\<open>struct procinfo\<close> filled from a process. \<open>junk\<close> is what the variable held before:
  the rest of the name behind its nul and the four bytes of padding at the end keep it.
\<close>

definition procinfo_bytes :: "u8 list \<Rightarrow> proc \<Rightarrow> u8 list" where
  "procinfo_bytes junk q =
     le_bytes 4 (of_int (p_pid q) :: u32) @ le_bytes 4 (state_num (p_state q)) @
     safestrcpy_l (take 16 (drop 8 (junk @ replicate 88 0))) (p_name q) 16 @
     le_bytes 8 (p_ctime q) @ le_bytes 8 (p_etime q) @ le_bytes 8 (p_rtime q) @ le_bytes 8 (p_stime q) @
     le_bytes 8 (p_expected_runtime q) @ le_bytes 8 (p_time_left q) @
     le_bytes 4 (of_int (p_priority q) :: u32) @ le_bytes 4 (of_int (p_queue_level q) :: u32) @
     le_bytes 4 (ucast (p_time_slice q) :: u32) @ take 4 (drop 84 (junk @ replicate 88 0))"

definition sys_getprocinfo :: "'a pkern_scheme handler" where
  "sys_getprocinfo e c s =
     rbind (argint c 0 s) (\<lambda>(pid, s1).
     rbind (getproc c pid s1) (\<lambda>(r, s2).
       case r of
         None \<Rightarrow> Ok (-1, c, s2)
       | Some p \<Rightarrow>
           rbind (acquire_p c p s2) (\<lambda>s3.
             let info = procinfo_bytes (e_junk e) (procs s3 p)
             in rbind (release_p c p s3) (\<lambda>s4.
                rbind (argaddr c 1 s4) (\<lambda>(user_ptr, s5).
                rbind (myproc c s5) (\<lambda>ps. the_proc ps (\<lambda>me s6.
                rbind (copyout c (p_pagetable (procs s6 me)) user_ptr info s6) (\<lambda>(r, s7).
                  if r < 0 then Ok (-1, c, s7) else Ok (0, c, s7)))))))))"

end
