(* ===== verification/Sysfile.thy ===== *)
theory Sysfile
  imports Syscall
begin

text \<open>
  The file system calls: \<^verbatim>\<open>kernel/sysfile.c\<close>. Every early return and every jump to an error label
  is a branch; a label that several branches reach is a definition of its own.
\<close>

section \<open>Descriptors\<close>

definition argfd :: "nat \<Rightarrow> nat \<Rightarrow> 'a kern_scheme \<Rightarrow> ((nat \<times> nat) option \<times> 'a kern_scheme) result" where
  "argfd c n s =
     rbind (argint c n s) (\<lambda>(fd, s1).
       if fd < 0 \<or> fd \<ge> int NOFILE then Ok (None, s1)
       else rbind (myproc c s1) (\<lambda>ps. the_proc ps (\<lambda>p s2.
              case p_ofile (procs s2 p) ! nat fd of
                None \<Rightarrow> Ok (None, s2)
              | Some f \<Rightarrow> Ok (Some (nat fd, f), s2))))"

definition fdalloc :: "nat \<Rightarrow> nat \<Rightarrow> 'a kern_scheme \<Rightarrow> (nat option \<times> 'a kern_scheme) result" where
  "fdalloc c f s =
     rbind (myproc c s) (\<lambda>ps. the_proc ps (\<lambda>p s1.
       case find (\<lambda>fd. p_ofile (procs s1 p) ! fd = None) [0..<NOFILE] of
         Some fd \<Rightarrow> Ok (Some fd, upd_proc p (p_ofile_update (\<lambda>fs. fs[fd := Some f])) s1)
       | None \<Rightarrow> Ok (None, s1)))"

definition sys_dup :: "'a pkern_scheme handler" where
  "sys_dup e c s =
     rbind (argfd c 0 s) (\<lambda>(r, s1).
       case r of None \<Rightarrow> Ok (-1, c, s1)
       | Some (_, f) \<Rightarrow>
           rbind (fdalloc c f s1) (\<lambda>(r, s2).
             case r of None \<Rightarrow> Ok (-1, c, s2)
             | Some fd \<Rightarrow> rbind (filedup c f s2) (\<lambda>s3. Ok (of_nat fd, c, s3))))"

definition sys_read :: "'a pkern_scheme handler" where
  "sys_read e c s =
     rbind (argaddr c 1 s) (\<lambda>(p, s1).
     rbind (argint c 2 s1) (\<lambda>(n, s2).
     rbind (argfd c 0 s2) (\<lambda>(r, s3).
       case r of None \<Rightarrow> Ok (-1, c, s3)
       | Some (_, f) \<Rightarrow> ret_int_at (fileread (dev_read e) (e_rounds e) (e_away e) c f p n s3))))"

definition sys_write :: "'a pkern_scheme handler" where
  "sys_write e c s =
     rbind (argaddr c 1 s) (\<lambda>(p, s1).
     rbind (argint c 2 s1) (\<lambda>(n, s2).
     rbind (argfd c 0 s2) (\<lambda>(r, s3).
       case r of None \<Rightarrow> Ok (-1, c, s3)
       | Some (_, f) \<Rightarrow> ret_int_at (filewrite (dev_write e) (e_rounds e) (e_away e) c f p n s3))))"

definition sys_close :: "'a pkern_scheme handler" where
  "sys_close e c s =
     rbind (argfd c 0 s) (\<lambda>(r, s1).
       case r of None \<Rightarrow> Ok (-1, c, s1)
       | Some (fd, f) \<Rightarrow>
           rbind (myproc c s1) (\<lambda>ps. the_proc ps (\<lambda>p s2.
           rbind (fileclose c f (upd_proc p (p_ofile_update (\<lambda>fs. fs[fd := None])) s2)) (\<lambda>s3. Ok (0, c, s3)))))"

definition sys_fstat :: "'a pkern_scheme handler" where
  "sys_fstat e c s =
     rbind (argaddr c 1 s) (\<lambda>(st, s1).
     rbind (argfd c 0 s1) (\<lambda>(r, s2).
       case r of None \<Rightarrow> Ok (-1, c, s2)
       | Some (_, f) \<Rightarrow> ret_int c (filestat (e_junk e) c f st s2)))"

section \<open>Links\<close>

text \<open>Leaving a transaction with a result.\<close>

definition end_with :: "u64 \<Rightarrow> nat \<Rightarrow> 'a fkern_scheme \<Rightarrow> (u64 \<times> nat \<times> 'a fkern_scheme) result" where
  "end_with v c s = rbind (end_op c s) (\<lambda>s1. Ok (v, c, s1))"

definition link_bad :: "nat \<Rightarrow> nat \<Rightarrow> 'a fkern_scheme \<Rightarrow> (u64 \<times> nat \<times> 'a fkern_scheme) result" where
  "link_bad c ip s =
     rbind (ilock c ip s) (\<lambda>s1.
     rbind (iupdate c ip (upd_inode ip (\<lambda>x. x\<lparr>i_nlink := i_nlink x - 1\<rparr>) s1)) (\<lambda>s2.
     rbind (iunlockput c ip s2) (\<lambda>s3. end_with (-1) c s3)))"

definition link_entry :: "nat \<Rightarrow> nat \<Rightarrow> u8 list \<Rightarrow> 'a fkern_scheme \<Rightarrow> (u64 \<times> nat \<times> 'a fkern_scheme) result" where
  "link_entry c ip new s =
     rbind (nameiparent c new (replicate DIRSIZ 0) s) (\<lambda>(r, name, s1).
       case r of None \<Rightarrow> link_bad c ip s1
       | Some dp \<Rightarrow>
           rbind (ilock c dp s1) (\<lambda>s2.
           rbind (if i_dev (inodes s2 dp) \<noteq> i_dev (inodes s2 ip) then Ok (-1, s2)
                  else dirlink c dp name (i_inum (inodes s2 ip)) s2) (\<lambda>(r, s3).
           rbind (iunlockput c dp s3) (\<lambda>s4.
             if r < 0 then link_bad c ip s4
             else rbind (iput c ip s4) (\<lambda>s5. end_with 0 c s5)))))"

definition sys_link :: "'a pkern_scheme handler" where
  "sys_link e c s =
     rbind (argstr c 0 MAXPATH s) (\<lambda>(r0, old, s1).
       if r0 < 0 then Ok (-1, c, s1)
       else rbind (argstr c 1 MAXPATH s1) (\<lambda>(r1, new, s2).
         if r1 < 0 then Ok (-1, c, s2)
         else rbind (begin_op c s2) (\<lambda>s3.
              rbind (namei c old s3) (\<lambda>(r, s4).
                case r of None \<Rightarrow> end_with (-1) c s4
                | Some ip \<Rightarrow>
                    rbind (ilock c ip s4) (\<lambda>s5.
                      if i_type (inodes s5 ip) = T_DIR then rbind (iunlockput c ip s5) (\<lambda>s6. end_with (-1) c s6)
                      else rbind (iupdate c ip (upd_inode ip (\<lambda>x. x\<lparr>i_nlink := i_nlink x + 1\<rparr>) s5)) (\<lambda>s6.
                           rbind (iunlock c ip s6) (\<lambda>s7. link_entry c ip new s7)))))))"

primrec isdirempty_loop :: "nat \<Rightarrow> nat \<Rightarrow> nat \<Rightarrow> u32 \<Rightarrow> 'a fkern_scheme \<Rightarrow> (bool \<times> 'a fkern_scheme) result" where
  "isdirempty_loop 0 c dp off s = Hang"
| "isdirempty_loop (Suc k) c dp off s =
     (if off < i_size (inodes s dp) then
        rbind (readi c dp (Var []) off 16 s) (\<lambda>(r, de, s1).
          if r \<noteq> 16 then Panic ''isdirempty: readi''
          else if de_inum (var_bytes de) \<noteq> 0 then Ok (False, s1)
          else isdirempty_loop k c dp (off + 16) s1)
      else Ok (True, s))"

definition isdirempty :: "nat \<Rightarrow> nat \<Rightarrow> 'a fkern_scheme \<Rightarrow> (bool \<times> 'a fkern_scheme) result" where
  "isdirempty c dp s = isdirempty_loop (unat (i_size (inodes s dp)) div 16 + 2) c dp 32 s"

definition unlink_bad :: "nat \<Rightarrow> nat \<Rightarrow> 'a fkern_scheme \<Rightarrow> (u64 \<times> nat \<times> 'a fkern_scheme) result" where
  "unlink_bad c dp s = rbind (iunlockput c dp s) (\<lambda>s1. end_with (-1) c s1)"

definition unlink_entry :: "nat \<Rightarrow> nat \<Rightarrow> nat \<Rightarrow> u32 \<Rightarrow> 'a fkern_scheme \<Rightarrow> (u64 \<times> nat \<times> 'a fkern_scheme) result" where
  "unlink_entry c dp ip off s =
     rbind (writei c dp (Var (replicate 16 0)) off 16 s) (\<lambda>(r, s1).
       if r \<noteq> 16 then Panic ''unlink: writei''
       else
         rbind (if i_type (inodes s1 ip) = T_DIR
                then iupdate c dp (upd_inode dp (\<lambda>x. x\<lparr>i_nlink := i_nlink x - 1\<rparr>) s1) else Ok s1) (\<lambda>s2.
         rbind (iunlockput c dp s2) (\<lambda>s3.
         rbind (iupdate c ip (upd_inode ip (\<lambda>x. x\<lparr>i_nlink := i_nlink x - 1\<rparr>) s3)) (\<lambda>s4.
         rbind (iunlockput c ip s4) (\<lambda>s5. end_with 0 c s5)))))"

definition sys_unlink :: "'a pkern_scheme handler" where
  "sys_unlink e c s =
     rbind (argstr c 0 MAXPATH s) (\<lambda>(r, pth, s1).
       if r < 0 then Ok (-1, c, s1)
       else
         rbind (begin_op c s1) (\<lambda>s2.
         rbind (nameiparent c pth (replicate DIRSIZ 0) s2) (\<lambda>(r, name, s3).
           case r of None \<Rightarrow> end_with (-1) c s3
           | Some dp \<Rightarrow>
               rbind (ilock c dp s3) (\<lambda>s4.
                 if namecmp name [46] = 0 \<or> namecmp name [46, 46] = 0 then unlink_bad c dp s4
                 else rbind (dirlookup c dp name s4) (\<lambda>(r, s5).
                   case r of None \<Rightarrow> unlink_bad c dp s5
                   | Some (ip, off) \<Rightarrow>
                       rbind (ilock c ip s5) (\<lambda>s6.
                         if sint (i_nlink (inodes s6 ip)) < 1 then Panic ''unlink: nlink < 1''
                         else rbind (if i_type (inodes s6 ip) = T_DIR then isdirempty c ip s6 else Ok (True, s6)) (\<lambda>(ok, s7).
                           if \<not> ok then rbind (iunlockput c ip s7) (\<lambda>s8. unlink_bad c dp s8)
                           else unlink_entry c dp ip off s7)))))))"

section \<open>Creating and opening\<close>

definition create_fail :: "nat \<Rightarrow> nat \<Rightarrow> nat \<Rightarrow> 'a fkern_scheme \<Rightarrow> (nat option \<times> 'a fkern_scheme) result" where
  "create_fail c dp ip s =
     rbind (iupdate c ip (upd_inode ip (\<lambda>x. x\<lparr>i_nlink := 0\<rparr>) s)) (\<lambda>s1.
     rbind (iunlockput c ip s1) (\<lambda>s2.
     rbind (iunlockput c dp s2) (\<lambda>s3. Ok (None, s3))))"

text \<open>The entries \<^verbatim>\<open>.\<close> and \<^verbatim>\<open>..\<close> of a new directory: -1 when one of them cannot be made.\<close>

definition create_dots :: "nat \<Rightarrow> nat \<Rightarrow> nat \<Rightarrow> 'a fkern_scheme \<Rightarrow> (int \<times> 'a fkern_scheme) result" where
  "create_dots c dp ip s =
     rbind (dirlink c ip [46] (i_inum (inodes s ip)) s) (\<lambda>(r, s1).
       if r < 0 then Ok (r, s1) else dirlink c ip [46, 46] (i_inum (inodes s1 dp)) s1)"

definition create_new :: "nat \<Rightarrow> nat \<Rightarrow> u8 list \<Rightarrow> u16 \<Rightarrow> u16 \<Rightarrow> u16 \<Rightarrow> 'a fkern_scheme \<Rightarrow> (nat option \<times> 'a fkern_scheme) result" where
  "create_new c dp name ty major minor s =
     rbind (ialloc c (i_dev (inodes s dp)) ty s) (\<lambda>(r, s1).
       case r of None \<Rightarrow> rbind (iunlockput c dp s1) (\<lambda>s2. Ok (None, s2))
       | Some ip \<Rightarrow>
           rbind (ilock c ip s1) (\<lambda>s2.
           rbind (iupdate c ip (upd_inode ip (\<lambda>x. x\<lparr>i_major := major, i_minor := minor, i_nlink := 1\<rparr>) s2)) (\<lambda>s3.
           rbind (if ty = T_DIR then create_dots c dp ip s3 else Ok (0, s3)) (\<lambda>(r, s4).
             if r < 0 then create_fail c dp ip s4
             else rbind (dirlink c dp name (i_inum (inodes s4 ip)) s4) (\<lambda>(r, s5).
               if r < 0 then create_fail c dp ip s5
               else rbind (if ty = T_DIR then iupdate c dp (upd_inode dp (\<lambda>x. x\<lparr>i_nlink := i_nlink x + 1\<rparr>) s5)
                           else Ok s5) (\<lambda>s6.
                    rbind (iunlockput c dp s6) (\<lambda>s7. Ok (Some ip, s7))))))))"

definition create :: "nat \<Rightarrow> u8 list \<Rightarrow> u16 \<Rightarrow> u16 \<Rightarrow> u16 \<Rightarrow> 'a fkern_scheme \<Rightarrow> (nat option \<times> 'a fkern_scheme) result" where
  "create c pth ty major minor s =
     rbind (nameiparent c pth (replicate DIRSIZ 0) s) (\<lambda>(r, name, s1).
       case r of None \<Rightarrow> Ok (None, s1)
       | Some dp \<Rightarrow>
           rbind (ilock c dp s1) (\<lambda>s2.
           rbind (dirlookup c dp name s2) (\<lambda>(r, s3).
             case r of
               Some (ip, _) \<Rightarrow>
                 rbind (iunlockput c dp s3) (\<lambda>s4.
                 rbind (ilock c ip s4) (\<lambda>s5.
                   if ty = T_FILE \<and> (i_type (inodes s5 ip) = T_FILE \<or> i_type (inodes s5 ip) = T_DEVICE) then Ok (Some ip, s5)
                   else rbind (iunlockput c ip s5) (\<lambda>s6. Ok (None, s6))))
             | None \<Rightarrow> create_new c dp name ty major minor s3)))"

text \<open>The inode to open, locked; \<open>None\<close> is a return of -1 with the transaction ended.\<close>

definition open_inode :: "nat \<Rightarrow> u8 list \<Rightarrow> u32 \<Rightarrow> 'a fkern_scheme \<Rightarrow> (nat option \<times> 'a fkern_scheme) result" where
  "open_inode c pth omode s =
     (if omode AND O_CREATE \<noteq> 0 then
        rbind (create c pth T_FILE 0 0 s) (\<lambda>(r, s1).
          case r of None \<Rightarrow> rbind (end_op c s1) (\<lambda>s2. Ok (None, s2)) | Some ip \<Rightarrow> Ok (Some ip, s1))
      else
        rbind (namei c pth s) (\<lambda>(r, s1).
          case r of None \<Rightarrow> rbind (end_op c s1) (\<lambda>s2. Ok (None, s2))
          | Some ip \<Rightarrow>
              rbind (ilock c ip s1) (\<lambda>s2.
                if i_type (inodes s2 ip) = T_DIR \<and> omode \<noteq> O_RDONLY then
                  rbind (iunlockput c ip s2) (\<lambda>s3. rbind (end_op c s3) (\<lambda>s4. Ok (None, s4)))
                else Ok (Some ip, s2))))"

definition open_file :: "inode \<Rightarrow> nat \<Rightarrow> u32 \<Rightarrow> kfile \<Rightarrow> kfile" where
  "open_file x ip omode f =
     (if i_type x = T_DEVICE then f\<lparr>f_type := FD_DEVICE, f_major := i_major x\<rparr> else f\<lparr>f_type := FD_INODE, f_off := 0\<rparr>)
       \<lparr>f_ip := Some ip, f_readable := omode AND O_WRONLY = 0,
        f_writable := omode AND O_WRONLY \<noteq> 0 \<or> omode AND O_RDWR \<noteq> 0\<rparr>"

definition open_bad :: "nat \<Rightarrow> nat \<Rightarrow> 'a fkern_scheme \<Rightarrow> (u64 \<times> nat \<times> 'a fkern_scheme) result" where
  "open_bad c ip s = rbind (iunlockput c ip s) (\<lambda>s1. end_with (-1) c s1)"

definition open_descriptor :: "nat \<Rightarrow> nat \<Rightarrow> u32 \<Rightarrow> 'a pkern_scheme \<Rightarrow> (u64 \<times> nat \<times> 'a pkern_scheme) result" where
  "open_descriptor c ip omode s =
     rbind (filealloc c s) (\<lambda>(r, s1).
       case r of None \<Rightarrow> open_bad c ip s1
       | Some f \<Rightarrow>
           rbind (fdalloc c f s1) (\<lambda>(r, s2).
             case r of None \<Rightarrow> rbind (fileclose c f s2) (\<lambda>s3. open_bad c ip s3)
             | Some fd \<Rightarrow>
                 let s3 = upd_file f (open_file (inodes s2 ip) ip omode) s2
                 in rbind (if omode AND O_TRUNC \<noteq> 0 \<and> i_type (inodes s3 ip) = T_FILE then itrunc c ip s3 else Ok s3) (\<lambda>s4.
                    rbind (iunlock c ip s4) (\<lambda>s5. end_with (of_nat fd) c s5))))"

definition sys_open :: "'a pkern_scheme handler" where
  "sys_open e c s =
     rbind (argint c 1 s) (\<lambda>(om, s1).
     rbind (argstr c 0 MAXPATH s1) (\<lambda>(n, pth, s2).
       if n < 0 then Ok (-1, c, s2)
       else
         rbind (begin_op c s2) (\<lambda>s3.
         rbind (open_inode c pth (of_int om) s3) (\<lambda>(r, s4).
           case r of None \<Rightarrow> Ok (-1, c, s4)
           | Some ip \<Rightarrow>
               if i_type (inodes s4 ip) = T_DEVICE \<and>
                  (sint (i_major (inodes s4 ip)) < 0 \<or> sint (i_major (inodes s4 ip)) \<ge> int NDEV)
               then open_bad c ip s4
               else open_descriptor c ip (of_int om) s4))))"

definition sys_mkdir :: "'a pkern_scheme handler" where
  "sys_mkdir e c s =
     rbind (begin_op c s) (\<lambda>s1.
     rbind (argstr c 0 MAXPATH s1) (\<lambda>(r, pth, s2).
       if r < 0 then end_with (-1) c s2
       else rbind (create c pth T_DIR 0 0 s2) (\<lambda>(r, s3).
         case r of None \<Rightarrow> end_with (-1) c s3
         | Some ip \<Rightarrow> rbind (iunlockput c ip s3) (\<lambda>s4. end_with 0 c s4))))"

definition sys_mknod :: "'a pkern_scheme handler" where
  "sys_mknod e c s =
     rbind (begin_op c s) (\<lambda>s1.
     rbind (argint c 1 s1) (\<lambda>(major, s2).
     rbind (argint c 2 s2) (\<lambda>(minor, s3).
     rbind (argstr c 0 MAXPATH s3) (\<lambda>(r, pth, s4).
       if r < 0 then end_with (-1) c s4
       else rbind (create c pth T_DEVICE (of_int major) (of_int minor) s4) (\<lambda>(r, s5).
         case r of None \<Rightarrow> end_with (-1) c s5
         | Some ip \<Rightarrow> rbind (iunlockput c ip s5) (\<lambda>s6. end_with 0 c s6))))))"

definition sys_chdir :: "'a pkern_scheme handler" where
  "sys_chdir e c s =
     rbind (myproc c s) (\<lambda>ps. the_proc ps (\<lambda>p s0.
     rbind (begin_op c s0) (\<lambda>s1.
     rbind (argstr c 0 MAXPATH s1) (\<lambda>(r, pth, s2).
       if r < 0 then end_with (-1) c s2
       else rbind (namei c pth s2) (\<lambda>(r, s3).
         case r of None \<Rightarrow> end_with (-1) c s3
         | Some ip \<Rightarrow>
             rbind (ilock c ip s3) (\<lambda>s4.
               if i_type (inodes s4 ip) \<noteq> T_DIR then rbind (iunlockput c ip s4) (\<lambda>s5. end_with (-1) c s5)
               else rbind (iunlock c ip s4) (\<lambda>s5.
                    the_ip (p_cwd (procs s5 p)) (\<lambda>cwd.
                    rbind (iput c cwd s5) (\<lambda>s6.
                    rbind (end_op c s6) (\<lambda>s7.
                      Ok (0, c, upd_proc p (p_cwd_update (\<lambda>_. Some ip)) s7)))))))))))"

section \<open>Exec and pipe\<close>

definition free_args :: "nat \<Rightarrow> u64 list \<Rightarrow> 'a km_scheme \<Rightarrow> 'a km_scheme result" where
  "free_args c pas s = foldR (kfree c) pas s"

text \<open>
  Fetching the argument vector: \<open>n\<close> entries of \<^verbatim>\<open>argv[]\<close> are left. Each string is in a page of
  its own; the result says whether the terminating null pointer was found, and gives the pages and
  the strings in them.
\<close>

primrec exec_args :: "nat \<Rightarrow> nat \<Rightarrow> u64 \<Rightarrow> u64 list \<Rightarrow> u8 list list \<Rightarrow> 'a kern_scheme \<Rightarrow>
    (bool \<times> u64 list \<times> u8 list list \<times> 'a kern_scheme) result" where
  "exec_args 0 c uargv pas argv s = Ok (False, pas, argv, s)"
| "exec_args (Suc n) c uargv pas argv s =
     rbind (fetchaddr c (uargv + 8 * of_nat (length argv)) s) (\<lambda>(r, s1).
       case r of None \<Rightarrow> Ok (False, pas, argv, s1)
       | Some uarg \<Rightarrow>
           if uarg = 0 then Ok (True, pas, argv, s1)
           else rbind (kalloc c s1) (\<lambda>(pa, s2).
             if pa = 0 then Ok (False, pas, argv, s2)
             else rbind (fetchstr c uarg (unat PGSIZE) s2) (\<lambda>(r, bs, s3).
               let s4 = upd_mem (put_bytes pa bs) s3
               in if r < 0 then Ok (False, pas @ [pa], argv, s4)
                  else exec_args n c uargv (pas @ [pa]) (argv @ [takeWhile (\<lambda>x. x \<noteq> 0) bs]) s4)))"

definition sys_exec :: "'a pkern_scheme handler" where
  "sys_exec e c s =
     rbind (argaddr c 1 s) (\<lambda>(uargv, s1).
     rbind (argstr c 0 MAXPATH s1) (\<lambda>(r, pth, s2).
       if r < 0 then Ok (-1, c, s2)
       else rbind (exec_args MAXARG c uargv [] [] s2) (\<lambda>(ok, pas, argv, s3).
         if ok then
           rbind (kexec (e_tramp e) c (takeWhile (\<lambda>x. x \<noteq> 0) pth) argv s3) (\<lambda>(ret, s4).
           rbind (free_args c pas s4) (\<lambda>s5. Ok (of_int ret, c, s5)))
         else rbind (free_args c pas s3) (\<lambda>s4. Ok (-1, c, s4)))))"

text \<open>Giving up on a pipe: the descriptors \<open>fds\<close> are cleared and both ends are closed.\<close>

definition pipe_bad :: "nat \<Rightarrow> nat \<Rightarrow> nat list \<Rightarrow> nat \<Rightarrow> nat \<Rightarrow> 'a pkern_scheme \<Rightarrow> (u64 \<times> nat \<times> 'a pkern_scheme) result" where
  "pipe_bad c p fds rf wfile s =
     rbind (fileclose c rf (foldl (\<lambda>s fd. upd_proc p (p_ofile_update (\<lambda>fs. fs[fd := None])) s) s fds)) (\<lambda>s1.
     rbind (fileclose c wfile s1) (\<lambda>s2. Ok (-1, c, s2)))"

definition sys_pipe :: "'a pkern_scheme handler" where
  "sys_pipe e c s =
     rbind (myproc c s) (\<lambda>ps. the_proc ps (\<lambda>p s0.
     rbind (argaddr c 0 s0) (\<lambda>(fdarray, s1).
     rbind (pipealloc c s1) (\<lambda>(r, s2).
       case r of None \<Rightarrow> Ok (-1, c, s2)
       | Some (rf, wfile) \<Rightarrow>
           rbind (fdalloc c rf s2) (\<lambda>(r0, s3).
             case r0 of None \<Rightarrow> pipe_bad c p [] rf wfile s3
             | Some fd0 \<Rightarrow>
                 rbind (fdalloc c wfile s3) (\<lambda>(r1, s4).
                   case r1 of None \<Rightarrow> pipe_bad c p [fd0] rf wfile s4
                   | Some fd1 \<Rightarrow>
                       rbind (copyout c (p_pagetable (procs s4 p)) fdarray (le_bytes 4 (of_nat fd0 :: u32)) s4) (\<lambda>(r, s5).
                         if r < 0 then pipe_bad c p [fd0, fd1] rf wfile s5
                         else rbind (copyout c (p_pagetable (procs s5 p)) (fdarray + 4) (le_bytes 4 (of_nat fd1 :: u32)) s5) (\<lambda>(r, s6).
                           if r < 0 then pipe_bad c p [fd0, fd1] rf wfile s6 else Ok (0, c, s6)))))))))"

end
