(* ===== verification/Console.thy ===== *)
theory Console
  imports Life
begin

text \<open>
  The console: \<^verbatim>\<open>kernel/console.c\<close> and the transmit side and interrupt handler of
  \<^verbatim>\<open>kernel/uart.c\<close>. The UART is a device: \<open>lsr\<close> and \<open>rhr\<close> are what successive reads of its
  line status and receive registers return, \<open>uart_out\<close> the writes to its registers.
  \<^verbatim>\<open>consputc\<close>, which spins on the transmitter, is its effect on the output.
\<close>

section \<open>State\<close>

definition INPUT_BUF_SIZE :: nat where "INPUT_BUF_SIZE = 128"

record ckern = pkern +
  cons_lock :: spinlock
  cons_buf :: "u8 list"
  cons_r :: u32
  cons_w :: u32
  cons_e :: u32
  tx_lock :: spinlock
  tx_busy :: bool
  lsr :: "nat \<Rightarrow> u8"
  nlsr :: nat
  rhr :: "nat \<Rightarrow> u8"
  nrhr :: nat
  uart_out :: "(nat \<times> u8) list"

definition LSR_RX_READY :: u8 where "LSR_RX_READY = push_bit 0 1"
definition LSR_TX_IDLE :: u8 where "LSR_TX_IDLE = push_bit 5 1"

definition read_lsr :: "'a ckern_scheme \<Rightarrow> u8 \<times> 'a ckern_scheme" where
  "read_lsr s = (lsr s (nlsr s), s\<lparr>nlsr := Suc (nlsr s)\<rparr>)"

definition read_rhr :: "'a ckern_scheme \<Rightarrow> u8 \<times> 'a ckern_scheme" where
  "read_rhr s = (rhr s (nrhr s), s\<lparr>nrhr := Suc (nrhr s)\<rparr>)"

definition acquire_tx :: "nat \<Rightarrow> 'a ckern_scheme \<Rightarrow> 'a ckern_scheme result" where
  "acquire_tx = acquire_at tx_lock (\<lambda>lk. tx_lock_update (\<lambda>_. lk))"

definition release_tx :: "nat \<Rightarrow> 'a ckern_scheme \<Rightarrow> 'a ckern_scheme result" where
  "release_tx = release_at tx_lock (\<lambda>lk. tx_lock_update (\<lambda>_. lk))"

definition acquire_cons :: "nat \<Rightarrow> 'a ckern_scheme \<Rightarrow> 'a ckern_scheme result" where
  "acquire_cons = acquire_at cons_lock (\<lambda>lk. cons_lock_update (\<lambda>_. lk))"

definition release_cons :: "nat \<Rightarrow> 'a ckern_scheme \<Rightarrow> 'a ckern_scheme result" where
  "release_cons = release_at cons_lock (\<lambda>lk. cons_lock_update (\<lambda>_. lk))"

section \<open>The UART\<close>

definition THR :: nat where "THR = 0"
definition IER :: nat where "IER = 1"
definition FCR :: nat where "FCR = 2"
definition LCR :: nat where "LCR = 3"

definition WriteReg :: "nat \<Rightarrow> u8 \<Rightarrow> 'a ckern_scheme \<Rightarrow> 'a ckern_scheme" where
  "WriteReg r v s = s\<lparr>uart_out := uart_out s @ [(r, v)]\<rparr>"

definition uartinit :: "'a ckern_scheme \<Rightarrow> 'a ckern_scheme" where
  "uartinit s =
     (fold (\<lambda>(r, v). WriteReg r v)
        [(IER, 0x00), (LCR, push_bit 7 1), (0, 0x03), (1, 0x00), (LCR, 3), (FCR, 1 OR push_bit 1 3), (IER, push_bit 1 1 OR 1)] s)
       \<lparr>tx_lock := initlock ''uart''\<rparr>"

text \<open>Waiting for the transmitter; \<open>k\<close> counts the tests of \<^verbatim>\<open>tx_busy\<close>.\<close>

primrec uart_wait :: "nat \<Rightarrow> 'a ckern_scheme away \<Rightarrow> nat \<Rightarrow> 'a ckern_scheme \<Rightarrow> (nat \<times> 'a ckern_scheme) result" where
  "uart_wait 0 sw c s = Hang"
| "uart_wait (Suc k) sw c s =
     (if tx_busy s then rbind (sleep sw UartTxChan tx_lock (\<lambda>lk. tx_lock_update (\<lambda>_. lk)) c s) (\<lambda>(c', s1). uart_wait k sw c' s1)
      else Ok (c, s))"

fun uartwrite_loop :: "nat \<Rightarrow> 'a ckern_scheme away \<Rightarrow> nat \<Rightarrow> u8 list \<Rightarrow> 'a ckern_scheme \<Rightarrow> (nat \<times> 'a ckern_scheme) result" where
  "uartwrite_loop k sw c [] s = Ok (c, s)"
| "uartwrite_loop k sw c (x # xs) s =
     rbind (uart_wait k sw c s) (\<lambda>(c', s1). uartwrite_loop k sw c' xs ((WriteReg THR x s1)\<lparr>tx_busy := True\<rparr>))"

definition uartwrite :: "nat \<Rightarrow> 'a ckern_scheme away \<Rightarrow> nat \<Rightarrow> u8 list \<Rightarrow> 'a ckern_scheme \<Rightarrow> (nat \<times> 'a ckern_scheme) result" where
  "uartwrite k sw c buf s =
     rbind (acquire_tx c s) (\<lambda>s1.
     rbind (uartwrite_loop k sw c buf s1) (\<lambda>(c', s2).
     rbind (release_tx c' s2) (\<lambda>s3. Ok (c', s3))))"

text \<open>\<open>None\<close> is the result -1.\<close>

definition uartgetc :: "'a ckern_scheme \<Rightarrow> u8 option \<times> 'a ckern_scheme" where
  "uartgetc s =
     (let (l, s1) = read_lsr s in
      if l AND LSR_RX_READY \<noteq> 0 then (let (x, s2) = read_rhr s1 in (Some x, s2)) else (None, s1))"

section \<open>The console\<close>

definition BACKSPACE :: nat where "BACKSPACE = 0x100"

definition consputc :: "nat \<Rightarrow> 'a fkern_scheme \<Rightarrow> 'a fkern_scheme" where
  "consputc c s =
     s\<lparr>printed := printed s @ (if c = BACKSPACE then [char_of (8 :: nat), CHR '' '', char_of (8 :: nat)] else [char_of c])\<rparr>"

definition Ctl :: "nat \<Rightarrow> u8" where "Ctl x = of_nat (x - 64)"

text \<open>\<^verbatim>\<open>consolewrite\<close> moves batches of at most 32 bytes; a round moves at least one.\<close>

primrec consolewrite_loop :: "nat \<Rightarrow> nat \<Rightarrow> 'a ckern_scheme away \<Rightarrow> nat \<Rightarrow> place \<Rightarrow> int \<Rightarrow> int \<Rightarrow> 'a ckern_scheme \<Rightarrow>
    (int \<times> nat \<times> 'a ckern_scheme) result" where
  "consolewrite_loop 0 k sw c src n i s = Hang"
| "consolewrite_loop (Suc j) k sw c src n i s =
     (if i < n then
        let nn = min 32 (n - i)
        in rbind (either_copyin c src (of_int nn) s) (\<lambda>(r, bs, src', s1).
             if r = -1 then Ok (i, c, s1)
             else rbind (uartwrite k sw c bs s1) (\<lambda>(c', s2). consolewrite_loop j k sw c' src' n (i + nn) s2))
      else Ok (i, c, s))"

definition consolewrite :: "nat \<Rightarrow> 'a ckern_scheme away \<Rightarrow> nat \<Rightarrow> place \<Rightarrow> int \<Rightarrow> 'a ckern_scheme \<Rightarrow> (int \<times> nat \<times> 'a ckern_scheme) result" where
  "consolewrite k sw c src n s = consolewrite_loop (Suc (nat n)) k sw c src n 0 s"

text \<open>Waiting for input: whether there is some, or the process was killed.\<close>

primrec cons_wait :: "nat \<Rightarrow> 'a ckern_scheme away \<Rightarrow> nat \<Rightarrow> 'a ckern_scheme \<Rightarrow> (bool \<times> nat \<times> 'a ckern_scheme) result" where
  "cons_wait 0 sw c s = Hang"
| "cons_wait (Suc k) sw c s =
     (if cons_r s = cons_w s then
        rbind (myproc c s) (\<lambda>ps. the_proc ps (\<lambda>p s1.
        rbind (killed c p s1) (\<lambda>(kd, s2).
          if kd \<noteq> 0 then rbind (release_cons c s2) (\<lambda>s3. Ok (False, c, s3))
          else rbind (sleep sw ConsChan cons_lock (\<lambda>lk. cons_lock_update (\<lambda>_. lk)) c s2) (\<lambda>(c', s3). cons_wait k sw c' s3))))
      else Ok (True, c, s))"

text \<open>
  The loop of \<^verbatim>\<open>consoleread\<close> with \<open>n\<close> bytes still wanted of \<open>target\<close>; \<open>None\<close> is the early return
  of -1 with the lock released.
\<close>

primrec consoleread_loop :: "nat \<Rightarrow> nat \<Rightarrow> 'a ckern_scheme away \<Rightarrow> nat \<Rightarrow> place \<Rightarrow> u32 \<Rightarrow> int \<Rightarrow> 'a ckern_scheme \<Rightarrow>
    (int option \<times> nat \<times> 'a ckern_scheme) result" where
  "consoleread_loop 0 k sw c dst target n s = Hang"
| "consoleread_loop (Suc j) k sw c dst target n s =
     (if n > 0 then
        rbind (cons_wait k sw c s) (\<lambda>(go, c', s1).
          if \<not> go then Ok (None, c', s1)
          else
            let x = cons_buf s1 ! (unat (cons_r s1) mod INPUT_BUF_SIZE);
                s2 = s1\<lparr>cons_r := cons_r s1 + 1\<rparr>
            in if x = Ctl 68 then
                 Ok (Some n, c', if (of_int n :: u32) < target then s2\<lparr>cons_r := cons_r s2 - 1\<rparr> else s2)
               else rbind (either_copyout c' dst [x] s2) (\<lambda>(r, dst', s3).
                      if r = -1 then Ok (Some n, c', s3)
                      else if x = 10 then Ok (Some (n - 1), c', s3)
                      else consoleread_loop j k sw c' dst' target (n - 1) s3))
      else Ok (Some n, c, s))"

definition consoleread :: "nat \<Rightarrow> 'a ckern_scheme away \<Rightarrow> nat \<Rightarrow> place \<Rightarrow> int \<Rightarrow> 'a ckern_scheme \<Rightarrow> (int \<times> nat \<times> 'a ckern_scheme) result" where
  "consoleread k sw c dst n s =
     (let target = of_int n :: u32 in
      rbind (acquire_cons c s) (\<lambda>s1.
      rbind (consoleread_loop (Suc (nat n)) k sw c dst target n s1) (\<lambda>(r, c', s2).
        case r of
          None \<Rightarrow> Ok (-1, c', s2)
        | Some left \<Rightarrow> rbind (release_cons c' s2) (\<lambda>s3. Ok (sint (target - of_int left), c', s3)))))"

text \<open>Erasing back to the start of the line; at most \<open>2 ^ 32\<close> characters can be erased.\<close>

function cons_kill :: "'a ckern_scheme \<Rightarrow> 'a ckern_scheme" where
  "cons_kill s =
     (if cons_e s \<noteq> cons_w s \<and> cons_buf s ! (unat (cons_e s - 1) mod INPUT_BUF_SIZE) \<noteq> 10
      then cons_kill (consputc BACKSPACE (s\<lparr>cons_e := cons_e s - 1\<rparr>)) else s)"
  by pat_completeness auto
termination
proof (relation "measure (\<lambda>s. unat (cons_e s - cons_w s))", simp)
  fix s :: "'a ckern_scheme"
  assume "cons_e s \<noteq> cons_w s \<and> cons_buf s ! (unat (cons_e s - 1) mod INPUT_BUF_SIZE) \<noteq> 10"
  then have "cons_e s - cons_w s \<noteq> 0" by simp
  moreover have "cons_e s - 1 - cons_w s = cons_e s - cons_w s - 1" by simp
  ultimately have "unat (cons_e s - 1 - cons_w s) < unat (cons_e s - cons_w s)" by (metis measure_unat)
  then show "(consputc BACKSPACE (s\<lparr>cons_e := cons_e s - 1\<rparr>), s) \<in> measure (\<lambda>s. unat (cons_e s - cons_w s))"
    by (simp add: consputc_def)
qed

declare cons_kill.simps [simp del]

definition consoleintr :: "nat \<Rightarrow> u8 \<Rightarrow> 'a ckern_scheme \<Rightarrow> 'a ckern_scheme result" where
  "consoleintr c x s =
     rbind (acquire_cons c s) (\<lambda>s1.
     rbind (if x = Ctl 80 then Ok (procdump s1)
            else if x = Ctl 85 then Ok (cons_kill s1)
            else if x = Ctl 72 \<or> x = 0x7f then
              Ok (if cons_e s1 \<noteq> cons_w s1 then consputc BACKSPACE (s1\<lparr>cons_e := cons_e s1 - 1\<rparr>) else s1)
            else if x \<noteq> 0 \<and> cons_e s1 - cons_r s1 < of_nat INPUT_BUF_SIZE then
              let y = (if x = 13 then 10 else x);
                  s2 = consputc (unat y) s1;
                  s3 = s2\<lparr>cons_buf := (cons_buf s2)[unat (cons_e s2) mod INPUT_BUF_SIZE := y], cons_e := cons_e s2 + 1\<rparr>
              in if y = 10 \<or> y = Ctl 68 \<or> cons_e s3 - cons_r s3 = of_nat INPUT_BUF_SIZE
                 then wakeup c ConsChan (s3\<lparr>cons_w := cons_e s3\<rparr>) else Ok s3
            else Ok s1) (\<lambda>s4. release_cons c s4))"

text \<open>The handler reads characters until the device has none; \<open>k\<close> counts the reads.\<close>

primrec uartintr_loop :: "nat \<Rightarrow> nat \<Rightarrow> 'a ckern_scheme \<Rightarrow> 'a ckern_scheme result" where
  "uartintr_loop 0 c s = Hang"
| "uartintr_loop (Suc k) c s =
     (let (x, s1) = uartgetc s in
      case x of None \<Rightarrow> Ok s1 | Some y \<Rightarrow> rbind (consoleintr c y s1) (\<lambda>s2. uartintr_loop k c s2))"

definition uartintr :: "nat \<Rightarrow> nat \<Rightarrow> 'a ckern_scheme \<Rightarrow> 'a ckern_scheme result" where
  "uartintr k c s =
     rbind (acquire_tx c s) (\<lambda>s1.
       let (l, s2) = read_lsr s1
       in rbind (if l AND LSR_TX_IDLE \<noteq> 0 then wakeup c UartTxChan (s2\<lparr>tx_busy := False\<rparr>) else Ok s2) (\<lambda>s3.
          rbind (release_tx c s3) (\<lambda>s4. uartintr_loop k c s4)))"

definition consoleinit :: "'a ckern_scheme \<Rightarrow> 'a ckern_scheme" where
  "consoleinit s = uartinit (s\<lparr>cons_lock := initlock ''cons''\<rparr>)"

text \<open>The device switch after \<^verbatim>\<open>consoleinit\<close>: major number 1 is the console.\<close>

definition devsw_read :: "nat \<Rightarrow> 'a ckern_scheme away \<Rightarrow> nat \<Rightarrow> 'a ckern_scheme dev_fun option" where
  "devsw_read k sw major = (if major = 1 then Some (\<lambda>c addr n s. consoleread k sw c (User addr) n s) else None)"

definition devsw_write :: "nat \<Rightarrow> 'a ckern_scheme away \<Rightarrow> nat \<Rightarrow> 'a ckern_scheme dev_fun option" where
  "devsw_write k sw major = (if major = 1 then Some (\<lambda>c addr n s. consolewrite k sw c (User addr) n s) else None)"

end
