(* ===== verification/Trap.thy ===== *)
theory Trap
  imports Sysfile Console
begin

text \<open>
  Traps and boot: the dispatcher of \<^verbatim>\<open>kernel/syscall.c\<close>, \<^verbatim>\<open>kernel/trap.c\<close>,
  \<^verbatim>\<open>kernel/plic.c\<close>, \<^verbatim>\<open>forkret\<close> of \<^verbatim>\<open>kernel/proc.c\<close> and \<^verbatim>\<open>kernel/main.c\<close>. The
  registers a trap handler uses are fields of the state, one value for each hart; the hardware sets
  \<open>sepc\<close>, \<open>scause\<close>, \<open>stval\<close> and the previous-privilege bit before a handler starts.
\<close>

section \<open>State\<close>

record xkern = ckern +
  stvec :: "nat \<Rightarrow> u64"
  sepc :: "nat \<Rightarrow> u64"
  scause :: "nat \<Rightarrow> u64"
  stval :: "nat \<Rightarrow> u64"
  satp :: "nat \<Rightarrow> u64"
  stimecmp :: "nat \<Rightarrow> u64"
  kernel_pagetable :: u64
  first :: bool
  started :: bool
  plic_claims :: "nat \<Rightarrow> u32"
  nclaims :: nat
  plic_out :: "(u64 \<times> u32) list"

text \<open>
  Code addresses fixed by the linker, the two entry points of the disk driver that traps and boot
  call, and the number of characters one interrupt of the UART may deliver.
\<close>

record 's syms =
  kernelvec :: u64
  uservec_off :: u64
  usertrap_addr :: u64
  etext :: u64
  disk_intr :: "nat \<Rightarrow> 's \<Rightarrow> 's result"
  disk_init :: "'s \<Rightarrow> 's result"
  rx_max :: nat

definition SSTATUS_SPP :: u64 where "SSTATUS_SPP = push_bit 8 1"
definition SSTATUS_SPIE :: u64 where "SSTATUS_SPIE = push_bit 5 1"

definition SATP_SV39 :: u64 where "SATP_SV39 = push_bit 60 8"

definition MAKE_SATP :: "u64 \<Rightarrow> u64" where
  "MAKE_SATP pagetable = SATP_SV39 OR drop_bit 12 pagetable"

section \<open>The interrupt controller (plic.c)\<close>

definition UART0_IRQ :: u32 where "UART0_IRQ = 10"
definition VIRTIO0_IRQ :: u32 where "VIRTIO0_IRQ = 1"

definition PLIC_SENABLE :: "nat \<Rightarrow> u64" where "PLIC_SENABLE hart = PLIC + 0x2080 + of_nat hart * 0x100"
definition PLIC_SPRIORITY :: "nat \<Rightarrow> u64" where "PLIC_SPRIORITY hart = PLIC + 0x201000 + of_nat hart * 0x2000"
definition PLIC_SCLAIM :: "nat \<Rightarrow> u64" where "PLIC_SCLAIM hart = PLIC + 0x201004 + of_nat hart * 0x2000"

definition plic_write :: "u64 \<Rightarrow> u32 \<Rightarrow> 'a xkern_scheme \<Rightarrow> 'a xkern_scheme" where
  "plic_write a v s = s\<lparr>plic_out := plic_out s @ [(a, v)]\<rparr>"

definition plicinit :: "'a xkern_scheme \<Rightarrow> 'a xkern_scheme" where
  "plicinit s = plic_write (PLIC + ucast VIRTIO0_IRQ * 4) 1 (plic_write (PLIC + ucast UART0_IRQ * 4) 1 s)"

definition plicinithart :: "nat \<Rightarrow> 'a xkern_scheme \<Rightarrow> 'a xkern_scheme" where
  "plicinithart c s =
     plic_write (PLIC_SPRIORITY c) 0
       (plic_write (PLIC_SENABLE c) (push_bit (unat UART0_IRQ) 1 OR push_bit (unat VIRTIO0_IRQ) 1) s)"

definition plic_claim :: "nat \<Rightarrow> 'a xkern_scheme \<Rightarrow> u32 \<times> 'a xkern_scheme" where
  "plic_claim c s = (plic_claims s (nclaims s), s\<lparr>nclaims := Suc (nclaims s)\<rparr>)"

definition plic_complete :: "nat \<Rightarrow> u32 \<Rightarrow> 'a xkern_scheme \<Rightarrow> 'a xkern_scheme" where
  "plic_complete c irq s = plic_write (PLIC_SCLAIM c) irq s"

section \<open>The system call table\<close>

definition syscalls :: "int \<Rightarrow> 'a pkern_scheme handler option" where
  "syscalls num =
     (if 1 \<le> num \<and> num \<le> 25 then
        Some ([sys_fork, sys_exit, sys_wait, sys_pipe, sys_read, sys_kill, sys_exec, sys_fstat, sys_chdir, sys_dup,
               sys_getpid, sys_sbrk, sys_pause, sys_uptime, sys_open, sys_write, sys_mknod, sys_unlink, sys_link,
               sys_mkdir, sys_close, sys_setexpected, sys_setstcfvals, sys_yield, sys_getprocinfo] ! nat (num - 1))
      else None)"

definition set_a0 :: "nat \<Rightarrow> u64 \<Rightarrow> 'a kern_scheme \<Rightarrow> 'a kern_scheme" where
  "set_a0 p v s = upd_mem (store64 (p_trapframe (procs s p) + tf_a 0) v) s"

definition syscall :: "'a pkern_scheme env \<Rightarrow> nat \<Rightarrow> 'a pkern_scheme \<Rightarrow> (nat \<times> 'a pkern_scheme) result" where
  "syscall e c s =
     rbind (myproc c s) (\<lambda>ps. the_proc ps (\<lambda>p s1.
       let num = sint (ucast (load64 (memory s1) (p_trapframe (procs s1 p) + tf_a 7)) :: u32)
       in case syscalls num of
            Some f \<Rightarrow> rbind (f e c s1) (\<lambda>(v, c', s2). Ok (c', set_a0 p v s2))
          | None \<Rightarrow>
              let s2 = kprintf ''%d %s: unknown sys call %d\<newline>''
                    [ArgInt (of_int (p_pid (procs s1 p))), ArgStr (Some (str_of (p_name (procs s1 p)))), ArgInt (of_int num)] s1
              in Ok (c, set_a0 p (-1) s2)))"

text \<open>The device switch \<^verbatim>\<open>consoleinit\<close> has set up.\<close>

definition devsw :: "'a ckern_scheme env \<Rightarrow> 'a ckern_scheme env" where
  "devsw e = e\<lparr>dev_read := devsw_read (e_rounds e) (e_away e), dev_write := devsw_write (e_rounds e) (e_away e)\<rparr>"

section \<open>Traps (trap.c)\<close>

definition trapinit :: "'a kern_scheme \<Rightarrow> 'a kern_scheme" where
  "trapinit s = s\<lparr>tickslock := initlock ''time''\<rparr>"

definition w_stvec :: "nat \<Rightarrow> u64 \<Rightarrow> 'a xkern_scheme \<Rightarrow> 'a xkern_scheme" where
  "w_stvec c x s = s\<lparr>stvec := (stvec s)(c := x)\<rparr>"

definition trapinithart :: "'t syms \<Rightarrow> nat \<Rightarrow> 'a xkern_scheme \<Rightarrow> 'a xkern_scheme" where
  "trapinithart y c s = w_stvec c (kernelvec y) s"

definition clockintr :: "nat \<Rightarrow> 'a xkern_scheme \<Rightarrow> 'a xkern_scheme result" where
  "clockintr c s =
     rbind (if c = 0 then
              rbind (acquire_ticks c s) (\<lambda>s1.
              rbind (wakeup c TicksChan (s1\<lparr>ticks := ticks s1 + 1\<rparr>)) (\<lambda>s2. release_ticks c s2))
            else Ok s) (\<lambda>s3.
       let (t, s4) = getTime s3 in Ok (s4\<lparr>stimecmp := (stimecmp s4)(c := t + 1000000)\<rparr>))"

definition devintr :: "'a xkern_scheme syms \<Rightarrow> nat \<Rightarrow> 'a xkern_scheme \<Rightarrow> (int \<times> 'a xkern_scheme) result" where
  "devintr y c s =
     (if scause s c = 0x8000000000000009 then
        let (irq, s1) = plic_claim c s
        in rbind (if irq = UART0_IRQ then uartintr (rx_max y) c s1
                  else if irq = VIRTIO0_IRQ then disk_intr y c s1
                  else if irq \<noteq> 0 then Ok (kprintf ''unexpected interrupt irq=%d\<newline>'' [ArgInt (ucast irq)] s1)
                  else Ok s1) (\<lambda>s2. Ok (1, if irq \<noteq> 0 then plic_complete c irq s2 else s2))
      else if scause s c = 0x8000000000000005 then rbind (clockintr c s) (\<lambda>s1. Ok (2, s1))
      else Ok (0, s))"

text \<open>In a trap frame the kernel's page table is at offset 0, its stack at 8, its trap handler at 16, the hart at 32.\<close>

definition prepare_return :: "'t syms \<Rightarrow> nat \<Rightarrow> 'a xkern_scheme \<Rightarrow> 'a xkern_scheme result" where
  "prepare_return y c s =
     rbind (myproc c s) (\<lambda>ps. the_proc ps (\<lambda>p s1.
       let s2 = w_stvec c (TRAMPOLINE + uservec_off y) (intr_off c s1);
           tf = p_trapframe (procs s2 p);
           s3 = upd_mem (\<lambda>m. store64 (tf + 32) (of_nat c) (store64 (tf + 16) (usertrap_addr y)
                  (store64 (tf + 8) (p_kstack (procs s2 p) + PGSIZE) (store64 tf (satp s2 c) m)))) s2;
           s4 = s3\<lparr>sstatus := (sstatus s3)(c := sstatus s3 c AND NOT SSTATUS_SPP OR SSTATUS_SPIE)\<rparr>
       in Ok (s4\<lparr>sepc := (sepc s4)(c := load64 (memory s4) (tf + tf_epc))\<rparr>)))"

text \<open>The first part of \<^verbatim>\<open>usertrap\<close>: what the trap was for. It returns \<^verbatim>\<open>which_dev\<close>.\<close>

definition usertrap_cause :: "'a xkern_scheme syms \<Rightarrow> 'a xkern_scheme env \<Rightarrow> nat \<Rightarrow> nat \<Rightarrow> 'a xkern_scheme \<Rightarrow>
    (int \<times> nat \<times> 'a xkern_scheme) result" where
  "usertrap_cause y e c p s =
     (if scause s c = 8 then
        rbind (killed c p s) (\<lambda>(k, s1).
        rbind (if k \<noteq> 0 then kexit (e_away e) c (-1) s1 else Ok (c, s1)) (\<lambda>(c1, s2).
          let epc = p_trapframe (procs s2 p) + tf_epc;
              s3 = upd_mem (\<lambda>m. store64 epc (load64 m epc + 4) m) s2
          in rbind (syscall (devsw e) c1 (intr_on c1 s3)) (\<lambda>(c2, s4). Ok (0, c2, s4))))
      else rbind (devintr y c s) (\<lambda>(which_dev, s1).
        if which_dev \<noteq> 0 then Ok (which_dev, c, s1)
        else rbind (if scause s1 c = 15 \<or> scause s1 c = 13
                    then vmfault c (p_pagetable (procs s1 p)) (stval s1 c) s1 else Ok (0, s1)) (\<lambda>(pa, s2).
          if pa \<noteq> 0 then Ok (0, c, s2)
          else
            let s3 = kprintf ''usertrap(): unexpected scause 0x%lx pid=%d\<newline>''
                       [ArgInt (scause s2 c), ArgInt (of_int (p_pid (procs s2 p)))] s2;
                s4 = kprintf ''            sepc=0x%lx stval=0x%lx\<newline>'' [ArgInt (sepc s3 c), ArgInt (stval s3 c)] s3
            in rbind (setkilled c p s4) (\<lambda>s5. Ok (0, c, s5)))))"

text \<open>A timer interrupt is charged to the process before it gives the CPU away.\<close>

definition usertrap_tick :: "'a kern_scheme away \<Rightarrow> nat \<Rightarrow> nat \<Rightarrow> 'a kern_scheme \<Rightarrow> (nat \<times> 'a kern_scheme) result" where
  "usertrap_tick sw c p s =
     rbind (if p_state (procs s p) = RUNNING then
              rbind (acquire_p c p s) (\<lambda>s1. release_p c p (upd_proc p (\<lambda>q. q\<lparr>p_rtime := p_rtime q + 1\<rparr>) s1))
            else Ok s) (\<lambda>s2. yield sw c s2)"

definition usertrap :: "'a xkern_scheme syms \<Rightarrow> 'a xkern_scheme env \<Rightarrow> nat \<Rightarrow> 'a xkern_scheme \<Rightarrow>
    (u64 \<times> nat \<times> 'a xkern_scheme) result" where
  "usertrap y e c s =
     (if sstatus s c AND SSTATUS_SPP \<noteq> 0 then Panic ''usertrap: not from user mode''
      else rbind (myproc c (w_stvec c (kernelvec y) s)) (\<lambda>ps. the_proc ps (\<lambda>p s1.
        let s2 = upd_mem (store64 (p_trapframe (procs s1 p) + tf_epc) (sepc s1 c)) s1
        in rbind (usertrap_cause y e c p s2) (\<lambda>(which_dev, c1, s3).
           rbind (killed c1 p s3) (\<lambda>(k, s4).
           rbind (if k \<noteq> 0 then kexit (e_away e) c1 (-1) s4 else Ok (c1, s4)) (\<lambda>(c2, s5).
           rbind (if which_dev = 2 then usertrap_tick (e_away e) c2 p s5 else Ok (c2, s5)) (\<lambda>(c3, s6).
           rbind (prepare_return y c3 s6) (\<lambda>s7. Ok (MAKE_SATP (p_pagetable (procs s7 p)), c3, s7)))))))))"

text \<open>A trap taken in the kernel; it returns on the hart the interrupted thread continues on.\<close>

definition kerneltrap :: "'a xkern_scheme syms \<Rightarrow> 'a xkern_scheme away \<Rightarrow> nat \<Rightarrow> 'a xkern_scheme \<Rightarrow> (nat \<times> 'a xkern_scheme) result" where
  "kerneltrap y sw c s =
     (let epc = sepc s c; ss = sstatus s c
      in if ss AND SSTATUS_SPP = 0 then Panic ''kerneltrap: not from supervisor mode''
         else if intr_get c s then Panic ''kerneltrap: interrupts enabled''
         else rbind (devintr y c s) (\<lambda>(which_dev, s1).
           if which_dev = 0 then Panic ''kerneltrap''
           else rbind (if which_dev = 2 then
                         rbind (myproc c s1) (\<lambda>(q, s2). if q \<noteq> None then yield sw c s2 else Ok (c, s2))
                       else Ok (c, s1)) (\<lambda>(c', s3).
             Ok (c', s3\<lparr>sepc := (sepc s3)(c' := epc), sstatus := (sstatus s3)(c' := ss)\<rparr>))))"

section \<open>A new process's first steps, and boot\<close>

definition init_path :: "u8 list" where "init_path = map (\<lambda>ch. of_nat (of_char ch)) ''/init''"

definition forkret :: "'t syms \<Rightarrow> 'a xkern_scheme env \<Rightarrow> nat \<Rightarrow> 'a xkern_scheme \<Rightarrow> (u64 \<times> 'a xkern_scheme) result" where
  "forkret y e c s =
     rbind (myproc c s) (\<lambda>ps. the_proc ps (\<lambda>p s1.
     rbind (release_p c p s1) (\<lambda>s2.
     rbind (if first s2 then
              rbind (fsinit c ROOTDEV s2) (\<lambda>s3.
              rbind (kexec (e_tramp e) c init_path [init_path] (s3\<lparr>first := False\<rparr>)) (\<lambda>(r, s4).
                let s5 = set_a0 p (of_int r) s4
                in if load64 (memory s5) (p_trapframe (procs s5 p) + tf_a 0) = -1 then Panic ''exec'' else Ok s5))
            else Ok s2) (\<lambda>s6.
     rbind (prepare_return y c s6) (\<lambda>s7. Ok (MAKE_SATP (p_pagetable (procs s7 p)), s7))))))"

definition kvminit :: "u64 \<Rightarrow> u64 \<Rightarrow> nat \<Rightarrow> 'a xkern_scheme \<Rightarrow> 'a xkern_scheme result" where
  "kvminit et tramp c s = rbind (kvmmake et tramp c s) (\<lambda>(pt, s1). Ok (s1\<lparr>kernel_pagetable := pt\<rparr>))"

definition kvminithart :: "nat \<Rightarrow> 'a xkern_scheme \<Rightarrow> 'a xkern_scheme" where
  "kvminithart c s = s\<lparr>satp := (satp s)(c := MAKE_SATP (kernel_pagetable s))\<rparr>"

text \<open>
  \<^verbatim>\<open>main\<close> up to the call of \<^verbatim>\<open>scheduler\<close>. The first hart sets everything up; another waits for
  it, which \<open>Hang\<close> stands for when it has not finished.
\<close>

definition main_first :: "'a xkern_scheme syms \<Rightarrow> 'a xkern_scheme env \<Rightarrow> 'a xkern_scheme \<Rightarrow> 'a xkern_scheme result" where
  "main_first y e s =
     (let s1 = kprintf ''\<newline>'' [] (kprintf ''xv6 kernel is booting\<newline>'' [] (kprintf ''\<newline>'' [] (consoleinit s)))
      in case kinit 0 s1 of
           None \<Rightarrow> Hang
         | Some r \<Rightarrow>
             rbind r (\<lambda>s2.
             rbind (kvminit (etext y) (e_tramp e) 0 s2) (\<lambda>s3.
               let s4 = trapinithart y 0 (trapinit (procinit (kvminithart 0 s3)));
                   s5 = fileinit (iinit (binit (plicinithart 0 (plicinit s4))))
               in rbind (disk_init y s5) (\<lambda>s6.
                  rbind (userinit (e_tramp e) (e_forkret e) 0 s6) (\<lambda>s7. Ok (s7\<lparr>started := True\<rparr>))))))"

definition main :: "'a xkern_scheme syms \<Rightarrow> 'a xkern_scheme env \<Rightarrow> nat \<Rightarrow> 'a xkern_scheme \<Rightarrow> 'a xkern_scheme result" where
  "main y e c s =
     (if c = 0 then main_first y e s
      else if \<not> started s then Hang
      else Ok (plicinithart c (trapinithart y c (kvminithart c
             (kprintf ''hart %d starting\<newline>'' [ArgInt (of_nat c)] s)))))"

end
