(* ===== verification/Names.thy ===== *)
theory Names
  imports Fs
begin

text \<open>
  Names and paths of \<^verbatim>\<open>kernel/fs.c\<close>: what \<^verbatim>\<open>namecmp\<close> compares, that a directory entry is found
  under the name it was made with, and that the loop over \<^verbatim>\<open>skipelem\<close> visits the elements of a path.
\<close>

section \<open>Names\<close>

text \<open>The name a byte list denotes: up to its NUL, and at most \<open>DIRSIZ\<close> bytes.\<close>

definition cname :: "u8 list \<Rightarrow> u8 list" where
  "cname t = take DIRSIZ (takeWhile (\<lambda>x. x \<noteq> 0) t)"

lemma strncmp_l_0: "strncmp_l p q n = 0 \<longleftrightarrow> take n (takeWhile (\<lambda>x. x \<noteq> 0) p) = take n (takeWhile (\<lambda>x. x \<noteq> 0) q)"
proof (induction n arbitrary: p q)
  case (Suc n)
  show ?case
    by (cases p; cases q) (auto simp: Suc uint_word_arith_bintrs simp flip: word_uint_eq_iff)
qed simp

lemma namecmp_0: "namecmp s t = 0 \<longleftrightarrow> cname s = cname t"
  by (simp add: namecmp_def cname_def strncmp_l_0)

lemma length_strncpy_l [simp]: "length (strncpy_l t n) = n"
  by (induction n arbitrary: t) auto

lemma strncpy_l_name: "take n (takeWhile (\<lambda>x. x \<noteq> 0) (strncpy_l t n)) = take n (takeWhile (\<lambda>x. x \<noteq> 0) t)"
proof (induction n arbitrary: t)
  case (Suc n)
  show ?case by (cases t) (auto simp: Suc)
qed simp

lemma de_make_dirent:
  "length (make_dirent name inum) = 16" "de_inum (make_dirent name inum) = ucast inum"
  "de_name (make_dirent name inum) = strncpy_l name DIRSIZ"
proof -
  show "length (make_dirent name inum) = 16" by (simp add: make_dirent_def DIRSIZ_def)
  have "get16 (put16 (replicate 2 0) 0 v @ r) 0 = v" for v :: u16 and r
    using get16_put16 [of 0 "replicate 2 0" v] by (simp add: get16_def nth_append)
  then show "de_inum (make_dirent name inum) = ucast inum" by (simp add: de_inum_def make_dirent_def)
  show "de_name (make_dirent name inum) = strncpy_l name DIRSIZ" by (simp add: de_name_def make_dirent_def)
qed

text \<open>
  C36: a directory entry made for a name and an inode number has the 16 bytes of an entry, gives
  the inode number back (its low 16 bits), and is matched by exactly the names that agree with the
  one it was made for up to their NUL and in their first 14 bytes.
\<close>

theorem dirent_roundtrip:
  "length (make_dirent name inum) = 16 \<and> de_inum (make_dirent name inum) = ucast inum \<and>
   (namecmp q (de_name (make_dirent name inum)) = 0 \<longleftrightarrow> cname q = cname name)"
  by (auto simp: de_make_dirent namecmp_0 strncpy_l_name cname_def)

section \<open>Paths\<close>

text \<open>The reference: a path cut at its slashes, empty pieces dropped.\<close>

definition elements :: "u8 list \<Rightarrow> u8 list list" where
  "elements pth = filter (\<lambda>e. e \<noteq> []) (split_on slash (takeWhile (\<lambda>x. x \<noteq> 0) pth))"

text \<open>The names the loop of \<^verbatim>\<open>namex\<close> sees.\<close>

primrec visited :: "nat \<Rightarrow> u8 list \<Rightarrow> u8 list \<Rightarrow> u8 list list option" where
  "visited 0 pth name = None"
| "visited (Suc n) pth name =
     (case skipelem pth name of None \<Rightarrow> Some [] | Some (pth', name') \<Rightarrow> map_option ((#) (cname name')) (visited n pth' name'))"

lemma slash_nz [simp]: "slash \<noteq> 0"
  by (simp add: slash_def)

lemma elements_slash: "elements (slash # p) = elements p"
  by (simp add: elements_def)

lemma elements_dropWhile: "elements (dropWhile (\<lambda>x. x = slash) p) = elements p"
proof (induction p)
  case (Cons x p)
  then show ?case using elements_slash [of p] by (cases "x = slash") auto
qed simp

lemma elements_done: "ch p = 0 \<Longrightarrow> elements p = []"
  by (cases p) (auto simp: elements_def)

lemma split_on_word:
  assumes "slash \<notin> set w"
  shows "split_on slash (w @ r) = (case split_on slash r of [] \<Rightarrow> [w] | h # t \<Rightarrow> (w @ h) # t)"
  using assms by (induction w) (auto split: list.splits)

lemma elements_word:
  assumes "w \<noteq> []" and "\<forall>x \<in> set w. x \<noteq> slash \<and> x \<noteq> 0" and "r = [] \<or> ch r = slash \<or> ch r = 0"
  shows "elements (w @ r) = w # elements r"
proof -
  have t: "takeWhile (\<lambda>x. x \<noteq> 0) (w @ r) = w @ takeWhile (\<lambda>x. x \<noteq> 0) r" using assms(2) by simp
  define q where "q = takeWhile (\<lambda>x. x \<noteq> 0) r"
  have "q = [] \<or> (\<exists>q'. q = slash # q')" using assms(3) by (cases r) (auto simp: q_def)
  moreover have "slash \<notin> set w" using assms(2) by auto
  ultimately show ?thesis using assms(1) split_on_word [of w q] by (auto simp: elements_def t simp flip: q_def)
qed

lemma skipelem_None: "skipelem p name = None \<Longrightarrow> elements p = []"
  using elements_done [of "dropWhile (\<lambda>x. x = slash) p"] by (simp add: skipelem_def Let_def elements_dropWhile split: if_splits)

lemma skipelem_Some:
  assumes "skipelem p name = Some (p', name')" and "length name = DIRSIZ"
  shows "length p' < length p" "length name' = DIRSIZ" "\<exists>w. elements p = w # elements p' \<and> cname name' = take DIRSIZ w"
proof -
  define q where "q = dropWhile (\<lambda>x. x = slash) p"
  define w where "w = takeWhile (\<lambda>x. x \<noteq> slash \<and> x \<noteq> 0) q"
  define r where "r = dropWhile (\<lambda>x. x \<noteq> slash \<and> x \<noteq> 0) q"
  have q: "q = w @ r" by (simp add: w_def r_def)
  have c: "ch q \<noteq> 0" and p': "p' = dropWhile (\<lambda>x. x = slash) r"
    and n': "name' = (if length w \<ge> DIRSIZ then take DIRSIZ w else w @ [0] @ drop (length w + 1) name)"
    using assms(1) by (auto simp: skipelem_def Let_def q_def w_def r_def split: if_splits)
  have "q \<noteq> []" using c by auto
  then have "hd q \<noteq> slash" unfolding q_def using hd_dropWhile [of "\<lambda>x. x = slash" p] by simp
  then have wn: "w \<noteq> []" using c \<open>q \<noteq> []\<close> by (cases q) (auto simp: w_def)
  have w: "\<forall>x \<in> set w. x \<noteq> slash \<and> x \<noteq> 0" unfolding w_def using set_takeWhileD by fastforce
  have r: "r = [] \<or> ch r = slash \<or> ch r = 0"
  proof (cases r)
    case (Cons x xs)
    then have "\<not> (x \<noteq> slash \<and> x \<noteq> 0)" using hd_dropWhile [of "\<lambda>x. x \<noteq> slash \<and> x \<noteq> 0" q] by (simp add: r_def)
    then show ?thesis using Cons by auto
  qed simp
  have "length p' \<le> length r" by (simp add: p' length_dropWhile_le)
  moreover have "length w + length r \<le> length p" using length_dropWhile_le [of "\<lambda>x. x = slash" p] q by (simp flip: q_def)
  moreover have "0 < length w" using wn by simp
  ultimately show "length p' < length p" by linarith
  show "length name' = DIRSIZ" using assms(2) by (auto simp: n')
  have "elements p = w # elements p'"
    using elements_word [OF wn w r] elements_dropWhile [of p] elements_dropWhile [of r] q by (simp add: p' flip: q_def)
  moreover have "cname (take DIRSIZ w) = take DIRSIZ w"
    unfolding cname_def using w takeWhile_eq_all_conv [of "\<lambda>x. x \<noteq> 0" "take DIRSIZ w"] by (metis in_set_takeD take_all_iff nle_le length_take min.cobounded2)
  moreover have "cname (w @ [0] @ y) = take DIRSIZ w" for y using w by (simp add: cname_def)
  ultimately show "\<exists>w. elements p = w # elements p' \<and> cname name' = take DIRSIZ w"
    by (auto simp: n' simp del: append_Cons)
qed

text \<open>
  C37: the loop of \<^verbatim>\<open>namex\<close> over \<^verbatim>\<open>skipelem\<close> ends on every path, after at most as many rounds as
  the path has bytes, and sees exactly the elements of the path in order, each cut to 14 bytes;
  repeated, leading and trailing slashes do not matter.
\<close>

theorem skipelem_visits_elements:
  assumes "length pth < n" and "length name = DIRSIZ"
  shows "visited n pth name = Some (map (take DIRSIZ) (elements pth))"
  using assms
proof (induction n arbitrary: pth name)
  case (Suc n)
  show ?case
  proof (cases "skipelem pth name")
    case None
    then show ?thesis using skipelem_None [OF None] by simp
  next
    case (Some x)
    obtain p' name' where x: "x = (p', name')" by (cases x)
    note s = skipelem_Some [OF Some [unfolded x] Suc.prems(2)]
    have "visited n p' name' = Some (map (take DIRSIZ) (elements p'))" using s(1,2) Suc.prems(1) by (intro Suc.IH) auto
    then show ?thesis using s(3) Some x by auto
  qed
qed simp

theorem skipelem_visits_elements_witness:
  "visited 20 [slash, slash, 97, slash, 98, 98, slash] (replicate DIRSIZ 0) = Some [[97], [98, 98]]"
  using skipelem_visits_elements [of "[slash, slash, 97, slash, 98, 98, slash]" 20 "replicate DIRSIZ 0"]
  by (simp add: elements_def slash_def DIRSIZ_def)

end
