(* ===== verification/Balloc.thy ===== *)
theory Balloc
  imports Fs
begin

text \<open>
  Block allocation inside a transaction: what \<^verbatim>\<open>bzero\<close>, \<^verbatim>\<open>balloc\<close> and \<^verbatim>\<open>bfree\<close> of
  \<^verbatim>\<open>kernel/fs.c\<close> do to the blocks and to the bitmap of free blocks.
\<close>

section \<open>Transactions of the file system\<close>

text \<open>Code that keeps \<open>lsame\<close> keeps everything the file system adds to the state.\<close>

lemma more_fields:
  fixes s s' :: "'a fkern_scheme"
  assumes "lkern.more s' = lkern.more s"
  shows "sb s' = sb s" "itable_lock s' = itable_lock s" "inodes s' = inodes s" "printed s' = printed s" "fkern.more s' = fkern.more s"
  using assms by (cases s; cases s'; simp)+

lemmas lsame_fields = more_fields [OF lsame_def [THEN iffD1, THEN conjunct2, THEN conjunct2, THEN conjunct2, THEN conjunct2, THEN conjunct2]]

lemma card_logged: "txn c p s L \<Longrightarrow> card (logged s) = nat (lh_n s)"
  by (simp add: txn_def logged_def card_image)

text \<open>A step inside a transaction that leaves no block locked behind.\<close>

definition step_to :: "nat \<Rightarrow> nat \<Rightarrow> 'a lkern_scheme \<Rightarrow> 'a lkern_scheme \<Rightarrow> (u32 \<Rightarrow> u8 list) \<Rightarrow> u32 set \<Rightarrow> bool" where
  "step_to c p s s' v w \<longleftrightarrow> txn c p s' {} \<and> lsame s s' \<and> blk s' = v \<and> logged s' = logged s \<union> w"

lemma step_lh:
  assumes "step_to c p s s' v w" and "txn c p s {}" and "finite w"
  shows "lh_n s' \<le> lh_n s + int (card w)" "0 \<le> lh_n s'"
proof -
  have t: "txn c p s' {}" using assms(1) by (simp add: step_to_def)
  have "nat (lh_n s') = card (logged s')" "nat (lh_n s) = card (logged s)" using card_logged [OF t] card_logged [OF assms(2)] by simp_all
  moreover have "card (logged s') \<le> card (logged s) + card w" using assms(1) card_Un_le by (auto simp: step_to_def)
  moreover have "0 \<le> lh_n s'" "0 \<le> lh_n s" using assms(1,2) by (auto simp: step_to_def txn_def)
  ultimately show "lh_n s' \<le> lh_n s + int (card w)" "0 \<le> lh_n s'" by linarith+
qed

lemma step_trans:
  assumes "step_to c p s s1 v1 w1" and "step_to c p s1 s2 v2 w2"
  shows "step_to c p s s2 v2 (w1 \<union> w2)"
  using assms lsame_trans by (fastforce simp: step_to_def)

lemma small_log: "txn c p s {} \<Longrightarrow> lh_n s < int LOGBLOCKS \<Longrightarrow> card (logged s \<union> {}) < NBUF"
  using card_logged [of c p s "{}"] by (auto simp: LOGBLOCKS_def NBUF_def MAXOPBLOCKS_def txn_def)

text \<open>The two shapes of block access: look at a block, or change it through the log.\<close>

lemma step_peek:
  fixes s :: "'a lkern_scheme"
  assumes "txn c p s {}" and "lh_n s < int LOGBLOCKS"
  shows "\<exists>b s1 s2. bread c ROOTDEV n s = Ok (b, s1) \<and> b_data (bufs s1 b) = blk s n \<and> lsame s s1 \<and> brelse c b s1 = Ok s2 \<and>
    step_to c p s s2 (blk s) {}"
  using txn_peek [OF assms(1) _ small_log [OF assms], of n] by (auto simp: step_to_def)

lemma step_change:
  fixes s :: "'a lkern_scheme"
  assumes "txn c p s {}" and "lh_n s < int LOGBLOCKS"
  shows "\<exists>b s1. bread c ROOTDEV n s = Ok (b, s1) \<and> b_data (bufs s1 b) = blk s n \<and> lsame s s1 \<and>
    (\<forall>f. \<exists>s2 s3. log_write c b (set_data_of b f s1) = Ok s2 \<and> brelse c b s2 = Ok s3 \<and> lsame s s2 \<and>
      step_to c p s s3 ((blk s)(n := f (blk s n))) {n}) \<and>
    (\<exists>s2. brelse c b s1 = Ok s2 \<and> step_to c p s s2 (blk s) {})"
proof -
  obtain b s1 where s1: "bread c ROOTDEV n s = Ok (b, s1)" "txn c p s1 {n}" "lsame s s1" "b < NBUF" "caches s1 n b"
    "b_data (bufs s1 b) = blk s n" "blk s1 = blk s" "logged s1 = logged s" "lh_n s1 = lh_n s"
    using txn_read [OF assms(1) _ small_log [OF assms], of n] by auto
  have "\<exists>s2 s3. log_write c b (set_data_of b f s1) = Ok s2 \<and> brelse c b s2 = Ok s3 \<and> lsame s s2 \<and>
      step_to c p s s3 ((blk s)(n := f (blk s n))) {n}" for f
    using txn_change [OF s1(2,4,5), of f] assms(2) s1(7-9) lsame_trans [OF s1(3)] by (fastforce simp: step_to_def)
  moreover have "\<exists>s2. brelse c b s1 = Ok s2 \<and> step_to c p s s2 (blk s) {}"
    using step_peek [OF assms, of n] s1(1) by auto
  ultimately show ?thesis using s1 by blast
qed

section \<open>Zeroing, allocating and freeing a block\<close>

lemma bzero_effect:
  fixes s :: "'a fkern_scheme"
  assumes "txn c p s {}" and "lh_n s < int LOGBLOCKS"
  shows "\<exists>s'. bzero c ROOTDEV n s = Ok s' \<and> step_to c p s s' ((blk s)(n := replicate BSIZE 0 @ drop BSIZE (blk s n))) {n}"
proof -
  let ?f = "\<lambda>d. replicate BSIZE 0 @ drop BSIZE d"
  obtain b s1 s2 s3 where "bread c ROOTDEV n s = Ok (b, s1)" "log_write c b (set_data_of b ?f s1) = Ok s2" "brelse c b s2 = Ok s3"
    "step_to c p s s3 ((blk s)(n := ?f (blk s n))) {n}" using step_change [OF assms, of n] by meson
  then show ?thesis by (auto simp: bzero_def)
qed

text \<open>Whether the bitmap has block \<open>k\<close> as free.\<close>

definition block_free :: "'a fkern_scheme \<Rightarrow> nat \<Rightarrow> bool" where
  "block_free s k \<longleftrightarrow> bit_free (blk s (BBLOCK (of_nat k) (sb s))) (k mod BPB)"

definition first_free :: "'a fkern_scheme \<Rightarrow> nat \<Rightarrow> nat option" where
  "first_free s j = find (block_free s) [j..<unat (sb_size (sb s))]"

lemma BPB_val: "BPB = 8192"
  by (simp add: BPB_def BSIZE_def)

lemma BBLOCK_chunk:
  assumes "bi < BPB" and "j * BPB + bi < 2 ^ 32"
  shows "BBLOCK (of_nat (j * BPB + bi)) b = BBLOCK (of_nat (j * BPB)) b"
proof -
  have "unat (of_nat (j * BPB + bi) :: u32) = j * BPB + bi" "unat (of_nat (j * BPB) :: u32) = j * BPB"
    using assms by (simp_all add: unat_of_nat take_bit_nat_eq_self del: of_nat_add of_nat_mult)
  moreover have "unat (of_nat BPB :: u32) = BPB" by (simp add: BPB_val)
  ultimately have "unat (of_nat (j * BPB + bi) div of_nat BPB :: u32) = unat (of_nat (j * BPB) div of_nat BPB :: u32)"
    using assms(1) by (simp add: unat_div del: of_nat_add of_nat_mult)
  then show ?thesis unfolding BBLOCK_def by (metis word_unat_eq_iff)
qed

lemma find_map: "find P (map f xs) = map_option f (find (P \<circ> f) xs)"
  by (induction xs) auto

lemma takeWhile_less: "takeWhile (\<lambda>i. i < h) [0..<n] = [0..<min h n]"
proof (induction n)
  case (Suc n)
  then show ?case by (cases "n < h") (auto simp: takeWhile_append min_def le_Suc_eq)
qed simp

text \<open>The scan of one bitmap block looks at the blocks it covers below the size of the file system.\<close>

lemma scan_chunk:
  fixes s :: "'a fkern_scheme"
  assumes "unat (sb_size (sb s)) + BPB \<le> 2 ^ 32" and "j * BPB < unat (sb_size (sb s))"
  defines "hi \<equiv> min ((j + 1) * BPB) (unat (sb_size (sb s)))"
  shows "map_option (\<lambda>bi. j * BPB + bi) (balloc_scan (blk s (BBLOCK (of_nat (j * BPB)) (sb s))) (of_nat (j * BPB)) (sb_size (sb s)))
    = find (block_free s) [j * BPB..<hi]"
proof -
  let ?sz = "unat (sb_size (sb s))" and ?d = "blk s (BBLOCK (of_nat (j * BPB)) (sb s))"
  have b: "(of_nat (j * BPB) + of_nat bi < sb_size (sb s)) = (j * BPB + bi < ?sz)" if "bi < BPB" for bi
  proof -
    have "unat (of_nat (j * BPB + bi) :: u32) = j * BPB + bi"
      using that assms(1,2) by (simp add: unat_of_nat take_bit_nat_eq_self del: of_nat_add of_nat_mult)
    then show ?thesis by (simp add: word_less_nat_alt of_nat_add [symmetric] del: of_nat_add of_nat_mult)
  qed
  have tw: "takeWhile (\<lambda>bi. of_nat (j * BPB) + of_nat bi < sb_size (sb s)) [0..<BPB] = [0..<hi - j * BPB]"
  proof -
    have "takeWhile (\<lambda>bi. of_nat (j * BPB) + of_nat bi < sb_size (sb s)) [0..<BPB] = takeWhile (\<lambda>bi. bi < hi - j * BPB) [0..<BPB]"
      using b assms(2) by (intro takeWhile_cong) (auto simp: hi_def)
    also have "\<dots> = [0..<hi - j * BPB]" using takeWhile_less [of "hi - j * BPB" BPB] by (simp add: hi_def min_def split: if_splits)
    finally show ?thesis .
  qed
  have f: "bit_free ?d bi = block_free s (j * BPB + bi)" if "bi < BPB" for bi
    using BBLOCK_chunk [OF that, of j "sb s"] that assms(1,2) by (simp add: block_free_def)
  have "[j * BPB..<hi] = map ((+) (j * BPB)) [0..<hi - j * BPB]" using assms(2) by (intro nth_equalityI) (simp_all add: nth_upt hi_def less_diff_conv)
  then have "find (block_free s) [j * BPB..<hi] = map_option ((+) (j * BPB)) (find (block_free s \<circ> (+) (j * BPB)) [0..<hi - j * BPB])"
    by (simp add: find_map)
  also have "find (block_free s \<circ> (+) (j * BPB)) [0..<hi - j * BPB] = find (bit_free ?d) [0..<hi - j * BPB]"
    using f by (intro find_cong) (auto simp: hi_def)
  finally show ?thesis unfolding balloc_scan_def tw by simp
qed

lemma find_append: "find P (xs @ ys) = (case find P xs of Some x \<Rightarrow> Some x | None \<Rightarrow> find P ys)"
  by (induction xs) auto

lemma less_size:
  assumes "j * BPB < sz + BPB" and "sz + BPB \<le> 2 ^ 32" and "unat (z :: u32) = sz"
  shows "of_nat (j * BPB) < z \<longleftrightarrow> j * BPB < sz"
proof -
  have "unat (of_nat (j * BPB) :: u32) = j * BPB" using assms by (simp add: unat_of_nat take_bit_nat_eq_self del: of_nat_add of_nat_mult)
  then show ?thesis using assms(3) by (simp add: word_less_nat_alt del: of_nat_mult)
qed

definition alloc_view :: "'a fkern_scheme \<Rightarrow> nat \<Rightarrow> u32 \<Rightarrow> u8 list" where
  "alloc_view s k =
     (let n = BBLOCK (of_nat k) (sb s); v = (blk s)(n := set_bit_at (k mod BPB) (blk s n))
      in v(of_nat k := replicate BSIZE 0 @ drop BSIZE (v (of_nat k))))"

lemma balloc_found:
  fixes s s1 :: "'a fkern_scheme"
  assumes "txn c p s {}" and "lh_n s + 2 \<le> int LOGBLOCKS" and "bi < BPB" and "j * BPB + bi < 2 ^ 32"
  defines "n \<equiv> BBLOCK (of_nat (j * BPB)) (sb s)"
  assumes "log_write c b (set_data_of b (set_bit_at bi) s1) = Ok s2" and "brelse c b s2 = Ok s3"
    and "step_to c p s s3 ((blk s)(n := set_bit_at bi (blk s n))) {n}"
  shows "\<exists>s'. bzero c ROOTDEV (of_nat (j * BPB) + of_nat bi) s3 = Ok s' \<and>
    step_to c p s s' (alloc_view s (j * BPB + bi)) {BBLOCK (of_nat (j * BPB + bi)) (sb s), of_nat (j * BPB + bi)}"
proof -
  have t3: "txn c p s3 {}" and v: "blk s3 = (blk s)(n := set_bit_at bi (blk s n))" using assms(8) by (auto simp: step_to_def)
  have "lh_n s3 \<le> lh_n s + 1" using step_lh(1) [OF assms(8,1)] by simp
  then have "lh_n s3 < int LOGBLOCKS" using assms(2) by linarith
  then obtain s' where s': "bzero c ROOTDEV (of_nat (j * BPB) + of_nat bi) s3 = Ok s'"
    "step_to c p s3 s' ((blk s3)(of_nat (j * BPB) + of_nat bi := replicate BSIZE 0 @ drop BSIZE (blk s3 (of_nat (j * BPB) + of_nat bi)))) {of_nat (j * BPB) + of_nat bi}"
    using bzero_effect [OF t3] by blast
  have "alloc_view s (j * BPB + bi) = (blk s3)(of_nat (j * BPB) + of_nat bi := replicate BSIZE 0 @ drop BSIZE (blk s3 (of_nat (j * BPB) + of_nat bi)))"
    using BBLOCK_chunk [OF assms(3,4), of "sb s"] assms(3) unfolding v by (simp add: alloc_view_def Let_def n_def)
  then show ?thesis using s' step_trans [OF assms(8) s'(2)] BBLOCK_chunk [OF assms(3,4), of "sb s"]
    by (auto simp: n_def insert_commute)
qed

lemma balloc_loop_effect:
  fixes s :: "'a fkern_scheme"
  assumes "txn c p s {}" and "lh_n s + 2 \<le> int LOGBLOCKS" and "unat (sb_size (sb s)) + BPB \<le> 2 ^ 32"
    and "unat (sb_size (sb s)) \<le> (j + m) * BPB" and "j * BPB < unat (sb_size (sb s)) + BPB"
  shows "case first_free s (j * BPB) of
      None \<Rightarrow> \<exists>s'. balloc_loop (Suc m) c ROOTDEV (of_nat (j * BPB)) s = Ok (0, kprintf ''balloc: out of blocks\<newline>'' [] s') \<and> step_to c p s s' (blk s) {}
    | Some k \<Rightarrow> \<exists>s'. balloc_loop (Suc m) c ROOTDEV (of_nat (j * BPB)) s = Ok (of_nat k, s') \<and>
        step_to c p s s' (alloc_view s k) {BBLOCK (of_nat k) (sb s), of_nat k}"
  using assms
proof (induction m arbitrary: j s)
  case 0
  then have "\<not> j * BPB < unat (sb_size (sb s))" by simp
  moreover have "step_to c p s s (blk s) {}" using 0 by (simp add: step_to_def)
  ultimately show ?case using less_size [OF 0(5,3) refl] by (auto simp: first_free_def)
next
  case (Suc m)
  let ?sz = "unat (sb_size (sb s))" and ?b = "of_nat (j * BPB) :: u32"
  let ?n = "BBLOCK ?b (sb s)"
  show ?case
  proof (cases "j * BPB < ?sz")
    case False
    moreover have "step_to c p s s (blk s) {}" using Suc.prems by (simp add: step_to_def)
    ultimately show ?thesis using less_size [OF Suc.prems(5,3) refl] by (auto simp: first_free_def)
  next
    case True
    then have lt: "?b < sb_size (sb s)" using less_size [OF Suc.prems(5,3) refl] by simp
    have l30: "lh_n s < int LOGBLOCKS" using Suc.prems(2) by linarith
    obtain b s1 where s1: "bread c ROOTDEV ?n s = Ok (b, s1)" "b_data (bufs s1 b) = blk s ?n" "lsame s s1"
      "\<And>f. \<exists>s2 s3. log_write c b (set_data_of b f s1) = Ok s2 \<and> brelse c b s2 = Ok s3 \<and> lsame s s2 \<and>
         step_to c p s s3 ((blk s)(?n := f (blk s ?n))) {?n}"
      "\<exists>s2. brelse c b s1 = Ok s2 \<and> step_to c p s s2 (blk s) {}"
      using step_change [OF Suc.prems(1) l30, of ?n] by blast
    have sb1: "sb s1 = sb s" using lsame_fields(1) [OF s1(3)] .
    let ?scan = "balloc_scan (blk s ?n) ?b (sb_size (sb s))"
    let ?hi = "min ((j + 1) * BPB) ?sz"
    have sc: "map_option (\<lambda>bi. j * BPB + bi) ?scan = find (block_free s) [j * BPB..<?hi]"
      by (rule scan_chunk [OF Suc.prems(3) True])
    have sp: "[j * BPB..<?sz] = [j * BPB..<?hi] @ [?hi..<?sz]"
      using True upt_add_eq_append [of "j * BPB" ?hi "?sz - ?hi"] by simp
    show ?thesis
    proof (cases ?scan)
      case None
      then obtain s2 where s2: "brelse c b s1 = Ok s2" "step_to c p s s2 (blk s) {}" using s1(5) by blast
      have ff: "find (block_free s) [j * BPB..<?hi] = None" using sc None by simp
      have t2: "txn c p s2 {}" and b2: "blk s2 = blk s" and sb2: "sb s2 = sb s" and fr: "block_free s2 = block_free s"
        using s2(2) lsame_fields(1) [of s s2] by (auto simp: step_to_def block_free_def fun_eq_iff)
      have "lh_n s2 + 2 \<le> int LOGBLOCKS" using step_lh(1) [OF s2(2) Suc.prems(1)] Suc.prems(2) by simp
      note ih = Suc.IH [OF t2 this, of "Suc j"]
      have "first_free s (j * BPB) = first_free s2 (Suc j * BPB)"
        using ff fr by (auto simp: first_free_def sp find_append sb2 min_def)
      moreover have "balloc_loop (Suc (Suc m)) c ROOTDEV ?b s = balloc_loop (Suc m) c ROOTDEV (of_nat (Suc j * BPB)) s2"
        using lt s1(1,2) sb1 None s2(1) by (simp add: add.commute)
      moreover have "alloc_view s2 k = alloc_view s k" for k by (simp add: alloc_view_def sb2 b2)
      ultimately show ?thesis using ih Suc.prems(3,4) True sb2 b2 step_trans [OF s2(2)]
        by (auto split: option.splits)
    next
      case (Some bi)
      then have bi: "bi < BPB" by (auto simp: balloc_scan_def find_Some_iff dest!: nth_mem set_takeWhileD)
      have lt2: "j * BPB + bi < 2 ^ 32" using bi True Suc.prems(3) by linarith
      obtain s2 s3 where s3: "log_write c b (set_data_of b (set_bit_at bi) s1) = Ok s2" "brelse c b s2 = Ok s3"
        "step_to c p s s3 ((blk s)(?n := set_bit_at bi (blk s ?n))) {?n}" using s1(4) by blast
      obtain s' where s': "bzero c ROOTDEV (?b + of_nat bi) s3 = Ok s'"
        "step_to c p s s' (alloc_view s (j * BPB + bi)) {BBLOCK (of_nat (j * BPB + bi)) (sb s), of_nat (j * BPB + bi)}"
        using balloc_found [OF Suc.prems(1,2) bi lt2 s3] by blast
      have "first_free s (j * BPB) = Some (j * BPB + bi)" using sc [symmetric] Some by (simp add: first_free_def sp find_append)
      moreover have "balloc_loop (Suc (Suc m)) c ROOTDEV ?b s = Ok (of_nat (j * BPB + bi), s')"
        using lt s1(1,2) sb1 Some s3(1,2) s'(1) by simp
      ultimately show ?thesis using s'(2) by auto
    qed
  qed
qed

lemma bit_free_iff: "bit_free d bi \<longleftrightarrow> \<not> bit (d ! (bi div 8)) (bi mod 8)"
  by (simp add: bit_free_def bit_iff_and_push_bit_not_eq_0)

lemma same_bit: "(i :: nat) div 8 = j div 8 \<Longrightarrow> i mod 8 = j mod 8 \<Longrightarrow> i = j"
  by (metis div_mult_mod_eq)

lemma bit_free_set: "bi div 8 < length d \<Longrightarrow> bit_free (set_bit_at bi d) bj \<longleftrightarrow> bit_free d bj \<and> bj \<noteq> bi"
  by (auto simp: bit_free_iff set_bit_at_def nth_list_update bit_simps dest: same_bit [THEN sym])

lemma bit_free_clear: "bi div 8 < length d \<Longrightarrow> bit_free (clear_bit_at bi d) bj \<longleftrightarrow> bit_free d bj \<or> bj = bi"
  by (auto simp: bit_free_iff clear_bit_at_def nth_list_update bit_simps dest: same_bit [THEN sym])

text \<open>The blocks of the bitmap are not themselves free.\<close>

definition bitmap_ok :: "'a fkern_scheme \<Rightarrow> bool" where
  "bitmap_ok s \<longleftrightarrow> unat (sb_size (sb s)) + BPB \<le> 2 ^ 32 \<and> sized s \<and>
     (\<forall>i < unat (sb_size (sb s)). \<forall>k < unat (sb_size (sb s)). block_free s i \<longrightarrow> of_nat i \<noteq> BBLOCK (of_nat k) (sb s))"

lemma BBLOCK_inj:
  assumes "BBLOCK (of_nat i) b = BBLOCK (of_nat k) b" and "i mod BPB = k mod BPB" and "i < 2 ^ 32" and "k < 2 ^ 32"
  shows "i = k"
proof -
  have "of_nat i div of_nat BPB = (of_nat k div of_nat BPB :: u32)" using assms(1) by (simp add: BBLOCK_def)
  then have "unat (of_nat i :: u32) div unat (of_nat BPB :: u32) = unat (of_nat k :: u32) div unat (of_nat BPB :: u32)" by (simp flip: unat_div)
  then have "i div BPB = k div BPB" using assms(3,4) by (simp add: unat_of_nat take_bit_nat_eq_self BPB_val)
  then show ?thesis using assms(2) by (metis div_mult_mod_eq)
qed

lemma txn_printed:
  fixes s :: "'a fkern_scheme"
  assumes "txn c p s L"
  shows "txn c p (kprintf f as s) L" "blk (kprintf f as s) = blk s"
proof -
  have h: "holds c p s (logged s) L" using assms by (simp add: txn_def)
  have "runs c p (s\<lparr>printed := x\<rparr>)" for x using h by (simp add: holds_def runs_def quiet_def hart_ok_def intr_get_def)
  from holds_moves [OF h this] have m: "holds c p (s\<lparr>printed := x\<rparr>) (logged s) L" "blk (s\<lparr>printed := x\<rparr>) = blk s" for x by simp_all
  show "txn c p (kprintf f as s) L" "blk (kprintf f as s) = blk s"
    using assms m by (simp_all add: kprintf_def txn_def logged_def split: option.splits)
qed

lemma alloc_view_blocks:
  fixes s s' :: "'a fkern_scheme"
  assumes "bitmap_ok s" and "step_to c p s s' (alloc_view s k) w" and "k < unat (sb_size (sb s))" and "block_free s k"
  shows "blk s' (of_nat k) = replicate BSIZE 0"
    and "\<forall>i < unat (sb_size (sb s)). block_free s' i \<longleftrightarrow> block_free s i \<and> i \<noteq> k"
    and "\<forall>n. n \<noteq> of_nat k \<and> n \<noteq> BBLOCK (of_nat k) (sb s) \<longrightarrow> blk s' n = blk s n"
proof -
  let ?n = "BBLOCK (of_nat k) (sb s)"
  have v: "blk s' = alloc_view s k" and sb: "sb s' = sb s" using assms(2) lsame_fields(1) [of s s'] by (auto simp: step_to_def)
  have nk: "of_nat k \<noteq> ?n" and sz: "\<And>n. length (blk s n) = BSIZE" and lim: "unat (sb_size (sb s)) + BPB \<le> 2 ^ 32"
    using assms(1,3,4) by (auto simp: bitmap_ok_def sized_def)
  have v': "blk s' = (blk s)(?n := set_bit_at (k mod BPB) (blk s ?n), of_nat k := replicate BSIZE 0)"
    using nk sz by (simp add: v alloc_view_def Let_def)
  then show "blk s' (of_nat k) = replicate BSIZE 0" and "\<forall>n. n \<noteq> of_nat k \<and> n \<noteq> ?n \<longrightarrow> blk s' n = blk s n" by simp_all
  show "\<forall>i < unat (sb_size (sb s)). block_free s' i \<longleftrightarrow> block_free s i \<and> i \<noteq> k"
  proof (intro allI impI)
    fix i
    assume i: "i < unat (sb_size (sb s))"
    then have d: "of_nat k \<noteq> BBLOCK (of_nat i) (sb s)" using assms(1,3,4) by (auto simp: bitmap_ok_def)
    have "k mod BPB div 8 < BSIZE" by (simp add: BPB_def BSIZE_def)
    then have bs: "bit_free (set_bit_at (k mod BPB) (blk s ?n)) bj \<longleftrightarrow> bit_free (blk s ?n) bj \<and> bj \<noteq> k mod BPB" for bj
      by (simp add: bit_free_set sz)
    show "block_free s' i \<longleftrightarrow> block_free s i \<and> i \<noteq> k"
      using d bs BBLOCK_inj [of i "sb s" k] i assms(3) lim by (auto simp: block_free_def sb v')
  qed
qed

text \<open>
  C32: inside a transaction with room for two more blocks, balloc returns the first block the
  bitmap has as free: it is zeroed, marked as used with no other mark changed, and no other block
  than it and its bitmap block is written. It returns 0 with the blocks unchanged exactly when no
  block is free. It always returns.
\<close>

theorem balloc_first_free:
  fixes s :: "'a fkern_scheme"
  assumes "txn c p s {}" and "lh_n s + 2 \<le> int LOGBLOCKS" and "bitmap_ok s"
  shows "case find (block_free s) [0..<unat (sb_size (sb s))] of
      None \<Rightarrow> \<exists>s'. balloc c ROOTDEV s = Ok (0, s') \<and> txn c p s' {} \<and> blk s' = blk s \<and> logged s' = logged s
    | Some k \<Rightarrow> \<exists>s'. balloc c ROOTDEV s = Ok (of_nat k, s') \<and> txn c p s' {} \<and> blk s' (of_nat k) = replicate BSIZE 0 \<and>
        (\<forall>i < unat (sb_size (sb s)). block_free s' i \<longleftrightarrow> block_free s i \<and> i \<noteq> k) \<and>
        (\<forall>n. n \<noteq> of_nat k \<and> n \<noteq> BBLOCK (of_nat k) (sb s) \<longrightarrow> blk s' n = blk s n) \<and>
        logged s' = logged s \<union> {BBLOCK (of_nat k) (sb s), of_nat k}"
proof -
  let ?sz = "unat (sb_size (sb s))"
  have lim: "?sz + BPB \<le> 2 ^ 32" using assms(3) by (simp add: bitmap_ok_def)
  have fuel: "?sz \<le> (0 + Suc (?sz div BPB)) * BPB" using div_mult_mod_eq [of ?sz BPB] mod_less_divisor [of BPB ?sz] by (simp add: BPB_val)
  have "0 * BPB < ?sz + BPB" by (simp add: BPB_val)
  note e = balloc_loop_effect [OF assms(1,2) lim fuel this]
  have b: "balloc c ROOTDEV s = balloc_loop (Suc (Suc (?sz div BPB))) c ROOTDEV (of_nat (0 * BPB)) s" by (simp add: balloc_def)
  show ?thesis
  proof (cases "find (block_free s) [0..<?sz]")
    case None
    then obtain s' where s': "balloc c ROOTDEV s = Ok (0, kprintf ''balloc: out of blocks\<newline>'' [] s')" "step_to c p s s' (blk s) {}"
      using e unfolding b by (auto simp: first_free_def)
    have "logged (kprintf f as s') = logged s'" for f as by (simp add: logged_def kprintf_def split: option.splits)
    then show ?thesis using None s' txn_printed [of c p s' "{}"] by (auto simp: step_to_def)
  next
    case (Some k)
    then have k: "k < ?sz" "block_free s k" by (auto simp: find_Some_iff)
    obtain s' where s': "balloc c ROOTDEV s = Ok (of_nat k, s')" "step_to c p s s' (alloc_view s k) {BBLOCK (of_nat k) (sb s), of_nat k}"
      using e Some unfolding b by (auto simp: first_free_def)
    then show ?thesis using Some alloc_view_blocks [OF assms(3) s'(2) k] by (auto simp: step_to_def)
  qed
qed

text \<open>
  C35: bfree marks the block as free with no other mark and no other block changed; it panics
  exactly when the bitmap already has the block as free.
\<close>

theorem bfree_exact:
  fixes s :: "'a fkern_scheme"
  assumes "txn c p s {}" and "lh_n s < int LOGBLOCKS" and "sized s" and "unat b < unat (sb_size (sb s))"
  shows "if block_free s (unat b) then bfree c ROOTDEV b s = Panic ''freeing free block''
    else \<exists>s'. bfree c ROOTDEV b s = Ok s' \<and> txn c p s' {} \<and>
      (\<forall>i < unat (sb_size (sb s)). block_free s' i \<longleftrightarrow> block_free s i \<or> i = unat b) \<and>
      (\<forall>n. n \<noteq> BBLOCK b (sb s) \<longrightarrow> blk s' n = blk s n) \<and> logged s' = insert (BBLOCK b (sb s)) (logged s)"
proof -
  let ?n = "BBLOCK b (sb s)" and ?bi = "unat b mod BPB"
  obtain x s1 s2 s3 where s1: "bread c ROOTDEV ?n s = Ok (x, s1)" "b_data (bufs s1 x) = blk s ?n" "lsame s s1"
    "log_write c x (set_data_of x (clear_bit_at ?bi) s1) = Ok s2" "brelse c x s2 = Ok s3"
    "step_to c p s s3 ((blk s)(?n := clear_bit_at ?bi (blk s ?n))) {?n}"
    using step_change [OF assms(1,2), of ?n] by meson
  have f: "block_free s (unat b) = bit_free (blk s ?n) ?bi" by (simp add: block_free_def)
  have v: "blk s3 = (blk s)(?n := clear_bit_at ?bi (blk s ?n))" and sb: "sb s3 = sb s" using s1(6) lsame_fields(1) [of s s3] by (auto simp: step_to_def)
  have "?bi div 8 < length (blk s ?n)" using assms(3) by (simp add: sized_def BPB_def BSIZE_def)
  then have bc: "bit_free (clear_bit_at ?bi (blk s ?n)) bj \<longleftrightarrow> bit_free (blk s ?n) bj \<or> bj = ?bi" for bj by (rule bit_free_clear)
  have "block_free s3 i \<longleftrightarrow> block_free s i \<or> i = unat b" if i: "i < unat (sb_size (sb s))" for i
  proof -
    have u: "unat (x :: u32) < 2 ^ LENGTH(32)" for x by (rule unsigned_less)
    have "i < 2 ^ 32" "unat b < 2 ^ 32" using i u [of "sb_size (sb s)"] u [of b] by simp_all
    then show ?thesis using bc BBLOCK_inj [of i "sb s" "unat b"] by (auto simp: block_free_def sb v)
  qed
  then show ?thesis using s1 f v by (auto simp: bfree_def Let_def step_to_def)
qed

section \<open>A file system to look at\<close>

text \<open>Booted on disk \<open>d\<close>, with a super block and a table of inodes.\<close>

definition fkern0 :: "(u32 \<Rightarrow> u8 list) \<Rightarrow> superblock \<Rightarrow> (nat \<Rightarrow> inode) \<Rightarrow> fkern" where
  "fkern0 d b t = binit (lkern.extend (lkern0\<lparr>disk0 := d\<rparr>) \<lparr>sb = b, itable_lock = initlock ''itable'', inodes = t, printed = []\<rparr>)"

lemma fkern0_tidy:
  assumes "\<And>n. length (d n) = BSIZE"
  shows "tidy 0 2 (fkern0 d b t)" "blk (fkern0 d b t) = d" "sb (fkern0 d b t) = b" "inodes (fkern0 d b t) = t"
    "itable_lock (fkern0 d b t) = initlock ''itable''"
proof -
  define s where "s = lkern.extend (lkern0\<lparr>disk0 := d\<rparr>) \<lparr>sb = b, itable_lock = initlock ''itable'', inodes = t, printed = []\<rparr>"
  note defs = s_def lkern0_def bkern0_def zero_buf_def kern.defs bkern.defs lkern.defs
  have r: "runs 0 2 s" by (simp add: defs runs_def quiet_def hart_ok_def intr_get_def one_running_def boot_hw_def)
  have z: "\<forall>x < NBUF. b_dev (bufs s x) = 0 \<and> b_refcnt (bufs s x) = 0 \<and> \<not> b_valid (bufs s x)" by (simp add: defs)
  have "disk s = d" by (simp add: defs disk_def)
  then show v: "blk (fkern0 d b t) = d" using binit_effect(2) [OF z] by (simp add: fkern0_def flip: s_def)
  show "tidy 0 2 (fkern0 d b t)"
    using holds_binit [OF r z] assms v
    by (simp add: tidy_def binit_lkern sized_def fkern0_def initlock_def lock_clean_def flip: s_def) (simp add: defs initlock_def)
  have "sb s = b" "inodes s = t" "itable_lock s = initlock ''itable''" by (simp_all add: s_def lkern.defs)
  then show "sb (fkern0 d b t) = b" "inodes (fkern0 d b t) = t" "itable_lock (fkern0 d b t) = initlock ''itable''"
    using more_fields [OF binit_lkern(7) [of s]] by (simp_all add: fkern0_def flip: s_def)
qed

lemma fkern0_txn:
  assumes "\<And>n. length (d n) = BSIZE"
  shows "\<exists>s :: fkern. txn 0 2 s {} \<and> blk s = d \<and> sb s = b \<and> inodes s = t \<and> lh_n s = 0 \<and> logged s = {}"
proof -
  note f = fkern0_tidy [where d = d and b = b and t = t, OF assms]
  obtain s where s: "txn 0 2 s {}" "blk s = blk (fkern0 d b t)" "lh_n s = 0" "lkern.more s = lkern.more (fkern0 d b t)"
    using begin_txn [OF f(1)] by auto
  then show ?thesis using f more_fields [OF s(4)] by (intro exI [of _ s]) (simp add: logged_def)
qed

text \<open>100 blocks of which the first 48 are used; the bitmap is in block 40.\<close>

definition sample_sb :: superblock where
  "sample_sb = \<lparr>sb_magic = FSMAGIC, sb_size = 100, sb_nblocks = 52, sb_ninodes = 16, sb_nlog = 31, sb_logstart = 2,
     sb_inodestart = 33, sb_bmapstart = 40\<rparr>"

definition sample_disk :: "u32 \<Rightarrow> u8 list" where
  "sample_disk n = (if n = 40 then replicate 6 255 @ replicate (BSIZE - 6) 0 else replicate BSIZE 7)"

lemma sample_disk_length [simp]: "length (sample_disk n) = BSIZE"
  by (simp add: sample_disk_def BSIZE_def)

lemma sample_free:
  fixes s :: fkern
  assumes "blk s = sample_disk" and "sb s = sample_sb" and "k < 100"
  shows "BBLOCK (of_nat k) (sb s) = 40" "block_free s k \<longleftrightarrow> 48 \<le> k"
proof -
  have "unat (of_nat k div of_nat BPB :: u32) = 0" using assms(3) by (simp add: unat_div BPB_val unat_of_nat take_bit_nat_eq_self)
  then have "of_nat k div of_nat BPB = (0 :: u32)" by (simp add: unat_eq_0)
  then show b: "BBLOCK (of_nat k) (sb s) = 40" by (simp add: BBLOCK_def assms(2) sample_sb_def)
  have o: "bit (255 :: u8) (k mod 8)"
  proof -
    have "\<forall>i \<in> set [0..<8]. bit (255 :: u8) i" by code_simp
    then show ?thesis by simp
  qed
  show "block_free s k \<longleftrightarrow> 48 \<le> k"
    using assms(3) o unfolding block_free_def b assms(1) by (auto simp: bit_free_iff sample_disk_def nth_append BPB_val BSIZE_def less_eq_div_iff_mult_less_eq)
qed

lemma sample_ok: "blk s = sample_disk \<Longrightarrow> sb s = sample_sb \<Longrightarrow> bitmap_ok (s :: fkern)"
proof -
  assume a: "blk s = sample_disk" "sb s = sample_sb"
  have "of_nat i \<noteq> (40 :: u32)" if "48 \<le> i" "i < 100" for i
  proof
    assume "of_nat i = (40 :: u32)"
    then have "unat (of_nat i :: u32) = unat (40 :: u32)" by simp
    then show False using that by (simp add: unat_of_nat take_bit_nat_eq_self)
  qed
  then show ?thesis using sample_free [OF a] a by (auto simp: bitmap_ok_def sized_def BPB_val) (simp_all add: sample_sb_def)
qed

theorem balloc_first_free_witness:
  "\<exists>(s :: fkern) s'. block_free s 48 \<and> balloc 0 ROOTDEV s = Ok (48, s') \<and> blk s' 48 = replicate BSIZE 0 \<and> \<not> block_free s' 48 \<and> block_free s' 49"
proof -
  obtain s :: fkern where s: "txn 0 2 s {}" "blk s = sample_disk" "sb s = sample_sb" "lh_n s = 0"
    using fkern0_txn [of sample_disk sample_sb "\<lambda>_. undefined"] by auto
  note f = sample_free [OF s(2,3)]
  have u: "unat (sb_size (sb s)) = 100" by (simp add: s(3) sample_sb_def)
  have fnd: "find (block_free s) [0..<100] = Some 48" using f by (intro find_Some_iff [THEN iffD2] exI [of _ 48]) simp
  have l: "lh_n s + 2 \<le> int LOGBLOCKS" using s(4) by (simp add: LOGBLOCKS_def MAXOPBLOCKS_def)
  obtain s' where s': "balloc 0 ROOTDEV s = Ok (of_nat 48, s')" "blk s' (of_nat 48) = replicate BSIZE 0"
    "\<And>i. i < 100 \<Longrightarrow> block_free s' i \<longleftrightarrow> block_free s i \<and> i \<noteq> 48"
    using balloc_first_free [OF s(1) l sample_ok [OF s(2,3)]] unfolding u fnd option.case by blast
  show ?thesis using s'(1,2) s'(3) [of 48] s'(3) [of 49] f by (intro exI [of _ s] exI [of _ s']) simp
qed

theorem bfree_exact_witness:
  "\<exists>(s :: fkern) s'. bfree 0 ROOTDEV 60 s = Panic ''freeing free block'' \<and> bfree 0 ROOTDEV 12 s = Ok s' \<and> block_free s' 12 \<and> \<not> block_free s' 13"
proof -
  obtain s :: fkern where s: "txn 0 2 s {}" "blk s = sample_disk" "sb s = sample_sb" "lh_n s = 0"
    using fkern0_txn [of sample_disk sample_sb "\<lambda>_. undefined"] by auto
  note f = sample_free [OF s(2,3)]
  have u: "unat (sb_size (sb s)) = 100" by (simp add: s(3) sample_sb_def)
  have l: "lh_n s < int LOGBLOCKS" and z: "sized s" using s by (simp_all add: LOGBLOCKS_def MAXOPBLOCKS_def sized_def)
  have "bfree 0 ROOTDEV 60 s = Panic ''freeing free block''" using bfree_exact [OF s(1) l z, of 60] f u by simp
  moreover have "\<exists>s'. bfree 0 ROOTDEV 12 s = Ok s' \<and> block_free s' 12 \<and> \<not> block_free s' 13"
    using bfree_exact [OF s(1) l z, of 12] f u by auto
  ultimately show ?thesis by blast
qed

end
