(* ===== verification/Files.thy ===== *)
theory Files
  imports Balloc
begin

text \<open>
  The contents of files: what \<^verbatim>\<open>readi\<close> and \<^verbatim>\<open>writei\<close> of \<^verbatim>\<open>kernel/fs.c\<close> move between a
  buffer of the kernel and the blocks of a file, and what \<^verbatim>\<open>iupdate\<close> stores of an inode.
\<close>

section \<open>Files as sequences of bytes\<close>

definition addr_of :: "'a fkern_scheme \<Rightarrow> nat \<Rightarrow> nat \<Rightarrow> u32" where
  "addr_of s ip bn =
     (if bn < NDIRECT then i_addrs (inodes s ip) ! bn else get32 (blk s (i_addrs (inodes s ip) ! NDIRECT)) (4 * (bn - NDIRECT)))"

definition fbyte :: "'a fkern_scheme \<Rightarrow> nat \<Rightarrow> nat \<Rightarrow> u8" where
  "fbyte s ip k = blk s (addr_of s ip (k div BSIZE)) ! (k mod BSIZE)"

text \<open>The first \<open>n\<close> bytes of the file lie in blocks that are allocated.\<close>

definition mapped :: "'a fkern_scheme \<Rightarrow> nat \<Rightarrow> nat \<Rightarrow> bool" where
  "mapped s ip n \<longleftrightarrow> i_dev (inodes s ip) = ROOTDEV \<and> n \<le> MAXFILE * BSIZE \<and> sized s \<and>
     (\<forall>k < n. addr_of s ip (k div BSIZE) \<noteq> 0 \<and> (NDIRECT \<le> k div BSIZE \<longrightarrow> i_addrs (inodes s ip) ! NDIRECT \<noteq> 0))"

lemma upt_split: "a \<le> b \<Longrightarrow> b \<le> d \<Longrightarrow> [a..<d] = [a..<b] @ [b..<d]"
  by (metis upt_add_eq_append le_add_diff_inverse)

lemma BSIZE_val: "BSIZE = 1024"
  by (simp add: BSIZE_def)

lemma MAXFILE_val: "MAXFILE = 268"
  by (simp add: MAXFILE_def NDIRECT_def NINDIRECT_def BSIZE_def)

lemma same_view:
  fixes s s' :: "'a fkern_scheme"
  assumes "step_to c p s s' (blk s) {}"
  shows "addr_of s' = addr_of s" "fbyte s' = fbyte s" "mapped s' = mapped s" "inodes s' = inodes s" "sb s' = sb s"
    "blk s' = blk s" "txn c p s' {}" "sized s' = sized s"
proof -
  have l: "lsame s s'" and b: "blk s' = blk s" using assms by (simp_all add: step_to_def)
  show i: "inodes s' = inodes s" "sb s' = sb s" using lsame_fields [OF l] by simp_all
  show a: "addr_of s' = addr_of s" by (simp add: fun_eq_iff addr_of_def i b)
  show "fbyte s' = fbyte s" "sized s' = sized s" by (simp_all add: fun_eq_iff fbyte_def sized_def a b)
  then show "mapped s' = mapped s" by (simp add: fun_eq_iff mapped_def a i)
  show "blk s' = blk s" "txn c p s' {}" using assms by (simp_all add: step_to_def)
qed

lemma bmap_mapped:
  fixes s :: "'a fkern_scheme"
  assumes "txn c p s {}" and "lh_n s < int LOGBLOCKS" and "mapped s ip n" and "k < n"
  shows "\<exists>s'. bmap c ip (k div BSIZE) s = Ok (addr_of s ip (k div BSIZE), s') \<and> step_to c p s s' (blk s) {}"
proof (cases "k div BSIZE < NDIRECT")
  case True
  have "addr_of s ip (k div BSIZE) \<noteq> 0" using assms(3,4) by (auto simp: mapped_def)
  then show ?thesis using True assms(1) by (auto simp: bmap_def addr_of_def step_to_def)
next
  case False
  let ?ind = "i_addrs (inodes s ip) ! NDIRECT" and ?a = "addr_of s ip (k div BSIZE)"
  have "k div BSIZE < MAXFILE"
    using assms(3,4) by (auto simp: mapped_def MAXFILE_val BSIZE_val intro!: less_mult_imp_div_less)
  then have r: "k div BSIZE - NDIRECT < NINDIRECT" using False by (simp add: MAXFILE_def)
  have z: "?a \<noteq> 0" "?ind \<noteq> 0" and d: "i_dev (inodes s ip) = ROOTDEV" using assms(3,4) False by (auto simp: mapped_def)
  obtain b s1 s2 where s1: "bread c ROOTDEV ?ind s = Ok (b, s1)" "b_data (bufs s1 b) = blk s ?ind" "brelse c b s1 = Ok s2" "step_to c p s s2 (blk s) {}"
    using step_peek [OF assms(1,2), of ?ind] by blast
  have "get32 (blk s ?ind) (4 * (k div BSIZE - NDIRECT)) = ?a" using False by (simp add: addr_of_def)
  then show ?thesis using False r z d s1 by (simp add: bmap_def Let_def)
qed

lemma txn_settle:
  fixes s :: "'a lkern_scheme"
  assumes "txn c p s L"
  shows "txn c p (settle c s) L" "lsame s (settle c s)" "blk (settle c s) = blk s" "logged (settle c s) = logged s"
    "caches (settle c s) = caches s" "lh_n (settle c s) = lh_n s"
proof -
  have h: "holds c p s (logged s) L" using assms by (simp add: txn_def)
  have f: "bufs (settle c s) = bufs s" "bcache_lock (settle c s) = bcache_lock s" "disk0 (settle c s) = disk0 s" "dwrites (settle c s) = dwrites s"
    "log_lock (settle c s) = log_lock s" "log_dev (settle c s) = log_dev s" "log_committing (settle c s) = log_committing s" "lh_block (settle c s) = lh_block s"
    "log_outstanding (settle c s) = log_outstanding s" "log_start (settle c s) = log_start s" "lkern.more (settle c s) = lkern.more s"
    by (simp_all add: settle_def set_cpu_def)
  show n: "lh_n (settle c s) = lh_n s" by (simp add: settle_def set_cpu_def)
  have kf: "kframe s (settle c s)" by simp
  have r: "runs c p (settle c s)" using h runs_kframe [OF kf] by (simp add: holds_def)
  have mv: "holds c p (settle c s) (logged s) L" "blk (settle c s) = blk s"
    by (rule holds_moves [OF h r f(1,2) _ f(3,4)]; simp add: settle_procs)+
  show lg: "logged (settle c s) = logged s" by (simp add: logged_def f n)
  then show "txn c p (settle c s) L" using assms mv(1) by (simp add: txn_def f n)
  show "lsame s (settle c s)" using kf by (simp add: lsame_def f)
  show "blk (settle c s) = blk s" by (rule mv)
  show "caches (settle c s) = caches s" by (simp add: fun_eq_iff caches_def f)
qed

lemma txn_hart: "txn c p s L \<Longrightarrow> hart_ok c s" "txn c p s L \<Longrightarrow> cpu_proc (cpus s c) = Some p"
  by (auto simp: txn_def holds_def runs_def quiet_def)

text \<open>The bytes of one block that a round of the loops moves.\<close>

lemma block_bytes:
  fixes s :: "'a fkern_scheme"
  assumes "sized s" and "k mod BSIZE + m \<le> BSIZE"
  shows "take m (drop (k mod BSIZE) (blk s (addr_of s ip (k div BSIZE)))) = map (fbyte s ip) [k..<k + m]"
proof (rule nth_equalityI)
  have l: "length (blk s n) = BSIZE" for n using assms(1) by (simp add: sized_def)
  then show "length (take m (drop (k mod BSIZE) (blk s (addr_of s ip (k div BSIZE))))) = length (map (fbyte s ip) [k..<k + m])"
    using assms(2) by simp
  fix i
  assume "i < length (take m (drop (k mod BSIZE) (blk s (addr_of s ip (k div BSIZE)))))"
  then have i: "i < m" by simp
  have "k + i = BSIZE * (k div BSIZE) + (k mod BSIZE + i)" by simp
  moreover have "k mod BSIZE + i < BSIZE" using i assms(2) by linarith
  ultimately have "(k + i) div BSIZE = k div BSIZE" "(k + i) mod BSIZE = k mod BSIZE + i"
    by (metis div_mult_self4 BSIZE_val div_less add.right_neutral zero_neq_numeral, metis mod_mult_self4 mod_less)
  then show "take m (drop (k mod BSIZE) (blk s (addr_of s ip (k div BSIZE)))) ! i = map (fbyte s ip) [k..<k + m] ! i"
    using i l assms(2) by (simp add: fbyte_def)
qed


section \<open>Reading\<close>

text \<open>A block held over a call of \<^verbatim>\<open>myproc\<close>, then given back or changed through the log.\<close>

lemma step_hold:
  fixes s :: "'a lkern_scheme"
  assumes "txn c p s {}" and "lh_n s < int LOGBLOCKS"
  shows "\<exists>b s1. bread c ROOTDEV n s = Ok (b, s1) \<and> b_data (bufs s1 b) = blk s n \<and> lsame s s1 \<and> hart_ok c s1 \<and> cpu_proc (cpus s1 c) = Some p \<and>
    (\<exists>s2. brelse c b (settle c s1) = Ok s2 \<and> step_to c p s s2 (blk s) {}) \<and>
    (\<forall>f. \<exists>s2 s3. log_write c b (set_data_of b f (settle c s1)) = Ok s2 \<and> brelse c b s2 = Ok s3 \<and>
      step_to c p s s3 ((blk s)(n := f (blk s n))) {n})"
proof -
  obtain b s1 where s1: "bread c ROOTDEV n s = Ok (b, s1)" "txn c p s1 {n}" "lsame s s1" "b < NBUF" "caches s1 n b"
    "b_data (bufs s1 b) = blk s n" "blk s1 = blk s" "logged s1 = logged s" "lh_n s1 = lh_n s"
    using txn_read [OF assms(1) _ small_log [OF assms], of n] by auto
  note t = txn_settle [OF s1(2)]
  have cb: "caches (settle c s1) n b" using t(5) s1(5) by simp
  have ls: "lsame s (settle c s1)" by (rule lsame_trans [OF s1(3) t(2)])
  have h: "holds c p s (logged s) {}" using assms(1) by (simp add: txn_def)
  have cl: "n \<in> logged (settle c s1) \<or> blk (settle c s1) n = disk (settle c s1) n"
    using holds_clean [OF h, of n] s1(7,8) t(3,4) lsame_disk [OF ls] by auto
  have "\<exists>s2. brelse c b (settle c s1) = Ok s2 \<and> step_to c p s s2 (blk s) {}"
    using txn_release [OF t(1) s1(4) cb _ cl] lsame_trans [OF ls] s1(7,8) t(3,4) by (fastforce simp: step_to_def)
  moreover have "\<exists>s2 s3. log_write c b (set_data_of b f (settle c s1)) = Ok s2 \<and> brelse c b s2 = Ok s3 \<and>
      step_to c p s s3 ((blk s)(n := f (blk s n))) {n}" for f
    using txn_change [OF t(1) s1(4) cb, of f] assms(2) lsame_trans [OF ls] s1(7-9) t(3,4,6) by (fastforce simp: step_to_def)
  ultimately show ?thesis using s1 txn_hart [OF s1(2)] by blast
qed

text \<open>How much a round of the loops moves.\<close>

definition chunk :: "u32 \<Rightarrow> u32 \<Rightarrow> u32 \<Rightarrow> u32" where
  "chunk off n tot = min (n - tot) (of_nat BSIZE - of_nat (unat off mod BSIZE))"

lemma unat_chunk:
  assumes "tot < n"
  shows "unat (chunk off n tot) = min (unat n - unat tot) (BSIZE - unat off mod BSIZE)" "0 < unat (chunk off n tot)"
    "unat off mod BSIZE + unat (chunk off n tot) \<le> BSIZE" "unat (chunk off n tot) \<le> unat n - unat tot"
proof -
  let ?r = "unat off mod BSIZE"
  have r: "?r < BSIZE" by (simp add: BSIZE_val)
  have "unat (n - tot) = unat n - unat tot" using assms by (simp add: unat_sub less_imp_le)
  moreover have "unat (of_nat ?r :: u32) = ?r" using r by (simp add: unat_of_nat take_bit_nat_eq_self BSIZE_val)
  then have "unat (of_nat BSIZE - of_nat ?r :: u32) = BSIZE - ?r" using r by (subst unat_sub) (simp_all add: word_le_nat_alt BSIZE_val)
  ultimately show u: "unat (chunk off n tot) = min (unat n - unat tot) (BSIZE - ?r)" by (simp add: chunk_def min_def word_le_nat_alt)
  show "0 < unat (chunk off n tot)" "unat off mod BSIZE + unat (chunk off n tot) \<le> BSIZE" "unat (chunk off n tot) \<le> unat n - unat tot"
    using r assms by (simp_all add: u word_less_nat_alt)
qed

lemma chunk_moves:
  assumes "tot < n" and "unat off + (unat n - unat tot) < 2 ^ 32"
  shows "unat (off + chunk off n tot) = unat off + unat (chunk off n tot)" "unat (tot + chunk off n tot) = unat tot + unat (chunk off n tot)"
    "tot + chunk off n tot \<le> n"
proof -
  note c = unat_chunk [OF assms(1), of off]
  have t: "unat tot < unat n" using assms(1) by (simp add: word_less_nat_alt)
  have "unat n < 2 ^ LENGTH(32)" by (rule unsigned_less)
  then have "unat off + unat (chunk off n tot) < 2 ^ 32" "unat tot + unat (chunk off n tot) < 2 ^ 32" using c(4) assms(2) t by simp_all
  then show "unat (off + chunk off n tot) = unat off + unat (chunk off n tot)" "unat (tot + chunk off n tot) = unat tot + unat (chunk off n tot)"
    by (simp_all add: unat_word_ariths)
  then show "tot + chunk off n tot \<le> n" using c(4) t by (simp add: word_le_nat_alt)
qed

lemma readi_loop_effect:
  fixes s :: "'a fkern_scheme"
  assumes "txn c p s {}" and "lh_n s < int LOGBLOCKS" and "mapped s ip N" and "tot \<le> n"
    and "unat off + (unat n - unat tot) \<le> N" and "unat n - unat tot < k"
  shows "\<exists>s'. readi_loop k c ip (Var bs) off n tot s =
      Ok (n, Var (bs @ map (fbyte s ip) [unat off..<unat off + (unat n - unat tot)]), s') \<and> step_to c p s s' (blk s) {}"
  using assms
proof (induction k arbitrary: bs off tot s)
  case (Suc k)
  show ?case
  proof (cases "tot < n")
    case False
    then show ?thesis using Suc.prems(1,4) by (auto simp: step_to_def)
  next
    case True
    let ?m = "chunk off n tot" and ?a = "addr_of s ip (unat off div BSIZE)"
    have N: "N < 2 ^ 32" using Suc.prems(3) by (simp add: mapped_def MAXFILE_val BSIZE_val)
    have t: "unat tot < unat n" using True by (simp add: word_less_nat_alt)
    then have o: "unat off < N" using Suc.prems(5) by linarith
    note c = unat_chunk [OF True, of off] and cm = chunk_moves [OF True, of off]
    obtain s1 where s1: "bmap c ip (unat off div BSIZE) s = Ok (?a, s1)" "step_to c p s s1 (blk s) {}"
      using bmap_mapped [OF Suc.prems(1-3) o] by blast
    note v1 = same_view [OF s1(2)]
    have l1: "lh_n s1 < int LOGBLOCKS" using step_lh(1) [OF s1(2) Suc.prems(1)] Suc.prems(2) by simp
    have a0: "?a \<noteq> 0" and dv: "i_dev (inodes s ip) = ROOTDEV" and sz: "sized s" using Suc.prems(3) o by (auto simp: mapped_def)
    obtain b s2 s4 where s2: "bread c ROOTDEV ?a s1 = Ok (b, s2)" "b_data (bufs s2 b) = blk s ?a" "hart_ok c s2"
      "brelse c b (settle c s2) = Ok s4" "step_to c p s1 s4 (blk s1) {}"
      using step_hold [OF v1(7) l1, of ?a] v1(6) by auto
    have s4: "step_to c p s s4 (blk s) {}" using step_trans [OF s1(2) s2(5)] v1(6) by simp
    note v4 = same_view [OF s4]
    have l4: "lh_n s4 < int LOGBLOCKS" using step_lh(1) [OF s4 Suc.prems(1)] Suc.prems(2) by simp
    have bb: "take (unat ?m) (drop (unat off mod BSIZE) (blk s ?a)) = map (fbyte s ip) [unat off..<unat off + unat ?m]"
      by (rule block_bytes [OF sz c(3)])
    have lim: "unat off + (unat n - unat tot) < 2 ^ 32" using Suc.prems(5) N by linarith
    have "\<exists>s'. readi_loop k c ip (Var (bs @ map (fbyte s ip) [unat off..<unat off + unat ?m])) (off + ?m) n (tot + ?m) s4 =
      Ok (n, Var ((bs @ map (fbyte s ip) [unat off..<unat off + unat ?m]) @
        map (fbyte s4 ip) [unat (off + ?m)..<unat (off + ?m) + (unat n - unat (tot + ?m))]), s') \<and> step_to c p s4 s' (blk s4) {}"
      using cm [OF lim] c(2,4) Suc.prems(3,5,6) t v4(3) by (intro Suc.IH [OF v4(7) l4]) simp_all
    then obtain s' where s': "readi_loop k c ip (Var (bs @ map (fbyte s ip) [unat off..<unat off + unat ?m])) (off + ?m) n (tot + ?m) s4 =
      Ok (n, Var ((bs @ map (fbyte s ip) [unat off..<unat off + unat ?m]) @
        map (fbyte s ip) [unat off + unat ?m..<unat off + (unat n - unat tot)]), s')" "step_to c p s4 s' (blk s4) {}"
      using cm(1,2) [OF lim] c(4) t unfolding v4(2) by auto
    have "[unat off..<unat off + (unat n - unat tot)] = [unat off..<unat off + unat ?m] @ [unat off + unat ?m..<unat off + (unat n - unat tot)]"
      using c(4) by (intro upt_split) simp_all
    moreover have "readi_loop (Suc k) c ip (Var bs) off n tot s =
        readi_loop k c ip (Var (bs @ map (fbyte s ip) [unat off..<unat off + unat ?m])) (off + ?m) n (tot + ?m) s4"
      using True s1(1) a0 s2(1-4) dv v1(4) by (simp add: Let_def myproc_Ok bb flip: chunk_def)
    ultimately show ?thesis using s' step_trans [OF s4 s'(2)] v4(6) by auto
  qed
qed simp


text \<open>How many bytes of the range lie in the file.\<close>

definition read_len :: "u32 \<Rightarrow> u32 \<Rightarrow> u32 \<Rightarrow> nat" where
  "read_len sz off n = (if off > sz \<or> off + n < off then 0 else min (unat n) (unat sz - unat off))"

lemma readi_effect:
  fixes s :: "'a fkern_scheme"
  assumes "txn c p s {}" and "lh_n s < int LOGBLOCKS" and "mapped s ip (unat (i_size (inodes s ip)))"
  shows "\<exists>s'. readi c ip (Var bs) off n s =
      Ok (int (read_len (i_size (inodes s ip)) off n),
        Var (bs @ map (fbyte s ip) [unat off..<unat off + read_len (i_size (inodes s ip)) off n]), s') \<and>
    txn c p s' {} \<and> lsame s s' \<and> blk s' = blk s"
proof (cases "off > i_size (inodes s ip) \<or> off + n < off")
  case True
  then show ?thesis using assms(1) by (auto simp: readi_def read_len_def)
next
  case False
  let ?sz = "i_size (inodes s ip)"
  define m where "m = read_len ?sz off n"
  define n' where "n' = (if off + n > ?sz then ?sz - off else n)"
  have le: "unat off \<le> unat ?sz" using False by (simp add: word_le_nat_alt not_less)
  have nw: "unat (off + n) = unat off + unat n" using False unat_plus_simple [of off n] by (simp add: not_less)
  have n': "unat n' = m" using False le nw by (auto simp: n'_def m_def read_len_def word_less_nat_alt unat_sub word_le_nat_alt min_def)
  have "m \<le> unat ?sz - unat off" using False by (simp add: m_def read_len_def)
  then have N: "unat off + m \<le> unat ?sz" using le by linarith
  have "unat ?sz \<le> 274432" using assms(3) by (simp add: mapped_def MAXFILE_val BSIZE_val)
  then have "m < 2 ^ 31" using N by simp
  moreover have "n' = of_nat m" using n' by auto
  ultimately have sg: "sint n' = int m" by (simp add: sint_of_nat)
  have "\<exists>s'. readi_loop (Suc (unat n')) c ip (Var bs) off n' 0 s = Ok (n', Var (bs @ map (fbyte s ip) [unat off..<unat off + (unat n' - unat (0 :: u32))]), s') \<and>
      step_to c p s s' (blk s) {}"
    using N n' by (intro readi_loop_effect [OF assms(1-3)]) simp_all
  then show ?thesis using False sg n' by (auto simp: readi_def n'_def [symmetric] m_def [symmetric] step_to_def)
qed

text \<open>
  C31: reading \<open>n\<close> bytes at offset \<open>off\<close> of a file, whose blocks may be direct or indirect, returns
  the number of bytes of the file in that range, hands over exactly these bytes, and leaves every
  block as it was; beyond the end, and when the range wraps around, it returns 0. It always returns.
\<close>

theorem readi_correct:
  fixes s :: "'a fkern_scheme"
  assumes "txn c p s {}" and "lh_n s < int LOGBLOCKS" and "mapped s ip (unat (i_size (inodes s ip)))"
  shows "\<exists>s'. readi c ip (Var bs) off n s =
      Ok (int (read_len (i_size (inodes s ip)) off n),
        Var (bs @ map (fbyte s ip) [unat off..<unat off + read_len (i_size (inodes s ip)) off n]), s') \<and>
    txn c p s' {} \<and> lsame s s' \<and> blk s' = blk s"
  by (rule readi_effect [OF assms])

section \<open>Inodes on disk\<close>

lemma put32s_get:
  assumes "b + 4 * n \<le> length d"
  shows "get32 (fold (\<lambda>i d. put32 d (b + 4 * i) (v i)) [0..<n] d) (b + 4 * j) = (if j < n then v j else get32 d (b + 4 * j))"
    "length (fold (\<lambda>i d. put32 d (b + 4 * i) (v i)) [0..<n] d) = length d"
  using assms
proof (induction n)
  case (Suc n)
  {
    case 1
    then show ?case using Suc by (cases "j = n") auto
  next
    case 2
    then show ?case using Suc by simp
  }
qed simp_all

lemma put32s_other:
  "k + 3 < b \<or> b + 4 * n \<le> k \<Longrightarrow> get32 (fold (\<lambda>i d. put32 d (b + 4 * i) (v i)) [0..<n] d) k = get32 d k"
  "k + 1 < b \<or> b + 4 * n \<le> k \<Longrightarrow> get16 (fold (\<lambda>i d. put32 d (b + 4 * i) (v i)) [0..<n] d) k = get16 d k"
  by (induction n) auto

lemma length_put32s [simp]: "length (fold (\<lambda>i d. put32 d (g i) (v i)) is d) = length d"
  by (induction "is" arbitrary: d) simp_all

lemma get_put_dinode:
  assumes "k + 64 \<le> length d" and "length (d_addrs x) = Suc NDIRECT"
  shows "get_dinode (put_dinode d k x) k = x" "length (put_dinode d k x) = length d"
proof -
  define d1 where "d1 = put32 (put16 (put16 (put16 (put16 d k (d_type x)) (k + 2) (d_major x)) (k + 4) (d_minor x)) (k + 6) (d_nlink x)) (k + 8) (d_size x)"
  define d2 where "d2 = fold (\<lambda>i d. put32 d (k + 12 + 4 * i) (d_addrs x ! i)) [0..<Suc NDIRECT] d1"
  have p: "put_dinode d k x = d2" by (simp add: put_dinode_def d1_def d2_def)
  have l: "length d1 = length d" by (simp add: d1_def)
  have nd: "k + 12 + 4 * Suc NDIRECT \<le> length d1" using assms(1) l by (simp add: NDIRECT_def)
  have "get32 d2 (k + 12 + 4 * i) = d_addrs x ! i" if "i < Suc NDIRECT" for i using put32s_get(1) [OF nd] that by (simp add: d2_def)
  then have "map (\<lambda>i. get32 d2 (k + 12 + 4 * i)) [0..<Suc NDIRECT] = d_addrs x"
    using assms(2) by (intro nth_equalityI) (auto simp: nth_append simp del: upt_Suc)
  moreover have "get16 d2 (k + j) = get16 d1 (k + j)" "get32 d2 (k + 8) = get32 d1 (k + 8)" if "j < 8" for j
    using that unfolding d2_def by (subst put32s_other; simp)+
  note this(1) [of 0] this(1) [of 2] this(1) [of 4] this(1) [of 6] this(2) [of 0]
  ultimately show "get_dinode (put_dinode d k x) k = x" using assms(1) unfolding p by (simp add: get_dinode_def d1_def)
  show "length (put_dinode d k x) = length d" by (simp add: put_dinode_def)
qed

lemma get_put_dinode_other:
  assumes "k + 64 \<le> j \<or> j + 64 \<le> k"
  shows "get_dinode (put_dinode d k x) j = get_dinode d j"
proof -
  have "get16 (put_dinode d k x) (j + i) = get16 d (j + i)" if "i < 8" for i
    using assms that unfolding put_dinode_def by (subst put32s_other, simp add: NDIRECT_def, linarith) (elim disjE, simp_all)
  note this [of 0] this [of 2] this [of 4] this [of 6]
  moreover have "get32 (put_dinode d k x) (j + i) = get32 d (j + i)" if "8 \<le> i" "i < 61" for i
    using assms that unfolding put_dinode_def by (subst put32s_other, simp add: NDIRECT_def, linarith) (elim disjE, simp_all)
  note this [of 8] this
  ultimately show ?thesis by (simp add: get_dinode_def NDIRECT_def add.assoc)
qed

text \<open>The on-disk inode with a number, and the fields of an in-memory inode it has.\<close>

definition disk_inode :: "'a fkern_scheme \<Rightarrow> u32 \<Rightarrow> dinode" where
  "disk_inode s j = get_dinode (blk s (IBLOCK j (sb s))) (ioff j)"

definition dinode_of :: "inode \<Rightarrow> dinode" where
  "dinode_of x = \<lparr>d_type = i_type x, d_major = i_major x, d_minor = i_minor x, d_nlink = i_nlink x, d_size = i_size x, d_addrs = i_addrs x\<rparr>"

lemma iupdate_effect:
  fixes s :: "'a fkern_scheme"
  assumes "txn c p s {}" and "lh_n s < int LOGBLOCKS" and "i_dev (inodes s ip) = ROOTDEV"
  defines "j \<equiv> i_inum (inodes s ip)"
  shows "\<exists>s'. iupdate c ip s = Ok s' \<and>
    step_to c p s s' ((blk s)(IBLOCK j (sb s) := put_dinode (blk s (IBLOCK j (sb s))) (ioff j) (dinode_of (inodes s ip)))) {IBLOCK j (sb s)}"
proof -
  let ?n = "IBLOCK j (sb s)" and ?f = "\<lambda>d. put_dinode d (ioff j) (dinode_of (inodes s ip))"
  obtain b s1 s2 s3 where s1: "bread c ROOTDEV ?n s = Ok (b, s1)" "lsame s s1" "log_write c b (set_data_of b ?f s1) = Ok s2" "brelse c b s2 = Ok s3"
    "step_to c p s s3 ((blk s)(?n := ?f (blk s ?n))) {?n}" using step_change [OF assms(1,2), of ?n] by meson
  have "inodes s1 = inodes s" using lsame_fields(3) [OF s1(2)] .
  then show ?thesis using s1 assms(3) by (simp add: iupdate_def Let_def j_def dinode_of_def)
qed

lemma IPB_val: "IPB = 16"
  by (simp add: IPB_def BSIZE_def)

lemma ioff_fits: "ioff j + 64 \<le> BSIZE"
  using mod_less_divisor [of IPB "unat j"] by (simp add: ioff_def IPB_val BSIZE_val)

lemma ioff_apart:
  assumes "IBLOCK i b = IBLOCK j b" and "i \<noteq> j"
  shows "ioff j + 64 \<le> ioff i \<or> ioff i + 64 \<le> ioff j"
proof -
  have "unat (i div of_nat IPB) = unat (j div of_nat IPB)" using assms(1) by (simp add: IBLOCK_def)
  then have "unat i div 16 = unat j div 16" by (simp add: unat_div IPB_val)
  moreover have "unat i \<noteq> unat j" using assms(2) by (simp add: word_unat_eq_iff)
  ultimately have "unat i mod 16 \<noteq> unat j mod 16" by (metis div_mult_mod_eq)
  then show ?thesis by (simp add: ioff_def IPB_val) linarith
qed

lemma put_inode_view:
  fixes s s' :: "'a fkern_scheme"
  assumes "sb s' = sb s" and "blk s' = (blk s)(IBLOCK j (sb s) := put_dinode (blk s (IBLOCK j (sb s))) (ioff j) x)"
    and "sized s" and "length (d_addrs x) = Suc NDIRECT"
  shows "disk_inode s' j = x" "i \<noteq> j \<Longrightarrow> disk_inode s' i = disk_inode s i" "sized s'"
proof -
  have l: "ioff j + 64 \<le> length (blk s n)" for n using assms(3) ioff_fits by (simp add: sized_def)
  show "disk_inode s' j = x" by (simp add: disk_inode_def assms(1,2) get_put_dinode [OF l assms(4)])
  show "sized s'" using assms(3) by (simp add: sized_def assms(2) get_put_dinode [OF l assms(4)])
  show "disk_inode s' i = disk_inode s i" if "i \<noteq> j"
    using ioff_apart [of i "sb s" j] that get_put_dinode_other by (auto simp: disk_inode_def assms(1,2))
qed

text \<open>
  C38: iupdate stores an inode so that loading it back gives the same inode, changes no other inode,
  not even one in the same block, and no other block.
\<close>

theorem iupdate_stores:
  fixes s :: "'a fkern_scheme"
  assumes "txn c p s {}" and "lh_n s < int LOGBLOCKS" and "i_dev (inodes s ip) = ROOTDEV" and "sized s"
    and "length (i_addrs (inodes s ip)) = Suc NDIRECT"
  shows "\<exists>s'. iupdate c ip s = Ok s' \<and> txn c p s' {} \<and> inodes s' = inodes s \<and>
    load_inode (disk_inode s' (i_inum (inodes s ip))) (inodes s ip) = inodes s ip \<and>
    (\<forall>j. j \<noteq> i_inum (inodes s ip) \<longrightarrow> disk_inode s' j = disk_inode s j) \<and>
    (\<forall>n. n \<noteq> IBLOCK (i_inum (inodes s ip)) (sb s) \<longrightarrow> blk s' n = blk s n)"
proof -
  let ?j = "i_inum (inodes s ip)"
  obtain s' where s': "iupdate c ip s = Ok s'"
    "step_to c p s s' ((blk s)(IBLOCK ?j (sb s) := put_dinode (blk s (IBLOCK ?j (sb s))) (ioff ?j) (dinode_of (inodes s ip)))) {IBLOCK ?j (sb s)}"
    using iupdate_effect [OF assms(1-3)] by blast
  have b: "blk s' = (blk s)(IBLOCK ?j (sb s) := put_dinode (blk s (IBLOCK ?j (sb s))) (ioff ?j) (dinode_of (inodes s ip)))"
    and t: "txn c p s' {}" and ls: "lsame s s'" using s'(2) by (simp_all add: step_to_def)
  have "length (d_addrs (dinode_of (inodes s ip))) = Suc NDIRECT" using assms(5) by (simp add: dinode_of_def)
  note v = put_inode_view [OF lsame_fields(1) [OF ls] b assms(4) this]
  have "load_inode (dinode_of x) x = x" for x by (cases x) (simp add: load_inode_def dinode_of_def)
  then show ?thesis using s'(1) t lsame_fields(3) [OF ls] v(1,2) b by auto
qed


section \<open>Writing\<close>

lemma nth_put_at:
  assumes "k + length bs \<le> length d" and "i < length d"
  shows "put_at k bs d ! i = (if k \<le> i \<and> i < k + length bs then bs ! (i - k) else d ! i)" "length (put_at k bs d) = length d"
  using assms by (auto simp: put_at_def nth_append min_def)

text \<open>
  A file whose first \<open>N\<close> bytes lie in distinct blocks, none of them the block of indirect addresses
  or the block of its inode.
\<close>

definition apart :: "'a fkern_scheme \<Rightarrow> nat \<Rightarrow> nat \<Rightarrow> bool" where
  "apart s ip N \<longleftrightarrow> mapped s ip N \<and> i_addrs (inodes s ip) ! NDIRECT \<noteq> IBLOCK (i_inum (inodes s ip)) (sb s) \<and>
     (\<forall>j < N. addr_of s ip (j div BSIZE) \<noteq> i_addrs (inodes s ip) ! NDIRECT \<and>
       addr_of s ip (j div BSIZE) \<noteq> IBLOCK (i_inum (inodes s ip)) (sb s)) \<and>
     (\<forall>j < N. \<forall>k < N. addr_of s ip (j div BSIZE) = addr_of s ip (k div BSIZE) \<longrightarrow> j div BSIZE = k div BSIZE)"

lemma apartD:
  assumes "apart s ip N" and "j < N"
  shows "mapped s ip N" "addr_of s ip (j div BSIZE) \<noteq> i_addrs (inodes s ip) ! NDIRECT" "addr_of s ip (j div BSIZE) \<noteq> 0"
    "k < N \<Longrightarrow> addr_of s ip (k div BSIZE) = addr_of s ip (j div BSIZE) \<longleftrightarrow> k div BSIZE = j div BSIZE"
  using assms by (auto simp: apart_def mapped_def)

lemma block_same:
  assumes "off mod BSIZE + m \<le> BSIZE" and "off \<le> k" and "k < off + m"
  shows "k div BSIZE = off div BSIZE"
proof -
  have "off div BSIZE * BSIZE \<le> k" "k < off div BSIZE * BSIZE + BSIZE" using assms div_mult_mod_eq [of off BSIZE] by linarith+
  then show ?thesis by (intro div_nat_eqI) (simp_all add: BSIZE_val)
qed

text \<open>The state after one block of the file has been written.\<close>

lemma write_block:
  fixes s s' :: "'a fkern_scheme"
  assumes "apart s ip N" and "off < N" and "off mod BSIZE + length bs \<le> BSIZE" and "lsame s s'"
    and "blk s' = (blk s)(addr_of s ip (off div BSIZE) := put_at (off mod BSIZE) bs (blk s (addr_of s ip (off div BSIZE))))"
  shows "addr_of s' ip = addr_of s ip" "apart s' ip N" "inodes s' = inodes s" "sb s' = sb s"
    "k < N \<Longrightarrow> fbyte s' ip k = (if off \<le> k \<and> k < off + length bs then bs ! (k - off) else fbyte s ip k)"
proof -
  show i: "inodes s' = inodes s" "sb s' = sb s" using lsame_fields [OF assms(4)] by simp_all
  have sz: "length (blk s n) = BSIZE" for n using assms(1) by (simp add: apart_def mapped_def sized_def)
  note pa = nth_put_at [of "off mod BSIZE" bs "blk s n" for n, unfolded sz, OF assms(3)]
  have b0: "0 < BSIZE" by (simp add: BSIZE_val)
  show a: "addr_of s' ip = addr_of s ip" using apartD(2) [OF assms(1,2)] by (auto simp: fun_eq_iff addr_of_def i assms(5))
  have "sized s'" using sz pa(2) [OF b0] by (simp add: sized_def assms(5))
  then show "apart s' ip N" using assms(1) by (simp add: apart_def mapped_def a i)
  assume k: "k < N"
  show "fbyte s' ip k = (if off \<le> k \<and> k < off + length bs then bs ! (k - off) else fbyte s ip k)"
  proof (cases "k div BSIZE = off div BSIZE")
    case True
    then have "fbyte s' ip k = put_at (off mod BSIZE) bs (blk s (addr_of s ip (off div BSIZE))) ! (k mod BSIZE)"
      by (simp add: fbyte_def a assms(5))
    moreover have q: "k div BSIZE * BSIZE = off div BSIZE * BSIZE" using True by simp
    have "off mod BSIZE \<le> k mod BSIZE \<longleftrightarrow> off \<le> k" "k mod BSIZE < off mod BSIZE + length bs \<longleftrightarrow> k < off + length bs"
      "off \<le> k \<Longrightarrow> k mod BSIZE - off mod BSIZE = k - off"
      using q div_mult_mod_eq [of k BSIZE] div_mult_mod_eq [of off BSIZE] by linarith+
    ultimately show ?thesis using True pa(1) [of "k mod BSIZE"] b0 by (auto simp: fbyte_def)
  next
    case False
    have "\<not> (off \<le> k \<and> k < off + length bs)" using False block_same [OF assms(3), of k] by auto
    then show ?thesis using False apartD(4) [OF assms(1,2) k] by (auto simp: fbyte_def a assms(5))
  qed
qed

text \<open>The blocks a range of the file lies in.\<close>

definition range_blocks :: "'a fkern_scheme \<Rightarrow> nat \<Rightarrow> nat \<Rightarrow> nat \<Rightarrow> u32 set" where
  "range_blocks s ip a b = (\<lambda>k. addr_of s ip (k div BSIZE)) ` {a..<b}"


lemma unat_widen: "unat (ucast (x :: u32) :: u64) = unat x"
proof -
  have "unat x < 2 ^ LENGTH(32)" by (rule unsigned_less)
  then show ?thesis by (simp add: unsigned_ucast_eq take_bit_nat_eq_self)
qed

lemma writei_loop_effect:
  fixes s :: "'a fkern_scheme"
  assumes "txn c p s {}" and "apart s ip N" and "tot \<le> n" and "unat off + (unat n - unat tot) \<le> N" and "unat n - unat tot < k"
    and "length src = unat n - unat tot" and "card (logged s \<union> range_blocks s ip (unat off) (unat off + length src)) < LOGBLOCKS"
  shows "\<exists>s'. writei_loop k c ip (Var src) off n tot s = Ok (n, of_nat (unat off + length src), s') \<and> txn c p s' {} \<and> lsame s s' \<and>
    logged s' = logged s \<union> range_blocks s ip (unat off) (unat off + length src) \<and> apart s' ip N \<and>
    (\<forall>k < N. fbyte s' ip k = (if unat off \<le> k \<and> k < unat off + length src then src ! (k - unat off) else fbyte s ip k)) \<and>
    (\<forall>a. a \<notin> range_blocks s ip (unat off) (unat off + length src) \<longrightarrow> blk s' a = blk s a)"
  using assms
proof (induction k arbitrary: src off tot s)
  case (Suc k)
  show ?case
  proof (cases "tot < n")
    case False
    then show ?thesis using Suc.prems by (auto simp: range_blocks_def)
  next
    case True
    let ?m = "chunk off n tot" and ?a = "addr_of s ip (unat off div BSIZE)" and ?R = "range_blocks s ip (unat off) (unat off + length src)"
    have fin: "finite (logged s)" "finite ?R" by (simp_all add: logged_def range_blocks_def)
    have t: "unat tot < unat n" using True by (simp add: word_less_nat_alt)
    have o: "unat off < N" using Suc.prems(4) t by linarith
    note ap = apartD [OF Suc.prems(2) o]
    have N: "N < 2 ^ 32" using ap(1) by (simp add: mapped_def MAXFILE_val BSIZE_val)
    have lim: "unat off + (unat n - unat tot) < 2 ^ 32" using Suc.prems(4) N by linarith
    note c = unat_chunk [OF True, of off] and cm = chunk_moves [OF True lim]
    have "card (logged s) < LOGBLOCKS" using Suc.prems(7) card_mono [of "logged s \<union> ?R" "logged s"] fin by simp
    then have l0: "lh_n s < int LOGBLOCKS" using card_logged [OF Suc.prems(1)] by simp
    obtain s1 where s1: "bmap c ip (unat off div BSIZE) s = Ok (?a, s1)" "step_to c p s s1 (blk s) {}"
      using bmap_mapped [OF Suc.prems(1) l0 ap(1) o] by blast
    note v1 = same_view [OF s1(2)]
    have l1: "lh_n s1 < int LOGBLOCKS" using step_lh(1) [OF s1(2) Suc.prems(1)] l0 by simp
    have dv: "i_dev (inodes s ip) = ROOTDEV" using ap(1) by (simp add: mapped_def)
    let ?bs = "take (unat ?m) src"
    have lb: "length ?bs = unat ?m" using Suc.prems(6) c(4) by simp
    obtain b s2 s3 s4 where s2: "bread c ROOTDEV ?a s1 = Ok (b, s2)" "hart_ok c s2"
      "log_write c b (set_data_of b (put_at (unat off mod BSIZE) ?bs) (settle c s2)) = Ok s3" "brelse c b s3 = Ok s4"
      "step_to c p s1 s4 ((blk s1)(?a := put_at (unat off mod BSIZE) ?bs (blk s1 ?a))) {?a}"
      using step_hold [OF v1(7) l1, of ?a] by meson
    have s4: "step_to c p s s4 ((blk s)(?a := put_at (unat off mod BSIZE) ?bs (blk s ?a))) {?a}"
      using step_trans [OF s1(2) s2(5)] v1(6) by simp
    then have t4: "txn c p s4 {}" and ls4: "lsame s s4" and b4: "blk s4 = (blk s)(?a := put_at (unat off mod BSIZE) ?bs (blk s ?a))"
      and lg4: "logged s4 = insert ?a (logged s)" by (auto simp: step_to_def)
    have "unat off mod BSIZE + length ?bs \<le> BSIZE" using lb c(3) by simp
    note w = write_block [OF Suc.prems(2) o this ls4 b4]
    let ?src = "drop (unat ?m) src"
    have ls: "length ?src = unat n - unat (tot + ?m)" using Suc.prems(6) cm(2) c(4) by simp
    have en: "unat (off + ?m) + length ?src = unat off + length src" using cm(1,2) ls Suc.prems(6) c(4) t by simp
    have R: "insert ?a (range_blocks s4 ip (unat (off + ?m)) (unat off + length src)) = ?R"
    proof -
      let ?f = "\<lambda>k. addr_of s ip (k div BSIZE)" and ?A = "{unat off..<unat off + unat ?m}"
      have "?f k = (\<lambda>_. ?a) k" if "k \<in> ?A" for k using block_same [OF c(3), of k] that by simp
      then have "?f ` ?A = (\<lambda>_. ?a) ` ?A" by (rule image_cong [OF refl])
      then have i: "?f ` ?A = {?a}" using c(2) by (simp add: image_constant_conv)
      have "{unat off..<unat off + length src} = ?A \<union> {unat off + unat ?m..<unat off + length src}"
        using Suc.prems(6) c(4) by (intro ivl_disj_un_two(3) [symmetric]) simp_all
      then have "?R = {?a} \<union> ?f ` {unat off + unat ?m..<unat off + length src}" unfolding range_blocks_def by (simp only: image_Un i)
      then show ?thesis by (simp add: range_blocks_def w(1) cm(1))
    qed
    have "\<exists>s'. writei_loop k c ip (Var ?src) (off + ?m) n (tot + ?m) s4 = Ok (n, of_nat (unat (off + ?m) + length ?src), s') \<and> txn c p s' {} \<and> lsame s4 s' \<and>
        logged s' = logged s4 \<union> range_blocks s4 ip (unat (off + ?m)) (unat (off + ?m) + length ?src) \<and> apart s' ip N \<and>
        (\<forall>k < N. fbyte s' ip k = (if unat (off + ?m) \<le> k \<and> k < unat (off + ?m) + length ?src then ?src ! (k - unat (off + ?m)) else fbyte s4 ip k)) \<and>
        (\<forall>a. a \<notin> range_blocks s4 ip (unat (off + ?m)) (unat (off + ?m) + length ?src) \<longrightarrow> blk s' a = blk s4 a)"
    proof (rule Suc.IH [OF t4 w(2) cm(3) _ _ ls])
      show "unat (off + ?m) + (unat n - unat (tot + ?m)) \<le> N" "unat n - unat (tot + ?m) < k" using cm(1,2) c(2,4) Suc.prems(4,5) t by simp_all
      show "card (logged s4 \<union> range_blocks s4 ip (unat (off + ?m)) (unat (off + ?m) + length ?src)) < LOGBLOCKS"
        using Suc.prems(7) unfolding en lg4 by (simp only: R Un_insert_left flip: Un_insert_right)
    qed
    then obtain s' where s': "writei_loop k c ip (Var ?src) (off + ?m) n (tot + ?m) s4 = Ok (n, of_nat (unat off + length src), s')" "txn c p s' {}" "lsame s4 s'"
        "logged s' = logged s4 \<union> range_blocks s4 ip (unat (off + ?m)) (unat off + length src)" "apart s' ip N"
        "\<And>k. k < N \<Longrightarrow> fbyte s' ip k = (if unat (off + ?m) \<le> k \<and> k < unat off + length src then ?src ! (k - unat (off + ?m)) else fbyte s4 ip k)"
        "\<And>a. a \<notin> range_blocks s4 ip (unat (off + ?m)) (unat off + length src) \<Longrightarrow> blk s' a = blk s4 a"
      unfolding en by blast
    have "fbyte s' ip k = (if unat off \<le> k \<and> k < unat off + length src then src ! (k - unat off) else fbyte s ip k)" if "k < N" for k
    proof -
      have m: "unat ?m \<le> length src" using c(4) Suc.prems(6) by simp
      have "?src ! (k - unat (off + ?m)) = src ! (k - unat off)" if "unat off + unat ?m \<le> k" using that m cm(1) by (simp add: add.commute)
      moreover have "?bs ! (k - unat off) = src ! (k - unat off)" if "k < unat off + unat ?m" "unat off \<le> k" using that by simp
      ultimately show ?thesis using s'(6) [OF that] w(5) [OF that] m unfolding lb cm(1) by auto
    qed
    moreover have "blk s' a = blk s a" if "a \<notin> ?R" for a using s'(7) [of a] that b4 by (simp flip: R)
    moreover have "logged s' = logged s \<union> ?R" using s'(4) lg4 by (simp flip: R)
    moreover have "writei_loop (Suc k) c ip (Var src) off n tot s = writei_loop k c ip (Var ?src) (off + ?m) n (tot + ?m) s4"
      using True s1(1) ap(3) s2(1-4) dv v1(4) by (simp add: Let_def myproc_Ok unat_widen flip: chunk_def)
    ultimately show ?thesis using s'(1,2,5) lsame_trans [OF ls4 s'(3)] by auto
  qed
qed simp


lemma txn_inodes:
  fixes s :: "'a fkern_scheme"
  assumes "txn c p s L"
  shows "txn c p (upd_inode i f s) L" "blk (upd_inode i f s) = blk s" "logged (upd_inode i f s) = logged s"
proof -
  have h: "holds c p s (logged s) L" using assms by (simp add: txn_def)
  have "runs c p (s\<lparr>inodes := x\<rparr>)" for x using h by (simp add: holds_def runs_def quiet_def hart_ok_def intr_get_def)
  from holds_moves [OF h this] have m: "holds c p (s\<lparr>inodes := x\<rparr>) (logged s) L" "blk (s\<lparr>inodes := x\<rparr>) = blk s" for x by simp_all
  show "txn c p (upd_inode i f s) L" "blk (upd_inode i f s) = blk s" "logged (upd_inode i f s) = logged s"
    using assms m by (simp_all add: upd_inode_def txn_def logged_def)
qed

text \<open>Setting the size and storing the inode does not touch the contents.\<close>

lemma finish_write:
  fixes s :: "'a fkern_scheme" and z :: u32
  assumes "txn c p s {}" and "lh_n s < int LOGBLOCKS" and "apart s ip N" and "length (i_addrs (inodes s ip)) = Suc NDIRECT"
  defines "s1 \<equiv> upd_inode ip (i_size_update (\<lambda>_. z)) s"
  shows "\<exists>s'. iupdate c ip s1 = Ok s' \<and> txn c p s' {} \<and> inodes s' = inodes s1 \<and> mapped s' ip N \<and> lh_n s' \<le> lh_n s + 1 \<and>
    (\<forall>k < N. fbyte s' ip k = fbyte s ip k)"
proof -
  have i1: "i_addrs (inodes s1 i) = i_addrs (inodes s i)" "i_dev (inodes s1 i) = i_dev (inodes s i)" "i_inum (inodes s1 i) = i_inum (inodes s i)" "sb s1 = sb s" for i
    by (simp_all add: s1_def upd_inode_def)
  have t1: "txn c p s1 {}" and b1: "blk s1 = blk s" using txn_inodes [OF assms(1)] by (simp_all add: s1_def)
  have l1: "lh_n s1 = lh_n s" by (simp add: s1_def upd_inode_def)
  let ?j = "i_inum (inodes s ip)" and ?n = "IBLOCK (i_inum (inodes s ip)) (sb s)"
  have dv: "i_dev (inodes s1 ip) = ROOTDEV" and sz: "sized s1" using assms(3) by (auto simp: apart_def mapped_def sized_def i1 b1)
  obtain s' where s': "iupdate c ip s1 = Ok s'" "step_to c p s1 s' ((blk s)(?n := put_dinode (blk s ?n) (ioff ?j) (dinode_of (inodes s1 ip)))) {?n}"
    using iupdate_effect [OF t1 _ dv] assms(2) l1 b1 i1 by auto
  have v: "blk s' = (blk s1)(IBLOCK ?j (sb s1) := put_dinode (blk s1 (IBLOCK ?j (sb s1))) (ioff ?j) (dinode_of (inodes s1 ip)))"
    and t': "txn c p s' {}" and ls: "lsame s1 s'" using s'(2) by (simp_all add: step_to_def b1 i1)
  have "length (d_addrs (dinode_of (inodes s1 ip))) = Suc NDIRECT" using assms(4) by (simp add: dinode_of_def i1)
  note pv = put_inode_view(3) [OF lsame_fields(1) [OF ls] v sz this]
  have i': "inodes s' = inodes s1" using lsame_fields(3) [OF ls] .
  have nd: "i_addrs (inodes s ip) ! NDIRECT \<noteq> ?n" "\<And>k. k < N \<Longrightarrow> addr_of s ip (k div BSIZE) \<noteq> ?n" using assms(3) by (auto simp: apart_def)
  have a: "addr_of s' ip bn = addr_of s ip bn" for bn using nd(1) by (simp add: addr_of_def i' i1 v b1)
  have "mapped s' ip N" using assms(3) pv by (simp add: apart_def mapped_def a i' i1)
  moreover have "fbyte s' ip k = fbyte s ip k" if "k < N" for k using nd(2) [OF that] by (simp add: fbyte_def a v b1 i1)
  moreover have "lh_n s' \<le> lh_n s + 1" using step_lh(1) [OF s'(2) t1] l1 by simp
  ultimately show ?thesis using s'(1) t' i' by blast
qed

text \<open>
  C30: bytes written to an allocated range of a file are what a read of the range returns, the file
  has grown to the end of the range if it ended before it, and every other byte of it is unchanged.
\<close>

theorem writei_readi:
  fixes s :: "'a fkern_scheme"
  assumes "txn c p s {}" and "off \<le> i_size (inodes s ip)" and "length (i_addrs (inodes s ip)) = Suc NDIRECT"
    and "apart s ip (max (unat (i_size (inodes s ip))) (unat off + length src))"
    and "card (logged s \<union> range_blocks s ip (unat off) (unat off + length src)) + 1 < LOGBLOCKS"
  shows "\<exists>s1 s2. writei c ip (Var src) off (of_nat (length src)) s = Ok (int (length src), s1) \<and> txn c p s1 {} \<and>
    unat (i_size (inodes s1 ip)) = max (unat (i_size (inodes s ip))) (unat off + length src) \<and>
    (\<forall>k < unat (i_size (inodes s1 ip)).
      fbyte s1 ip k = (if unat off \<le> k \<and> k < unat off + length src then src ! (k - unat off) else fbyte s ip k)) \<and>
    readi c ip (Var []) off (of_nat (length src)) s1 = Ok (int (length src), Var src, s2) \<and> blk s2 = blk s1"
proof -
  let ?sz = "i_size (inodes s ip)" and ?n = "of_nat (length src) :: u32" and ?e = "unat off + length src"
  define N where "N = max (unat ?sz) ?e"
  have mp: "mapped s ip N" using assms(4) by (simp add: apart_def N_def)
  then have Nb: "N \<le> 274432" by (simp add: mapped_def MAXFILE_val BSIZE_val)
  then have e: "?e \<le> 274432" by (simp add: N_def)
  then have n: "unat ?n = length src" "sint ?n = int (length src)" by (simp_all add: unat_of_nat take_bit_nat_eq_self sint_of_nat)
  then have on: "unat (off + ?n) = ?e" using e by (simp add: unat_word_ariths)
  have nw: "\<not> off + ?n < off" using on by (simp add: word_less_nat_alt)
  have "\<exists>s'. writei_loop (Suc (unat ?n)) c ip (Var src) off ?n 0 s = Ok (?n, of_nat ?e, s') \<and> txn c p s' {} \<and> lsame s s' \<and>
    logged s' = logged s \<union> range_blocks s ip (unat off) ?e \<and> apart s' ip N \<and>
    (\<forall>k < N. fbyte s' ip k = (if unat off \<le> k \<and> k < ?e then src ! (k - unat off) else fbyte s ip k)) \<and>
    (\<forall>a. a \<notin> range_blocks s ip (unat off) ?e \<longrightarrow> blk s' a = blk s a)"
    using assms(4,5) n(1) by (intro writei_loop_effect [OF assms(1)]) (simp_all add: N_def)
  then obtain t where t: "writei_loop (Suc (unat ?n)) c ip (Var src) off ?n 0 s = Ok (?n, of_nat ?e, t)" "txn c p t {}" "lsame s t"
    "logged t = logged s \<union> range_blocks s ip (unat off) ?e" "apart t ip N"
    "\<And>k. k < N \<Longrightarrow> fbyte t ip k = (if unat off \<le> k \<and> k < ?e then src ! (k - unat off) else fbyte s ip k)" by blast
  have it: "inodes t = inodes s" using lsame_fields(3) [OF t(3)] .
  have lt: "lh_n t + 1 < int LOGBLOCKS" using assms(5) card_logged [OF t(2)] t(2) unfolding t(4) by (simp add: txn_def)
  have oe: "unat (of_nat ?e :: u32) = ?e" using e by (simp add: unat_of_nat take_bit_nat_eq_self del: of_nat_add)
  define z where "z = (if of_nat ?e > ?sz then of_nat ?e else ?sz :: u32)"
  have z: "unat z = N" using oe by (auto simp: z_def N_def word_less_nat_alt)
  have szu: "upd_inode ip (i_size_update (\<lambda>_. ?sz)) t = t" using it by (simp add: upd_inode_def)
  have s2: "(if of_nat ?e > ?sz then upd_inode ip (i_size_update (\<lambda>_. of_nat ?e)) t else t) = upd_inode ip (i_size_update (\<lambda>_. z)) t"
    using szu by (simp add: z_def)
  have la: "length (i_addrs (inodes t ip)) = Suc NDIRECT" and l1: "lh_n t < int LOGBLOCKS" using assms(3) it lt by simp_all
  obtain s1 where s1: "iupdate c ip (upd_inode ip (i_size_update (\<lambda>_. z)) t) = Ok s1" "txn c p s1 {}" "inodes s1 = inodes (upd_inode ip (i_size_update (\<lambda>_. z)) t)"
    "mapped s1 ip N" "lh_n s1 \<le> lh_n t + 1" "\<And>k. k < N \<Longrightarrow> fbyte s1 ip k = fbyte t ip k"
    using finish_write [OF t(2) l1 t(5) la, of z] by blast
  have sz1: "i_size (inodes s1 ip) = z" by (simp add: s1(3) upd_inode_def)
  have w: "writei c ip (Var src) off ?n s = Ok (int (length src), s1)"
    using assms(2) nw on e t(1) s2 s1(1) n(2) it by (simp add: writei_def Let_def MAXFILE_val BSIZE_val del: of_nat_add)
  have r: "read_len (i_size (inodes s1 ip)) off ?n = length src" using nw n(1) z by (auto simp: read_len_def sz1 N_def word_less_nat_alt)
  have l1: "lh_n s1 < int LOGBLOCKS" using s1(5) lt by linarith
  have m1: "mapped s1 ip (unat (i_size (inodes s1 ip)))" using s1(4) z by (simp add: sz1)
  have "map (fbyte s1 ip) [unat off..<?e] = src"
    using s1(6) t(6) by (intro nth_equalityI) (auto simp: N_def)
  then obtain s2 where "readi c ip (Var []) off ?n s1 = Ok (int (length src), Var src, s2)" "blk s2 = blk s1"
    using readi_effect [OF s1(2) l1 m1, of "[]" off ?n] by (auto simp: r)
  then show ?thesis using w s1(2) s1(6) t(6) z by (intro exI [of _ s1] exI [of _ s2]) (simp add: sz1 N_def)
qed


section \<open>A file to look at\<close>

definition sample_inode :: inode where
  "sample_inode = \<lparr>i_dev = ROOTDEV, i_inum = 3, i_ref = 1, i_lock = initsleeplock ''inode'', i_valid = True, i_type = T_FILE, i_major = 0,
     i_minor = 0, i_nlink = 1, i_size = 2000, i_addrs = [50, 51] @ replicate 11 0\<rparr>"

lemma sample_file:
  "\<exists>s :: fkern. txn 0 2 s {} \<and> lh_n s = 0 \<and> logged s = {} \<and> sized s \<and> inodes s 0 = sample_inode \<and> apart s 0 2000 \<and>
    addr_of s 0 0 = 50 \<and> addr_of s 0 1 = 51 \<and> (\<forall>k < 2000. fbyte s 0 k = 7)"
proof -
  obtain s :: fkern where s: "txn 0 2 s {}" "blk s = sample_disk" "sb s = sample_sb" "inodes s = (\<lambda>_. sample_inode)" "lh_n s = 0" "logged s = {}"
    using fkern0_txn [of sample_disk sample_sb "\<lambda>_. sample_inode"] by auto
  have sz: "sized s" by (simp add: sized_def s(2))
  have a: "addr_of s 0 0 = 50" "addr_of s 0 1 = 51" by (simp_all add: addr_of_def s(4) sample_inode_def NDIRECT_def)
  have k: "k div BSIZE = 0 \<or> k div BSIZE = 1" if "k < 2000" for k using that by (auto simp: BSIZE_val)
  have ib: "IBLOCK 3 sample_sb = 33" by (simp add: IBLOCK_def IPB_val sample_sb_def)
  have i: "i_dev (inodes s 0) = ROOTDEV" "i_inum (inodes s 0) = 3" "i_addrs (inodes s 0) ! NDIRECT = 0" "\<not> NDIRECT \<le> 0" "\<not> NDIRECT \<le> 1"
    by (simp_all add: s(4) sample_inode_def NDIRECT_def)
  have A: "addr_of s 0 (k div BSIZE) \<noteq> 0" "addr_of s 0 (k div BSIZE) \<noteq> 33" "addr_of s 0 (k div BSIZE) \<noteq> 40" "\<not> NDIRECT \<le> k div BSIZE"
    if "k < 2000" for k using k [OF that] a i(4,5) by auto
  have C: "j div BSIZE = k div BSIZE" if "j < 2000" "k < 2000" "addr_of s 0 (j div BSIZE) = addr_of s 0 (k div BSIZE)" for j k
    using k [OF that(1)] k [OF that(2)] that(3) a by auto
  have "(2000 :: nat) \<le> MAXFILE * BSIZE" by (simp add: MAXFILE_val BSIZE_val)
  then have m: "mapped s 0 2000" using sz i(1) A(1,4) by (simp add: mapped_def)
  have "apart s 0 2000" unfolding apart_def using m A(1,2) C by (simp add: i(2,3) ib s(3))
  moreover have "fbyte s 0 k = 7" if "k < 2000" for k
    using A(3) [OF that] by (simp add: fbyte_def s(2) sample_disk_def BSIZE_val)
  ultimately show ?thesis using s sz a by (intro exI [of _ s]) simp
qed

theorem readi_correct_witness:
  "\<exists>(s :: fkern) s'. i_size (inodes s 0) = 2000 \<and> readi 0 0 (Var []) 1022 4 s = Ok (4, Var [7, 7, 7, 7], s') \<and> blk s' = blk s"
proof -
  obtain s :: fkern where s: "txn 0 2 s {}" "lh_n s = 0" "inodes s 0 = sample_inode" "apart s 0 2000" "\<forall>k < 2000. fbyte s 0 k = 7"
    using sample_file by blast
  have "lh_n s < int LOGBLOCKS" "mapped s 0 (unat (i_size (inodes s 0)))"
    using s(2,4) by (simp_all add: LOGBLOCKS_def MAXOPBLOCKS_def s(3) sample_inode_def apart_def)
  note r = readi_correct [OF s(1) this, of "[]" 1022 4]
  have "read_len 2000 1022 4 = 4" by (simp add: read_len_def)
  moreover have "map (fbyte s 0) [1022..<1026] = [7, 7, 7, 7]" using s(5) by (simp add: upt_rec [of 1022] upt_rec [of 1023] upt_rec [of 1024] upt_rec [of 1025])
  ultimately obtain s' where "readi 0 0 (Var []) 1022 4 s = Ok (4, Var [7, 7, 7, 7], s')" "blk s' = blk s" using r by (auto simp: s(3) sample_inode_def)
  then show ?thesis by (intro exI [of _ s] exI [of _ s']) (simp add: s(3) sample_inode_def)
qed

theorem iupdate_stores_witness:
  "\<exists>(s :: fkern) s'. iupdate 0 0 s = Ok s' \<and> d_size (disk_inode s' 3) = 2000 \<and> disk_inode s' 4 = disk_inode s 4"
proof -
  obtain s :: fkern where s: "txn 0 2 s {}" "lh_n s = 0" "sized s" "inodes s 0 = sample_inode" using sample_file by blast
  have "\<exists>s'. iupdate 0 0 s = Ok s' \<and> txn 0 2 s' {} \<and> inodes s' = inodes s \<and>
    load_inode (disk_inode s' (i_inum (inodes s 0))) (inodes s 0) = inodes s 0 \<and>
    (\<forall>j. j \<noteq> i_inum (inodes s 0) \<longrightarrow> disk_inode s' j = disk_inode s j) \<and>
    (\<forall>n. n \<noteq> IBLOCK (i_inum (inodes s 0)) (sb s) \<longrightarrow> blk s' n = blk s n)"
    using s(2) by (intro iupdate_stores [OF s(1)]) (simp_all add: s(3,4) sample_inode_def LOGBLOCKS_def MAXOPBLOCKS_def NDIRECT_def)
  then obtain s' where s': "iupdate 0 0 s = Ok s'" "load_inode (disk_inode s' 3) sample_inode = sample_inode" "disk_inode s' 4 = disk_inode s 4"
    by (auto simp: s(4) sample_inode_def)
  have "i_size (load_inode (disk_inode s' 3) sample_inode) = 2000" unfolding s'(2) by (simp add: sample_inode_def)
  then show ?thesis using s' by (auto simp: load_inode_def)
qed

theorem writei_readi_witness:
  "\<exists>(s :: fkern) s1 s2. writei 0 0 (Var [1, 2, 3]) 1500 3 s = Ok (3, s1) \<and> readi 0 0 (Var []) 1500 3 s1 = Ok (3, Var [1, 2, 3], s2) \<and> fbyte s1 0 1499 = 7"
proof -
  obtain s :: fkern where s: "txn 0 2 s {}" "logged s = {}" "inodes s 0 = sample_inode" "apart s 0 2000" "\<forall>k < 2000. fbyte s 0 k = 7" "addr_of s 0 1 = 51"
    using sample_file by blast
  have "k div BSIZE = 1" if "k \<in> {1500..<1503}" for k using that by (auto simp: BSIZE_val)
  then have "range_blocks s 0 1500 1503 \<subseteq> {51}" using s(6) by (auto simp: range_blocks_def)
  then have "card (range_blocks s 0 1500 1503) \<le> 1" using card_mono [of "{51 :: u32}"] by fastforce
  then have c: "card (logged s \<union> range_blocks s 0 (unat (1500 :: u32)) (unat (1500 :: u32) + length [1, 2, 3 :: u8])) + 1 < LOGBLOCKS"
    by (simp add: s(2) LOGBLOCKS_def MAXOPBLOCKS_def)
  have p: "1500 \<le> i_size (inodes s 0)" "length (i_addrs (inodes s 0)) = Suc NDIRECT"
    "apart s 0 (max (unat (i_size (inodes s 0))) (unat (1500 :: u32) + length [1, 2, 3 :: u8]))"
    using s(4) by (simp_all add: s(3) sample_inode_def NDIRECT_def)
  from writei_readi [OF s(1) p c] obtain s1 s2 where w: "writei 0 0 (Var [1, 2, 3]) 1500 3 s = Ok (3, s1)" "readi 0 0 (Var []) 1500 3 s1 = Ok (3, Var [1, 2, 3], s2)"
    and f: "\<forall>k < 2000. fbyte s1 0 k = (if 1500 \<le> k \<and> k < 1503 then [1, 2, 3] ! (k - unat (1500 :: u32)) else fbyte s 0 k)"
    by (auto simp: s(3) sample_inode_def)
  have "fbyte s1 0 1499 = 7" using f s(5) by simp
  then show ?thesis using w by (intro exI [of _ s] exI [of _ s1] exI [of _ s2]) simp
qed

end
