(* ===== verification/Ucopy.thy ===== *)
theory Ucopy
  imports Vmap
begin

text \<open>
  Copying to user memory one byte at a time, through a page table: where the byte goes, and that the
  table stays as it is.
\<close>

definition user_table :: "mem \<Rightarrow> u64 \<Rightarrow> u64 set \<Rightarrow> bool" where
  "user_table m pt S \<longleftrightarrow> tree m 2 pt S \<and> (\<forall>q \<in> S. q mod PGSIZE = 0 \<and> q \<noteq> 0)"

text \<open>The physical address of a user address, and when a user byte can be written: its page is mapped for
  the user to write, and is none of the pages of the table.\<close>

definition phys :: "mem \<Rightarrow> u64 \<Rightarrow> u64 \<Rightarrow> u64" where
  "phys m pt va = PTE2PA (pte_of m 2 pt (PGROUNDDOWN va)) + (va - PGROUNDDOWN va)"

definition writable :: "mem \<Rightarrow> u64 \<Rightarrow> u64 set \<Rightarrow> u64 \<Rightarrow> bool" where
  "writable m pt S va \<longleftrightarrow> PGROUNDDOWN va < MAXVA \<and> (let e = pte_of m 2 pt (PGROUNDDOWN va) in
     user_pte e \<and> e AND PTE_W \<noteq> 0 \<and> PTE2PA e \<noteq> 0 \<and> PTE2PA e \<notin> S)"

primrec put_user :: "(u64 \<Rightarrow> u64) \<Rightarrow> u64 \<Rightarrow> u8 list \<Rightarrow> mem \<Rightarrow> mem" where
  "put_user f a [] m = m"
| "put_user f a (x # xs) m = put_user f (a + 1) xs (m(f a := x))"

lemma PTE2PA_aligned: "PTE2PA e mod PGSIZE = 0"
proof -
  have "take_bit 12 (push_bit 12 (drop_bit 10 e)) = 0" by (simp add: take_bit_push_bit)
  then show ?thesis by (simp add: PTE2PA_def PGSIZE_def take_bit_eq_mod)
qed

lemma unat_page_offset: "unat (va - PGROUNDDOWN va) = unat va mod 4096"
proof -
  have le: "PGROUNDDOWN va \<le> va" by (simp add: word_le_nat_alt unat_PGROUNDDOWN)
  have "unat (va - PGROUNDDOWN va) = unat va - unat va div 4096 * 4096" using unat_sub [OF le] by (simp add: unat_PGROUNDDOWN)
  then show ?thesis by (simp add: minus_div_mult_eq_mod)
qed

lemma page_offset: "va - PGROUNDDOWN va = word_of_nat (unat va mod 4096)"
proof -
  have "word_of_nat (unat (va - PGROUNDDOWN va)) = va - PGROUNDDOWN va" by simp
  then show ?thesis unfolding unat_page_offset by (rule sym)
qed

lemma page_room: "min (unat (PGSIZE - (va - PGROUNDDOWN va))) (length [x]) = 1"
proof -
  have "unat (va - PGROUNDDOWN va) < 4096" by (simp add: unat_page_offset)
  then have "va - PGROUNDDOWN va < PGSIZE" by (simp add: word_less_nat_alt PGSIZE_def)
  then have "PGSIZE - (va - PGROUNDDOWN va) \<noteq> 0" by auto
  then have "unat (PGSIZE - (va - PGROUNDDOWN va)) \<noteq> 0" by (simp only: unsigned_eq_0_iff not_False_eq_True)
  then show ?thesis by (simp only: min_def) simp
qed

lemma walk_user:
  fixes s :: "'a km_scheme"
  assumes "user_table (memory s) pt S" and "va < MAXVA" and "pte_of (memory s) 2 pt va \<noteq> 0"
  shows "\<exists>a. a \<noteq> 0 \<and> walk c pt va False s = Ok (a, s) \<and> load64 (memory s) a = pte_of (memory s) 2 pt va"
proof (cases "leaf (memory s) 2 pt va")
  case (Some q)
  have "q \<in> S" using assms(1) Some leaf_in_tree unfolding user_table_def by blast
  then have "entry q (px 0 va) \<noteq> 0" using assms(1) px_less by (intro entry_nonzero) (auto simp: user_table_def)
  then show ?thesis using Some assms(2) by (intro exI [of _ "entry q (px 0 va)"]) (simp add: walk_def walk_from_lookup pte_of_def not_le [symmetric])
qed (use assms(3) in \<open>simp add: pte_of_def\<close>)

lemma copyout_byte:
  fixes s :: "'a kern_scheme"
  assumes "user_table (memory s) pt S" and "writable (memory s) pt S va"
  shows "copyout c pt va [x] s = Ok (0, upd_mem (\<lambda>m. m(phys m pt va := x)) s)"
proof -
  let ?v = "PGROUNDDOWN va" and ?e = "pte_of (memory s) 2 pt (PGROUNDDOWN va)"
  have e: "?v < MAXVA" "user_pte ?e" "?e AND PTE_W \<noteq> 0" "PTE2PA ?e \<noteq> 0" using assms(2) by (simp_all add: writable_def Let_def)
  then have "?e \<noteq> 0" by auto
  from walk_user [OF assms(1) e(1) this, of c] obtain a
    where a: "a \<noteq> 0" "walk c pt ?v False s = Ok (a, s)" "load64 (memory s) a = ?e" by blast
  have "walkaddr c pt ?v s = Ok (PTE2PA ?e, s)" using e(1,2) a by (simp add: walkaddr_def Let_def user_pte_def not_le [symmetric])
  then show ?thesis using e a page_room [of va x]
    by (simp add: copyout_def Let_def phys_def upd_mem_def not_le [symmetric] numeral_2_eq_2)
qed

text \<open>A byte written to a page outside the table leaves the table alone.\<close>

lemma other_page_byte:
  assumes "p mod PGSIZE = 0" and "q mod PGSIZE = 0" and "p \<noteq> q" and "k < 4096"
  shows "same_page q m (m(p + word_of_nat k := x))"
proof -
  have "p + word_of_nat k \<noteq> q + word_of_nat i" if "i < 4096" for i
    using page_disjoint [OF assms(2,1) _ assms(4)] in_page [OF that, of q] assms(3) by metis
  then have "q + word_of_nat i \<noteq> p + word_of_nat k" if "i < 4096" for i using that by metis
  then show ?thesis by (simp add: same_page_def)
qed

lemma byte_keeps_table:
  assumes "user_table m pt S" and "writable m pt S va"
  shows "user_table (m(phys m pt va := x)) pt S" "pte_of (m(phys m pt va := x)) 2 pt v = pte_of m 2 pt v"
proof -
  let ?p = "PTE2PA (pte_of m 2 pt (PGROUNDDOWN va))"
  have p: "?p \<notin> S" using assms(2) by (simp add: writable_def Let_def)
  have same: "same_page q m (m(phys m pt va := x))" if "q \<in> S" for q
    unfolding phys_def page_offset using assms(1) that p by (intro other_page_byte PTE2PA_aligned) (auto simp: user_table_def)
  have t: "tree m 2 pt S" using assms(1) by (simp add: user_table_def)
  show "user_table (m(phys m pt va := x)) pt S" using tree_cong [OF t same] assms(1) by (simp add: user_table_def)
  show "pte_of (m(phys m pt va := x)) 2 pt v = pte_of m 2 pt v" by (rule pte_of_cong [OF t same])
qed

lemma byte_keeps_map:
  assumes "user_table m pt S" and "writable m pt S va"
  shows "phys (m(phys m pt va := x)) pt = phys m pt" "writable (m(phys m pt va := x)) pt S = writable m pt S"
  using byte_keeps_table(2) [OF assms] by (simp_all add: phys_def writable_def fun_eq_iff)

end
