(* ===== verification/Lines.thy ===== *)
theory Lines
  imports Console Ucopy
begin

text \<open>
  The line discipline of \<^verbatim>\<open>kernel/console.c\<close>: \<^verbatim>\<open>consoleintr\<close> implements editing of an input
  line on two lists of bytes, those a reader may take and those still being edited, and
  \<^verbatim>\<open>consoleread\<close> takes what is ready, up to a line, to the memory of the user.
\<close>

section \<open>The input as lists\<close>

text \<open>
  \<open>typed\<close> is what the ring buffer holds from the read index to the edit index; the first \<open>ndone\<close> of
  these bytes may be read.
\<close>

definition typed :: "'a ckern_scheme \<Rightarrow> u8 list" where
  "typed s = map (\<lambda>i. cons_buf s ! ((unat (cons_r s) + i) mod INPUT_BUF_SIZE)) [0..<unat (cons_e s - cons_r s)]"

definition ndone :: "'a ckern_scheme \<Rightarrow> nat" where
  "ndone s = unat (cons_w s - cons_r s)"

definition cview :: "'a ckern_scheme \<Rightarrow> u8 list \<times> u8 list" where
  "cview s = (take (ndone s) (typed s), drop (ndone s) (typed s))"

definition ring_ok :: "'a ckern_scheme \<Rightarrow> bool" where
  "ring_ok s \<longleftrightarrow> length (cons_buf s) = INPUT_BUF_SIZE \<and> ndone s \<le> length (typed s) \<and> length (typed s) \<le> INPUT_BUF_SIZE \<and>
     10 \<notin> set (drop (ndone s) (typed s))"

text \<open>The specification: one character typed.\<close>

definition type_char :: "u8 \<Rightarrow> u8 list \<times> u8 list \<Rightarrow> u8 list \<times> u8 list" where
  "type_char x = (\<lambda>(ready, line).
     if x = Ctl 80 then (ready, line)
     else if x = Ctl 85 then (ready, [])
     else if x = Ctl 72 \<or> x = 0x7f then (ready, butlast line)
     else if x = 0 \<or> INPUT_BUF_SIZE \<le> length ready + length line then (ready, line)
     else let y = (if x = 13 then 10 else x)
          in if y = 10 \<or> y = Ctl 68 \<or> length ready + length line + 1 = INPUT_BUF_SIZE
             then (ready @ line @ [y], []) else (ready, line @ [y]))"

section \<open>The ring buffer\<close>

lemma IBS_val: "INPUT_BUF_SIZE = 128"
  by (simp add: INPUT_BUF_SIZE_def)

lemma length_typed [simp]: "length (typed s) = unat (cons_e s - cons_r s)"
  by (simp add: typed_def)

lemma typed_cong: "cons_buf s' = cons_buf s \<Longrightarrow> cons_r s' = cons_r s \<Longrightarrow> cons_e s' = cons_e s \<Longrightarrow> typed s' = typed s"
  by (simp add: typed_def)

lemma unat_inc: "unat (d :: u32) < 128 \<Longrightarrow> unat (d + 1) = unat d + 1"
  by (simp add: unat_word_ariths)

lemma unat_dec: "(d :: u32) \<noteq> 0 \<Longrightarrow> unat (d - 1) = unat d - 1"
  by (simp add: unat_minus_one)

lemma ring_index:
  assumes "unat (e - r) = n"
  shows "unat (e :: u32) mod INPUT_BUF_SIZE = (unat r + n) mod INPUT_BUF_SIZE"
proof -
  have "e = r + (e - r)" by simp
  then have "unat e = unat (r + (e - r))" by simp
  also have "\<dots> = (unat r + unat (e - r)) mod 2 ^ LENGTH(32)" by (simp only: unat_word_ariths)
  finally have "unat e = (unat r + n) mod 2 ^ 32" using assms by simp
  then show ?thesis by (simp add: IBS_val mod_mod_cancel)
qed

lemma typed_store:
  assumes "length (cons_buf s) = INPUT_BUF_SIZE" and "length (typed s) < INPUT_BUF_SIZE"
  shows "typed (s\<lparr>cons_buf := (cons_buf s)[unat (cons_e s) mod INPUT_BUF_SIZE := y], cons_e := cons_e s + 1\<rparr>) = typed s @ [y]"
proof -
  let ?n = "unat (cons_e s - cons_r s)" and ?p = "\<lambda>i. (unat (cons_r s) + i) mod INPUT_BUF_SIZE"
  let ?s = "s\<lparr>cons_buf := (cons_buf s)[unat (cons_e s) mod INPUT_BUF_SIZE := y], cons_e := cons_e s + 1\<rparr>"
  have n: "?n < 128" using assms(2) by (simp add: IBS_val)
  have eq: "cons_e s + 1 - cons_r s = (cons_e s - cons_r s) + 1" by simp
  have n1: "unat (cons_e s + 1 - cons_r s) = ?n + 1" unfolding eq by (rule unat_inc [OF n])
  have ix: "unat (cons_e s) mod INPUT_BUF_SIZE = ?p ?n" by (rule ring_index) simp
  have ne: "?p i \<noteq> ?p ?n" if "i < ?n" for i
  proof
    assume "?p i = ?p ?n"
    then have "(unat (cons_r s) + ?n - (unat (cons_r s) + i)) mod 128 = 0"
      using mod_eq_dvd_iff_nat [of "unat (cons_r s) + i" "unat (cons_r s) + ?n" 128] that by (auto simp: IBS_val)
    then show False using that n by simp
  qed
  have lt: "?p i < length (cons_buf s)" for i using assms(1) by (simp add: IBS_val)
  show ?thesis
    using n1 lt ix by (simp add: typed_def nth_list_update) (use ne in fastforce)
qed

lemma typed_back:
  assumes "cons_e s \<noteq> cons_r s"
  shows "typed (s\<lparr>cons_e := cons_e s - 1\<rparr>) = butlast (typed s)" "last (typed s) = cons_buf s ! (unat (cons_e s - 1) mod INPUT_BUF_SIZE)"
proof -
  let ?n = "unat (cons_e s - cons_r s)"
  have nz: "cons_e s - cons_r s \<noteq> 0" using assms by simp
  have eq: "cons_e s - 1 - cons_r s = cons_e s - cons_r s - 1" by simp
  have n1: "unat (cons_e s - 1 - cons_r s) = ?n - 1" unfolding eq by (rule unat_dec [OF nz])
  have "0 < ?n" using nz by (simp add: unat_gt_0)
  then have up: "[0..<?n] = [0..<?n - 1] @ [?n - 1]" by (metis Suc_diff_1 upt_Suc_append zero_le)
  show "typed (s\<lparr>cons_e := cons_e s - 1\<rparr>) = butlast (typed s)" using up by (simp add: typed_def n1)
  show "last (typed s) = cons_buf s ! (unat (cons_e s - 1) mod INPUT_BUF_SIZE)"
    using up ring_index [OF n1] by (simp add: typed_def)
qed

lemma edited_iff: "ndone s \<le> length (typed s) \<Longrightarrow> cons_e s \<noteq> cons_w s \<longleftrightarrow> ndone s < length (typed s)"
  unfolding ndone_def length_typed using word_unat_eq_iff [of "cons_e s - cons_r s" "cons_w s - cons_r s"] by auto

lemma cons_kill_effect:
  assumes "ring_ok s"
  shows "\<exists>x e. cons_kill s = s\<lparr>printed := x, cons_e := e\<rparr> \<and> typed (s\<lparr>cons_e := e\<rparr>) = take (ndone s) (typed s)"
  using assms
proof (induction s rule: cons_kill.induct)
  case (1 s)
  have le: "ndone s \<le> length (typed s)" using 1(2) by (simp add: ring_ok_def)
  show ?case
  proof (cases "cons_e s = cons_w s")
    case True
    then have "take (ndone s) (typed s) = typed s" using edited_iff [OF le] by simp
    moreover have "cons_kill s = s" using True by (subst cons_kill.simps) simp
    ultimately show ?thesis by (intro exI [of _ "printed s"] exI [of _ "cons_e s"]) simp
  next
    case False
    then have lt: "ndone s < length (typed s)" using edited_iff [OF le] by simp
    then have er: "cons_e s \<noteq> cons_r s" by auto
    note h = typed_back [OF er]
    have "last (typed s) \<in> set (drop (ndone s) (typed s))" using lt by (metis last_drop last_in_set drop_eq_Nil not_le)
    then have nl: "cons_buf s ! (unat (cons_e s - 1) mod INPUT_BUF_SIZE) \<noteq> 10" using 1(2) h(2) by (auto simp: ring_ok_def)
    let ?s = "consputc BACKSPACE (s\<lparr>cons_e := cons_e s - 1\<rparr>)"
    have hs: "typed ?s = butlast (typed s)" using h(1) typed_cong [of ?s "s\<lparr>cons_e := cons_e s - 1\<rparr>"] by (simp add: consputc_def)
    have nd: "ndone ?s = ndone s" by (simp add: ndone_def consputc_def)
    have "drop (ndone s) (butlast (typed s)) = butlast (drop (ndone s) (typed s))" by (simp add: butlast_drop)
    then have ok: "ring_ok ?s" using 1(2) lt hs nd
      by (auto simp: ring_ok_def consputc_def simp del: length_typed dest: in_set_butlastD)
    obtain x e where xe: "cons_kill ?s = ?s\<lparr>printed := x, cons_e := e\<rparr>" "typed (?s\<lparr>cons_e := e\<rparr>) = take (ndone ?s) (typed ?s)"
      using 1(1) [OF conjI [OF False nl] ok] by blast
    have "cons_kill s = cons_kill ?s" using False nl by (subst cons_kill.simps) simp
    moreover have "take (ndone s) (butlast (typed s)) = take (ndone s) (typed s)" using lt by (simp add: take_butlast del: length_typed)
    moreover have "typed (?s\<lparr>cons_e := e\<rparr>) = typed (s\<lparr>cons_e := e\<rparr>)" by (rule typed_cong) (simp_all add: consputc_def)
    ultimately show ?thesis using xe hs nd by (intro exI [of _ x] exI [of _ e]) (simp add: consputc_def)
  qed
qed


section \<open>One character\<close>

lemma printed_frame: "kframe s (s\<lparr>printed := x\<rparr>)" "ring_ok (s\<lparr>printed := x\<rparr>) = ring_ok s" "cview (s\<lparr>printed := x\<rparr>) = cview s"
  by (simp_all add: kframe_def krest_def woken_def ring_ok_def cview_def typed_def ndone_def)

lemma kprintf_is: "\<exists>x. kprintf f as s = s\<lparr>printed := x\<rparr>"
proof (cases "printf f as")
  case None
  then show ?thesis by (intro exI [of _ "printed s"]) (simp add: kprintf_def)
qed (auto simp: kprintf_def)

lemma procdump_is: "\<exists>x. procdump s = s\<lparr>printed := x\<rparr>"
proof -
  have l: "\<exists>y. procdump_line i (s\<lparr>printed := x\<rparr>) = s\<lparr>printed := y\<rparr>" for i x
  proof -
    have k: "\<exists>y. kprintf f as (s\<lparr>printed := z\<rparr>) = s\<lparr>printed := y\<rparr>" for f as z using kprintf_is [of f as "s\<lparr>printed := z\<rparr>"] by simp
    let ?p = "procs s i"
    let ?as = "[ArgInt (of_int (p_pid ?p)), ArgStr (Some (state_name (p_state ?p))), ArgStr (Some (str_of (p_name ?p)))]"
    obtain z where "kprintf ''%d %s %s'' ?as (s\<lparr>printed := x\<rparr>) = s\<lparr>printed := z\<rparr>" using k by blast
    moreover obtain y where "kprintf ''\<newline>'' [] (s\<lparr>printed := z\<rparr>) = s\<lparr>printed := y\<rparr>" using k by blast
    ultimately show ?thesis by (auto simp: procdump_line_def Let_def)
  qed
  have "\<exists>y. fold procdump_line is (s\<lparr>printed := x\<rparr>) = s\<lparr>printed := y\<rparr>" for "is" x
  proof (induction "is" arbitrary: x)
    case (Cons i "is")
    then show ?case using l [of i x] by auto
  qed auto
  moreover obtain x where "kprintf ''\<newline>'' [] s = s\<lparr>printed := x\<rparr>" using kprintf_is by blast
  ultimately show ?thesis by (simp add: procdump_def)
qed

definition intr_body :: "nat \<Rightarrow> u8 \<Rightarrow> 'a ckern_scheme \<Rightarrow> 'a ckern_scheme result" where
  "intr_body c x s1 =
     (if x = Ctl 80 then Ok (procdump s1)
      else if x = Ctl 85 then Ok (cons_kill s1)
      else if x = Ctl 72 \<or> x = 0x7f then
        Ok (if cons_e s1 \<noteq> cons_w s1 then consputc BACKSPACE (s1\<lparr>cons_e := cons_e s1 - 1\<rparr>) else s1)
      else if x \<noteq> 0 \<and> cons_e s1 - cons_r s1 < of_nat INPUT_BUF_SIZE then
        let y = (if x = 13 then 10 else x);
            s2 = consputc (unat y) s1;
            s3 = s2\<lparr>cons_buf := (cons_buf s2)[unat (cons_e s2) mod INPUT_BUF_SIZE := y], cons_e := cons_e s2 + 1\<rparr>
        in if y = 10 \<or> y = Ctl 68 \<or> cons_e s3 - cons_r s3 = of_nat INPUT_BUF_SIZE
           then wakeup c ConsChan (s3\<lparr>cons_w := cons_e s3\<rparr>) else Ok s3
      else Ok s1)"

lemma full_iff: "cons_e s - cons_r s < of_nat INPUT_BUF_SIZE \<longleftrightarrow> length (typed s) < INPUT_BUF_SIZE"
  "cons_e s - cons_r s = of_nat INPUT_BUF_SIZE \<longleftrightarrow> length (typed s) = INPUT_BUF_SIZE"
  by (simp_all add: IBS_val word_less_nat_alt word_unat_eq_iff)

text \<open>A character is stored, and the line is handed over when it is complete.\<close>

lemma store_char:
  fixes s :: "'a ckern_scheme" and k :: nat and y :: u8
  assumes "ring_ok s" and "quiet c s" and "length (typed s) < INPUT_BUF_SIZE"
  defines "s2 \<equiv> consputc k s"
  defines "s3 \<equiv> s2\<lparr>cons_buf := (cons_buf s2)[unat (cons_e s2) mod INPUT_BUF_SIZE := y], cons_e := cons_e s2 + 1\<rparr>"
  shows "y \<noteq> 10 \<Longrightarrow> ring_ok s3" "cview s3 = (fst (cview s), snd (cview s) @ [y])" "length (typed s3) = length (typed s) + 1" "kframe s s3" "cons_lock s3 = cons_lock s"
    "\<exists>u. wakeup c ConsChan (s3\<lparr>cons_w := cons_e s3\<rparr>) = Ok u \<and> ring_ok u \<and> cview u = (fst (cview s) @ snd (cview s) @ [y], []) \<and>
      cons_lock u = cons_lock s \<and> kframe s u"
proof -
  have b: "length (cons_buf s) = INPUT_BUF_SIZE" and le: "ndone s \<le> length (typed s)" and nl: "10 \<notin> set (drop (ndone s) (typed s))"
    using assms(1) by (simp_all add: ring_ok_def)
  have f: "cons_buf s3 = (cons_buf s)[unat (cons_e s) mod INPUT_BUF_SIZE := y]" "cons_e s3 = cons_e s + 1" "cons_r s3 = cons_r s" "cons_w s3 = cons_w s"
    "procs s3 = procs s" "cpus s3 = cpus s" "sstatus s3 = sstatus s" by (simp_all add: s3_def s2_def consputc_def)
  have t: "typed s3 = typed s @ [y]" using typed_store [OF b assms(3), of y] typed_cong [of s3 "s\<lparr>cons_buf := (cons_buf s)[unat (cons_e s) mod INPUT_BUF_SIZE := y], cons_e := cons_e s + 1\<rparr>"]
    by (simp add: f)
  have nd: "ndone s3 = ndone s" by (simp add: ndone_def f)
  show "length (typed s3) = length (typed s) + 1" by (simp add: t del: length_typed)
  show "cview s3 = (fst (cview s), snd (cview s) @ [y])" using le by (simp add: cview_def t nd del: length_typed)
  show "y \<noteq> 10 \<Longrightarrow> ring_ok s3" using b le nl assms(3) by (simp add: ring_ok_def t nd f del: length_typed)
  show kf: "kframe s s3" by (simp add: s3_def s2_def consputc_def kframe_def krest_def woken_def)
  show "cons_lock s3 = cons_lock s" by (simp add: s3_def s2_def consputc_def)
  let ?u = "s3\<lparr>cons_w := cons_e s3\<rparr>"
  define u where "u = settle c (wake_all (cpu_proc (cpus ?u c)) ConsChan ?u)"
  have "quiet c ?u" using assms(2) by (simp add: quiet_def hart_ok_def intr_get_def f)
  then have w: "wakeup c ConsChan ?u = Ok u" unfolding u_def by (subst wakeup_effect) simp_all
  have "kframe s ?u" using kf by (simp add: kframe_def krest_def)
  then have ku: "kframe s u" unfolding u_def kframe_settle by (rule kframe_wake)
  have fu: "cons_buf u = cons_buf s3" "cons_r u = cons_r s3" "cons_e u = cons_e s3" "cons_w u = cons_e s3" "cons_lock u = cons_lock s"
    by (simp_all add: u_def settle_def set_cpu_def wake_all_def) (simp add: s3_def s2_def consputc_def)
  have tu: "typed u = typed s @ [y]" using typed_cong [of u s3] fu t by simp
  have nu: "ndone u = length (typed u)" by (simp add: ndone_def fu)
  have "ring_ok u" using b assms(3) tu by (simp add: ring_ok_def nu fu(1) f(1) del: length_typed)
  moreover have "cview u = (fst (cview s) @ snd (cview s) @ [y], [])" using tu by (simp add: cview_def nu del: length_typed)
  ultimately show "\<exists>u. wakeup c ConsChan ?u = Ok u \<and> ring_ok u \<and> cview u = (fst (cview s) @ snd (cview s) @ [y], []) \<and> cons_lock u = cons_lock s \<and> kframe s u"
    using w ku fu(5) by blast
qed


lemma cview_length: "ring_ok s \<Longrightarrow> length (fst (cview s)) + length (snd (cview s)) = length (typed s)"
  by (simp add: cview_def ring_ok_def)

lemma intr_body_effect:
  fixes s :: "'a ckern_scheme"
  assumes "ring_ok s" and "quiet c s"
  shows "\<exists>u. intr_body c x s = Ok u \<and> ring_ok u \<and> cview u = type_char x (cview s) \<and> cons_lock u = cons_lock s \<and> kframe s u"
proof -
  have le: "ndone s \<le> length (typed s)" and nl: "10 \<notin> set (drop (ndone s) (typed s))" using assms(1) by (simp_all add: ring_ok_def)
  note cl = cview_length [OF assms(1)]
  consider (p) "x = Ctl 80" | (u) "x = Ctl 85" "x \<noteq> Ctl 80" | (h) "x = Ctl 72 \<or> x = 0x7f" "x \<noteq> Ctl 80" "x \<noteq> Ctl 85"
    | (full) "x \<noteq> Ctl 80" "x \<noteq> Ctl 85" "\<not> (x = Ctl 72 \<or> x = 0x7f)" "\<not> (x \<noteq> 0 \<and> length (typed s) < INPUT_BUF_SIZE)"
    | (char) "x \<noteq> Ctl 80" "x \<noteq> Ctl 85" "\<not> (x = Ctl 72 \<or> x = 0x7f)" "x \<noteq> 0" "length (typed s) < INPUT_BUF_SIZE" by blast
  then show ?thesis
  proof cases
    case p
    obtain z where "procdump s = s\<lparr>printed := z\<rparr>" using procdump_is by blast
    then show ?thesis using p assms(1) by (simp add: intr_body_def type_char_def printed_frame split: prod.splits)
  next
    case u
    obtain z e where k: "cons_kill s = s\<lparr>printed := z, cons_e := e\<rparr>" "typed (s\<lparr>cons_e := e\<rparr>) = take (ndone s) (typed s)"
      using cons_kill_effect [OF assms(1)] by blast
    let ?u = "s\<lparr>printed := z, cons_e := e\<rparr>"
    have t: "typed ?u = take (ndone s) (typed s)" and n: "ndone ?u = ndone s" using k(2) typed_cong [of ?u "s\<lparr>cons_e := e\<rparr>"] by (simp_all add: ndone_def)
    have "ring_ok ?u" using assms(1) by (simp add: ring_ok_def t n del: length_typed)
    moreover have "cview ?u = (fst (cview s), [])" by (simp add: cview_def t n)
    moreover have "kframe s ?u" by (simp add: kframe_def krest_def woken_def)
    ultimately show ?thesis using u k(1) by (simp add: intr_body_def type_char_def split: prod.splits)
  next
    case h
    show ?thesis
    proof (cases "cons_e s = cons_w s")
      case True
      then have "snd (cview s) = []" using edited_iff [OF le] by (simp add: cview_def)
      then show ?thesis using True h assms(1) by (auto simp: intr_body_def type_char_def split: prod.splits)
    next
      case False
      let ?u = "consputc BACKSPACE (s\<lparr>cons_e := cons_e s - 1\<rparr>)"
      have lt: "ndone s < length (typed s)" using False edited_iff [OF le] by simp
      then have er: "cons_e s \<noteq> cons_r s" by auto
      have t: "typed ?u = butlast (typed s)" and n: "ndone ?u = ndone s"
        using typed_back(1) [OF er] typed_cong [of ?u "s\<lparr>cons_e := cons_e s - 1\<rparr>"] by (simp_all add: ndone_def consputc_def)
      have d: "drop (ndone s) (butlast (typed s)) = butlast (drop (ndone s) (typed s))" by (simp add: butlast_drop)
      have "ring_ok ?u" using assms(1) lt nl d by (auto simp: ring_ok_def t n simp del: length_typed dest: in_set_butlastD) (simp add: consputc_def)
      moreover have "cview ?u = (fst (cview s), butlast (snd (cview s)))" using lt by (simp add: cview_def t n d take_butlast del: length_typed)
      moreover have "kframe s ?u" "cons_lock ?u = cons_lock s" by (simp_all add: kframe_def krest_def woken_def consputc_def)
      ultimately show ?thesis using h False by (auto simp: intr_body_def type_char_def split: prod.splits)
    qed
  next
    case full
    then show ?thesis using assms(1) cl by (auto simp: intr_body_def type_char_def full_iff split: prod.splits)
  next
    case char
    define y where "y = (if x = 13 then 10 else x)"
    note st = store_char [OF assms char(5), where k = "unat y" and y = y]
    define s2 where "s2 = consputc (unat y) s"
    define s3 where "s3 = s2\<lparr>cons_buf := (cons_buf s2)[unat (cons_e s2) mod INPUT_BUF_SIZE := y], cons_e := cons_e s2 + 1\<rparr>"
    note st = st [folded s2_def, folded s3_def]
    have b: "intr_body c x s = (if y = 10 \<or> y = Ctl 68 \<or> length (typed s) + 1 = INPUT_BUF_SIZE then wakeup c ConsChan (s3\<lparr>cons_w := cons_e s3\<rparr>) else Ok s3)"
      using char st(3) full_iff [of s] full_iff(2) [of s3] unfolding intr_body_def Let_def y_def [symmetric] s2_def [symmetric] s3_def [symmetric] by simp
    have tc: "type_char x (cview s) = (if y = 10 \<or> y = Ctl 68 \<or> length (typed s) + 1 = INPUT_BUF_SIZE
        then (fst (cview s) @ snd (cview s) @ [y], []) else (fst (cview s), snd (cview s) @ [y]))"
      using char cl by (auto simp: type_char_def Let_def y_def split: prod.splits)
    show ?thesis unfolding b tc using st by auto
  qed
qed

interpretation cn: spin_cell cons_lock "\<lambda>lk. cons_lock_update (\<lambda>_. lk)"
  by unfold_locales simp_all

lemma cons_section:
  fixes s u :: "'a ckern_scheme"
  assumes "hart_ok c s" and "lock_clean (cons_lock s)" and "cons_lock u = taken c (cons_lock s)" and "kframe (push_off c s) u"
  shows "\<exists>s'. release_cons c u = Ok s' \<and> kframe s s' \<and> cons_lock s' = cons_lock s \<and> ring_ok s' = ring_ok u \<and> cview s' = cview u"
proof -
  obtain t where t: "pop_off c u = Ok t" "kframe s t" "hw.more t = hw.more u" using pop_kframe [OF assms(1,4)] by blast
  have r: "release_cons c u = Ok (t\<lparr>cons_lock := cons_lock s\<rparr>)"
    unfolding release_cons_def by (rule cn.release_after [OF assms(3,2) t(1)])
  have "cons_buf t = cons_buf u" "cons_r t = cons_r u" "cons_w t = cons_w u" "cons_e t = cons_e u" using t(3) by (cases t; cases u; simp)+
  then have "ring_ok (t\<lparr>cons_lock := cons_lock s\<rparr>) = ring_ok u \<and> cview (t\<lparr>cons_lock := cons_lock s\<rparr>) = cview u"
    by (simp add: ring_ok_def cview_def typed_def ndone_def)
  moreover have "kframe s (t\<lparr>cons_lock := cons_lock s\<rparr>)" using t(2) by (simp add: kframe_def krest_def)
  ultimately show ?thesis using r by simp
qed

text \<open>
  C33: the console interrupt handler implements editing of an input line. Whatever character is
  typed, the ring buffer afterwards represents what the specification gives on the two lists of
  bytes, the complete lines a reader may take and the line being edited: ordinary characters are
  appended until 128 are held, backspace and delete remove the last one of the line but never reach
  into a complete line, control-U removes the whole line, newline, control-D and a full buffer
  complete it. The handler never panics, and nothing else of the kernel changes but sleepers that
  are woken.
\<close>

theorem consoleintr_refines:
  fixes s :: "'a ckern_scheme"
  assumes "quiet c s" and "ring_ok s" and "lock_clean (cons_lock s)"
  shows "\<exists>s'. consoleintr c x s = Ok s' \<and> ring_ok s' \<and> cview s' = type_char x (cview s) \<and> cons_lock s' = cons_lock s \<and> kframe s s'"
proof -
  let ?s = "push_off c s\<lparr>cons_lock := taken c (cons_lock s)\<rparr>"
  have f: "cons_buf ?s = cons_buf s" "cons_r ?s = cons_r s" "cons_w ?s = cons_w s" "cons_e ?s = cons_e s"
    by (simp_all add: push_off_def set_cpu_def intr_off_def Let_def)
  have v: "ring_ok ?s" "cview ?s = cview s" using assms(2) by (simp_all add: ring_ok_def cview_def typed_def ndone_def f)
  have "quiet c (push_off c s)" using assms(1) by simp
  then have q: "quiet c ?s" by (simp add: quiet_def hart_ok_def intr_get_def)
  have a: "acquire_cons c s = Ok ?s" unfolding acquire_cons_def using assms(3) by (simp add: cn.acquire_cell)
  obtain u where u: "intr_body c x ?s = Ok u" "ring_ok u" "cview u = type_char x (cview s)" "cons_lock u = taken c (cons_lock s)" "kframe ?s u"
    using intr_body_effect [OF v(1) q, of x] v(2) by auto
  have "kframe (push_off c s) ?s" by (simp add: kframe_def krest_def woken_def)
  then have "kframe (push_off c s) u" using kframe_trans u(5) by blast
  then obtain s' where "release_cons c u = Ok s'" "kframe s s'" "cons_lock s' = cons_lock s" "ring_ok s' = ring_ok u" "cview s' = cview u"
    using cons_section [OF _ assms(3) u(4)] assms(1) by (auto simp: quiet_def)
  moreover have "consoleintr c x s = rbind (acquire_cons c s) (\<lambda>s1. rbind (intr_body c x s1) (\<lambda>s4. release_cons c s4))"
    by (simp add: consoleintr_def intr_body_def)
  ultimately show ?thesis using a u by simp
qed


section \<open>Reading a line\<close>

lemma take_one:
  fixes s :: "'a ckern_scheme"
  assumes "ring_ok s" and "fst (cview s) = x # d"
  shows "cons_r s \<noteq> cons_w s" "cons_buf s ! (unat (cons_r s) mod INPUT_BUF_SIZE) = x"
    "ring_ok (s\<lparr>cons_r := cons_r s + 1\<rparr>)" "cview (s\<lparr>cons_r := cons_r s + 1\<rparr>) = (d, snd (cview s))"
proof -
  let ?s = "s\<lparr>cons_r := cons_r s + 1\<rparr>" and ?n = "unat (cons_e s - cons_r s)" and ?m = "unat (cons_w s - cons_r s)"
  have le: "?m \<le> ?n" "?n \<le> 128" using assms(1) by (simp_all add: ring_ok_def ndone_def IBS_val)
  have m0: "0 < ?m" using assms(2) by (cases ?m) (simp_all add: cview_def ndone_def)
  then have nz: "cons_w s - cons_r s \<noteq> 0" "cons_e s - cons_r s \<noteq> 0" using le by auto
  show "cons_r s \<noteq> cons_w s" using nz by auto
  have eq: "cons_e s - (cons_r s + 1) = cons_e s - cons_r s - 1" "cons_w s - (cons_r s + 1) = cons_w s - cons_r s - 1" by simp_all
  have n1: "unat (cons_e s - (cons_r s + 1)) = ?n - 1" "unat (cons_w s - (cons_r s + 1)) = ?m - 1"
    unfolding eq by (rule unat_dec [OF nz(2)], rule unat_dec [OF nz(1)])
  have up: "[0..<?n] = 0 # map Suc [0..<?n - 1]" using m0 le by (metis Suc_diff_1 less_le_trans map_Suc_upt upt_conv_Cons)
  have ix: "(unat (cons_r s + 1) + i) mod INPUT_BUF_SIZE = (unat (cons_r s) + Suc i) mod INPUT_BUF_SIZE" for i
  proof -
    have "unat (cons_r s + 1) mod INPUT_BUF_SIZE = (unat (cons_r s) + 1) mod INPUT_BUF_SIZE" by (rule ring_index) simp
    then show ?thesis by (metis add_Suc_right add_Suc add.commute Suc_eq_plus1 mod_add_left_eq)
  qed
  have t: "typed s = cons_buf s ! (unat (cons_r s) mod INPUT_BUF_SIZE) # typed ?s" by (simp add: typed_def up n1 ix comp_def)
  have nd: "ndone s = Suc (ndone ?s)" using m0 n1 by (simp add: ndone_def)
  show "cons_buf s ! (unat (cons_r s) mod INPUT_BUF_SIZE) = x" using assms(2) t nd by (simp add: cview_def)
  show "cview ?s = (d, snd (cview s))" using assms(2) t nd by (simp add: cview_def)
  have "length (typed s) = Suc (length (typed ?s))" using t by (metis length_Cons)
  then show "ring_ok ?s" using assms(1) nd t by (simp add: ring_ok_def del: length_typed)
qed

interpretation cr: kcell cons_r "\<lambda>v. cons_r_update (\<lambda>_. v)"
  by unfold_locales simp_all

interpretation cm: kcell memory "\<lambda>m. memory_update (\<lambda>_. m)"
  by unfold_locales simp_all

lemma settle_twice [simp]: "settle c (settle c s) = settle c s"
  by (simp add: settle_def set_cpu_def intr_get_def)

lemma push_off_cons [simp]:
  "cons_w (push_off c s) = cons_w s" "cons_e (push_off c s) = cons_e s" "cons_buf (push_off c s) = cons_buf s"
  by (simp_all add: push_off_def set_cpu_def intr_off_def Let_def)

lemma settle_fields [simp]:
  "cons_w (settle c s) = cons_w s" "cons_e (settle c s) = cons_e s" "cons_buf (settle c s) = cons_buf s"
  by (simp_all add: settle_def set_cpu_def)

text \<open>
  What a read of at most \<open>n\<close> bytes takes from the input that is ready: up to and with the next
  newline; or up to a control-D, which is used up only by a read that has delivered nothing, \<open>some\<close>
  telling whether one has; or \<open>n\<close> bytes. \<open>None\<close>: it has to wait for more input.
\<close>

fun take_line :: "nat \<Rightarrow> bool \<Rightarrow> u8 list \<Rightarrow> (u8 list \<times> u8 list) option" where
  "take_line 0 some d = Some ([], d)"
| "take_line (Suc n) some [] = None"
| "take_line (Suc n) some (x # d) =
     (if x = Ctl 68 then Some ([], if some then x # d else d)
      else if x = 10 then Some ([x], d)
      else map_option (\<lambda>(bs, rest). (x # bs, rest)) (take_line n True d))"

text \<open>Handing bytes of the ring to user memory; \<open>f\<close> gives the physical addresses.\<close>

definition given :: "(u64 \<Rightarrow> u64) \<Rightarrow> u64 \<Rightarrow> u8 list \<Rightarrow> u32 \<Rightarrow> 'a ckern_scheme \<Rightarrow> 'a ckern_scheme" where
  "given f a bs r s = upd_mem (put_user f a bs) (s\<lparr>cons_r := r\<rparr>)"

lemma given_simps:
  "given f a bs r (settle c s) = settle c (given f a bs r s)" "given f (a + 1) bs r' (given f a [x] r s) = given f a (x # bs) r' s"
  "given f a [] r s = s\<lparr>cons_r := r\<rparr>" "(given f a bs r s)\<lparr>cons_r := r'\<rparr> = given f a bs r' s"
  "ring_ok (given f a bs r s) = ring_ok (s\<lparr>cons_r := r\<rparr>)" "cview (given f a bs r s) = cview (s\<lparr>cons_r := r\<rparr>)"
  "ring_ok (settle c s) = ring_ok s" "cview (settle c s) = cview s" "cons_r (given f a bs r s) = r" "hart_ok c (given f a bs r s) = hart_ok c s"
  "procs (given f a bs r s) = procs s" "cpus (given f a bs r s) = cpus s" "memory (given f a bs r s) = put_user f a bs (memory s)"
  by (simp_all add: given_def upd_mem_def cr.st_hw(2) cm.st_hw(2) ring_ok_def cview_def typed_def ndone_def hart_ok_def intr_get_def)

lemma given_push: "given f a bs r (push_off c s) = push_off c (given f a bs r s)" "given f a bs r (s\<lparr>cons_lock := l\<rparr>) = (given f a bs r s)\<lparr>cons_lock := l\<rparr>"
  by (simp_all add: given_def upd_mem_def cr.st_hw(1) cm.st_hw(1))

text \<open>The bytes of the user buffer that are written can be.\<close>

definition room :: "mem \<Rightarrow> u64 \<Rightarrow> u64 set \<Rightarrow> u64 \<Rightarrow> nat \<Rightarrow> bool" where
  "room m pt S dst n \<longleftrightarrow> user_table m pt S \<and> (\<forall>i < n. writable m pt S (dst + word_of_nat i))"

lemma room_Suc:
  assumes "room m pt S dst (Suc n)"
  shows "user_table m pt S" "writable m pt S dst" "room (m(phys m pt dst := x)) pt S (dst + 1) n"
proof -
  show t: "user_table m pt S" using assms by (simp add: room_def)
  show w: "writable m pt S dst" using assms by (auto simp: room_def dest: spec [of _ 0])
  have "writable m pt S (dst + 1 + word_of_nat i)" if "i < n" for i
    using assms that by (auto simp: room_def algebra_simps dest!: spec [of _ "Suc i"])
  then show "room (m(phys m pt dst := x)) pt S (dst + 1) n"
    using byte_keeps_table(1) [OF t w] byte_keeps_map(2) [OF t w] by (simp add: room_def)
qed

lemma read_step:
  fixes s :: "'a ckern_scheme"
  assumes "ring_ok s" "hart_ok c s" "settle c s = s" "fst (cview s) = x # d" "0 < n" "x \<noteq> Ctl 68"
    and "cpu_proc (cpus s c) = Some p" "user_table (memory s) (p_pagetable (procs s p)) S" "writable (memory s) (p_pagetable (procs s p)) S dst"
  defines "s1 \<equiv> given (phys (memory s) (p_pagetable (procs s p))) dst [x] (cons_r s + 1) s"
  shows "consoleread_loop (Suc j) (Suc k) sw c (User dst) target n s =
    (if x = 10 then Ok (Some (n - 1), c, s1) else consoleread_loop j (Suc k) sw c (User (dst + 1)) target (n - 1) s1)"
proof -
  let ?s = "s\<lparr>cons_r := cons_r s + 1\<rparr>"
  note o = take_one [OF assms(1,4)]
  have h: "hart_ok c ?s" using assms(2) by simp
  have st: "settle c ?s = ?s" using assms(3) by (simp add: cr.st_hw(2))
  have m: "myproc c ?s = Ok (Some p, ?s)" using myproc_Ok [OF h] assms(7) st by simp
  have "copyout c (p_pagetable (procs ?s p)) dst [x] ?s = Ok (0, s1)"
    using copyout_byte [of ?s "p_pagetable (procs s p)" S dst c x] assms(8,9) by (simp add: s1_def given_def upd_mem_def)
  then have "either_copyout c (User dst) [x] ?s = Ok (0, User (dst + 1), s1)" by (simp add: m the_proc_def)
  then show ?thesis using o(1,2) assms(5,6) by (simp add: Let_def)
qed

lemma read_line_loop:
  fixes s :: "'a ckern_scheme"
  assumes "ring_ok s" "hart_ok c s" "settle c s = s" "take_line (nat n) (n < t) (fst (cview s)) = Some (bs, rest)"
    and "n \<le> t" "t < 2 ^ 31" "nat n \<le> j"
    and "cpu_proc (cpus s c) = Some p" "room (memory s) (p_pagetable (procs s p)) S dst (length bs)"
  shows "\<exists>r. consoleread_loop (Suc j) (Suc k) sw c (User dst) (of_int t) n s =
      Ok (Some (n - int (length bs)), c, given (phys (memory s) (p_pagetable (procs s p))) dst bs r s) \<and>
    ring_ok (s\<lparr>cons_r := r\<rparr>) \<and> cview (s\<lparr>cons_r := r\<rparr>) = (rest, snd (cview s))"
  using assms
proof (induction bs arbitrary: j n dst s)
  case Nil
  show ?case
  proof (cases "n \<le> 0")
    case True
    then show ?thesis using Nil.prems(1,4) by (intro exI [of _ "cons_r s"]) (simp add: given_simps prod_eq_iff)
  next
    case False
    then obtain i where n: "nat n = Suc i" by (cases "nat n") simp_all
    obtain x d where d: "fst (cview s) = x # d" using Nil.prems(4) n by (cases "fst (cview s)") simp_all
    note o = take_one [OF Nil.prems(1) d]
    have x: "x = Ctl 68" "rest = (if n < t then x # d else d)" using Nil.prems(4) n d by (auto split: if_splits)
    have lt: "(of_int n :: u32) < of_int t \<longleftrightarrow> n < t"
    proof -
      have "uint (of_int m :: u32) = m" if "0 \<le> m" "m < 2 ^ 31" for m
        using that by (simp add: take_bit_int_eq_self unsigned_of_int)
      then show ?thesis using Nil.prems(5,6) False by (simp add: word_less_def)
    qed
    show ?thesis
    proof (cases "n < t")
      case True
      then show ?thesis using False Nil.prems(1) o x d lt by (intro exI [of _ "cons_r s"]) (simp add: Let_def given_simps prod_eq_iff)
    next
      case same: False
      then show ?thesis using False o x lt by (intro exI [of _ "cons_r s + 1"]) (simp add: Let_def given_simps)
    qed
  qed
next
  case (Cons y bs)
  let ?f = "phys (memory s) (p_pagetable (procs s p))"
  obtain i where n: "nat n = Suc i" using Cons.prems(4) by (cases "nat n") simp_all
  obtain x d where d: "fst (cview s) = x # d" using Cons.prems(4) n by (cases "fst (cview s)") simp_all
  have x: "x = y" "x \<noteq> Ctl 68" using Cons.prems(4) n d by (auto split: if_splits)
  note o = take_one [OF Cons.prems(1) d] and room = room_Suc [OF Cons.prems(9) [simplified]]
  let ?g = "given ?f dst [x] (cons_r s + 1) s"
  have pos: "0 < n" using n by simp
  note step = read_step [OF Cons.prems(1-3) d pos x(2) Cons.prems(8) room(1,2), of j k sw "of_int t"]
  show ?case
  proof (cases "x = 10")
    case True
    then have "bs = []" "rest = d" using Cons.prems(4) n d x by (auto split: if_splits)
    then show ?thesis using step o x True by (intro exI [of _ "cons_r s + 1"]) (simp del: consoleread_loop.simps)
  next
    case False
    have tl: "take_line (nat (n - 1)) (n - 1 < t) (fst (cview ?g)) = Some (bs, rest)"
      using Cons.prems(4,5) n d x False o(4) by (auto simp: given_simps nat_diff_distrib split: if_splits)
    obtain j' where j: "j = Suc j'" using Cons.prems(7) n by (cases j) simp_all
    have mem: "memory ?g = (memory s)(?f dst := x)" by (simp add: given_simps)
    have f: "phys (memory ?g) (p_pagetable (procs s p)) = ?f" unfolding mem by (rule byte_keeps_map(1) [OF room(1,2)])
    have r': "room (memory ?g) (p_pagetable (procs ?g p)) S (dst + 1) (length bs)" unfolding mem using room(3) by (simp add: given_simps)
    have "settle c ?g = ?g" using Cons.prems(3) by (simp add: given_simps(1) [symmetric])
    moreover have "ring_ok ?g" "hart_ok c ?g" "cpu_proc (cpus ?g c) = Some p" using o(3) Cons.prems(2,8) by (simp_all add: given_simps)
    moreover have "n - 1 \<le> t" "nat (n - 1) \<le> j'" using pos Cons.prems(5,7) j by simp_all
    ultimately obtain r where
      r: "consoleread_loop (Suc j') (Suc k) sw c (User (dst + 1)) (of_int t) (n - 1) ?g =
        Ok (Some (n - 1 - int (length bs)), c, given (phys (memory ?g) (p_pagetable (procs ?g p))) (dst + 1) bs r ?g)"
      "ring_ok (?g\<lparr>cons_r := r\<rparr>)" "cview (?g\<lparr>cons_r := r\<rparr>) = (rest, snd (cview ?g))"
      using Cons.IH [of ?g "n - 1" j' "dst + 1"] tl Cons.prems(6) r' by blast
    have p: "procs ?g = procs s" by (simp add: given_simps)
    note r = r [unfolded p f]
    show ?thesis using r step False o(4) x unfolding j
      by (intro exI [of _ r]) (simp add: given_simps del: consoleread_loop.simps)
  qed
qed

lemma take_line_length: "take_line n some d = Some (bs, rest) \<Longrightarrow> length bs \<le> length d \<and> length bs \<le> n"
proof (induction n some d arbitrary: bs rest rule: take_line.induct)
  case (3 n some x d)
  show ?case
  proof (cases "x = Ctl 68 \<or> x = 10")
    case False
    then obtain bs' where "take_line n True d = Some (bs', rest)" "bs = x # bs'" using 3(2) by auto
    then show ?thesis using 3(1) False by simp
  qed (use 3(2) in \<open>auto split: if_splits\<close>)
qed simp_all

text \<open>
  C34: a read from the console gives the process the input that is ready, line by line. If the ring
  buffer holds what a read of \<open>n\<close> bytes takes, and the part of the user buffer it fills is mapped
  writable, consoleread returns the number of bytes taken and stores exactly these bytes at the
  places the page table gives for the user buffer. They end with the newline, before a control-D, or
  after \<open>n\<close> bytes; a control-D alone makes the read return 0 and is used up, one behind other
  bytes is kept for the next read. The rest of the input and the line being edited stay for later
  reads. Without such input the read sleeps, which is not covered here.
\<close>

theorem consoleread_line:
  fixes s :: "'a ckern_scheme"
  assumes "hart_ok c s" and "ring_ok s" and "lock_clean (cons_lock s)" and "n < 2 ^ 31" and "0 < k"
    and "take_line (nat n) False (fst (cview s)) = Some (bs, rest)"
    and "cpu_proc (cpus s c) = Some p" and "room (memory s) (p_pagetable (procs s p)) S dst (length bs)"
  shows "\<exists>s'. consoleread k sw c (User dst) n s = Ok (int (length bs), c, s') \<and>
    memory s' = put_user (phys (memory s) (p_pagetable (procs s p))) dst bs (memory s) \<and>
    ring_ok s' \<and> cview s' = (rest, snd (cview s)) \<and> cons_lock s' = cons_lock s \<and> procs s' = procs s"
proof -
  let ?s = "push_off c s\<lparr>cons_lock := taken c (cons_lock s)\<rparr>" and ?f = "phys (memory s) (p_pagetable (procs s p))"
  have f: "cons_buf ?s = cons_buf s" "cons_r ?s = cons_r s" "cons_w ?s = cons_w s" "cons_e ?s = cons_e s" "memory ?s = memory s" "procs ?s = procs s"
    by (simp_all add: push_off_def set_cpu_def intr_off_def Let_def)
  have v: "ring_ok ?s" "cview ?s = cview s" using assms(2) by (simp_all add: ring_ok_def cview_def typed_def ndone_def f)
  have "hart_ok c (push_off c s)" using assms(1) by simp
  then have h: "hart_ok c ?s" by (simp add: hart_ok_def intr_get_def)
  have st: "settle c ?s = ?s" by (simp add: cn.st_hw(2) settle_push_off [OF assms(1)])
  have p: "cpu_proc (cpus ?s c) = Some p" using assms(7) by (simp add: push_off_proc)
  obtain k' where k: "k = Suc k'" using assms(5) by (cases k) simp_all
  obtain r where r: "consoleread_loop (Suc (nat n)) k sw c (User dst) (of_int n) n ?s = Ok (Some (n - int (length bs)), c, given ?f dst bs r ?s)"
    "ring_ok (?s\<lparr>cons_r := r\<rparr>)" "cview (?s\<lparr>cons_r := r\<rparr>) = (rest, snd (cview s))"
    using read_line_loop [OF v(1) h st _ order_refl assms(4) order_refl p, of bs rest S dst k' sw] assms(6,8) unfolding v(2) f k by auto
  let ?g = "given ?f dst bs r s"
  have hg: "hart_ok c ?g" using assms(1) by (simp add: given_simps)
  have e: "given ?f dst bs r ?s = (push_off c ?g)\<lparr>cons_lock := taken c (cons_lock s)\<rparr>" by (simp add: given_push)
  have rel: "release_cons c ((push_off c ?g)\<lparr>cons_lock := taken c (cons_lock s)\<rparr>) = Ok ((settle c ?g)\<lparr>cons_lock := cons_lock s\<rparr>)"
    unfolding release_cons_def by (rule cn.release_cell [OF hg assms(3)])
  have w: "typed (?s\<lparr>cons_r := r\<rparr>) = typed (s\<lparr>cons_r := r\<rparr>)" "ndone (?s\<lparr>cons_r := r\<rparr>) = ndone (s\<lparr>cons_r := r\<rparr>)"
    by (simp_all add: typed_def ndone_def f)
  have "ring_ok ((settle c ?g)\<lparr>cons_lock := cons_lock s\<rparr>) = ring_ok (s\<lparr>cons_r := r\<rparr>)" "cview ((settle c ?g)\<lparr>cons_lock := cons_lock s\<rparr>) = cview (s\<lparr>cons_r := r\<rparr>)"
    by (simp_all add: ring_ok_def cview_def typed_def ndone_def given_def upd_mem_def)
  moreover have "ring_ok (?s\<lparr>cons_r := r\<rparr>) = ring_ok (s\<lparr>cons_r := r\<rparr>)" "cview (?s\<lparr>cons_r := r\<rparr>) = cview (s\<lparr>cons_r := r\<rparr>)"
    using w f by (simp_all add: ring_ok_def cview_def)
  moreover have len: "length bs \<le> 128"
    using take_line_length [OF assms(6)] assms(2) length_take [of "ndone s" "typed s"] by (simp add: cview_def ring_ok_def IBS_val del: length_typed)
  have "(of_int n - of_int (n - int (length bs)) :: u32) = of_nat (length bs)" by simp
  then have "sint (of_int n - of_int (n - int (length bs)) :: u32) = int (length bs)"
    using sint_of_nat [of "length bs", where 'a = 32] len by (simp only:) simp
  moreover have "memory ((settle c ?g)\<lparr>cons_lock := cons_lock s\<rparr>) = put_user ?f dst bs (memory s)" "procs ((settle c ?g)\<lparr>cons_lock := cons_lock s\<rparr>) = procs s"
    by (simp_all add: given_def upd_mem_def settle_procs)
  moreover have "acquire_cons c s = Ok ?s" unfolding acquire_cons_def using assms(3) by (simp add: cn.acquire_cell)
  ultimately show ?thesis using r e rel
    by (intro exI [of _ "(settle c ?g)\<lparr>cons_lock := cons_lock s\<rparr>"]) (simp add: consoleread_def Let_def del: consoleread_loop.simps)
qed

section \<open>A console to look at\<close>

definition pkern0 :: pkern where
  "pkern0 = fkern.extend (lkern.extend lkern0
       \<lparr>sb = \<lparr>sb_magic = FSMAGIC, sb_size = 100, sb_nblocks = 52, sb_ninodes = 16, sb_nlog = 31, sb_logstart = 2, sb_inodestart = 33, sb_bmapstart = 40\<rparr>,
        itable_lock = initlock ''itable'',
        inodes = (\<lambda>_. \<lparr>i_dev = 0, i_inum = 0, i_ref = 0, i_lock = initsleeplock ''inode'', i_valid = False, i_type = 0, i_major = 0, i_minor = 0,
          i_nlink = 0, i_size = 0, i_addrs = replicate (Suc NDIRECT) 0\<rparr>), printed = []\<rparr>)
     \<lparr>ftable_lock = initlock ''ftable'',
      files = (\<lambda>_. \<lparr>f_type = FD_NONE, f_ref = 0, f_readable = False, f_writable = False, f_pipe = 0, f_ip = None, f_off = 0, f_major = 0\<rparr>),
      pipes = (\<lambda>_. \<lparr>pi_lock = initlock ''pipe'', pi_data = replicate PIPESIZE 0, pi_nread = 0, pi_nwrite = 0, pi_readopen = False, pi_writeopen = False\<rparr>)\<rparr>"

text \<open>The read index is just below the end of its range, so that it wraps around in use.\<close>

definition ckern0 :: ckern where
  "ckern0 = pkern.extend pkern0
     \<lparr>cons_lock = initlock ''cons'', cons_buf = replicate 128 0, cons_r = -1, cons_w = -1, cons_e = -1, tx_lock = initlock ''uart'', tx_busy = False,
      lsr = (\<lambda>_. 0), nlsr = 0, rhr = (\<lambda>_. 0), nrhr = 0, uart_out = []\<rparr>"

lemma ckern0_ok: "quiet 0 ckern0" "cpu_proc (cpus ckern0 0) = Some 2" "ring_ok ckern0" "lock_clean (cons_lock ckern0)" "cview ckern0 = ([], [])"
  by (simp_all add: ckern0_def pkern0_def lkern0_def bkern0_def kern.defs bkern.defs lkern.defs fkern.defs pkern.defs quiet_def hart_ok_def intr_get_def
      one_running_def boot_hw_def ring_ok_def cview_def typed_def ndone_def IBS_val initlock_def lock_clean_def)

theorem consoleintr_refines_witness:
  "\<exists>s' :: ckern. consoleintr 0 104 ckern0 = Ok s' \<and> cview s' = ([], [104])"
  using consoleintr_refines [OF ckern0_ok(1,3,4), of 104] by (auto simp: ckern0_ok(5) type_char_def Ctl_def IBS_val)

text \<open>The first page of user memory of the sample page table is mapped for writing.\<close>

lemma tbl_user: "user_table tbl_mem 0x80002000 tables"
  using tbl_tree by (simp add: user_table_def tables_def PGSIZE_def)

lemma tbl_room: "room tbl_mem 0x80002000 tables 16 3" "phys tbl_mem 0x80002000 17 = 0x80005011"
proof -
  have "i = 0 \<or> i = 1 \<or> i = 2" if "i < (3 :: nat)" for i using that by auto
  note lt = this
  have v: "PGROUNDDOWN (16 + word_of_nat i) = 0" if "i < (3 :: nat)" for i
    using lt [OF that] by (elim disjE) (simp_all add: PGROUNDDOWN_def PGSIZE_def)
  have "PTE2PA pte3 \<notin> tables" by (simp add: pte_vals tables_def)
  then show "room tbl_mem 0x80002000 tables 16 3" unfolding room_def writable_def by (simp add: v tbl_pte tbl_user pte_vals MAXVA_def Let_def)
  have "PGROUNDDOWN 17 = (0 :: u64)" by (simp add: PGROUNDDOWN_def PGSIZE_def)
  then show "phys tbl_mem 0x80002000 17 = 0x80005011" by (simp add: phys_def tbl_pte pte_vals)
qed

lemma ready_line:
  "\<exists>s :: ckern. hart_ok 0 s \<and> ring_ok s \<and> lock_clean (cons_lock s) \<and> cview s = ([104, 105, 10], []) \<and> cpu_proc (cpus s 0) = Some 2 \<and>
     memory s = tbl_mem \<and> p_pagetable (procs s 2) = 0x80002000"
proof -
  let ?s = "ckern0\<lparr>cons_buf := (replicate 128 0)[127 := 104, 0 := 105, 1 := 10], cons_w := 2, cons_e := 2, memory := tbl_mem,
    procs := (procs ckern0)(2 := (procs ckern0 2)\<lparr>p_pagetable := 0x80002000\<rparr>)\<rparr>"
  have "hart_ok 0 ckern0" using ckern0_ok(1) by (simp add: quiet_def)
  then have "hart_ok 0 ?s" by (simp add: hart_ok_def intr_get_def)
  moreover have "lock_clean (cons_lock ?s)" "cpu_proc (cpus ?s 0) = Some 2" using ckern0_ok(2,4) by simp_all
  moreover have r: "cons_r ckern0 = - 1" by (simp add: ckern0_def pkern.defs)
  have m: "unat (- 1 :: u32) = 4294967295" by (simp add: unsigned_minus_1_eq_mask mask_eq_exp_minus_1)
  have "typed ?s = [104, 105, 10]" "ndone ?s = 3"
    by (simp_all add: typed_def ndone_def r IBS_val upt_rec [of 0] upt_rec [of "Suc 0"] upt_rec [of "Suc (Suc 0)"] m)
  then have "ring_ok ?s" "cview ?s = ([104, 105, 10], [])" by (simp_all add: ring_ok_def cview_def IBS_val del: length_typed)
  moreover have "memory ?s = tbl_mem" "p_pagetable (procs ?s 2) = 0x80002000" by simp_all
  ultimately show ?thesis by blast
qed

theorem consoleread_line_witness:
  "\<exists>(s :: ckern) s'. consoleread 1 (\<lambda>c s. (c, s)) 0 (User 16) 100 s = Ok (3, 0, s') \<and> memory s' 0x80005011 = 105 \<and> cview s' = ([], [])"
proof -
  obtain s :: ckern where s: "hart_ok 0 s" "ring_ok s" "lock_clean (cons_lock s)" "cview s = ([104, 105, 10], [])" "cpu_proc (cpus s 0) = Some 2"
    "memory s = tbl_mem" "p_pagetable (procs s 2) = 0x80002000" using ready_line by blast
  have "take_line (Suc (Suc (Suc 97))) False [104, 105, 10] = Some ([104, 105, 10], [])" by (simp only: take_line.simps) (simp add: Ctl_def)
  moreover have "nat 100 = Suc (Suc (Suc 97))" by simp
  ultimately have t: "take_line (nat 100) False (fst (cview s)) = Some ([104, 105, 10], [])" using s(4) by (simp only: fst_conv)
  have room: "room (memory s) (p_pagetable (procs s 2)) tables 16 (length [104 :: u8, 105, 10])" using tbl_room(1) s(6,7) by (simp add: numeral_3_eq_3)
  obtain s' where s': "consoleread 1 (\<lambda>c s. (c, s)) 0 (User 16) 100 s = Ok (3, 0, s')"
    "memory s' = put_user (phys tbl_mem 0x80002000) 16 [104, 105, 10] tbl_mem" "cview s' = ([], [])"
    using consoleread_line [OF s(1-3) _ _ t s(5) room, of 1 "\<lambda>c s. (c, s)"] s(4,6,7) by auto
  have "phys tbl_mem 0x80002000 18 = 0x80005012"
  proof -
    have "PGROUNDDOWN 18 = (0 :: u64)" by (simp add: PGROUNDDOWN_def PGSIZE_def)
    then show ?thesis by (simp add: phys_def tbl_pte pte_vals)
  qed
  then have "memory s' 0x80005011 = 105" using s'(2) tbl_room(2) by simp
  then show ?thesis using s' by blast
qed

end
