(* ===== verification/Ulib.thy ===== *)
theory Ulib
  imports Cstr Printf Cmem Layout
begin

text \<open>
  The user library, \<^verbatim>\<open>user/ulib.c\<close> and the output side of \<^verbatim>\<open>user/printf.c\<close>. A user program
  sees the kernel through the stubs that \<^verbatim>\<open>user/usys.pl\<close> generates at build time: they are the
  fields of a parameter \<open>sys\<close>, functions that change a world of an unknown type. String routines work
  on byte lists, the \<^verbatim>\<open>mem\<close> routines on a memory.
\<close>

section \<open>System calls\<close>

record 'w usys =
  u_read :: "int \<Rightarrow> nat \<Rightarrow> 'w \<Rightarrow> int \<times> u8 list \<times> 'w"
  u_write :: "int \<Rightarrow> u8 list \<Rightarrow> 'w \<Rightarrow> int \<times> 'w"
  u_open :: "u8 list \<Rightarrow> u32 \<Rightarrow> 'w \<Rightarrow> int \<times> 'w"
  u_close :: "int \<Rightarrow> 'w \<Rightarrow> int \<times> 'w"
  u_fstat :: "int \<Rightarrow> 'w \<Rightarrow> int \<times> u8 list \<times> 'w"
  u_kill :: "int \<Rightarrow> 'w \<Rightarrow> int \<times> 'w"
  u_link :: "u8 list \<Rightarrow> u8 list \<Rightarrow> 'w \<Rightarrow> int \<times> 'w"
  u_unlink :: "u8 list \<Rightarrow> 'w \<Rightarrow> int \<times> 'w"
  u_mkdir :: "u8 list \<Rightarrow> 'w \<Rightarrow> int \<times> 'w"

section \<open>Strings\<close>

fun ustrcpy :: "u8 list \<Rightarrow> u8 list \<Rightarrow> u8 list" where
  "ustrcpy s [] = 0 # tl s"
| "ustrcpy s (x # t) = (if x = 0 then 0 # tl s else x # ustrcpy (tl s) t)"

fun ustrcmp :: "u8 list \<Rightarrow> u8 list \<Rightarrow> int" where
  "ustrcmp [] q = - uint (ch q)"
| "ustrcmp (x # p) q = (if x \<noteq> 0 \<and> x = ch q then ustrcmp p (tl q) else uint x - uint (ch q))"

fun ustrlen :: "u8 list \<Rightarrow> nat" where
  "ustrlen [] = 0"
| "ustrlen (x # s) = (if x \<noteq> 0 then Suc (ustrlen s) else 0)"

fun ustrchr :: "u8 list \<Rightarrow> u8 \<Rightarrow> u8 list option" where
  "ustrchr [] c = None"
| "ustrchr (x # s) c = (if x = 0 then None else if x = c then Some (x # s) else ustrchr s c)"

section \<open>Memory\<close>

definition umemset :: "u64 \<Rightarrow> u8 \<Rightarrow> u32 \<Rightarrow> mem \<Rightarrow> mem" where
  "umemset dst c n m = memset_loop (unat n) dst c m"

definition umemmove :: "u64 \<Rightarrow> u64 \<Rightarrow> int \<Rightarrow> mem \<Rightarrow> mem" where
  "umemmove vdst vsrc n m =
     (if vsrc > vdst then copy_fwd (nat n) vdst vsrc m
      else copy_bwd (nat n) (vdst + of_int n) (vsrc + of_int n) m)"

definition umemcmp :: "u64 \<Rightarrow> u64 \<Rightarrow> u32 \<Rightarrow> mem \<Rightarrow> int" where
  "umemcmp s1 s2 n m = memcmp_loop (unat n) s1 s2 m"

definition umemcpy :: "u64 \<Rightarrow> u64 \<Rightarrow> u32 \<Rightarrow> mem \<Rightarrow> mem" where
  "umemcpy dst src n m = umemmove dst src (sint n) m"

section \<open>Input and output\<close>

definition bytes_of :: "string \<Rightarrow> u8 list" where
  "bytes_of t = map (\<lambda>c. of_nat (of_char c)) t"

definition chars_of :: "u8 list \<Rightarrow> string" where
  "chars_of bs = map (\<lambda>b. char_of (unat b)) (takeWhile (\<lambda>x. x \<noteq> 0) bs)"

definition putc :: "'w usys \<Rightarrow> int \<Rightarrow> u8 \<Rightarrow> 'w \<Rightarrow> 'w" where
  "putc sys fd c w = snd (u_write sys fd [c] w)"

text \<open>A call with arguments that do not fit its format has no defined output.\<close>

definition ufprintf :: "'w usys \<Rightarrow> int \<Rightarrow> string \<Rightarrow> parg list \<Rightarrow> 'w \<Rightarrow> 'w" where
  "ufprintf sys fd fmt args w =
     (case uprintf fmt args of None \<Rightarrow> w | Some t \<Rightarrow> fold (putc sys fd) (bytes_of t) w)"

primrec gets_loop :: "nat \<Rightarrow> 'w usys \<Rightarrow> u8 list \<Rightarrow> 'w \<Rightarrow> u8 list \<times> 'w" where
  "gets_loop 0 sys got w = (got, w)"
| "gets_loop (Suc k) sys got w =
     (case u_read sys 0 1 w of (cc, bs, w1) \<Rightarrow>
        if cc < 1 then (got, w1)
        else let c = ch bs in
          if c = 10 \<or> c = 13 then (got @ [c], w1) else gets_loop k sys (got @ [c]) w1)"

text \<open>The loop runs while \<^verbatim>\<open>i+1 < max\<close>: it stores at most \<open>max - 1\<close> bytes.\<close>

definition gets :: "'w usys \<Rightarrow> u8 list \<Rightarrow> int \<Rightarrow> 'w \<Rightarrow> u8 list \<times> 'w" where
  "gets sys buf mx w =
     (case gets_loop (nat (mx - 1)) sys [] w of (got, w1) \<Rightarrow> (got @ 0 # drop (Suc (length got)) buf, w1))"

definition ustat :: "'w usys \<Rightarrow> u8 list \<Rightarrow> 'w \<Rightarrow> int \<times> u8 list \<times> 'w" where
  "ustat sys n w =
     (case u_open sys n O_RDONLY w of (fd, w1) \<Rightarrow>
        if fd < 0 then (-1, [], w1)
        else case u_fstat sys fd w1 of (r, st, w2) \<Rightarrow> (r, st, snd (u_close sys fd w2)))"

section \<open>What programs rely on\<close>

text \<open>
  What a program relies on of \<^verbatim>\<open>read\<close> and \<^verbatim>\<open>write\<close>: \<open>inp\<close> is what is still to be read from the
  descriptor; a read for at least one byte delivers at least one while there are any; a write to the
  standard output appends to \<open>out\<close>.
\<close>

definition streams :: "'w usys \<Rightarrow> int \<Rightarrow> ('w \<Rightarrow> u8 list) \<Rightarrow> ('w \<Rightarrow> u8 list) \<Rightarrow> bool" where
  "streams sys fd inp out \<longleftrightarrow>
     (\<forall>n w r bs w'. u_read sys fd n w = (r, bs, w') \<longrightarrow>
        r = int (length bs) \<and> length bs \<le> n \<and> inp w = bs @ inp w' \<and> out w' = out w \<and> (bs = [] \<longrightarrow> n = 0 \<or> inp w = [])) \<and>
     (\<forall>bs w. inp (snd (u_write sys 1 bs w)) = inp w \<and> out (snd (u_write sys 1 bs w)) = out w @ bs)"

lemma streams_read:
  assumes "streams sys fd inp out" and "u_read sys fd n w = (r, bs, w')"
  shows "r = int (length bs)" "inp w = bs @ inp w'" "out w' = out w" "bs = [] \<longrightarrow> n = 0 \<or> inp w = []" "length bs \<le> n"
  using assms unfolding streams_def by blast+

text \<open>A world of two texts: what is left to read and what was written.\<close>

definition text_sys :: "(u8 list \<times> u8 list) usys" where
  "text_sys = \<lparr>u_read = \<lambda>fd n (i, o'). (int (length (take n i)), take n i, (drop n i, o')),
     u_write = \<lambda>fd bs (i, o'). (int (length bs), (i, o' @ bs)), u_open = \<lambda>n m w. (-1, w), u_close = \<lambda>fd w. (0, w),
     u_fstat = \<lambda>fd w. (-1, [], w), u_kill = \<lambda>p w. (-1, w), u_link = \<lambda>a b w. (-1, w), u_unlink = \<lambda>a w. (-1, w), u_mkdir = \<lambda>a w. (-1, w)\<rparr>"

lemma text_sys_streams: "streams text_sys fd fst snd"
  by (auto simp: streams_def text_sys_def)

end
