(* ===== verification/Grep.thy ===== *)
theory Grep
  imports Ulib
begin

text \<open>
  \<^verbatim>\<open>user/grep.c\<close>: the regular expression matcher, compared with the language of the pattern, and
  the loop that cuts what it reads into lines, compared with the lines of
  the whole input.
\<close>

section \<open>Definitions\<close>

lemma ch_shorter [termination_simp]: "ch p \<noteq> 0 \<Longrightarrow> length p - Suc 0 < length p" "ch p \<noteq> 0 \<Longrightarrow> length p - Suc (Suc 0) < length p"
  by (cases p; simp)+

text \<open>The matcher; the strings are byte lists, \<^verbatim>\<open>re+1\<close> is \<open>tl re\<close>.\<close>

function matchhere :: "u8 list \<Rightarrow> u8 list \<Rightarrow> bool"
  and matchstar :: "u8 \<Rightarrow> u8 list \<Rightarrow> u8 list \<Rightarrow> bool" where
  "matchhere re tx =
     (if ch re = 0 then True
      else if ch (tl re) = 42 then matchstar (ch re) (tl (tl re)) tx
      else if ch re = 36 \<and> ch (tl re) = 0 then ch tx = 0
      else if ch tx \<noteq> 0 \<and> (ch re = 46 \<or> ch re = ch tx) then matchhere (tl re) (tl tx)
      else False)"
| "matchstar c re tx =
     (if matchhere re tx then True
      else if ch tx \<noteq> 0 \<and> (ch tx = c \<or> c = 46) then matchstar c re (tl tx)
      else False)"
  by pat_completeness auto
termination
  by (relation "measures [\<lambda>x. case x of Inl (re, tx) \<Rightarrow> length re | Inr (c, re, tx) \<Rightarrow> length re,
      \<lambda>x. case x of Inl (re, tx) \<Rightarrow> length tx | Inr (c, re, tx) \<Rightarrow> length tx,
      \<lambda>x. case x of Inl _ \<Rightarrow> 0 | Inr _ \<Rightarrow> 1]")
    (auto simp: ch_shorter)

declare matchhere.simps [simp del] matchstar.simps [simp del]

fun match_from :: "u8 list \<Rightarrow> u8 list \<Rightarrow> bool" where
  "match_from re tx = (if matchhere re tx then True else if ch tx \<noteq> 0 then match_from re (tl tx) else False)"

declare match_from.simps [simp del]

definition match :: "u8 list \<Rightarrow> u8 list \<Rightarrow> bool" where
  "match re tx = (if ch re = 94 then matchhere (tl re) tx else match_from re tx)"

lemma ustrchr_Some: "ustrchr p c = Some q \<Longrightarrow> \<exists>u r. p = u @ c # r \<and> q = c # r \<and> c \<notin> set u \<and> 0 \<notin> set u"
proof (induction p)
  case (Cons x p)
  show ?case
  proof (cases "x = c")
    case True
    then show ?thesis using Cons.prems by (intro exI [of _ "[]"] exI [of _ p]) (simp split: if_splits)
  next
    case False
    then have x: "x \<noteq> 0" "ustrchr p c = Some q" using Cons.prems by (simp_all split: if_splits)
    then obtain u r where "p = u @ c # r" "q = c # r" "c \<notin> set u" "0 \<notin> set u" using Cons.IH by blast
    then show ?thesis using False x(1) by (intro exI [of _ "x # u"] exI [of _ r]) simp
  qed
qed simp

lemma ustrchr_None: "ustrchr p c = None \<Longrightarrow> 0 \<notin> set p \<Longrightarrow> c \<notin> set p"
  by (induction p) (auto split: if_splits)

text \<open>The inner loop: the complete lines of the buffer, and what is left of it.\<close>

function grep_lines :: "'w usys \<Rightarrow> u8 list \<Rightarrow> u8 list \<Rightarrow> 'w \<Rightarrow> u8 list \<times> 'w" where
  "grep_lines sys pattern p w =
     (case ustrchr p 10 of
        None \<Rightarrow> (p, w)
      | Some q \<Rightarrow>
          let line = take (length p - length q) p;
              w1 = (if match pattern line then snd (u_write sys 1 (line @ [10]) w) else w)
          in grep_lines sys pattern (tl q) w1)"
  by pat_completeness auto
termination
  by (relation "measure (\<lambda>(sys, pattern, p, w). length p)") (auto dest!: ustrchr_Some)

declare grep_lines.simps [simp del]

text \<open>The outer loop with fuel; \<open>buf\<close> is the part of the buffer in use, \<^verbatim>\<open>m\<close> its length.\<close>

primrec grep_loop :: "nat \<Rightarrow> 'w usys \<Rightarrow> u8 list \<Rightarrow> int \<Rightarrow> u8 list \<Rightarrow> 'w \<Rightarrow> 'w option" where
  "grep_loop 0 sys pattern fd buf w = None"
| "grep_loop (Suc k) sys pattern fd buf w =
     (case u_read sys fd (1024 - length buf - 1) w of (n, bs, w1) \<Rightarrow>
        if n > 0 then
          (case grep_lines sys pattern (buf @ take (nat n) bs) w1 of (p, w2) \<Rightarrow> grep_loop k sys pattern fd p w2)
        else Some w1)"

definition grep :: "nat \<Rightarrow> 'w usys \<Rightarrow> u8 list \<Rightarrow> int \<Rightarrow> 'w \<Rightarrow> 'w option" where
  "grep k sys pattern fd w = grep_loop k sys pattern fd [] w"

primrec grep_files :: "nat \<Rightarrow> 'w usys \<Rightarrow> u8 list \<Rightarrow> u8 list list \<Rightarrow> 'w \<Rightarrow> (int \<times> 'w) option" where
  "grep_files k sys pattern [] w = Some (0, w)"
| "grep_files k sys pattern (a # as) w =
     (case u_open sys a O_RDONLY w of (fd, w1) \<Rightarrow>
        if fd < 0 then Some (1, ufprintf sys 1 ''grep: cannot open %s\<newline>'' [ArgStr (Some (chars_of a))] w1)
        else case grep k sys pattern fd w1 of
               None \<Rightarrow> None
             | Some w2 \<Rightarrow> grep_files k sys pattern as (snd (u_close sys fd w2)))"

definition grep_main :: "nat \<Rightarrow> 'w usys \<Rightarrow> u8 list list \<Rightarrow> 'w \<Rightarrow> (int \<times> 'w) option" where
  "grep_main k sys argv w =
     (if length argv \<le> 1 then Some (1, ufprintf sys 2 ''usage: grep pattern [file ...]\<newline>'' [] w)
      else if length argv \<le> 2 then map_option (Pair 0) (grep k sys (argv ! 1) 0 w)
      else grep_files k sys (argv ! 1) (drop 2 argv) w)"

section \<open>The language of a pattern\<close>

datatype piece = Once u8 | Many u8

definition fits :: "u8 \<Rightarrow> u8 \<Rightarrow> bool" where
  "fits c x \<longleftrightarrow> c = 46 \<or> x = c"

text \<open>The pieces of a pattern, and whether a final \<open>$\<close> ties it to the end of the tx.\<close>

fun pieces :: "u8 list \<Rightarrow> piece list \<times> bool" where
  "pieces [] = ([], False)"
| "pieces [c] = (if c = 36 then ([], True) else ([Once c], False))"
| "pieces (c # d # re) = (if d = 42 then apfst ((#) (Many c)) (pieces re) else apfst ((#) (Once c)) (pieces (d # re)))"

primrec lang :: "piece list \<Rightarrow> u8 list set" where
  "lang [] = {[]}"
| "lang (p # ps) =
     (case p of
        Once c \<Rightarrow> {x # w | x w. fits c x \<and> w \<in> lang ps}
      | Many c \<Rightarrow> {v @ w | v w. (\<forall>x \<in> set v. fits c x) \<and> w \<in> lang ps})"

definition found_at :: "piece list \<times> bool \<Rightarrow> u8 list \<Rightarrow> bool" where
  "found_at r tx \<longleftrightarrow> (\<exists>u v. tx = u @ v \<and> u \<in> lang (fst r) \<and> (snd r \<longrightarrow> v = []))"

lemma found_at_Nil: "found_at ([], e) tx \<longleftrightarrow> (e \<longrightarrow> tx = [])"
  by (auto simp: found_at_def)

lemma found_at_Once: "found_at (Once c # ps, e) tx \<longleftrightarrow> (\<exists>x t. tx = x # t \<and> fits c x \<and> found_at (ps, e) t)"
  (is "?l \<longleftrightarrow> ?r")
proof
  assume ?l
  then obtain u z where u: "tx = u @ z" "u \<in> lang (Once c # ps)" "e \<longrightarrow> z = []" by (auto simp: found_at_def)
  then obtain x w where "tx = (x # w) @ z" "fits c x" "w \<in> lang ps" "e \<longrightarrow> z = []" by auto
  then show ?r by (intro exI [of _ x] exI [of _ "w @ z"]) (auto simp: found_at_def)
next
  assume ?r
  then obtain x w z where "tx = (x # w) @ z" "fits c x" "w \<in> lang ps" "e \<longrightarrow> z = []" by (auto simp: found_at_def)
  then show ?l unfolding found_at_def by (intro exI [of _ "x # w"] exI [of _ z]) simp
qed

lemma found_at_Many:
  "found_at (Many c # ps, e) tx \<longleftrightarrow> (\<exists>v t. tx = v @ t \<and> (\<forall>x \<in> set v. fits c x) \<and> found_at (ps, e) t)"
  (is "?l \<longleftrightarrow> ?r")
proof
  assume ?l
  then obtain u z where u: "tx = u @ z" "u \<in> lang (Many c # ps)" "e \<longrightarrow> z = []" by (auto simp: found_at_def)
  then obtain v w where "u = v @ w" "\<forall>x \<in> set v. fits c x" "w \<in> lang ps" by auto
  then show ?r using u by (intro exI [of _ v] exI [of _ "w @ z"]) (auto simp: found_at_def)
next
  assume ?r
  then obtain v w z where v: "tx = v @ w @ z" "\<forall>x \<in> set v. fits c x" "w \<in> lang ps" "e \<longrightarrow> z = []"
    by (auto simp: found_at_def)
  then have "v @ w \<in> lang (Many c # ps)" by auto
  then show ?l unfolding found_at_def using v by (intro exI [of _ "v @ w"] exI [of _ z]) simp
qed

lemma found_at_apfst: "found_at (apfst ((#) p) r) tx = found_at (p # fst r, snd r) tx"
  by (cases r) simp

text \<open>A star takes one more character or none.\<close>

lemma star_step:
  "(\<exists>v t. tx = v @ t \<and> (\<forall>x \<in> set v. fits c x) \<and> P t) \<longleftrightarrow>
   P tx \<or> (\<exists>x t. tx = x # t \<and> fits c x \<and> (\<exists>v u. t = v @ u \<and> (\<forall>x \<in> set v. fits c x) \<and> P u))"
  (is "?l \<longleftrightarrow> ?r")
proof
  assume ?l
  then obtain v t where v: "tx = v @ t" "\<forall>x \<in> set v. fits c x" "P t" by blast
  then show ?r by (cases v) auto
next
  assume ?r
  then show ?l
  proof
    assume "P tx"
    then show ?l by (intro exI [of _ "[]"] exI [of _ tx]) simp
  next
    assume "\<exists>x t. tx = x # t \<and> fits c x \<and> (\<exists>v u. t = v @ u \<and> (\<forall>x \<in> set v. fits c x) \<and> P u)"
    then obtain x v u where "tx = x # v @ u" "fits c x" "\<forall>x \<in> set v. fits c x" "P u" by blast
    then show ?l by (intro exI [of _ "x # v"] exI [of _ u]) simp
  qed
qed

lemma matchhere_simps:
  "matchhere [] tx"
  "c \<noteq> 0 \<Longrightarrow> matchhere [c] tx \<longleftrightarrow> (if c = 36 then ch tx = 0 else ch tx \<noteq> 0 \<and> fits c (ch tx))"
  "c \<noteq> 0 \<Longrightarrow> matchhere (c # 42 # re) tx = matchstar c re tx"
  "c \<noteq> 0 \<Longrightarrow> d \<noteq> 0 \<Longrightarrow> d \<noteq> 42 \<Longrightarrow>
     matchhere (c # d # re) tx \<longleftrightarrow> ch tx \<noteq> 0 \<and> fits c (ch tx) \<and> matchhere (d # re) (tl tx)"
  by (subst matchhere.simps; force simp: fits_def matchhere.simps [of "[]"])+

lemma matchstar_step: "matchstar c re tx \<longleftrightarrow> matchhere re tx \<or> ch tx \<noteq> 0 \<and> fits c (ch tx) \<and> matchstar c re (tl tx)"
  by (subst matchstar.simps) (auto simp: fits_def)

lemma match_lang:
  "0 \<notin> set re \<Longrightarrow> 0 \<notin> set tx \<Longrightarrow> matchhere re tx \<longleftrightarrow> found_at (pieces re) tx"
  "0 \<notin> set re \<Longrightarrow> 0 \<notin> set tx \<Longrightarrow>
     matchstar c re tx \<longleftrightarrow> (\<exists>v t. tx = v @ t \<and> (\<forall>x \<in> set v. fits c x) \<and> found_at (pieces re) t)"
proof (induction re tx and c re tx rule: matchhere_matchstar.induct)
  case h: (1 re tx)
  show ?case
  proof (cases re rule: pieces.cases)
    case 1
    then show ?thesis by (simp add: matchhere_simps found_at_Nil)
  next
    case (2 c)
    then show ?thesis using h.prems by (cases tx) (auto simp: matchhere_simps found_at_Nil found_at_Once)
  next
    case (3 c d re')
    then have z: "c \<noteq> 0" "d \<noteq> 0" "0 \<notin> set re'" using h.prems by auto
    show ?thesis
    proof (cases "d = 42")
      case True
      then show ?thesis using h.IH(1) h.prems 3 z by (simp add: matchhere_simps found_at_apfst found_at_Many)
    next
      case False
      show ?thesis
      proof (cases "tx \<noteq> [] \<and> fits c (ch tx)")
        case True
        then have "matchhere (d # re') (tl tx) \<longleftrightarrow> found_at (pieces (d # re')) (tl tx)"
          using h.IH(2) h.prems 3 False z by (cases tx) (auto simp: fits_def)
        then show ?thesis using 3 False z h.prems(2) by (cases tx) (auto simp: matchhere_simps found_at_apfst found_at_Once)
      next
        case no: False
        then show ?thesis using 3 False z h.prems(2) by (cases tx) (auto simp: matchhere_simps found_at_apfst found_at_Once)
      qed
    qed
  qed
next
  case s: (2 c re tx)
  have h: "matchhere re tx = found_at (pieces re) tx" by (rule s.IH(1)) (use s.prems in auto)
  show ?case
  proof (cases "tx \<noteq> [] \<and> fits c (ch tx) \<and> \<not> matchhere re tx")
    case True
    then have "matchstar c re (tl tx) \<longleftrightarrow> (\<exists>v t. tl tx = v @ t \<and> (\<forall>x \<in> set v. fits c x) \<and> found_at (pieces re) t)"
      using s.IH(2) s.prems by (cases tx) (auto simp: fits_def)
    then show ?thesis using True s.prems(2) h star_step [of tx c "found_at (pieces re)"] matchstar_step [of c re tx] by (cases tx) auto
  next
    case False
    then show ?thesis using s.prems(2) h star_step [of tx c "found_at (pieces re)"] matchstar_step [of c re tx] by (cases tx) auto
  qed
qed

lemma match_from_iff: "match_from re tx \<longleftrightarrow> (\<exists>u t. tx = u @ t \<and> 0 \<notin> set u \<and> matchhere re t)"
proof (induction tx)
  case Nil
  then show ?case by (simp add: match_from.simps)
next
  case (Cons x tx)
  show ?case
  proof
    assume "match_from re (x # tx)"
    then have "matchhere re (x # tx) \<or> x \<noteq> 0 \<and> (\<exists>u t. tx = u @ t \<and> 0 \<notin> set u \<and> matchhere re t)"
      using Cons.IH by (subst (asm) match_from.simps) (auto split: if_splits)
    then show "\<exists>u t. x # tx = u @ t \<and> 0 \<notin> set u \<and> matchhere re t"
    proof (elim disjE conjE exE)
      assume "matchhere re (x # tx)"
      then show ?thesis by (intro exI [of _ "[]"] exI [of _ "x # tx"]) simp
    next
      fix u t assume "x \<noteq> 0" "tx = u @ t" "0 \<notin> set u" "matchhere re t"
      then show ?thesis by (intro exI [of _ "x # u"] exI [of _ t]) simp
    qed
  next
    assume "\<exists>u t. x # tx = u @ t \<and> 0 \<notin> set u \<and> matchhere re t"
    then obtain u t where "x # tx = u @ t" "0 \<notin> set u" "matchhere re t" by blast
    then show "match_from re (x # tx)" using Cons.IH by (subst match_from.simps) (cases u, auto)
  qed
qed

text \<open>
  C39: the matcher decides the language of the pattern. A pattern and a text without NULs match
  when the text, or with a leading \<open>^\<close> its beginning, has at some place a word of the language of
  the pattern's pieces (a character, \<open>.\<close>, or one of these with a \<open>*\<close>), which a final \<open>$\<close> makes the
  last of the text.
\<close>

theorem match_correct:
  assumes "0 \<notin> set re" and "0 \<notin> set tx"
  shows "match re tx \<longleftrightarrow>
    (if ch re = 94 then found_at (pieces (tl re)) tx else \<exists>u t. tx = u @ t \<and> found_at (pieces re) t)"
proof (cases "ch re = 94")
  case True
  then show ?thesis using assms match_lang(1) [of "tl re" tx] by (cases re) (simp_all add: match_def)
next
  case False
  have "0 \<notin> set u \<and> matchhere re t = found_at (pieces re) t" if "tx = u @ t" for u t
    using assms match_lang(1) [of re t] that by simp
  then have "(\<exists>u t. tx = u @ t \<and> 0 \<notin> set u \<and> matchhere re t) \<longleftrightarrow> (\<exists>u t. tx = u @ t \<and> found_at (pieces re) t)" by blast
  then show ?thesis using False by (simp add: match_def match_from_iff)
qed

theorem match_correct_witness:
  "match [97, 42, 98, 36] [120, 97, 97, 98] \<and> \<not> match [94, 98] [97, 98]"
proof -
  have "found_at (pieces [97, 42, 98, 36]) [97, 97, 98]"
    by (simp add: found_at_apfst found_at_Many found_at_Once found_at_Nil fits_def)
  then have "match [97, 42, 98, 36] [120, 97, 97, 98]"
    by (subst match_correct) (auto intro: exI [of _ "[120]"])
  moreover have "\<not> match [94, 98] [97, 98]"
    by (subst match_correct) (simp_all add: found_at_Once found_at_Nil fits_def)
  ultimately show ?thesis ..
qed

section \<open>Lines\<close>

lemma split_on_append: "split_on x (a @ b) = butlast (split_on x a) @ split_on x (last (split_on x a) @ b)"
proof (induction a)
  case (Cons y a)
  obtain h t where s: "split_on x a = h # t" using split_on_nonempty [of x a] by (cases "split_on x a") auto
  show ?case using Cons s by (cases t) (auto split: list.splits)
qed simp

lemma split_on_none: "x \<notin> set u \<Longrightarrow> split_on x u = [u]"
  by (induction u) auto

lemma split_on_line: "x \<notin> set u \<Longrightarrow> split_on x (u @ x # r) = u # split_on x r"
  by (induction u) auto

lemma split_on_prefix: "x \<notin> set u \<Longrightarrow> \<exists>h t. split_on x (u @ r) = (u @ h) # t"
proof (induction u)
  case Nil
  then show ?case using split_on_nonempty [of x r] by (cases "split_on x r") auto
qed auto

lemma last_split_on: "x \<notin> set (last (split_on x p))"
proof (induction p)
  case (Cons y p)
  then show ?case by (cases "split_on x p") (auto split: if_splits)
qed simp

lemma set_split_on: "l \<in> set (split_on x p) \<Longrightarrow> set l \<subseteq> set p"
proof (induction p arbitrary: l)
  case (Cons y p)
  then show ?case by (cases "split_on x p") (fastforce split: if_splits)+
qed simp

definition matching :: "u8 list \<Rightarrow> u8 list list \<Rightarrow> u8 list" where
  "matching re ls = concat (map (\<lambda>l. l @ [10]) (filter (match re) ls))"

lemma grep_lines_effect:
  assumes "streams sys fd inp out"
  shows "0 \<notin> set p \<Longrightarrow> \<exists>w'. grep_lines sys re p w = (last (split_on 10 p), w') \<and> inp w' = inp w \<and>
    out w' = out w @ matching re (butlast (split_on 10 p))"
proof (induction p arbitrary: w rule: length_induct)
  case (1 p)
  show ?case
  proof (cases "ustrchr p 10")
    case None
    then have "10 \<notin> set p" using 1(2) by (rule ustrchr_None)
    then show ?thesis using None by (simp add: grep_lines.simps [of sys re p] split_on_none matching_def)
  next
    case (Some q)
    then obtain u r where u: "p = u @ 10 # r" "q = 10 # r" "10 \<notin> set u" by (blast dest: ustrchr_Some)
    define w1 where "w1 = (if match re u then snd (u_write sys 1 (u @ [10]) w) else w)"
    have w1: "inp w1 = inp w" "out w1 = out w @ matching re [u]" using assms by (simp_all add: w1_def streams_def matching_def)
    have "grep_lines sys re p w = grep_lines sys re r w1"
      using Some u(1,2) by (subst grep_lines.simps) (simp add: Let_def w1_def)
    moreover obtain w' where "grep_lines sys re r w1 = (last (split_on 10 r), w')" "inp w' = inp w1"
        "out w' = out w1 @ matching re (butlast (split_on 10 r))"
      using 1(1) [rule_format, of r w1] 1(2) u(1) by auto
    ultimately show ?thesis using u w1 by (intro exI [of _ w']) (simp add: split_on_line matching_def)
  qed
qed

lemma last_split_length: "length (last (split_on x p)) \<le> length p"
proof (induction p)
  case (Cons y p)
  then show ?case by (cases "split_on x p") (auto split: if_splits)
qed simp

lemma complete_line_length: "l \<in> set (butlast (split_on x p)) \<Longrightarrow> length l < length p"
proof (induction p arbitrary: l)
  case (Cons y p)
  obtain h t where s: "split_on x p = h # t" using split_on_nonempty [of x p] by (cases "split_on x p") auto
  show ?case
  proof (cases "y = x")
    case True
    then show ?thesis using Cons s by (auto split: if_splits intro: less_SucI)
  next
    case False
    then have "l = y # h \<and> t \<noteq> [] \<or> l \<in> set (butlast t) \<and> t \<noteq> []" using Cons.prems s by (auto split: if_splits)
    then show ?thesis using Cons.IH [of h] Cons.IH [of l] s by auto
  qed
qed simp

text \<open>The lines that grep sees: the complete ones before the first that does not fit its buffer.\<close>

definition seen_lines :: "u8 list \<Rightarrow> u8 list list" where
  "seen_lines tx = takeWhile (\<lambda>l. length l < 1023) (butlast (split_on 10 tx))"

lemma seen_lines_full:
  assumes "10 \<notin> set buf" and "1023 \<le> length buf"
  shows "seen_lines (buf @ r) = []"
  using split_on_prefix [OF assms(1), of r] assms(2) by (auto simp: seen_lines_def)

lemma seen_lines_append:
  assumes "length p \<le> 1023"
  shows "seen_lines (p @ r) = butlast (split_on 10 p) @ seen_lines (last (split_on 10 p) @ r)"
proof -
  have "length l < 1023" if "l \<in> set (butlast (split_on 10 p))" for l using complete_line_length [OF that] assms by simp
  then show ?thesis unfolding seen_lines_def split_on_append [of 10 p r] by (simp add: butlast_append takeWhile_append2)
qed

lemma grep_loop_effect:
  assumes "streams sys fd inp out"
  shows "10 \<notin> set buf \<Longrightarrow> 0 \<notin> set (buf @ inp w) \<Longrightarrow> length buf \<le> 1023 \<Longrightarrow> length (inp w) < k \<Longrightarrow>
    \<exists>w'. grep_loop k sys re fd buf w = Some w' \<and> out w' = out w @ matching re (seen_lines (buf @ inp w))"
proof (induction k arbitrary: buf w)
  case (Suc k)
  obtain n bs w1 where r: "u_read sys fd (1024 - length buf - 1) w = (n, bs, w1)" by (cases "u_read sys fd (1024 - length buf - 1) w")
  then have n: "n = int (length bs)" "inp w = bs @ inp w1" "out w1 = out w" "bs = [] \<longrightarrow> 1024 - length buf - 1 = 0 \<or> inp w = []"
    "length bs \<le> 1024 - length buf - 1" using streams_read [OF assms(1) r] by simp_all
  show ?case
  proof (cases "bs = []")
    case True
    have "seen_lines (buf @ inp w) = []"
    proof (cases "inp w = []")
      case True
      then show ?thesis using Suc.prems(1) by (simp add: seen_lines_def split_on_none)
    next
      case False
      then show ?thesis using True n(4) Suc.prems(1) by (intro seen_lines_full) simp_all
    qed
    then show ?thesis using True r n by (simp add: matching_def)
  next
    case False
    let ?p = "buf @ bs"
    have len: "length ?p \<le> 1023" using n(5) Suc.prems(3) by simp
    obtain w2 where g: "grep_lines sys re ?p w1 = (last (split_on 10 ?p), w2)" "inp w2 = inp w1"
        "out w2 = out w1 @ matching re (butlast (split_on 10 ?p))"
      using grep_lines_effect [OF assms(1), of ?p re w1] Suc.prems(2) n(2) by auto
    have s: "seen_lines (buf @ inp w) = butlast (split_on 10 ?p) @ seen_lines (last (split_on 10 ?p) @ inp w2)"
      using seen_lines_append [OF len, of "inp w1"] by (simp add: n(2) g(2))
    have l: "length (inp w2) < k" using Suc.prems(4) n(2) g(2) False by (cases bs) simp_all
    have sub: "set (last (split_on 10 ?p)) \<subseteq> set ?p" by (rule set_split_on [of _ 10]) simp
    have "0 \<notin> set (last (split_on 10 ?p) @ inp w2)" using sub Suc.prems(2) n(2) g(2) by auto
    moreover have "length (last (split_on 10 ?p)) \<le> 1023" using last_split_length [of 10 ?p] len by simp
    ultimately obtain w' where "grep_loop k sys re fd (last (split_on 10 ?p)) w2 = Some w'"
        "out w' = out w2 @ matching re (seen_lines (last (split_on 10 ?p) @ inp w2))"
      using Suc.IH [OF last_split_on _ _ l] by blast
    then show ?thesis using False r n(1,3) g s by (simp add: matching_def)
  qed
qed simp

text \<open>
  C40: on input without NUL bytes grep terminates and prints exactly the matching ones, in order,
  among the complete lines of its input that come before the first line of 1023 bytes or more, however
  the reads cut the input into pieces. A last line without a newline is not printed; at a line that
  does not fit the buffer grep stops.
\<close>

theorem grep_prints_matching_lines:
  assumes "streams sys fd inp out" and "0 \<notin> set (inp w)" and "length (inp w) < k"
  shows "\<exists>w'. grep k sys re fd w = Some w' \<and> out w' = out w @ matching re (seen_lines (inp w))"
  using grep_loop_effect [OF assms(1), of "[]"] assms(2-3) by (simp add: grep_def)

theorem grep_prints_matching_lines_witness:
  "\<exists>w'. grep 9 text_sys [94, 98] 0 ([97, 98, 10, 98, 10, 98], []) = Some w' \<and> snd w' = [98, 10]"
proof -
  have "match [94, 98] [98]" "\<not> match [94, 98] [97, 98]"
    by (simp_all add: match_def matchhere_simps fits_def)
  then show ?thesis
    using grep_prints_matching_lines [OF text_sys_streams, of "([97, 98, 10, 98, 10, 98], [])" 9 "[94, 98]" 0]
    by (auto simp: matching_def seen_lines_def)
qed

end
