(* ===== verification/Utils.thy ===== *)
theory Utils
  imports Ulib Bytes
begin

text \<open>
  The small utilities: \<^verbatim>\<open>user/cat.c\<close>, \<^verbatim>\<open>wc.c\<close>, \<^verbatim>\<open>echo.c\<close>, \<^verbatim>\<open>kill.c\<close>,
  \<^verbatim>\<open>ln.c\<close>, \<^verbatim>\<open>mkdir.c\<close>, \<^verbatim>\<open>rm.c\<close> and \<^verbatim>\<open>ls.c\<close>. A program returns its exit status
  with the world; \<open>argv\<close> has the program's name first. Loops over a descriptor have fuel, and
  \<open>None\<close> is running out of it.
\<close>

section \<open>cat\<close>

text \<open>\<open>Some c\<close> in the result is a call of \<^verbatim>\<open>exit(c)\<close> inside.\<close>

primrec cat :: "nat \<Rightarrow> 'w usys \<Rightarrow> int \<Rightarrow> 'w \<Rightarrow> (int option \<times> 'w) option" where
  "cat 0 sys fd w = None"
| "cat (Suc k) sys fd w =
     (case u_read sys fd 512 w of (n, bs, w1) \<Rightarrow>
        if n > 0 then
          (case u_write sys 1 (take (nat n) bs) w1 of (r, w2) \<Rightarrow>
             if r \<noteq> n then Some (Some 1, ufprintf sys 2 ''cat: write error\<newline>'' [] w2) else cat k sys fd w2)
        else if n < 0 then Some (Some 1, ufprintf sys 2 ''cat: read error\<newline>'' [] w1)
        else Some (None, w1))"

primrec cat_files :: "nat \<Rightarrow> 'w usys \<Rightarrow> u8 list list \<Rightarrow> 'w \<Rightarrow> (int \<times> 'w) option" where
  "cat_files k sys [] w = Some (0, w)"
| "cat_files k sys (a # as) w =
     (case u_open sys a O_RDONLY w of (fd, w1) \<Rightarrow>
        if fd < 0 then Some (1, ufprintf sys 2 ''cat: cannot open %s\<newline>'' [ArgStr (Some (chars_of a))] w1)
        else case cat k sys fd w1 of
               None \<Rightarrow> None
             | Some (Some e, w2) \<Rightarrow> Some (e, w2)
             | Some (None, w2) \<Rightarrow> cat_files k sys as (snd (u_close sys fd w2)))"

definition cat_main :: "nat \<Rightarrow> 'w usys \<Rightarrow> u8 list list \<Rightarrow> 'w \<Rightarrow> (int \<times> 'w) option" where
  "cat_main k sys argv w =
     (if length argv \<le> 1
      then map_option (\<lambda>(e, w1). (case e of Some c \<Rightarrow> c | None \<Rightarrow> 0, w1)) (cat k sys 0 w)
      else cat_files k sys (tl argv) w)"

section \<open>wc\<close>

record counts =
  n_l :: nat
  n_w :: nat
  n_c :: nat
  inword :: bool

definition wc_byte :: "u8 \<Rightarrow> counts \<Rightarrow> counts" where
  "wc_byte b x =
     (let x1 = x\<lparr>n_c := n_c x + 1\<rparr>;
          x2 = (if b = 10 then x1\<lparr>n_l := n_l x1 + 1\<rparr> else x1)
      in if ustrchr [32, 13, 9, 10, 11] b \<noteq> None then x2\<lparr>inword := False\<rparr>
         else if \<not> inword x2 then x2\<lparr>n_w := n_w x2 + 1, inword := True\<rparr>
         else x2)"

primrec wc_loop :: "nat \<Rightarrow> 'w usys \<Rightarrow> int \<Rightarrow> counts \<Rightarrow> 'w \<Rightarrow> (int \<times> counts \<times> 'w) option" where
  "wc_loop 0 sys fd x w = None"
| "wc_loop (Suc k) sys fd x w =
     (case u_read sys fd 512 w of (n, bs, w1) \<Rightarrow>
        if n > 0 then wc_loop k sys fd (fold wc_byte (take (nat n) bs) x) w1 else Some (n, x, w1))"

definition wc :: "nat \<Rightarrow> 'w usys \<Rightarrow> int \<Rightarrow> u8 list \<Rightarrow> 'w \<Rightarrow> (int option \<times> 'w) option" where
  "wc k sys fd name w =
     (case wc_loop k sys fd \<lparr>n_l = 0, n_w = 0, n_c = 0, inword = False\<rparr> w of
        None \<Rightarrow> None
      | Some (n, x, w1) \<Rightarrow>
          if n < 0 then Some (Some 1, ufprintf sys 1 ''wc: read error\<newline>'' [] w1)
          else Some (None, ufprintf sys 1 ''%d %d %d %s\<newline>''
                 [ArgInt (of_nat (n_l x)), ArgInt (of_nat (n_w x)), ArgInt (of_nat (n_c x)), ArgStr (Some (chars_of name))] w1))"

primrec wc_files :: "nat \<Rightarrow> 'w usys \<Rightarrow> u8 list list \<Rightarrow> 'w \<Rightarrow> (int \<times> 'w) option" where
  "wc_files k sys [] w = Some (0, w)"
| "wc_files k sys (a # as) w =
     (case u_open sys a O_RDONLY w of (fd, w1) \<Rightarrow>
        if fd < 0 then Some (1, ufprintf sys 1 ''wc: cannot open %s\<newline>'' [ArgStr (Some (chars_of a))] w1)
        else case wc k sys fd a w1 of
               None \<Rightarrow> None
             | Some (Some e, w2) \<Rightarrow> Some (e, w2)
             | Some (None, w2) \<Rightarrow> wc_files k sys as (snd (u_close sys fd w2)))"

definition wc_main :: "nat \<Rightarrow> 'w usys \<Rightarrow> u8 list list \<Rightarrow> 'w \<Rightarrow> (int \<times> 'w) option" where
  "wc_main k sys argv w =
     (if length argv \<le> 1
      then map_option (\<lambda>(e, w1). (case e of Some c \<Rightarrow> c | None \<Rightarrow> 0, w1)) (wc k sys 0 [] w)
      else wc_files k sys (tl argv) w)"

section \<open>echo, kill, ln, mkdir, rm\<close>

fun echo_args :: "'w usys \<Rightarrow> u8 list list \<Rightarrow> 'w \<Rightarrow> 'w" where
  "echo_args sys [] w = w"
| "echo_args sys (a # as) w =
     (let w1 = snd (u_write sys 1 (take (ustrlen a) a) w)
      in echo_args sys as (snd (u_write sys 1 (if as \<noteq> [] then [32] else [10]) w1)))"

definition echo_main :: "'w usys \<Rightarrow> u8 list list \<Rightarrow> 'w \<Rightarrow> int \<times> 'w" where
  "echo_main sys argv w = (0, echo_args sys (tl argv) w)"

definition kill_main :: "'w usys \<Rightarrow> u8 list list \<Rightarrow> 'w \<Rightarrow> int \<times> 'w" where
  "kill_main sys argv w =
     (if length argv < 2 then (1, ufprintf sys 2 ''usage: kill pid...\<newline>'' [] w)
      else (0, fold (\<lambda>a w. snd (u_kill sys (atoi (chars_of a)) w)) (tl argv) w))"

definition ln_main :: "'w usys \<Rightarrow> u8 list list \<Rightarrow> 'w \<Rightarrow> int \<times> 'w" where
  "ln_main sys argv w =
     (if length argv \<noteq> 3 then (1, ufprintf sys 2 ''Usage: ln old new\<newline>'' [] w)
      else case u_link sys (argv ! 1) (argv ! 2) w of (r, w1) \<Rightarrow>
        (0, if r < 0 then ufprintf sys 2 ''link %s %s: failed\<newline>'' [ArgStr (Some (chars_of (argv ! 1))), ArgStr (Some (chars_of (argv ! 2)))] w1
            else w1))"

primrec mkdir_args :: "'w usys \<Rightarrow> u8 list list \<Rightarrow> 'w \<Rightarrow> 'w" where
  "mkdir_args sys [] w = w"
| "mkdir_args sys (a # as) w =
     (case u_mkdir sys a w of (r, w1) \<Rightarrow>
        if r < 0 then ufprintf sys 2 ''mkdir: %s failed to create\<newline>'' [ArgStr (Some (chars_of a))] w1 else mkdir_args sys as w1)"

definition mkdir_main :: "'w usys \<Rightarrow> u8 list list \<Rightarrow> 'w \<Rightarrow> int \<times> 'w" where
  "mkdir_main sys argv w =
     (if length argv < 2 then (1, ufprintf sys 2 ''Usage: mkdir files...\<newline>'' [] w) else (0, mkdir_args sys (tl argv) w))"

primrec rm_args :: "'w usys \<Rightarrow> u8 list list \<Rightarrow> 'w \<Rightarrow> 'w" where
  "rm_args sys [] w = w"
| "rm_args sys (a # as) w =
     (case u_unlink sys a w of (r, w1) \<Rightarrow>
        if r < 0 then ufprintf sys 2 ''rm: %s failed to delete\<newline>'' [ArgStr (Some (chars_of a))] w1 else rm_args sys as w1)"

definition rm_main :: "'w usys \<Rightarrow> u8 list list \<Rightarrow> 'w \<Rightarrow> int \<times> 'w" where
  "rm_main sys argv w =
     (if length argv < 2 then (1, ufprintf sys 2 ''Usage: rm files...\<newline>'' [] w) else (0, rm_args sys (tl argv) w))"

section \<open>ls\<close>

definition fmtname :: "u8 list \<Rightarrow> u8 list" where
  "fmtname pth =
     (let p = rev (takeWhile (\<lambda>x. x \<noteq> 47) (rev (take (ustrlen pth) pth)))
      in if length p \<ge> DIRSIZ then p else p @ replicate (DIRSIZ - length p) 32)"

text \<open>The fields of \<^verbatim>\<open>struct stat\<close>: type at byte 8, inode number at 4, size at 16.\<close>

definition ls_line :: "'w usys \<Rightarrow> u8 list \<Rightarrow> u8 list \<Rightarrow> 'w \<Rightarrow> 'w" where
  "ls_line sys pth st w =
     ufprintf sys 1 ''%s %d %d %d\<newline>''
       [ArgStr (Some (chars_of (fmtname pth))), ArgInt (scast (get16 st 8)), ArgInt (ucast (get32 st 4)), ArgInt (ucast (get32 st 16))] w"

primrec ls_dir :: "nat \<Rightarrow> 'w usys \<Rightarrow> int \<Rightarrow> u8 list \<Rightarrow> 'w \<Rightarrow> 'w option" where
  "ls_dir 0 sys fd pth w = None"
| "ls_dir (Suc k) sys fd pth w =
     (case u_read sys fd 16 w of (n, de, w1) \<Rightarrow>
        if n \<noteq> 16 then Some w1
        else if get16 de 0 = 0 then ls_dir k sys fd pth w1
        else let buf = take (ustrlen pth) pth @ [47] @ take DIRSIZ (drop 2 de) @ [0]
             in case ustat sys buf w1 of (r, st, w2) \<Rightarrow>
                  ls_dir k sys fd pth (if r < 0 then ufprintf sys 1 ''ls: cannot stat %s\<newline>'' [ArgStr (Some (chars_of buf))] w2
                                        else ls_line sys buf st w2))"

definition ls :: "nat \<Rightarrow> 'w usys \<Rightarrow> u8 list \<Rightarrow> 'w \<Rightarrow> 'w option" where
  "ls k sys pth w =
     (case u_open sys pth O_RDONLY w of (fd, w1) \<Rightarrow>
        if fd < 0 then Some (ufprintf sys 2 ''ls: cannot open %s\<newline>'' [ArgStr (Some (chars_of pth))] w1)
        else case u_fstat sys fd w1 of (r, st, w2) \<Rightarrow>
          if r < 0 then Some (snd (u_close sys fd (ufprintf sys 2 ''ls: cannot stat %s\<newline>'' [ArgStr (Some (chars_of pth))] w2)))
          else map_option (\<lambda>w3. snd (u_close sys fd w3))
            (if get16 st 8 = T_DEVICE \<or> get16 st 8 = T_FILE then Some (ls_line sys pth st w2)
             else if get16 st 8 = T_DIR then
               (if ustrlen pth + 1 + DIRSIZ + 1 > 512 then Some (ufprintf sys 1 ''ls: path too long\<newline>'' [] w2)
                else ls_dir k sys fd pth w2)
             else Some w2))"

primrec ls_args :: "nat \<Rightarrow> 'w usys \<Rightarrow> u8 list list \<Rightarrow> 'w \<Rightarrow> 'w option" where
  "ls_args k sys [] w = Some w"
| "ls_args k sys (a # as) w = (case ls k sys a w of None \<Rightarrow> None | Some w1 \<Rightarrow> ls_args k sys as w1)"

definition ls_main :: "nat \<Rightarrow> 'w usys \<Rightarrow> u8 list list \<Rightarrow> 'w \<Rightarrow> (int \<times> 'w) option" where
  "ls_main k sys argv w =
     map_option (Pair 0) (if length argv < 2 then ls k sys [46] w else ls_args k sys (tl argv) w)"

section \<open>What cat and wc do\<close>

lemma cat_copies:
  assumes "streams sys fd inp out" and "\<And>bs w. fst (u_write sys 1 bs w) = int (length bs)"
  shows "length (inp w) < k \<Longrightarrow> \<exists>w'. cat k sys fd w = Some (None, w') \<and> inp w' = [] \<and> out w' = out w @ inp w"
proof (induction k arbitrary: w)
  case (Suc k)
  obtain n bs w1 where r: "u_read sys fd 512 w = (n, bs, w1)" by (cases "u_read sys fd 512 w")
  note s = streams_read [OF assms(1) r]
  obtain m w2 where q: "u_write sys 1 bs w1 = (m, w2)" by (cases "u_write sys 1 bs w1")
  have w2: "m = int (length bs)" "inp w2 = inp w1" "out w2 = out w1 @ bs"
    using assms(1) assms(2) [of bs w1] q unfolding streams_def by (metis fst_conv, metis snd_conv, metis snd_conv)
  show ?case
  proof (cases "bs = []")
    case True
    then show ?thesis using r s by simp
  next
    case False
    then have "length (inp w2) < k" using Suc.prems s(2) w2(2) by (cases bs) simp_all
    then show ?thesis using Suc.IH [of w2] False r s q w2 by auto
  qed
qed simp

text \<open>The words of a text: its fields between white space that are not empty.\<close>

definition space :: "u8 \<Rightarrow> bool" where
  "space b \<longleftrightarrow> b \<in> {32, 13, 9, 10, 11}"

definition words_of :: "u8 list \<Rightarrow> u8 list list" where
  "words_of t = filter (\<lambda>f. f \<noteq> []) (split_on 32 (map (\<lambda>b. if space b then 32 else b) t))"

lemma wc_byte_simp: "wc_byte b x = \<lparr>n_l = n_l x + of_bool (b = 10), n_w = n_w x + of_bool (\<not> space b \<and> \<not> inword x), n_c = n_c x + 1,
    inword = (\<not> space b)\<rparr>"
  by (cases x; cases "space b"; cases "b = 10") (auto simp: wc_byte_def Let_def space_def)

lemma wc_lines: "n_l (fold wc_byte t x) = n_l x + count_list t 10 \<and> n_c (fold wc_byte t x) = n_c x + length t"
  by (induction t arbitrary: x) (simp_all add: wc_byte_simp)

lemma wc_words:
  "n_w (fold wc_byte t x) + of_bool (inword x \<and> t \<noteq> [] \<and> \<not> space (hd t)) = n_w x + length (words_of t)"
proof (induction t arbitrary: x)
  case (Cons b t)
  have s: "space (32 :: u8)" by (simp add: space_def)
  obtain h r where hr: "split_on 32 (map (\<lambda>b. if space b then 32 else b) t) = h # r"
    using split_on_nonempty [of 32] by (meson list.exhaust)
  have h: "h \<noteq> [] \<longleftrightarrow> t \<noteq> [] \<and> \<not> space (hd t)" using hr s by (cases t) (auto split: if_splits list.splits)
  show ?case
  proof (cases "space b")
    case True
    then show ?thesis using Cons.IH [of "wc_byte b x"] by (simp add: wc_byte_simp words_of_def)
  next
    case False
    then have "b \<noteq> 32" using s by auto
    then have "length (words_of (b # t)) + of_bool (h \<noteq> []) = Suc (length (words_of t))" using hr False by (simp add: words_of_def)
    moreover have "n_w (wc_byte b x) = n_w x + of_bool (\<not> inword x)" "inword (wc_byte b x)" using False by (simp_all add: wc_byte_simp)
    ultimately show ?thesis using Cons.IH [of "wc_byte b x"] False h by (cases "inword x"; cases "h = []") auto
  qed
qed (simp add: words_of_def)

lemma wc_loop_counts:
  assumes "streams sys fd inp out"
  shows "length (inp w) < k \<Longrightarrow> \<exists>w'. wc_loop k sys fd x w = Some (0, fold wc_byte (inp w) x, w') \<and> inp w' = [] \<and> out w' = out w"
proof (induction k arbitrary: w x)
  case (Suc k)
  obtain n bs w1 where r: "u_read sys fd 512 w = (n, bs, w1)" by (cases "u_read sys fd 512 w")
  note s = streams_read [OF assms r]
  show ?case
  proof (cases "bs = []")
    case True
    then show ?thesis using r s by simp
  next
    case False
    then have "length (inp w1) < k" using Suc.prems s(2) by (cases bs) simp_all
    then show ?thesis using Suc.IH [of w1 "fold wc_byte bs x"] False r s by auto
  qed
qed simp

text \<open>wc counts the lines, words and bytes of its whole input, however it is cut into reads.\<close>

lemma wc_counts:
  assumes "streams sys fd inp out" and "length (inp w) < k" and "n_l x = 0" and "n_w x = 0" and "n_c x = 0" and "\<not> inword x"
  shows "\<exists>y w'. wc_loop k sys fd x w = Some (0, y, w') \<and> n_l y = count_list (inp w) 10 \<and> n_w y = length (words_of (inp w)) \<and>
    n_c y = length (inp w) \<and> inp w' = []"
  using wc_loop_counts [OF assms(1,2), of x] wc_lines [of "inp w" x] wc_words [of "inp w" x] assms(3-6) by auto

end
