(* ===== verification/Sh.thy ===== *)
theory Sh
  imports Ulib
begin

text \<open>
  The shell's parser, \<^verbatim>\<open>user/sh.c\<close>: tokens, the recursive descent over a line, and the termination of
  the words in place. A pointer into the line is its index; the line ends at its length, where C has
  the NUL. A command is a tree over words, a word a pair of pointers to its start and its end.
  \<open>Panic\<close> is the shell's own \<^verbatim>\<open>panic\<close>, which prints the message and exits.
\<close>

section \<open>Commands\<close>

definition MAXARGS :: nat where "MAXARGS = 10"

datatype 'w cmd =
    ExecCmd "'w list"
  | RedirCmd "'w cmd" 'w u32 int
  | PipeCmd "'w cmd" "'w cmd"
  | ListCmd "'w cmd" "'w cmd"
  | BackCmd "'w cmd"

section \<open>Tokens\<close>

definition whitespace :: "u8 list" where "whitespace = [32, 9, 13, 10, 11]"
definition symbols :: "u8 list" where "symbols = [60, 124, 62, 38, 59, 40, 41]"

definition chr :: "u8 list \<Rightarrow> nat \<Rightarrow> u8" where
  "chr s i = ch (drop i s)"

text \<open>The loop over white space, up to the end of the line.\<close>

definition skip_ws :: "u8 list \<Rightarrow> nat \<Rightarrow> nat" where
  "skip_ws s i = i + length (takeWhile (\<lambda>x. ustrchr whitespace x \<noteq> None) (drop i s))"

definition word_end :: "u8 list \<Rightarrow> nat \<Rightarrow> nat" where
  "word_end s i = i + length (takeWhile (\<lambda>x. ustrchr whitespace x = None \<and> ustrchr symbols x = None) (drop i s))"

text \<open>The token at \<open>i\<close> (0 at the end, \<open>a\<close> for a word, \<open>+\<close> for \<open>>>\<close>), its start and end, and the next position.\<close>

definition gettoken :: "u8 list \<Rightarrow> nat \<Rightarrow> u8 \<times> nat \<times> nat \<times> nat" where
  "gettoken s i =
     (let q = skip_ws s i; c = chr s q;
          (ret, e) =
            (if c = 0 then (0, q)
             else if c = 124 \<or> c = 40 \<or> c = 41 \<or> c = 59 \<or> c = 38 \<or> c = 60 then (c, q + 1)
             else if c = 62 then (if chr s (q + 1) = 62 then (43, q + 2) else (c, q + 1))
             else (97, word_end s q))
      in (ret, q, e, skip_ws s e))"

definition peek :: "u8 list \<Rightarrow> nat \<Rightarrow> u8 list \<Rightarrow> bool \<times> nat" where
  "peek s i toks = (let q = skip_ws s i in (chr s q \<noteq> 0 \<and> ustrchr toks (chr s q) \<noteq> None, q))"

section \<open>The parser\<close>

text \<open>
  A position in place of the pointer passed by reference. The loops and the recursion have fuel; the
  word an out-parameter receives is part of the result.
\<close>

type_synonym span = "nat \<times> nat"

text \<open>
  \<^verbatim>\<open>parseredirs\<close> wraps the command it is given, once for each redirection; the redirections found are
  collected, and \<open>redirect\<close> does the wrapping. \<^verbatim>\<open>parseexec\<close> fills in the arguments of a node that is
  wrapped already, so there the wrapping comes last.
\<close>

primrec parseredirs :: "nat \<Rightarrow> u8 list \<Rightarrow> nat \<Rightarrow> ((span \<times> u32 \<times> int) list \<times> nat) result" where
  "parseredirs 0 s i = Hang"
| "parseredirs (Suc k) s i =
     (case peek s i [60, 62] of (b, i1) \<Rightarrow>
        if \<not> b then Ok ([], i1)
        else case gettoken s i1 of (tok, _, _, i2) \<Rightarrow>
             case gettoken s i2 of (tok', q, eq, i3) \<Rightarrow>
               if tok' \<noteq> 97 then Panic ''missing file for redirection''
               else rbind (parseredirs k s i3) (\<lambda>(rs, i4).
                 Ok ((if tok = 60 then [((q, eq), O_RDONLY, 0)]
                      else if tok = 62 then [((q, eq), O_WRONLY OR O_CREATE OR O_TRUNC, 1)]
                      else if tok = 43 then [((q, eq), O_WRONLY OR O_CREATE, 1)] else []) @ rs, i4)))"

definition redirect :: "(span \<times> u32 \<times> int) list \<Rightarrow> span cmd \<Rightarrow> span cmd" where
  "redirect rs c = fold (\<lambda>(f, mode, fd) c. RedirCmd c f mode fd) rs c"

text \<open>The loop over the arguments of a simple command; \<open>argc\<close> counts those before.\<close>

primrec parseargs :: "nat \<Rightarrow> nat \<Rightarrow> u8 list \<Rightarrow> nat \<Rightarrow> (span list \<times> (span \<times> u32 \<times> int) list \<times> nat) result" where
  "parseargs 0 argc s i = Hang"
| "parseargs (Suc k) argc s i =
     (case peek s i [124, 41, 38, 59] of (b, i1) \<Rightarrow>
        if b then Ok ([], [], i1)
        else case gettoken s i1 of (tok, q, eq, i2) \<Rightarrow>
          if tok = 0 then Ok ([], [], i2)
          else if tok \<noteq> 97 then Panic ''syntax''
          else if argc + 1 \<ge> MAXARGS then Panic ''too many args''
          else rbind (parseredirs k s i2) (\<lambda>(rs, i3).
               rbind (parseargs k (argc + 1) s i3) (\<lambda>(as, rs', i4). Ok ((q, eq) # as, rs @ rs', i4))))"

primrec parseback :: "nat \<Rightarrow> u8 list \<Rightarrow> span cmd \<Rightarrow> nat \<Rightarrow> (span cmd \<times> nat) result" where
  "parseback 0 s c i = Hang"
| "parseback (Suc k) s c i =
     (case peek s i [38] of (b, i1) \<Rightarrow>
        if b then (case gettoken s i1 of (_, _, _, i2) \<Rightarrow> parseback k s (BackCmd c) i2) else Ok (c, i1))"

fun parseline :: "nat \<Rightarrow> u8 list \<Rightarrow> nat \<Rightarrow> (span cmd \<times> nat) result"
  and parsepipe :: "nat \<Rightarrow> u8 list \<Rightarrow> nat \<Rightarrow> (span cmd \<times> nat) result"
  and parseexec :: "nat \<Rightarrow> u8 list \<Rightarrow> nat \<Rightarrow> (span cmd \<times> nat) result"
  and parseblock :: "nat \<Rightarrow> u8 list \<Rightarrow> nat \<Rightarrow> (span cmd \<times> nat) result" where
  "parseline 0 s i = Hang"
| "parseline (Suc k) s i =
     rbind (parsepipe k s i) (\<lambda>(c, i1).
     rbind (parseback k s c i1) (\<lambda>(c1, i2).
       case peek s i2 [59] of (b, i3) \<Rightarrow>
         if b then (case gettoken s i3 of (_, _, _, i4) \<Rightarrow> rbind (parseline k s i4) (\<lambda>(c2, i5). Ok (ListCmd c1 c2, i5)))
         else Ok (c1, i3)))"
| "parsepipe 0 s i = Hang"
| "parsepipe (Suc k) s i =
     rbind (parseexec k s i) (\<lambda>(c, i1).
       case peek s i1 [124] of (b, i2) \<Rightarrow>
         if b then (case gettoken s i2 of (_, _, _, i3) \<Rightarrow> rbind (parsepipe k s i3) (\<lambda>(c2, i4). Ok (PipeCmd c c2, i4)))
         else Ok (c, i2))"
| "parseexec 0 s i = Hang"
| "parseexec (Suc k) s i =
     (case peek s i [40] of (b, i1) \<Rightarrow>
        if b then parseblock k s i1
        else rbind (parseredirs k s i1) (\<lambda>(rs, i2).
             rbind (parseargs k 0 s i2) (\<lambda>(as, rs', i3). Ok (redirect (rs @ rs') (ExecCmd as), i3))))"
| "parseblock 0 s i = Hang"
| "parseblock (Suc k) s i =
     (case peek s i [40] of (b, i1) \<Rightarrow>
        if \<not> b then Panic ''parseblock''
        else case gettoken s i1 of (_, _, _, i2) \<Rightarrow>
          rbind (parseline k s i2) (\<lambda>(c, i3).
            case peek s i3 [41] of (b', i4) \<Rightarrow>
              if \<not> b' then Panic ''syntax - missing )''
              else case gettoken s i4 of (_, _, _, i5) \<Rightarrow>
                rbind (parseredirs k s i5) (\<lambda>(rs, i6). Ok (redirect rs c, i6))))"

text \<open>Putting a NUL behind every word; \<open>b\<close> is the buffer with the line.\<close>

primrec nulterminate :: "span cmd \<Rightarrow> u8 list \<Rightarrow> u8 list" where
  "nulterminate (ExecCmd as) b = fold (\<lambda>(q, e) b. b[e := 0]) as b"
| "nulterminate (RedirCmd c f mode fd) b = (nulterminate c b)[snd f := 0]"
| "nulterminate (PipeCmd l r) b = nulterminate r (nulterminate l b)"
| "nulterminate (ListCmd l r) b = nulterminate r (nulterminate l b)"
| "nulterminate (BackCmd c) b = nulterminate c b"

text \<open>The tree and the buffer its words are in; the line \<open>s\<close> is followed by its NUL.\<close>

definition parsecmd :: "nat \<Rightarrow> u8 list \<Rightarrow> (span cmd \<times> u8 list) result" where
  "parsecmd k s =
     rbind (parseline k s 0) (\<lambda>(c, i).
       case peek s i [] of (_, i1) \<Rightarrow>
         if i1 \<noteq> length s then Panic ''syntax'' else Ok (c, nulterminate c (s @ [0])))"

section \<open>Reading a line\<close>

definition getcmd :: "'w usys \<Rightarrow> nat \<Rightarrow> 'w \<Rightarrow> int \<times> u8 list \<times> 'w" where
  "getcmd sys nbuf w =
     (case gets sys (replicate nbuf 0) (int nbuf) (snd (u_write sys 2 [36, 32] w)) of (buf, w1) \<Rightarrow>
        (if ch buf = 0 then -1 else 0, buf, w1))"

text \<open>What the main loop does with a line: nothing, a change of directory of its own, or a child that parses it.\<close>

datatype action = Blank | Chdir "u8 list" | Run "u8 list"

definition line_action :: "u8 list \<Rightarrow> action" where
  "line_action buf =
     (let cmd = dropWhile (\<lambda>x. x = 32 \<or> x = 9) buf in
      if ch cmd = 10 then Blank
      else if ch cmd = 99 \<and> ch (tl cmd) = 100 \<and> ch (tl (tl cmd)) = 32 then Chdir (drop 3 (take (ustrlen cmd - 1) cmd))
      else Run (take (ustrlen cmd) cmd))"

section \<open>The grammar\<close>

text \<open>The tokens of a text.\<close>

datatype tok = W "u8 list" | Sym u8 | Append

definition is_ws :: "u8 \<Rightarrow> bool" where "is_ws x \<longleftrightarrow> x \<in> {32, 9, 13, 10, 11}"
definition is_sym :: "u8 \<Rightarrow> bool" where "is_sym x \<longleftrightarrow> x \<in> {60, 124, 62, 38, 59, 40, 41}"
definition is_word :: "u8 \<Rightarrow> bool" where "is_word x \<longleftrightarrow> \<not> is_ws x \<and> \<not> is_sym x"

function tokens :: "u8 list \<Rightarrow> tok list" where
  "tokens s =
     (case dropWhile is_ws s of
        [] \<Rightarrow> []
      | c # r \<Rightarrow>
          if c = 62 \<and> ch r = 62 then Append # tokens (tl r)
          else if is_sym c then Sym c # tokens r
          else W (takeWhile is_word (c # r)) # tokens (dropWhile is_word r))"
  by pat_completeness auto
termination
proof (relation "measure length", simp, goal_cases)
  case (1 s c r)
  then have "length (c # r) \<le> length s" by (metis length_dropWhile_le)
  then show ?case by simp
next
  case (2 s c r)
  then have "length (c # r) \<le> length s" by (metis length_dropWhile_le)
  then show ?case by simp
next
  case (3 s c r)
  then have "length (c # r) \<le> length s" by (metis length_dropWhile_le)
  then show ?case using length_dropWhile_le [of is_word r] by simp
qed

declare tokens.simps [simp del]

text \<open>
  A line is pipelines, each with its ampersands, separated by semicolons; a pipeline is simple commands
  or blocks separated by bars; a simple command is words, with redirections anywhere.
\<close>

datatype redir = In "u8 list" | Out "u8 list" | App "u8 list"

datatype line = Line pipeline nat "line option"
  and pipeline = Pipeline simple "pipeline option"
  and simple = Block line "redir list" | Simple "redir list" "(u8 list \<times> redir list) list"

fun redir_toks :: "redir \<Rightarrow> tok list" where
  "redir_toks (In f) = [Sym 60, W f]"
| "redir_toks (Out f) = [Sym 62, W f]"
| "redir_toks (App f) = [Append, W f]"

definition redirs_toks :: "redir list \<Rightarrow> tok list" where
  "redirs_toks rs = concat (map redir_toks rs)"

primrec line_toks :: "line \<Rightarrow> tok list" and pipeline_toks :: "pipeline \<Rightarrow> tok list" and simple_toks :: "simple \<Rightarrow> tok list" where
  "line_toks (Line p n r) = pipeline_toks p @ replicate n (Sym 38) @ (case map_option line_toks r of None \<Rightarrow> [] | Some ts \<Rightarrow> Sym 59 # ts)"
| "pipeline_toks (Pipeline e r) = simple_toks e @ (case map_option pipeline_toks r of None \<Rightarrow> [] | Some ts \<Rightarrow> Sym 124 # ts)"
| "simple_toks (Block l rs) = Sym 40 # line_toks l @ Sym 41 # redirs_toks rs"
| "simple_toks (Simple rs as) = redirs_toks rs @ concat (map (\<lambda>(a, rs). W a # redirs_toks rs) as)"

text \<open>The command a line stands for.\<close>

fun redir_cmd :: "redir \<Rightarrow> u8 list cmd \<Rightarrow> u8 list cmd" where
  "redir_cmd (In f) c = RedirCmd c f O_RDONLY 0"
| "redir_cmd (Out f) c = RedirCmd c f (O_WRONLY OR O_CREATE OR O_TRUNC) 1"
| "redir_cmd (App f) c = RedirCmd c f (O_WRONLY OR O_CREATE) 1"

primrec line_cmd :: "line \<Rightarrow> u8 list cmd" and pipeline_cmd :: "pipeline \<Rightarrow> u8 list cmd" and simple_cmd :: "simple \<Rightarrow> u8 list cmd" where
  "line_cmd (Line p n r) =
     (let c = (BackCmd ^^ n) (pipeline_cmd p) in case map_option line_cmd r of None \<Rightarrow> c | Some d \<Rightarrow> ListCmd c d)"
| "pipeline_cmd (Pipeline e r) =
     (case map_option pipeline_cmd r of None \<Rightarrow> simple_cmd e | Some d \<Rightarrow> PipeCmd (simple_cmd e) d)"
| "simple_cmd (Block l rs) = fold redir_cmd rs (line_cmd l)"
| "simple_cmd (Simple rs as) = fold redir_cmd (rs @ concat (map snd as)) (ExecCmd (map fst as))"

text \<open>At most nine words in a simple command.\<close>

primrec line_ok :: "line \<Rightarrow> bool" and pipeline_ok :: "pipeline \<Rightarrow> bool" and simple_ok :: "simple \<Rightarrow> bool" where
  "line_ok (Line p n r) \<longleftrightarrow> pipeline_ok p \<and> (case map_option line_ok r of None \<Rightarrow> True | Some b \<Rightarrow> b)"
| "pipeline_ok (Pipeline e r) \<longleftrightarrow> simple_ok e \<and> (case map_option pipeline_ok r of None \<Rightarrow> True | Some b \<Rightarrow> b)"
| "simple_ok (Block l rs) \<longleftrightarrow> line_ok l"
| "simple_ok (Simple rs as) \<longleftrightarrow> length as < MAXARGS"

section \<open>Tokens by position\<close>

lemma classes [simp]: "ustrchr whitespace x = None \<longleftrightarrow> \<not> is_ws x" "ustrchr symbols x = None \<longleftrightarrow> \<not> is_sym x"
  by (auto simp: whitespace_def symbols_def is_ws_def is_sym_def)

lemma drop_skip_ws: "drop (skip_ws s i) s = dropWhile is_ws (drop i s)"
  by (simp add: skip_ws_def dropWhile_eq_drop add.commute)

lemma drop_word_end: "drop (word_end s i) s = dropWhile is_word (drop i s)"
  by (simp add: word_end_def dropWhile_eq_drop add.commute is_word_def [abs_def])

lemma tokens_ws: "tokens (dropWhile is_ws s) = tokens s"
  by (subst (1 2) tokens.simps) simp

lemma tokens_nil: "dropWhile is_ws s = [] \<Longrightarrow> tokens s = []"
  by (subst tokens.simps) (simp only: list.case)

lemma tokens_cons:
  "dropWhile is_ws s = c # r \<Longrightarrow> tokens s = (if c = 62 \<and> ch r = 62 then Append # tokens (tl r) else if is_sym c then Sym c # tokens r
     else W (takeWhile is_word (c # r)) # tokens (dropWhile is_word r))"
  by (subst tokens.simps) simp

fun code :: "tok \<Rightarrow> u8" where
  "code (W w) = 97"
| "code (Sym c) = c"
| "code Append = 43"

fun lead :: "tok \<Rightarrow> u8 option" where
  "lead (W w) = None"
| "lead (Sym c) = Some c"
| "lead Append = Some 62"

text \<open>A maximal run of word characters, and its text.\<close>

definition maximal :: "u8 list \<Rightarrow> span \<Rightarrow> bool" where
  "maximal s = (\<lambda>(q, e). q < e \<and> e \<le> length s \<and> (\<forall>i. q \<le> i \<and> i < e \<longrightarrow> is_word (s ! i)) \<and> (e < length s \<longrightarrow> \<not> is_word (s ! e)))"

definition span_text :: "u8 list \<Rightarrow> span \<Rightarrow> u8 list" where
  "span_text s = (\<lambda>(q, e). take (e - q) (drop q s))"

lemma chr_nz: "0 \<notin> set s \<Longrightarrow> chr s i = 0 \<longleftrightarrow> drop i s = []"
  unfolding chr_def by (rule ch_zero) (meson in_set_dropD)

lemma word_run:
  assumes "drop q s = c # r" and "is_word c"
  shows "maximal s (q, word_end s q)" "span_text s (q, word_end s q) = takeWhile is_word (c # r)"
proof -
  let ?n = "length (takeWhile is_word (drop q s))"
  have e: "word_end s q = q + ?n" by (simp add: word_end_def is_word_def [abs_def])
  have q: "q \<le> length s" using assms(1) by (cases "q \<le> length s") simp_all
  have n: "?n \<le> length s - q" using length_takeWhile_le [of is_word "drop q s"] by simp
  have "is_word (s ! i)" if "q \<le> i" "i < q + ?n" for i
    using that q set_takeWhileD [OF nth_mem, of "i - q" is_word "drop q s"] takeWhile_nth [of "i - q" is_word "drop q s"] by simp
  moreover have "\<not> is_word (s ! (q + ?n))" if "q + ?n < length s"
    using that nth_length_takeWhile [of is_word "drop q s"] by simp
  moreover have "0 < ?n" using assms by simp
  ultimately show "maximal s (q, word_end s q)" using n q by (simp add: maximal_def e)
  show "span_text s (q, word_end s q) = takeWhile is_word (c # r)" by (simp add: span_text_def e takeWhile_eq_take [symmetric] flip: assms(1))
qed

lemma gettoken_tok:
  assumes "0 \<notin> set s" and "tokens (drop i s) = T # ts" and "gettoken s i = (t, q, e, j)"
  shows "t = code T \<and> tokens (drop j s) = ts \<and> (\<forall>w. T = W w \<longrightarrow> maximal s (q, e) \<and> span_text s (q, e) = w)"
proof -
  have q: "q = skip_ws s i" and d: "drop q s = dropWhile is_ws (drop i s)" and j: "j = skip_ws s e"
    using assms(3) by (auto simp: gettoken_def Let_def drop_skip_ws split: if_splits)
  obtain c r where cr: "drop q s = c # r" using assms(2) d by (subst (asm) tokens.simps) (auto split: list.splits)
  have r1: "drop (Suc q) s = r" "drop (Suc (Suc q)) s = tl r" using cr by (simp_all add: drop_Suc flip: tl_drop)
  have c: "chr s q = c" "chr s (Suc q) = ch r" using cr r1 by (simp_all add: chr_def)
  have nz: "c \<noteq> 0" using chr_nz [OF assms(1), of q] cr c by simp
  have nw: "\<not> is_ws c" using d cr by (metis dropWhile_eq_Cons_conv)
  have l: "T # ts = (if c = 62 \<and> ch r = 62 then Append # tokens (tl r) else if is_sym c then Sym c # tokens r
      else W (takeWhile is_word (c # r)) # tokens (dropWhile is_word r))"
    using assms(2) tokens_cons [of "drop i s" c r] d cr by simp
  have nx: "tokens (drop j s) = tokens (drop e s)" by (simp add: j drop_skip_ws tokens_ws)
  show ?thesis
  proof (cases "is_sym c")
    case True
    then show ?thesis using assms(3) l nx r1 nz c q
      by (auto simp: gettoken_def Let_def is_sym_def split: if_splits)
  next
    case False
    then have w: "is_word c" using nw by (simp add: is_word_def)
    then have "t = 97" "e = word_end s q" using assms(3) False nz c q
      by (auto simp: gettoken_def Let_def is_sym_def split: if_splits)
    moreover have "drop (word_end s q) s = dropWhile is_word r" using w cr by (simp add: drop_word_end)
    ultimately show ?thesis using l False nx word_run [OF cr w] by (auto simp: is_sym_def)
  qed
qed

lemma gettoken_end:
  assumes "0 \<notin> set s" and "tokens (drop i s) = []" and "gettoken s i = (t, q, e, j)"
  shows "t = 0 \<and> tokens (drop j s) = []"
proof -
  have "drop (skip_ws s i) s = []" using assms(2) unfolding drop_skip_ws by (subst (asm) tokens.simps) (auto split: list.splits if_splits)
  then show ?thesis using assms(2,3) chr_nz [OF assms(1), of "skip_ws s i"] tokens_ws [of "drop i s"]
    by (auto simp: gettoken_def Let_def drop_skip_ws)
qed

lemma peek_tok:
  assumes "0 \<notin> set s" and "set tk \<subseteq> {60, 124, 62, 38, 59, 40, 41}" and "peek s i tk = (b, j)"
  shows "tokens (drop j s) = tokens (drop i s) \<and>
    (b \<longleftrightarrow> (case tokens (drop i s) of [] \<Rightarrow> False | T # ts \<Rightarrow> \<exists>c \<in> set tk. lead T = Some c)) \<and>
    (tokens (drop i s) = [] \<longrightarrow> length s \<le> j)"
proof -
  have j: "j = skip_ws s i" "drop j s = dropWhile is_ws (drop i s)" using assms(3) by (auto simp: peek_def Let_def drop_skip_ws)
  have b: "b \<longleftrightarrow> chr s j \<noteq> 0 \<and> chr s j \<in> set tk"
  proof -
    have "0 \<notin> set tk" using assms(2) by auto
    then have "ustrchr tk x \<noteq> None \<longleftrightarrow> x \<in> set tk" for x by (induction tk) auto
    then show ?thesis using assms(3) by (simp add: peek_def Let_def j(1))
  qed
  show ?thesis
  proof (cases "drop j s")
    case Nil
    then have "tokens (drop i s) = []" using j(2) by (intro tokens_nil) (simp only:)
    moreover have "length s \<le> j" using Nil by simp
    ultimately show ?thesis using b chr_nz [OF assms(1), of j] Nil j(2) tokens_ws [of "drop i s"] by simp
  next
    case (Cons c r)
    have nw: "\<not> is_ws c" using j Cons by (metis dropWhile_eq_Cons_conv)
    have l: "tokens (drop i s) = (if c = 62 \<and> ch r = 62 then Append # tokens (tl r) else if is_sym c then Sym c # tokens r
        else W (takeWhile is_word (c # r)) # tokens (dropWhile is_word r))"
      using j(2) Cons tokens_cons [of "drop i s" c r] by simp
    have "chr s j = c" using Cons by (simp add: chr_def)
    moreover have "c \<notin> set tk" if "\<not> is_sym c" using that assms(2) by (auto simp: is_sym_def)
    ultimately show ?thesis using b l Cons chr_nz [OF assms(1), of j] j(2) tokens_ws [of "drop i s"] by auto
  qed
qed

text \<open>The tokens from a position on, and the two routines in terms of them.\<close>

definition left_at :: "u8 list \<Rightarrow> nat \<Rightarrow> tok list \<Rightarrow> bool" where
  "left_at s i ts \<longleftrightarrow> i \<le> length s \<and> tokens (drop i s) = ts"

definition starts :: "u8 set \<Rightarrow> tok list \<Rightarrow> bool" where
  "starts cs ts \<longleftrightarrow> (case ts of [] \<Rightarrow> False | T # _ \<Rightarrow> \<exists>c \<in> cs. lead T = Some c)"

lemma skip_ws_le: "i \<le> length s \<Longrightarrow> skip_ws s i \<le> length s"
  using length_takeWhile_le [of is_ws "drop i s"] by (simp add: skip_ws_def)

lemma word_end_le: "i \<le> length s \<Longrightarrow> word_end s i \<le> length s"
  using length_takeWhile_le [of is_word "drop i s"] by (simp add: word_end_def is_word_def [abs_def])

lemma chr_less: "chr s i \<noteq> 0 \<Longrightarrow> i < length s"
  by (cases "i < length s") (simp_all add: chr_def)

lemma gettoken_le: "i \<le> length s \<Longrightarrow> gettoken s i = (t, q, e, j) \<Longrightarrow> j \<le> length s"
  using chr_less [of s "skip_ws s i"] chr_less [of s "skip_ws s i + 1"] skip_ws_le [of i s] word_end_le [of "skip_ws s i" s]
  by (auto simp: gettoken_def Let_def intro!: skip_ws_le split: if_splits)

lemma get_tok:
  assumes "0 \<notin> set s" and "left_at s i (T # ts)"
  shows "\<exists>q e j. gettoken s i = (code T, q, e, j) \<and> left_at s j ts \<and> (\<forall>w. T = W w \<longrightarrow> maximal s (q, e) \<and> span_text s (q, e) = w)"
proof -
  obtain t q e j where g: "gettoken s i = (t, q, e, j)" by (cases "gettoken s i")
  then show ?thesis using gettoken_tok [OF assms(1) _ g] gettoken_le [OF _ g] assms(2) by (auto simp: left_at_def)
qed

lemma get_end:
  assumes "0 \<notin> set s" and "left_at s i []"
  shows "\<exists>q e j. gettoken s i = (0, q, e, j) \<and> left_at s j []"
proof -
  obtain t q e j where g: "gettoken s i = (t, q, e, j)" by (cases "gettoken s i")
  then show ?thesis using gettoken_end [OF assms(1) _ g] gettoken_le [OF _ g] assms(2) by (auto simp: left_at_def)
qed

lemma peek_at:
  assumes "0 \<notin> set s" and "left_at s i ts" and "set tk \<subseteq> {60, 124, 62, 38, 59, 40, 41}"
  shows "\<exists>j. peek s i tk = (starts (set tk) ts, j) \<and> left_at s j ts \<and> (ts = [] \<longrightarrow> j = length s)"
proof -
  obtain b j where g: "peek s i tk = (b, j)" by (cases "peek s i tk")
  then have "j \<le> length s" using assms(2) skip_ws_le [of i s] by (auto simp: peek_def Let_def left_at_def)
  then show ?thesis using peek_tok [OF assms(1,3) g] g assms(2) by (auto simp: left_at_def starts_def)
qed

section \<open>The parser on tokens\<close>

text \<open>The command at the words of a tree, all of them maximal runs.\<close>

definition stands :: "u8 list \<Rightarrow> span cmd \<Rightarrow> u8 list cmd \<Rightarrow> bool" where
  "stands s c d \<longleftrightarrow> map_cmd (span_text s) c = d \<and> (\<forall>w \<in> set_cmd c. maximal s w)"

fun redir_of :: "redir \<Rightarrow> u8 list \<times> u32 \<times> int" where
  "redir_of (In f) = (f, O_RDONLY, 0)"
| "redir_of (Out f) = (f, O_WRONLY OR O_CREATE OR O_TRUNC, 1)"
| "redir_of (App f) = (f, O_WRONLY OR O_CREATE, 1)"

definition redirs_stand :: "u8 list \<Rightarrow> (span \<times> u32 \<times> int) list \<Rightarrow> redir list \<Rightarrow> bool" where
  "redirs_stand s ps rs \<longleftrightarrow> map (\<lambda>(w, m, fd). (span_text s w, m, fd)) ps = map redir_of rs \<and> (\<forall>(w, m, fd) \<in> set ps. maximal s w)"

lemma redirect_stands:
  "redirs_stand s ps rs \<Longrightarrow> stands s c d \<Longrightarrow> stands s (redirect ps c) (fold redir_cmd rs d)"
proof (induction ps arbitrary: rs c d)
  case Nil
  then show ?case by (simp add: redirs_stand_def redirect_def)
next
  case (Cons p ps)
  obtain w m fd where p: "p = (w, m, fd)" by (cases p)
  obtain r rs' where r: "rs = r # rs'" using Cons.prems(1) by (cases rs) (auto simp: redirs_stand_def)
  have "stands s (RedirCmd c w m fd) (redir_cmd r d)"
    using Cons.prems p r by (cases r) (auto simp: redirs_stand_def stands_def)
  then show ?case using Cons.IH [of rs' "RedirCmd c w m fd" "redir_cmd r d"] Cons.prems p r by (simp add: redirs_stand_def redirect_def)
qed

lemma redirs_stand_append: "redirs_stand s ps rs \<Longrightarrow> redirs_stand s ps' rs' \<Longrightarrow> redirs_stand s (ps @ ps') (rs @ rs')"
  by (auto simp: redirs_stand_def)

lemma parseredirs_toks:
  assumes "0 \<notin> set s"
  shows "left_at s i (redirs_toks rs @ rest) \<Longrightarrow> \<not> starts {60, 62} rest \<Longrightarrow> length rs < k \<Longrightarrow>
    \<exists>ps j. parseredirs k s i = Ok (ps, j) \<and> redirs_stand s ps rs \<and> left_at s j rest"
proof (induction rs arbitrary: i k)
  case Nil
  obtain k' where k: "k = Suc k'" using Nil.prems(3) by (cases k) auto
  show ?case using peek_at [OF assms Nil.prems(1), of "[60, 62]"] Nil.prems(2) k by (auto simp: redirs_toks_def redirs_stand_def)
next
  case (Cons r rs)
  obtain k' where k: "k = Suc k'" "length rs < k'" using Cons.prems(3) by (cases k) auto
  obtain T f where T: "redir_toks r = [T, W f]" by (cases r) auto
  have "left_at s i (T # W f # redirs_toks rs @ rest)" using Cons.prems(1) T by (simp add: redirs_toks_def)
  then obtain i1 where i1: "peek s i [60, 62] = (True, i1)" "left_at s i1 (T # W f # redirs_toks rs @ rest)"
    using peek_at [OF assms, of i _ "[60, 62]"] T by (cases r) (fastforce simp: starts_def)+
  then obtain q1 e1 i2 where i2: "gettoken s i1 = (code T, q1, e1, i2)" "left_at s i2 (W f # redirs_toks rs @ rest)"
    using get_tok [OF assms] by blast
  then obtain q e i3 where i3: "gettoken s i2 = (97, q, e, i3)" "left_at s i3 (redirs_toks rs @ rest)" "maximal s (q, e)" "span_text s (q, e) = f"
    using get_tok [OF assms i2(2)] by auto
  obtain ps j where ps: "parseredirs k' s i3 = Ok (ps, j)" "redirs_stand s ps rs" "left_at s j rest"
    using Cons.IH [OF i3(2) Cons.prems(2) k(2)] by blast
  show ?case using i1 i2 i3 ps T k by (cases r) (auto simp: redirs_stand_def)
qed

definition args_toks :: "(u8 list \<times> redir list) list \<Rightarrow> tok list" where
  "args_toks as = concat (map (\<lambda>(a, rs). W a # redirs_toks rs) as)"

lemma length_redirs_toks: "length (redirs_toks rs) = 2 * length rs"
proof (induction rs)
  case (Cons r rs)
  then show ?case by (cases r) (simp_all add: redirs_toks_def)
qed (simp add: redirs_toks_def)

lemma not_starts_args: "\<not> starts {60, 62} rest \<Longrightarrow> \<not> starts {60, 62} (args_toks as @ rest)"
  by (cases as) (auto simp: args_toks_def starts_def)

lemma stops: "ts = [] \<or> starts cs ts \<Longrightarrow> cs \<inter> ds = {} \<Longrightarrow> \<not> starts ds ts"
  by (auto simp: starts_def split: list.splits)

lemma parseargs_toks:
  assumes "0 \<notin> set s" and "rest = [] \<or> starts {124, 41, 38, 59} rest"
  shows "left_at s i (args_toks as @ rest) \<Longrightarrow> argc + length as < MAXARGS \<Longrightarrow> length (args_toks as) < k \<Longrightarrow>
    \<exists>ws ps j. parseargs k argc s i = Ok (ws, ps, j) \<and> map (span_text s) ws = map fst as \<and> (\<forall>w \<in> set ws. maximal s w) \<and>
      redirs_stand s ps (concat (map snd as)) \<and> left_at s j rest"
proof (induction as arbitrary: i k argc)
  case Nil
  obtain k' where k: "k = Suc k'" using Nil.prems(3) by (cases k) auto
  have "left_at s i rest" using Nil.prems(1) by (simp add: args_toks_def)
  then obtain i1 where p: "peek s i [124, 41, 38, 59] = (starts {124, 41, 38, 59} rest, i1)" "left_at s i1 rest"
    using peek_at [OF assms(1), of i rest "[124, 41, 38, 59]"] by auto
  show ?case
  proof (cases "rest = []")
    case True
    then obtain q e j where "gettoken s i1 = (0, q, e, j)" "left_at s j []" using get_end [OF assms(1)] p(2) by blast
    then show ?thesis using True p k by (simp add: starts_def redirs_stand_def)
  next
    case False
    then show ?thesis using assms(2) p k by (simp add: redirs_stand_def)
  qed
next
  case (Cons a as)
  obtain w rs where a: "a = (w, rs)" by (cases a)
  obtain k' where k: "k = Suc k'" "length rs < k'" "length (args_toks as) < k'"
    using Cons.prems(3) a by (cases k) (auto simp: args_toks_def length_redirs_toks)
  have l: "left_at s i (W w # redirs_toks rs @ args_toks as @ rest)" using Cons.prems(1) a by (simp add: args_toks_def)
  then obtain i1 where p: "peek s i [124, 41, 38, 59] = (False, i1)" "left_at s i1 (W w # redirs_toks rs @ args_toks as @ rest)"
    using peek_at [OF assms(1) l, of "[124, 41, 38, 59]"] by (auto simp: starts_def)
  then obtain q e i2 where g: "gettoken s i1 = (97, q, e, i2)" "left_at s i2 (redirs_toks rs @ args_toks as @ rest)"
      "maximal s (q, e)" "span_text s (q, e) = w"
    using get_tok [OF assms(1) p(2)] by auto
  have "\<not> starts {60, 62} rest" using assms(2) by (rule stops) simp
  then obtain ps i3 where r: "parseredirs k' s i2 = Ok (ps, i3)" "redirs_stand s ps rs" "left_at s i3 (args_toks as @ rest)"
    using parseredirs_toks [OF assms(1) g(2) not_starts_args k(2)] by blast
  obtain ws ps' j where t: "parseargs k' (argc + 1) s i3 = Ok (ws, ps', j)" "map (span_text s) ws = map fst as" "\<forall>w \<in> set ws. maximal s w"
      "redirs_stand s ps' (concat (map snd as))" "left_at s j rest"
    using Cons.IH [OF r(3) _ k(3), of "argc + 1"] Cons.prems(2) by auto
  show ?case using p g r t k(1) a Cons.prems(2) redirs_stand_append [OF r(2) t(4)] by (auto simp: redirs_stand_def)
qed

lemma parseback_toks:
  assumes "0 \<notin> set s" and "\<not> starts {38} rest"
  shows "left_at s i (replicate n (Sym 38) @ rest) \<Longrightarrow> n < k \<Longrightarrow>
    \<exists>j. parseback k s c i = Ok ((BackCmd ^^ n) c, j) \<and> left_at s j rest"
proof (induction n arbitrary: i k c)
  case 0
  then show ?case using peek_at [OF assms(1) 0(1), of "[38]"] assms(2) by (cases k) auto
next
  case (Suc n)
  obtain k' where k: "k = Suc k'" "n < k'" using Suc.prems(2) by (cases k) auto
  obtain i1 where p: "peek s i [38] = (True, i1)" "left_at s i1 (Sym 38 # replicate n (Sym 38) @ rest)"
    using peek_at [OF assms(1) Suc.prems(1), of "[38]"] by (auto simp: starts_def)
  then obtain q e i2 where "gettoken s i1 = (38, q, e, i2)" "left_at s i2 (replicate n (Sym 38) @ rest)"
    using get_tok [OF assms(1) p(2)] by auto
  then show ?case using Suc.IH [of i2 k' "BackCmd c"] p k by (auto simp: funpow_swap1)
qed

lemma stands_back: "stands s c d \<Longrightarrow> stands s ((BackCmd ^^ n) c) ((BackCmd ^^ n) d)"
  by (induction n) (auto simp: stands_def)

text \<open>A routine parses the tokens \<open>ts\<close> to the command \<open>d\<close>, in front of an end or a token of \<open>cs\<close>.\<close>

definition parses ::
  "(nat \<Rightarrow> u8 list \<Rightarrow> nat \<Rightarrow> (span cmd \<times> nat) result) \<Rightarrow> u8 list \<Rightarrow> u8 set \<Rightarrow> nat \<Rightarrow> tok list \<Rightarrow> u8 list cmd \<Rightarrow> bool" where
  "parses f s cs n ts d \<longleftrightarrow>
     (\<forall>i rest k. left_at s i (ts @ rest) \<longrightarrow> rest = [] \<or> starts cs rest \<longrightarrow> 4 * length ts + n \<le> k \<longrightarrow>
        (\<exists>c j. f k s i = Ok (c, j) \<and> stands s c d \<and> left_at s j rest))"

lemma parsesD:
  "parses f s cs n ts d \<Longrightarrow> left_at s i (ts @ rest) \<Longrightarrow> rest = [] \<or> starts cs rest \<Longrightarrow> 4 * length ts + n \<le> k \<Longrightarrow>
    \<exists>c j. f k s i = Ok (c, j) \<and> stands s c d \<and> left_at s j rest"
  unfolding parses_def by blast

lemma line_parses:
  assumes "0 \<notin> set s" and "parses parsepipe s {41, 38, 59} 3 (pipeline_toks p) (pipeline_cmd p)"
    and "\<And>l. r = Some l \<Longrightarrow> parses parseline s {41} 4 (line_toks l) (line_cmd l)"
  shows "parses parseline s {41} 4 (line_toks (Line p n r)) (line_cmd (Line p n r))"
  unfolding parses_def
proof (intro allI impI)
  fix i rest k
  let ?tail = "(case map_option line_toks r of None \<Rightarrow> [] | Some ts \<Rightarrow> Sym 59 # ts) @ rest"
  assume l: "left_at s i (line_toks (Line p n r) @ rest)" and rest: "rest = [] \<or> starts {41} rest" and k: "4 * length (line_toks (Line p n r)) + 4 \<le> k"
  obtain k' where k': "k = Suc k'" using k by (cases k) auto
  have st: "?tail = [] \<or> starts {41, 59} ?tail" using rest by (cases r) (auto simp: starts_def split: list.splits)
  have pt: "replicate n (Sym 38) @ ?tail = [] \<or> starts {41, 38, 59} (replicate n (Sym 38) @ ?tail)"
    using st by (cases n) (auto simp: starts_def split: list.splits)
  obtain c i1 where 1: "parsepipe k' s i = Ok (c, i1)" "stands s c (pipeline_cmd p)" "left_at s i1 (replicate n (Sym 38) @ ?tail)"
    using parsesD [OF assms(2) _ pt, of i k'] l k k' by auto
  have "\<not> starts {38} ?tail" using st by (rule stops) simp
  then obtain i2 where 2: "parseback k' s c i1 = Ok ((BackCmd ^^ n) c, i2)" "left_at s i2 ?tail"
    using parseback_toks [OF assms(1) _ 1(3), of k' c] k k' by auto
  note b = stands_back [OF 1(2), of n]
  show "\<exists>c j. parseline k s i = Ok (c, j) \<and> stands s c (line_cmd (Line p n r)) \<and> left_at s j rest"
  proof (cases r)
    case None
    then have "\<not> starts {59} ?tail" using rest stops [of rest "{41}" "{59}"] by simp
    then show ?thesis using peek_at [OF assms(1) 2(2), of "[59]"] None 1 2 b k' by auto
  next
    case (Some l')
    then obtain i3 where 3: "peek s i2 [59] = (True, i3)" "left_at s i3 (Sym 59 # line_toks l' @ rest)"
      using peek_at [OF assms(1) 2(2), of "[59]"] by (auto simp: starts_def)
    obtain q e i4 where 4: "gettoken s i3 = (59, q, e, i4)" "left_at s i4 (line_toks l' @ rest)" using get_tok [OF assms(1) 3(2)] by auto
    have "\<exists>c j. parseline k' s i4 = Ok (c, j) \<and> stands s c (line_cmd l') \<and> left_at s j rest"
      using parsesD [OF assms(3) [OF Some] 4(2) rest, of k'] Some k k' by auto
    then show ?thesis using 1 2 3 4 b k' Some by (auto simp: stands_def)
  qed
qed

lemma pipeline_parses:
  assumes "0 \<notin> set s" and "parses parseexec s {41, 38, 59, 124} 2 (simple_toks e) (simple_cmd e)"
    and "\<And>p. r = Some p \<Longrightarrow> parses parsepipe s {41, 38, 59} 3 (pipeline_toks p) (pipeline_cmd p)"
  shows "parses parsepipe s {41, 38, 59} 3 (pipeline_toks (Pipeline e r)) (pipeline_cmd (Pipeline e r))"
  unfolding parses_def
proof (intro allI impI)
  fix i rest k
  let ?tail = "(case map_option pipeline_toks r of None \<Rightarrow> [] | Some ts \<Rightarrow> Sym 124 # ts) @ rest"
  assume l: "left_at s i (pipeline_toks (Pipeline e r) @ rest)" and rest: "rest = [] \<or> starts {41, 38, 59} rest"
    and k: "4 * length (pipeline_toks (Pipeline e r)) + 3 \<le> k"
  obtain k' where k': "k = Suc k'" using k by (cases k) auto
  have st: "?tail = [] \<or> starts {41, 38, 59, 124} ?tail" using rest by (cases r) (auto simp: starts_def split: list.splits)
  obtain c i1 where 1: "parseexec k' s i = Ok (c, i1)" "stands s c (simple_cmd e)" "left_at s i1 ?tail"
    using parsesD [OF assms(2) _ st, of i k'] l k k' by auto
  show "\<exists>c j. parsepipe k s i = Ok (c, j) \<and> stands s c (pipeline_cmd (Pipeline e r)) \<and> left_at s j rest"
  proof (cases r)
    case None
    then have "\<not> starts {124} ?tail" using rest stops [of rest "{41, 38, 59}" "{124}"] by simp
    then show ?thesis using peek_at [OF assms(1) 1(3), of "[124]"] None 1 k' by auto
  next
    case (Some p)
    then obtain i3 where 3: "peek s i1 [124] = (True, i3)" "left_at s i3 (Sym 124 # pipeline_toks p @ rest)"
      using peek_at [OF assms(1) 1(3), of "[124]"] by (auto simp: starts_def)
    obtain q e i4 where 4: "gettoken s i3 = (124, q, e, i4)" "left_at s i4 (pipeline_toks p @ rest)" using get_tok [OF assms(1) 3(2)] by auto
    have "\<exists>c j. parsepipe k' s i4 = Ok (c, j) \<and> stands s c (pipeline_cmd p) \<and> left_at s j rest"
      using parsesD [OF assms(3) [OF Some] 4(2) rest, of k'] Some k k' by auto
    then show ?thesis using 1 3 4 k' Some by (auto simp: stands_def)
  qed
qed

lemma block_parses:
  assumes "0 \<notin> set s" and "parses parseline s {41} 4 (line_toks l) (line_cmd l)"
  shows "parses parseexec s {41, 38, 59, 124} 2 (simple_toks (Block l rs)) (simple_cmd (Block l rs))"
  unfolding parses_def
proof (intro allI impI)
  fix i rest k
  assume l: "left_at s i (simple_toks (Block l rs) @ rest)" and rest: "rest = [] \<or> starts {41, 38, 59, 124} rest"
    and k: "4 * length (simple_toks (Block l rs)) + 2 \<le> k"
  obtain k' where k': "k = Suc (Suc k')" using k by (cases k; cases "k - 1") auto
  have l': "left_at s i (Sym 40 # line_toks l @ Sym 41 # redirs_toks rs @ rest)" using l by simp
  obtain i1 where 1: "peek s i [40] = (True, i1)" "left_at s i1 (Sym 40 # line_toks l @ Sym 41 # redirs_toks rs @ rest)"
    using peek_at [OF assms(1) l', of "[40]"] by (auto simp: starts_def)
  obtain i2 where 2: "peek s i1 [40] = (True, i2)" "left_at s i2 (Sym 40 # line_toks l @ Sym 41 # redirs_toks rs @ rest)"
    using peek_at [OF assms(1) 1(2), of "[40]"] by (auto simp: starts_def)
  obtain q e i3 where 3: "gettoken s i2 = (40, q, e, i3)" "left_at s i3 (line_toks l @ Sym 41 # redirs_toks rs @ rest)"
    using get_tok [OF assms(1) 2(2)] by auto
  obtain c i4 where 4: "parseline k' s i3 = Ok (c, i4)" "stands s c (line_cmd l)" "left_at s i4 (Sym 41 # redirs_toks rs @ rest)"
    using parsesD [OF assms(2) 3(2), of k'] k k' by (auto simp: starts_def)
  obtain i5 where 5: "peek s i4 [41] = (True, i5)" "left_at s i5 (Sym 41 # redirs_toks rs @ rest)"
    using peek_at [OF assms(1) 4(3), of "[41]"] by (auto simp: starts_def)
  obtain q' e' i6 where 6: "gettoken s i5 = (41, q', e', i6)" "left_at s i6 (redirs_toks rs @ rest)" using get_tok [OF assms(1) 5(2)] by auto
  have "\<not> starts {60, 62} rest" using rest by (rule stops) simp
  then obtain ps j where 7: "parseredirs k' s i6 = Ok (ps, j)" "redirs_stand s ps rs" "left_at s j rest"
    using parseredirs_toks [OF assms(1) 6(2), of k'] k k' by (auto simp: length_redirs_toks)
  show "\<exists>c j. parseexec k s i = Ok (c, j) \<and> stands s c (simple_cmd (Block l rs)) \<and> left_at s j rest"
    using 1 2 3 4 5 6 7 k' redirect_stands [OF 7(2) 4(2)] by auto
qed

lemma simple_parses:
  assumes "0 \<notin> set s" and "length as < MAXARGS"
  shows "parses parseexec s {41, 38, 59, 124} 2 (simple_toks (Simple rs as)) (simple_cmd (Simple rs as))"
  unfolding parses_def
proof (intro allI impI)
  fix i rest k
  assume l: "left_at s i (simple_toks (Simple rs as) @ rest)" and rest: "rest = [] \<or> starts {41, 38, 59, 124} rest"
    and k: "4 * length (simple_toks (Simple rs as)) + 2 \<le> k"
  obtain k' where k': "k = Suc k'" using k by (cases k) auto
  have l': "left_at s i (redirs_toks rs @ args_toks as @ rest)" using l by (simp add: args_toks_def)
  have n: "\<not> starts {60, 62} rest" "\<not> starts {40} rest" using rest by (rule stops; simp)+
  have "\<not> starts {40} (redirs_toks rs @ args_toks as @ rest)"
  proof (cases rs)
    case Nil
    then show ?thesis using n(2) by (cases as) (auto simp: redirs_toks_def args_toks_def starts_def)
  next
    case (Cons r rs')
    then show ?thesis by (cases r) (auto simp: redirs_toks_def starts_def)
  qed
  then obtain i1 where 1: "peek s i [40] = (False, i1)" "left_at s i1 (redirs_toks rs @ args_toks as @ rest)"
    using peek_at [OF assms(1) l', of "[40]"] by auto
  obtain ps i2 where 2: "parseredirs k' s i1 = Ok (ps, i2)" "redirs_stand s ps rs" "left_at s i2 (args_toks as @ rest)"
    using parseredirs_toks [OF assms(1) 1(2) not_starts_args [OF n(1)], of k'] k k' by (auto simp: length_redirs_toks)
  have "rest = [] \<or> starts {124, 41, 38, 59} rest" using rest by (auto simp: starts_def split: list.splits)
  then obtain ws ps' j where 3: "parseargs k' 0 s i2 = Ok (ws, ps', j)" "map (span_text s) ws = map fst as" "\<forall>w \<in> set ws. maximal s w"
      "redirs_stand s ps' (concat (map snd as))" "left_at s j rest"
    using parseargs_toks [OF assms(1) _ 2(3), of 0 k'] assms(2) k k' by (auto simp: args_toks_def)
  have "stands s (ExecCmd ws) (ExecCmd (map fst as))" using 3 by (simp add: stands_def)
  then show "\<exists>c j. parseexec k s i = Ok (c, j) \<and> stands s c (simple_cmd (Simple rs as)) \<and> left_at s j rest"
    using 1 2 3 k' redirect_stands [OF redirs_stand_append [OF 2(2) 3(4)]] by auto
qed

lemma grammar_parses:
  assumes "0 \<notin> set s"
  shows "line_ok l \<Longrightarrow> parses parseline s {41} 4 (line_toks l) (line_cmd l)"
    and "pipeline_ok p \<Longrightarrow> parses parsepipe s {41, 38, 59} 3 (pipeline_toks p) (pipeline_cmd p)"
    and "simple_ok e \<Longrightarrow> parses parseexec s {41, 38, 59, 124} 2 (simple_toks e) (simple_cmd e)"
proof (induction l and p and e)
  case (Line p n r)
  then show ?case by (intro line_parses assms) (auto split: option.splits)
next
  case (Pipeline e r)
  then show ?case by (intro pipeline_parses assms) (auto split: option.splits)
next
  case (Block l rs)
  then show ?case by (intro block_parses assms) auto
next
  case (Simple rs as)
  then show ?case by (intro simple_parses assms) auto
qed

section \<open>Nothing else is accepted\<close>

lemma tokens_sym: "Sym c \<in> set (tokens s) \<Longrightarrow> is_sym c"
proof (induction s rule: tokens.induct)
  case (1 s)
  show ?case
  proof (cases "dropWhile is_ws s")
    case Nil
    then show ?thesis using 1(4) tokens_nil [OF Nil] by simp
  next
    case (Cons d r)
    then show ?thesis using 1(1-3) [OF Cons] 1(4) by (auto simp: tokens_cons [OF Cons] split: if_splits)
  qed
qed

lemma code_word: "left_at s i (T # ts) \<Longrightarrow> (code T = 97 \<longleftrightarrow> (\<exists>w. T = W w)) \<and> code T \<noteq> 0"
proof (cases T)
  case (Sym c)
  assume "left_at s i (T # ts)"
  then have "is_sym c" using Sym by (intro tokens_sym [of _ "drop i s"]) (simp add: left_at_def)
  then show ?thesis using Sym by (auto simp: is_sym_def)
qed simp_all

lemma starts_Cons: "starts cs (T # ts) \<longleftrightarrow> (\<exists>c \<in> cs. lead T = Some c)"
  by (simp add: starts_def)

lemma lead_Sym: "lead T = Some c \<Longrightarrow> c \<noteq> 62 \<Longrightarrow> T = Sym c"
  by (cases T) auto

lemma parseredirs_sound:
  assumes "0 \<notin> set s"
  shows "left_at s i ts \<Longrightarrow> length ts < k \<Longrightarrow>
    (\<exists>m. parseredirs k s i = Panic m) \<or> (\<exists>ps j rs rest. parseredirs k s i = Ok (ps, j) \<and> ts = redirs_toks rs @ rest \<and> left_at s j rest)"
proof (induction k arbitrary: i ts)
  case (Suc k)
  obtain i1 where 1: "peek s i [60, 62] = (starts {60, 62} ts, i1)" "left_at s i1 ts"
    using peek_at [OF assms Suc.prems(1), of "[60, 62]"] by auto
  show ?case
  proof (cases "starts {60, 62} ts")
    case False
    then show ?thesis using 1 by (intro disjI2 exI [of _ "[] :: (span \<times> u32 \<times> int) list"] exI [of _ i1] exI [of _ "[] :: redir list"] exI [of _ ts]) (simp add: redirs_toks_def)
  next
    case True
    then obtain T ts1 where T: "ts = T # ts1" "lead T = Some 60 \<or> lead T = Some 62" by (auto simp: starts_def split: list.splits)
    obtain q e i2 where 2: "gettoken s i1 = (code T, q, e, i2)" "left_at s i2 ts1" using get_tok [OF assms] 1(2) T by blast
    show ?thesis
    proof (cases "\<exists>w ts2. ts1 = W w # ts2")
      case False
      have "\<exists>t q e j. gettoken s i2 = (t, q, e, j) \<and> t \<noteq> 97"
      proof (cases ts1)
        case Nil
        then show ?thesis using get_end [OF assms] 2(2) by force
      next
        case (Cons U ts2)
        then show ?thesis using get_tok [OF assms, of i2 U ts2] 2(2) code_word [of s i2 U ts2] \<open>\<nexists>w ts2. ts1 = W w # ts2\<close> by force
      qed
      then show ?thesis using 1 2 True by auto
    next
      case w: True
      then obtain w ts2 where w: "ts1 = W w # ts2" by blast
      then obtain q' e' i3 where 3: "gettoken s i2 = (97, q', e', i3)" "left_at s i3 ts2" using get_tok [OF assms] 2(2) by force
      obtain r where r: "redir_toks r = [T, W w]"
        using T(2) tokens_sym [of _ "drop i s"] by (cases T) (auto intro: that [of "In w"] that [of "Out w"] that [of "App w"])
      have "length ts2 < k" using Suc.prems(2) T w by simp
      from Suc.IH [OF 3(2) this] show ?thesis
      proof (elim disjE exE conjE)
        fix m assume "parseredirs k s i3 = Panic m"
        then show ?thesis using 1 2 3 True by simp
      next
        fix ps j rs rest assume "parseredirs k s i3 = Ok (ps, j)" "ts2 = redirs_toks rs @ rest" "left_at s j rest"
        moreover from this have "\<exists>ps'. parseredirs (Suc k) s i = Ok (ps', j)" using 1 2 3 True by simp
        moreover have "ts = redirs_toks (r # rs) @ rest" using calculation(2) T w r by (simp add: redirs_toks_def)
        ultimately show ?thesis by blast
      qed
    qed
  qed
qed simp

lemma parseback_sound:
  assumes "0 \<notin> set s"
  shows "left_at s i ts \<Longrightarrow> length ts < k \<Longrightarrow> \<exists>c' j n rest. parseback k s c i = Ok (c', j) \<and> ts = replicate n (Sym 38) @ rest \<and> left_at s j rest"
proof (induction k arbitrary: i ts c)
  case (Suc k)
  obtain i1 where 1: "peek s i [38] = (starts {38} ts, i1)" "left_at s i1 ts" using peek_at [OF assms Suc.prems(1), of "[38]"] by auto
  show ?case
  proof (cases "starts {38} ts")
    case False
    then show ?thesis using 1 by (auto intro!: exI [of _ 0])
  next
    case True
    then obtain ts1 where T: "ts = Sym 38 # ts1" by (auto simp: starts_def split: list.splits dest!: lead_Sym)
    obtain q e i2 where 2: "gettoken s i1 = (38, q, e, i2)" "left_at s i2 ts1" using get_tok [OF assms] 1(2) T by force
    obtain c' j n rest where "parseback k s (BackCmd c) i2 = Ok (c', j)" "ts1 = replicate n (Sym 38) @ rest" "left_at s j rest"
      using Suc.IH [OF 2(2), of "BackCmd c"] Suc.prems(2) T by auto
    then show ?thesis using 1 2 True T by (intro exI [of _ c'] exI [of _ j] exI [of _ "Suc n"] exI [of _ rest]) simp
  qed
qed simp

lemma parseargs_sound:
  assumes "0 \<notin> set s"
  shows "left_at s i ts \<Longrightarrow> length ts < k \<Longrightarrow> argc < MAXARGS \<Longrightarrow>
    (\<exists>m. parseargs k argc s i = Panic m) \<or>
    (\<exists>ws ps j as rest. parseargs k argc s i = Ok (ws, ps, j) \<and> ts = args_toks as @ rest \<and> argc + length as < MAXARGS \<and> left_at s j rest)"
proof (induction k arbitrary: i ts argc)
  case (Suc k)
  let ?stop = "starts {124, 41, 38, 59} ts"
  obtain i1 where 1: "peek s i [124, 41, 38, 59] = (?stop, i1)" "left_at s i1 ts"
    using peek_at [OF assms Suc.prems(1), of "[124, 41, 38, 59]"] by auto
  have none: "ts = args_toks [] @ ts" "argc + length [] < MAXARGS" using Suc.prems(3) by (simp_all add: args_toks_def)
  show ?case
  proof (cases "?stop \<or> ts = []")
    case True
    then have "\<exists>j. parseargs (Suc k) argc s i = Ok ([], [], j) \<and> left_at s j ts"
      using 1 get_end [OF assms, of i1] by (cases "ts = []") (auto simp: starts_def)
    then show ?thesis using none by blast
  next
    case False
    then obtain T ts1 where T: "ts = T # ts1" by (cases ts) auto
    obtain q e i2 where 2: "gettoken s i1 = (code T, q, e, i2)" "left_at s i2 ts1" using get_tok [OF assms] 1(2) T by blast
    note cw = code_word [OF 1(2) [unfolded T]]
    show ?thesis
    proof (cases "(\<exists>w. T = W w) \<and> argc + 1 < MAXARGS")
      case no: False
      then show ?thesis using 1 2 cw False by auto
    next
      case yes: True
      then obtain w where w: "T = W w" by blast
      have l: "length ts1 < k" using Suc.prems(2) T by simp
      from parseredirs_sound [OF assms 2(2) l] show ?thesis
      proof (elim disjE exE conjE)
        fix m assume "parseredirs k s i2 = Panic m"
        then show ?thesis using 1 2 False yes w by auto
      next
        fix ps i3 rs rest assume r: "parseredirs k s i2 = Ok (ps, i3)" "ts1 = redirs_toks rs @ rest" "left_at s i3 rest"
        have "length rest < k" using l r(2) by simp
        from Suc.IH [OF r(3) this, of "argc + 1"] yes
        consider m where "parseargs k (argc + 1) s i3 = Panic m"
          | ws ps' j as rest' where "parseargs k (argc + 1) s i3 = Ok (ws, ps', j)" "rest = args_toks as @ rest'"
              "argc + 1 + length as < MAXARGS" "left_at s j rest'" by auto
        then show ?thesis
        proof cases
          case (1 m)
          then show ?thesis using \<open>peek s i _ = _\<close> 2 False yes w r by auto
        next
          case (2 ws ps' j as rest')
          have "parseargs (Suc k) argc s i = Ok ((q, e) # ws, ps @ ps', j)"
            using 2(1) \<open>peek s i _ = _\<close> \<open>gettoken s i1 = _\<close> False yes w r(1) by simp
          moreover have "ts = args_toks ((w, rs) # as) @ rest'" using T w r(2) 2(2) by (simp add: args_toks_def)
          moreover have "argc + length ((w, rs) # as) < MAXARGS" using 2(3) by simp
          ultimately show ?thesis using 2(4) by blast
        qed
      qed
    qed
  qed
qed simp

definition sound :: "(nat \<Rightarrow> u8 list \<Rightarrow> nat \<Rightarrow> (span cmd \<times> nat) result) \<Rightarrow> u8 list \<Rightarrow> ('g \<Rightarrow> tok list) \<Rightarrow> ('g \<Rightarrow> bool) \<Rightarrow> nat \<Rightarrow> nat \<Rightarrow> bool" where
  "sound f s toks ok n k \<longleftrightarrow>
     (\<forall>i ts. left_at s i ts \<longrightarrow> 4 * length ts + n \<le> k \<longrightarrow>
        (\<exists>m. f k s i = Panic m) \<or> (\<exists>c j g rest. f k s i = Ok (c, j) \<and> ts = toks g @ rest \<and> ok g \<and> left_at s j rest))"

lemma soundE:
  assumes "sound f s toks ok n k" and "left_at s i ts" and "4 * length ts + n \<le> k"
  obtains m where "f k s i = Panic m" | c j g rest where "f k s i = Ok (c, j)" "ts = toks g @ rest" "ok g" "left_at s j rest"
  using assms unfolding sound_def by blast

lemma line_sound:
  assumes "0 \<notin> set s" and "sound parsepipe s pipeline_toks pipeline_ok 3 k" and "sound parseline s line_toks line_ok 4 k"
  shows "sound parseline s line_toks line_ok 4 (Suc k)"
  unfolding sound_def
proof (intro allI impI)
  fix i ts
  let ?P = "\<lambda>i ts k. (\<exists>m. parseline k s i = Panic m) \<or> (\<exists>c j l rest. parseline k s i = Ok (c, j) \<and> ts = line_toks l @ rest \<and> line_ok l \<and> left_at s j rest)"
  assume l: "left_at s i ts" and k: "4 * length ts + 4 \<le> Suc k"
  have "4 * length ts + 3 \<le> k" using k by simp
  from soundE [OF assms(2) l this] show "?P i ts (Suc k)"
  proof cases
    case (2 c i1 p rest)
    have "length rest < k" using k 2(2) by simp
    then obtain c' i2 n rest1 where b: "parseback k s c i1 = Ok (c', i2)" "rest = replicate n (Sym 38) @ rest1" "left_at s i2 rest1"
      using parseback_sound [OF assms(1) 2(4)] by blast
    obtain i3 where p: "peek s i2 [59] = (starts {59} rest1, i3)" "left_at s i3 rest1" using peek_at [OF assms(1) b(3), of "[59]"] by auto
    show ?thesis
    proof (cases "starts {59} rest1")
      case False
      then have "parseline (Suc k) s i = Ok (c', i3)" using 2 b p by simp
      moreover have "ts = line_toks (Line p n None) @ rest1" "line_ok (Line p n None)" using 2 b by simp_all
      ultimately show ?thesis using p(2) by blast
    next
      case True
      then obtain rest2 where r2: "rest1 = Sym 59 # rest2" by (auto simp: starts_def split: list.splits dest!: lead_Sym)
      obtain q e i4 where g: "gettoken s i3 = (59, q, e, i4)" "left_at s i4 rest2" using get_tok [OF assms(1)] p(2) r2 by force
      have "4 * length rest2 + 4 \<le> k" using k 2(2) b(2) r2 by simp
      from soundE [OF assms(3) g(2) this] show ?thesis
      proof cases
        case (1 m)
        then show ?thesis using 2 b p g True by simp
      next
        case h: (2 d j l' rest')
        then have "parseline (Suc k) s i = Ok (ListCmd c' d, j)" using 2 b p g True by simp
        moreover have "ts = line_toks (Line p n (Some l')) @ rest'" "line_ok (Line p n (Some l'))" using 2 b r2 h by simp_all
        ultimately show ?thesis using h(4) by blast
      qed
    qed
  qed simp
qed

lemma pipeline_sound:
  assumes "0 \<notin> set s" and "sound parseexec s simple_toks simple_ok 2 k" and "sound parsepipe s pipeline_toks pipeline_ok 3 k"
  shows "sound parsepipe s pipeline_toks pipeline_ok 3 (Suc k)"
  unfolding sound_def
proof (intro allI impI)
  fix i ts
  let ?P = "\<lambda>i ts k. (\<exists>m. parsepipe k s i = Panic m) \<or> (\<exists>c j l rest. parsepipe k s i = Ok (c, j) \<and> ts = pipeline_toks l @ rest \<and> pipeline_ok l \<and> left_at s j rest)"
  assume l: "left_at s i ts" and k: "4 * length ts + 3 \<le> Suc k"
  have "4 * length ts + 2 \<le> k" using k by simp
  from soundE [OF assms(2) l this] show "?P i ts (Suc k)"
  proof cases
    case (2 c i1 x rest)
    obtain i3 where p: "peek s i1 [124] = (starts {124} rest, i3)" "left_at s i3 rest" using peek_at [OF assms(1) 2(4), of "[124]"] by auto
    show ?thesis
    proof (cases "starts {124} rest")
      case False
      then have "parsepipe (Suc k) s i = Ok (c, i3)" using 2 p by simp
      moreover have "ts = pipeline_toks (Pipeline x None) @ rest" "pipeline_ok (Pipeline x None)" using 2 by simp_all
      ultimately show ?thesis using p(2) by blast
    next
      case True
      then obtain rest2 where r2: "rest = Sym 124 # rest2" by (auto simp: starts_def split: list.splits dest!: lead_Sym)
      obtain q e i4 where g: "gettoken s i3 = (124, q, e, i4)" "left_at s i4 rest2" using get_tok [OF assms(1)] p(2) r2 by force
      have "4 * length rest2 + 3 \<le> k" using k 2(2) r2 by simp
      from soundE [OF assms(3) g(2) this] show ?thesis
      proof cases
        case (1 m)
        then show ?thesis using 2 p g True by simp
      next
        case h: (2 d j l' rest')
        then have "parsepipe (Suc k) s i = Ok (PipeCmd c d, j)" using 2 p g True by simp
        moreover have "ts = pipeline_toks (Pipeline x (Some l')) @ rest'" "pipeline_ok (Pipeline x (Some l'))" using 2 r2 h by simp_all
        ultimately show ?thesis using h(4) by blast
      qed
    qed
  qed simp
qed

lemma block_sound:
  assumes "0 \<notin> set s" and "sound parseline s line_toks line_ok 4 k"
  shows "sound parseblock s simple_toks simple_ok 1 (Suc k)"
  unfolding sound_def
proof (intro allI impI)
  fix i ts
  let ?P = "\<lambda>i ts k. (\<exists>m. parseblock k s i = Panic m) \<or> (\<exists>c j l rest. parseblock k s i = Ok (c, j) \<and> ts = simple_toks l @ rest \<and> simple_ok l \<and> left_at s j rest)"
  assume l: "left_at s i ts" and k: "4 * length ts + 1 \<le> Suc k"
  obtain i1 where p: "peek s i [40] = (starts {40} ts, i1)" "left_at s i1 ts" using peek_at [OF assms(1) l, of "[40]"] by auto
  show "?P i ts (Suc k)"
  proof (cases "starts {40} ts")
    case True
    then obtain ts1 where T: "ts = Sym 40 # ts1" by (auto simp: starts_def split: list.splits dest!: lead_Sym)
    obtain q e i2 where g: "gettoken s i1 = (40, q, e, i2)" "left_at s i2 ts1" using get_tok [OF assms(1)] p(2) T by force
    have "4 * length ts1 + 4 \<le> k" using k T by simp
    from soundE [OF assms(2) g(2) this] show ?thesis
    proof cases
      case (1 m)
      then show ?thesis using p g True by simp
    next
      case (2 c i3 x rest)
      obtain i4 where p': "peek s i3 [41] = (starts {41} rest, i4)" "left_at s i4 rest" using peek_at [OF assms(1) 2(4), of "[41]"] by auto
      show ?thesis
      proof (cases "starts {41} rest")
        case T2: True
        then obtain rest2 where r2: "rest = Sym 41 # rest2" by (auto simp: starts_def split: list.splits dest!: lead_Sym)
        obtain q' e' i5 where g': "gettoken s i4 = (41, q', e', i5)" "left_at s i5 rest2" using get_tok [OF assms(1)] p'(2) r2 by force
        have "length rest2 < k" using k T 2(2) r2 by simp
        from parseredirs_sound [OF assms(1) g'(2) this] show ?thesis
        proof (elim disjE exE conjE)
          fix m assume "parseredirs k s i5 = Panic m"
          then show ?thesis using p g True 2 p' T2 g' by simp
        next
          fix ps j rs rest' assume r: "parseredirs k s i5 = Ok (ps, j)" "rest2 = redirs_toks rs @ rest'" "left_at s j rest'"
          then have "parseblock (Suc k) s i = Ok (redirect ps c, j)" using p g True 2 p' T2 g' by simp
          moreover have "ts = simple_toks (Block x rs) @ rest'" "simple_ok (Block x rs)" using T 2 r2 r by simp_all
          ultimately show ?thesis using r(3) by blast
        qed
      qed (use p g True 2 p' in simp)
    qed
  qed (use p in simp)
qed

lemma simple_sound:
  assumes "0 \<notin> set s" and "sound parseblock s simple_toks simple_ok 1 k"
  shows "sound parseexec s simple_toks simple_ok 2 (Suc k)"
  unfolding sound_def
proof (intro allI impI)
  fix i ts
  let ?P = "\<lambda>i ts k. (\<exists>m. parseexec k s i = Panic m) \<or> (\<exists>c j l rest. parseexec k s i = Ok (c, j) \<and> ts = simple_toks l @ rest \<and> simple_ok l \<and> left_at s j rest)"
  assume l: "left_at s i ts" and k: "4 * length ts + 2 \<le> Suc k"
  obtain i1 where p: "peek s i [40] = (starts {40} ts, i1)" "left_at s i1 ts" using peek_at [OF assms(1) l, of "[40]"] by auto
  show "?P i ts (Suc k)"
  proof (cases "starts {40} ts")
    case True
    have "4 * length ts + 1 \<le> k" using k by simp
    from soundE [OF assms(2) p(2) this] show ?thesis using p True by cases auto
  next
    case False
    have "length ts < k" using k by simp
    from parseredirs_sound [OF assms(1) p(2) this] show ?thesis
    proof (elim disjE exE conjE)
      fix m assume "parseredirs k s i1 = Panic m"
      then show ?thesis using p False by simp
    next
      fix ps i2 rs rest assume r: "parseredirs k s i1 = Ok (ps, i2)" "ts = redirs_toks rs @ rest" "left_at s i2 rest"
      have "length rest < k" "0 < MAXARGS" using k r(2) by (simp_all add: MAXARGS_def)
      from parseargs_sound [OF assms(1) r(3) this] show ?thesis
      proof (elim disjE exE conjE)
        fix m assume "parseargs k 0 s i2 = Panic m"
        then show ?thesis using p False r by simp
      next
        fix ws ps' j as rest' assume a: "parseargs k 0 s i2 = Ok (ws, ps', j)" "rest = args_toks as @ rest'" "0 + length as < MAXARGS" "left_at s j rest'"
        then have "parseexec (Suc k) s i = Ok (redirect (ps @ ps') (ExecCmd ws), j)" using p False r by simp
        moreover have "ts = simple_toks (Simple rs as) @ rest'" "simple_ok (Simple rs as)" using r a by (simp_all add: args_toks_def)
        ultimately show ?thesis using a(4) by blast
      qed
    qed
  qed
qed

lemma grammar_sound:
  assumes "0 \<notin> set s"
  shows "sound parseline s line_toks line_ok 4 k \<and> sound parsepipe s pipeline_toks pipeline_ok 3 k \<and>
    sound parseexec s simple_toks simple_ok 2 k \<and> sound parseblock s simple_toks simple_ok 1 k"
proof (induction k)
  case 0
  then show ?case by (simp add: sound_def)
next
  case (Suc k)
  then show ?case by (intro conjI line_sound pipeline_sound simple_sound block_sound assms) auto
qed

section \<open>The words in place\<close>

definition word_at :: "u8 list \<Rightarrow> span \<Rightarrow> u8 list" where
  "word_at buf w = takeWhile (\<lambda>x. x \<noteq> 0) (drop (fst w) buf)"

lemma fold_nul:
  "length (fold (\<lambda>(q, e) b. b[e := 0]) as b) = length b \<and>
   (i < length b \<longrightarrow> fold (\<lambda>(q :: nat, e) b. b[e := 0]) as b ! i = (if i \<in> snd ` set as then 0 else b ! i))"
proof (induction as arbitrary: b)
  case (Cons a as)
  obtain q e where "a = (q, e)" by (cases a)
  then show ?case using Cons [of "b[e := 0]"] by (simp add: nth_list_update)
qed simp

lemma nulterminate_nth:
  "length (nulterminate c b) = length b \<and> (i < length b \<longrightarrow> nulterminate c b ! i = (if i \<in> snd ` set_cmd c then 0 else b ! i))"
proof (induction c arbitrary: b)
  case (ExecCmd as)
  show ?case using fold_nul [of as b i] by simp
next
  case (RedirCmd c f m fd)
  show ?case using RedirCmd [of b] by (cases "snd f = i") auto
qed auto

lemma word_kept:
  assumes "\<forall>w \<in> set_cmd c. maximal s w" and "w \<in> set_cmd c" and "0 \<notin> set s"
  shows "word_at (nulterminate c (s @ [0])) w = span_text s w"
proof -
  let ?b = "nulterminate c (s @ [0])"
  obtain q e where w: "w = (q, e)" by (cases w)
  have m: "q < e" "e \<le> length s" "\<forall>i. q \<le> i \<and> i < e \<longrightarrow> is_word (s ! i)" using assms(1,2) w by (auto simp: maximal_def)
  have "i \<notin> snd ` set_cmd c" if "q \<le> i" "i < e" for i
  proof
    assume "i \<in> snd ` set_cmd c"
    then obtain q' where "maximal s (q', i)" using assms(1) by auto
    then show False using m that by (auto simp: maximal_def)
  qed
  then have "?b ! i = s ! i" if "q \<le> i" "i < e" for i using that m(2) by (simp add: nulterminate_nth nth_append)
  moreover have "?b ! e = 0" using assms(2) w m(2) by (force simp: nulterminate_nth)
  moreover have l: "length ?b = Suc (length s)" by (simp add: nulterminate_nth)
  ultimately have "take (e - q) (drop q ?b) = span_text s w" "drop e ?b = 0 # drop (Suc e) ?b"
    using m Cons_nth_drop_Suc [of e ?b] by (auto simp: span_text_def w intro!: nth_equalityI)
  moreover have "drop q ?b = take (e - q) (drop q ?b) @ drop e ?b" using m(1) append_take_drop_id [of "e - q" "drop q ?b"] by simp
  ultimately have d: "drop q ?b = span_text s w @ 0 # drop (Suc e) ?b" by simp
  have "0 \<notin> set (span_text s w)" using assms(3) w by (auto simp: span_text_def dest: in_set_takeD in_set_dropD)
  then show ?thesis by (simp add: word_at_def w d takeWhile_append) 
qed


lemma length_tokens: "length (tokens s) \<le> length s"
proof (induction s rule: tokens.induct)
  case (1 s)
  show ?case
  proof (cases "dropWhile is_ws s")
    case Nil
    then show ?thesis by (simp add: tokens_nil)
  next
    case (Cons c r)
    then have l: "length (c # r) \<le> length s" by (metis length_dropWhile_le)
    have d: "length (dropWhile is_word r) \<le> length r" "length (tl r) \<le> length r" by (simp_all add: length_dropWhile_le)
    show ?thesis using 1 [OF Cons] l d unfolding tokens_cons [OF Cons]
      by (cases "c = 62 \<and> ch r = 62"; cases "is_sym c"; simp; linarith)
  qed
qed

lemma parse_end:
  assumes "0 \<notin> set s" and "parseline k s 0 = Ok (c, j)" and "left_at s j rest"
  shows "parsecmd k s = (if rest = [] then Ok (c, nulterminate c (s @ [0])) else Panic ''syntax'')"
proof -
  obtain i where i: "peek s j [] = (False, i)" "left_at s i rest" "rest = [] \<longrightarrow> i = length s"
    using peek_at [OF assms(1,3), of "[]"] by (auto simp: starts_def split: list.splits)
  moreover have "i \<noteq> length s" if "rest \<noteq> []" using i(2) that tokens_nil [of "[]"] by (auto simp: left_at_def)
  ultimately show ?thesis using assms(2) by (auto simp: parsecmd_def)
qed

text \<open>
  C25: the shell's parser is the grammar. Given fuel for the length of the line, it builds for every line
  of the grammar the command the line stands for, whose words, now terminated in the buffer, are exactly
  the words of the line; every other line ends in a panic.
\<close>

theorem parsecmd_correct:
  assumes "0 \<notin> set s" and "4 * length s + 4 \<le> k"
  shows "(\<forall>l. line_ok l \<and> tokens s = line_toks l \<longrightarrow>
      (\<exists>c buf. parsecmd k s = Ok (c, buf) \<and> map_cmd (word_at buf) c = line_cmd l)) \<and>
    ((\<nexists>l. line_ok l \<and> tokens s = line_toks l) \<longrightarrow> (\<exists>m. parsecmd k s = Panic m))"
proof (intro conjI allI impI, elim conjE)
  fix l assume l: "line_ok l" "tokens s = line_toks l"
  then have "left_at s 0 (line_toks l @ [])" "4 * length (line_toks l) + 4 \<le> k"
    using length_tokens [of s] assms(2) by (simp_all add: left_at_def)
  then obtain c j where c: "parseline k s 0 = Ok (c, j)" "stands s c (line_cmd l)" "left_at s j []"
    using parsesD [OF grammar_parses(1) [OF assms(1) l(1)]] by blast
  have "map_cmd (word_at (nulterminate c (s @ [0]))) c = map_cmd (span_text s) c"
    using c(2) assms(1) by (intro cmd.map_cong refl word_kept) (auto simp: stands_def)
  then show "\<exists>c buf. parsecmd k s = Ok (c, buf) \<and> map_cmd (word_at buf) c = line_cmd l"
    using parse_end [OF assms(1) c(1,3)] c(2) by (simp add: stands_def)
next
  assume n: "\<nexists>l. line_ok l \<and> tokens s = line_toks l"
  have "left_at s 0 (tokens s)" "4 * length (tokens s) + 4 \<le> k" using length_tokens [of s] assms(2) by (simp_all add: left_at_def)
  moreover have "sound parseline s line_toks line_ok 4 k" using grammar_sound [OF assms(1)] by blast
  ultimately show "\<exists>m. parsecmd k s = Panic m"
  proof (elim soundE)
    fix m assume "parseline k s 0 = Panic m"
    then show ?thesis by (simp add: parsecmd_def)
  next
    fix c j g rest assume "parseline k s 0 = Ok (c, j)" "tokens s = line_toks g @ rest" "line_ok g" "left_at s j rest"
    then show ?thesis using parse_end [OF assms(1)] n by (cases "rest = []") auto
  qed
qed

text \<open>A list of a pipeline with a redirection and a background command: \<open>a b|c >f;d&\<close>.\<close>

theorem parsecmd_correct_witness:
  "\<exists>c buf. parsecmd 100 [97, 32, 98, 124, 99, 32, 62, 102, 59, 100, 38] = Ok (c, buf) \<and>
     map_cmd (word_at buf) c =
       ListCmd (PipeCmd (ExecCmd [[97], [98]]) (RedirCmd (ExecCmd [[99]]) [102] (O_WRONLY OR O_CREATE OR O_TRUNC) 1)) (BackCmd (ExecCmd [[100]]))"
proof -
  let ?l = "Line (Pipeline (Simple [] [([97], []), ([98], [])]) (Some (Pipeline (Simple [] [([99], [Out [102]])]) None))) 0
    (Some (Line (Pipeline (Simple [] [([100], [])]) None) 1 None))"
  have t: "tokens [97, 32, 98, 124, 99, 32, 62, 102, 59, 100, 38] = line_toks ?l"
    by (simp add: tokens.simps is_ws_def is_sym_def is_word_def redirs_toks_def)
  have ok: "line_ok ?l" by (simp add: MAXARGS_def)
  show ?thesis
    using parsecmd_correct [of "[97, 32, 98, 124, 99, 32, 62, 102, 59, 100, 38]" 100, THEN conjunct1, THEN spec, of ?l] t ok by simp
qed

end
