(* ===== verification/Virtio.thy ===== *)
theory Virtio
  imports Trap
begin

text \<open>
  The disk driver, \<^verbatim>\<open>kernel/virtio_disk.c\<close>. The structures it shares with the device are fields of
  the record \<open>vdisk\<close>, as in \<^verbatim>\<open>struct disk\<close>; the address in a descriptor names what it points to.
  The device's registers are read through a parameter \<open>mm\<close>: the value a register has after the
  register writes so far, which the state collects.
\<close>

section \<open>Data (virtio.h)\<close>

definition NUM :: nat where "NUM = 8"

definition VRING_DESC_F_NEXT :: u16 where "VRING_DESC_F_NEXT = 1"
definition VRING_DESC_F_WRITE :: u16 where "VRING_DESC_F_WRITE = 2"
definition VIRTIO_BLK_T_IN :: u32 where "VIRTIO_BLK_T_IN = 0"
definition VIRTIO_BLK_T_OUT :: u32 where "VIRTIO_BLK_T_OUT = 1"

text \<open>An address handed to the device: a command header, a buffer's data, or a status byte.\<close>

datatype daddr = NoAddr | OpAddr nat | DataAddr nat | StatusAddr nat

record virtq_desc =
  vq_addr :: daddr
  vq_len :: u32
  vq_flags :: u16
  vq_next :: u16

record virtio_blk_req =
  rq_type :: u32
  rq_reserved :: u32
  rq_sector :: u64

record inflight =
  if_b :: "nat option"
  if_status :: u8

text \<open>\<open>av_\<close> is the avail ring, \<open>us_\<close> the used ring, of which only the ids are read.\<close>

record vdisk =
  dk_desc :: "nat \<Rightarrow> virtq_desc"
  av_idx :: u16
  av_ring :: "nat \<Rightarrow> u16"
  us_idx :: u16
  us_ring :: "nat \<Rightarrow> u32"
  dk_free :: "nat \<Rightarrow> bool"
  dk_used_idx :: u16
  dk_info :: "nat \<Rightarrow> inflight"
  dk_ops :: "nat \<Rightarrow> virtio_blk_req"
  vdisk_lock :: spinlock

record vkern = xkern +
  vd :: vdisk
  v_out :: "(u32 \<times> u32) list"
  v_pages :: "u64 list"

type_synonym mmio = "(u32 \<times> u32) list \<Rightarrow> u32 \<Rightarrow> u32"

definition reg_write :: "u32 \<Rightarrow> u32 \<Rightarrow> 'a vkern_scheme \<Rightarrow> 'a vkern_scheme" where
  "reg_write r v s = s\<lparr>v_out := v_out s @ [(r, v)]\<rparr>"

definition reg_read :: "mmio \<Rightarrow> u32 \<Rightarrow> 'a vkern_scheme \<Rightarrow> u32" where
  "reg_read mm r s = mm (v_out s) r"

definition vlk_rd :: "'a vkern_scheme \<Rightarrow> spinlock" where
  "vlk_rd s = vdisk_lock (vd s)"

definition vlk_st :: "spinlock \<Rightarrow> 'a vkern_scheme \<Rightarrow> 'a vkern_scheme" where
  "vlk_st lk s = s\<lparr>vd := (vd s)\<lparr>vdisk_lock := lk\<rparr>\<rparr>"

section \<open>Initialisation\<close>

definition virtio_features :: "u32 \<Rightarrow> u32" where
  "virtio_features f =
     f AND NOT (push_bit 5 1) AND NOT (push_bit 7 1) AND NOT (push_bit 11 1) AND NOT (push_bit 12 1) AND NOT (push_bit 27 1)
       AND NOT (push_bit 29 1) AND NOT (push_bit 28 1)"

text \<open>The three pages of the queue, zeroed in memory and in the structures that stand for them.\<close>

definition virtio_queue :: "nat \<Rightarrow> 'a vkern_scheme \<Rightarrow> 'a vkern_scheme result" where
  "virtio_queue c s =
     rbind (kalloc c s) (\<lambda>(pd, s1).
     rbind (kalloc c s1) (\<lambda>(pa, s2).
     rbind (kalloc c s2) (\<lambda>(pu, s3).
       if pd = 0 \<or> pa = 0 \<or> pu = 0 then Panic ''virtio disk kalloc''
       else let z = (\<lambda>p m. memset p 0 (ucast PGSIZE) m);
                s4 = s3\<lparr>memory := z pu (z pa (z pd (memory s3)))\<rparr>;
                s5 = s4\<lparr>v_pages := [pd, pa, pu], vd := (vd s4)\<lparr>dk_desc := (\<lambda>_. \<lparr>vq_addr = NoAddr, vq_len = 0, vq_flags = 0, vq_next = 0\<rparr>),
                       av_idx := 0, av_ring := (\<lambda>_. 0), us_idx := 0, us_ring := (\<lambda>_. 0)\<rparr>\<rparr>;
                s6 = reg_write 0x038 (of_nat NUM) s5;
                s7 = reg_write 0x084 (ucast (drop_bit 32 pd)) (reg_write 0x080 (ucast pd) s6);
                s8 = reg_write 0x094 (ucast (drop_bit 32 pa)) (reg_write 0x090 (ucast pa) s7);
                s9 = reg_write 0x0a4 (ucast (drop_bit 32 pu)) (reg_write 0x0a0 (ucast pu) s8)
            in Ok (reg_write 0x044 1 s9))))"

definition virtio_disk_init :: "mmio \<Rightarrow> nat \<Rightarrow> 'a vkern_scheme \<Rightarrow> 'a vkern_scheme result" where
  "virtio_disk_init mm c s =
     (let s1 = vlk_st (initlock ''virtio_disk'') s in
      if reg_read mm 0x000 s1 \<noteq> 0x74726976 \<or> reg_read mm 0x004 s1 \<noteq> 2 \<or> reg_read mm 0x008 s1 \<noteq> 2 \<or> reg_read mm 0x00c s1 \<noteq> 0x554d4551
      then Panic ''could not find virtio disk''
      else
        let s2 = reg_write 0x070 3 (reg_write 0x070 1 (reg_write 0x070 0 s1));
            s3 = reg_write 0x070 11 (reg_write 0x020 (virtio_features (reg_read mm 0x010 s2)) s2);
            status = reg_read mm 0x070 s3
        in if status AND 8 = 0 then Panic ''virtio disk FEATURES_OK unset''
           else let s4 = reg_write 0x030 0 s3 in
                if reg_read mm 0x044 s4 \<noteq> 0 then Panic ''virtio disk should not be ready''
                else if reg_read mm 0x034 s4 = 0 then Panic ''virtio disk has no queue 0''
                else if reg_read mm 0x034 s4 < of_nat NUM then Panic ''virtio disk max queue too short''
                else rbind (virtio_queue c s4) (\<lambda>s5.
                     Ok (reg_write 0x070 (status OR 4) (s5\<lparr>vd := (vd s5)\<lparr>dk_free := (\<lambda>i. i < NUM)\<rparr>\<rparr>))))"

section \<open>Descriptors\<close>

definition alloc_desc :: "vdisk \<Rightarrow> nat option \<times> vdisk" where
  "alloc_desc d =
     (case find (dk_free d) [0..<NUM] of
        Some i \<Rightarrow> (Some i, d\<lparr>dk_free := (dk_free d)(i := False)\<rparr>)
      | None \<Rightarrow> (None, d))"

definition clear_desc :: "nat \<Rightarrow> vdisk \<Rightarrow> vdisk" where
  "clear_desc i d =
     d\<lparr>dk_desc := (dk_desc d)(i := \<lparr>vq_addr = NoAddr, vq_len = 0, vq_flags = 0, vq_next = 0\<rparr>), dk_free := (dk_free d)(i := True)\<rparr>"

definition free_desc :: "nat \<Rightarrow> nat \<Rightarrow> 'a vkern_scheme \<Rightarrow> 'a vkern_scheme result" where
  "free_desc c i s =
     (if i \<ge> NUM then Panic ''free_desc 1''
      else if dk_free (vd s) i then Panic ''free_desc 2''
      else wakeup c DiskFreeChan (s\<lparr>vd := clear_desc i (vd s)\<rparr>))"

text \<open>A descriptor freed twice panics, so a chain is at most \<open>NUM\<close> long; the fuel is one more.\<close>

primrec free_chain_loop :: "nat \<Rightarrow> nat \<Rightarrow> nat \<Rightarrow> 'a vkern_scheme \<Rightarrow> 'a vkern_scheme result" where
  "free_chain_loop 0 c i s = Hang"
| "free_chain_loop (Suc k) c i s =
     (let flag = vq_flags (dk_desc (vd s) i); nxt = vq_next (dk_desc (vd s) i)
      in rbind (free_desc c i s) (\<lambda>s1.
           if flag AND VRING_DESC_F_NEXT \<noteq> 0 then free_chain_loop k c (unat nxt) s1 else Ok s1))"

definition free_chain :: "nat \<Rightarrow> nat \<Rightarrow> 'a vkern_scheme \<Rightarrow> 'a vkern_scheme result" where
  "free_chain c i s = free_chain_loop (Suc NUM) c i s"

primrec alloc_descs :: "nat \<Rightarrow> nat list \<Rightarrow> nat \<Rightarrow> 'a vkern_scheme \<Rightarrow> (nat list option \<times> 'a vkern_scheme) result" where
  "alloc_descs 0 idx c s = Ok (Some idx, s)"
| "alloc_descs (Suc n) idx c s =
     (case alloc_desc (vd s) of
        (Some i, d) \<Rightarrow> alloc_descs n (idx @ [i]) c (s\<lparr>vd := d\<rparr>)
      | (None, d) \<Rightarrow> rbind (foldR (free_desc c) idx s) (\<lambda>s1. Ok (None, s1)))"

definition alloc3_desc :: "nat \<Rightarrow> 'a vkern_scheme \<Rightarrow> (nat list option \<times> 'a vkern_scheme) result" where
  "alloc3_desc c s = alloc_descs 3 [] c s"

section \<open>Requests\<close>

text \<open>Formatting the three descriptors \<open>i\<close>, \<open>j\<close>, \<open>k\<close> and telling the device.\<close>

definition format_req :: "nat \<Rightarrow> nat \<Rightarrow> nat \<Rightarrow> nat \<Rightarrow> bool \<Rightarrow> u64 \<Rightarrow> vdisk \<Rightarrow> vdisk" where
  "format_req i j k b wr sector d =
     d\<lparr>dk_ops := (dk_ops d)(i := \<lparr>rq_type = (if wr then VIRTIO_BLK_T_OUT else VIRTIO_BLK_T_IN), rq_reserved = 0, rq_sector = sector\<rparr>),
       dk_desc := (dk_desc d)
         (i := \<lparr>vq_addr = OpAddr i, vq_len = 16, vq_flags = VRING_DESC_F_NEXT, vq_next = of_nat j\<rparr>,
          j := \<lparr>vq_addr = DataAddr b, vq_len = of_nat BSIZE, vq_flags = (if wr then 0 else VRING_DESC_F_WRITE) OR VRING_DESC_F_NEXT,
                vq_next = of_nat k\<rparr>,
          k := \<lparr>vq_addr = StatusAddr i, vq_len = 1, vq_flags = VRING_DESC_F_WRITE, vq_next = 0\<rparr>),
       dk_info := (dk_info d)(i := \<lparr>if_b = Some b, if_status = 0xff\<rparr>),
       av_ring := (av_ring d)(unat (av_idx d) mod NUM := of_nat i),
       av_idx := av_idx d + 1\<rparr>"

definition vrw_sector :: "nat \<Rightarrow> 'a vkern_scheme \<Rightarrow> u64" where
  "vrw_sector b s = ucast (b_blockno (bufs s b) * of_nat (BSIZE div 512))"

definition vrw_submit :: "nat \<Rightarrow> nat \<Rightarrow> nat \<Rightarrow> nat \<Rightarrow> bool \<Rightarrow> u64 \<Rightarrow> 'a vkern_scheme \<Rightarrow> 'a vkern_scheme" where
  "vrw_submit i j k b wr sector s =
     reg_write 0x050 0 (upd_buf b (b_disk_update (\<lambda>_. True)) (s\<lparr>vd := format_req i j k b wr sector (vd s)\<rparr>))"

primrec vrw_alloc :: "nat \<Rightarrow> 'a vkern_scheme away \<Rightarrow> nat \<Rightarrow> 'a vkern_scheme \<Rightarrow> (nat list \<times> nat \<times> 'a vkern_scheme) result" where
  "vrw_alloc 0 sw c s = Hang"
| "vrw_alloc (Suc n) sw c s =
     rbind (alloc3_desc c s) (\<lambda>(r, s1).
       case r of
         Some idx \<Rightarrow> Ok (idx, c, s1)
       | None \<Rightarrow> rbind (sleep sw DiskFreeChan vlk_rd vlk_st c s1) (\<lambda>(c', s2). vrw_alloc n sw c' s2))"

primrec vrw_wait :: "nat \<Rightarrow> 'a vkern_scheme away \<Rightarrow> nat \<Rightarrow> nat \<Rightarrow> 'a vkern_scheme \<Rightarrow> (nat \<times> 'a vkern_scheme) result" where
  "vrw_wait 0 sw b c s = Hang"
| "vrw_wait (Suc n) sw b c s =
     (if b_disk (bufs s b) then rbind (sleep sw (DiskBufChan b) vlk_rd vlk_st c s) (\<lambda>(c', s1). vrw_wait n sw b c' s1)
      else Ok (c, s))"

definition vrw_finish :: "nat \<Rightarrow> nat \<Rightarrow> 'a vkern_scheme \<Rightarrow> 'a vkern_scheme result" where
  "vrw_finish c i s = free_chain c i (s\<lparr>vd := (vd s)\<lparr>dk_info := (dk_info (vd s))(i := (dk_info (vd s) i)\<lparr>if_b := None\<rparr>)\<rparr>\<rparr>)"

text \<open>The whole call; \<open>n\<close> bounds the rounds of its two loops.\<close>

definition virtio_disk_rw :: "nat \<Rightarrow> 'a vkern_scheme away \<Rightarrow> nat \<Rightarrow> nat \<Rightarrow> bool \<Rightarrow> 'a vkern_scheme \<Rightarrow> (nat \<times> 'a vkern_scheme) result" where
  "virtio_disk_rw n sw c b wr s =
     (let sector = vrw_sector b s in
     rbind (acquire_at vlk_rd vlk_st c s) (\<lambda>s1.
     rbind (vrw_alloc n sw c s1) (\<lambda>(idx, c1, s2).
     rbind (vrw_wait n sw b c1 (vrw_submit (idx ! 0) (idx ! 1) (idx ! 2) b wr sector s2)) (\<lambda>(c2, s3).
     rbind (vrw_finish c2 (idx ! 0) s3) (\<lambda>s4.
     rbind (release_at vlk_rd vlk_st c2 s4) (\<lambda>s5. Ok (c2, s5)))))))"

section \<open>Completion\<close>

definition intr_one :: "nat \<Rightarrow> 'a vkern_scheme \<Rightarrow> 'a vkern_scheme result" where
  "intr_one c s =
     (let i = unat (us_ring (vd s) (unat (dk_used_idx (vd s)) mod NUM)) in
      if if_status (dk_info (vd s) i) \<noteq> 0 then Panic ''virtio_disk_intr status''
      else case if_b (dk_info (vd s) i) of
             None \<Rightarrow> Panic ''kerneltrap''
           | Some b \<Rightarrow>
               rbind (wakeup c (DiskBufChan b) (upd_buf b (b_disk_update (\<lambda>_. False)) s)) (\<lambda>s1.
               Ok (s1\<lparr>vd := (vd s1)\<lparr>dk_used_idx := dk_used_idx (vd s1) + 1\<rparr>\<rparr>)))"

text \<open>The distance of the two indices is the number of rounds, and one more test ends the loop.\<close>

primrec intr_loop :: "nat \<Rightarrow> nat \<Rightarrow> 'a vkern_scheme \<Rightarrow> 'a vkern_scheme result" where
  "intr_loop 0 c s = Hang"
| "intr_loop (Suc n) c s =
     (if dk_used_idx (vd s) \<noteq> us_idx (vd s) then rbind (intr_one c s) (intr_loop n c) else Ok s)"

definition virtio_disk_intr :: "mmio \<Rightarrow> nat \<Rightarrow> 'a vkern_scheme \<Rightarrow> 'a vkern_scheme result" where
  "virtio_disk_intr mm c s =
     rbind (acquire_at vlk_rd vlk_st c s) (\<lambda>s1.
       let s2 = reg_write 0x064 (reg_read mm 0x060 s1 AND 3) s1
       in rbind (intr_loop (Suc (unat (us_idx (vd s2) - dk_used_idx (vd s2)))) c s2) (\<lambda>s3. release_at vlk_rd vlk_st c s3))"

text \<open>The parameters of the trap and boot code that stand for the driver.\<close>

definition with_disk :: "mmio \<Rightarrow> 'a vkern_scheme syms \<Rightarrow> 'a vkern_scheme syms" where
  "with_disk mm y = y\<lparr>disk_intr := virtio_disk_intr mm, disk_init := virtio_disk_init mm 0\<rparr>"

end
