(* ===== verification/Vqueue.thy ===== *)
theory Vqueue
  imports Virtio
begin

text \<open>
  The protocol of the disk driver of \<^verbatim>\<open>kernel/virtio_disk.c\<close> with its device: requests of several
  processes, the device's work on them in any order and the completion interrupts interleave; at every
  moment the descriptors are partitioned among the requests in flight and the free ones, the driver
  does not panic, and a request that looks finished to its process has been carried out.
\<close>

section \<open>Rings\<close>

text \<open>A ring of \<open>NUM\<close> entries holds a list between two free-running 16-bit indices.\<close>

definition ring_holds :: "(nat \<Rightarrow> nat) \<Rightarrow> u16 \<Rightarrow> u16 \<Rightarrow> nat list \<Rightarrow> bool" where
  "ring_holds ring a e xs \<longleftrightarrow> length xs = unat (e - a) \<and> (\<forall>n < length xs. ring ((unat a + n) mod NUM) = xs ! n)"

lemma index_mod: "unat (e :: u16) mod NUM = (unat a + unat (e - a)) mod NUM"
proof -
  have "unat e = unat (a + (e - a))" by simp
  also have "\<dots> = (unat a + unat (e - a)) mod 2 ^ LENGTH(16)" by (simp only: unat_word_ariths)
  finally show ?thesis by (simp add: NUM_def mod_mod_cancel)
qed

lemma slot_ne:
  assumes "n < k" and "k < (8 :: nat)"
  shows "(m + n) mod 8 \<noteq> (m + k) mod 8"
proof
  assume "(m + n) mod 8 = (m + k) mod 8"
  then have "8 dvd (m + k) - (m + n)" using assms(1) by (intro mod_eq_dvd_iff_nat [THEN iffD1]) auto
  then show False using assms by (auto dest: dvd_imp_le)
qed

lemma ring_push:
  assumes "ring_holds ring a e xs" and "length xs < NUM"
  shows "ring_holds (ring(unat e mod NUM := x)) a (e + 1) (xs @ [x])"
proof -
  have l: "length xs = unat (e - a)" and h: "\<forall>n < length xs. ring ((unat a + n) mod NUM) = xs ! n" using assms(1) by (simp_all add: ring_holds_def)
  have "unat ((e - a) + 1) = unat (e - a) + 1" using assms(2) l by (simp add: unat_word_ariths NUM_def)
  then have n: "unat (e + 1 - a) = Suc (length xs)" using l by (simp only: add_diff_eq diff_add_eq)
  have e: "unat e mod NUM = (unat a + length xs) mod NUM" using index_mod [of e a] l by simp
  have "(unat a + n) mod NUM \<noteq> (unat a + length xs) mod NUM" if "n < length xs" for n
    using slot_ne [OF that, of "unat a"] assms(2) by (simp add: NUM_def)
  then show ?thesis using h n by (auto simp: ring_holds_def e nth_append less_Suc_eq)
qed

lemma ring_pop:
  assumes "ring_holds ring a e xs" and "a \<noteq> e"
  shows "\<exists>x ys. xs = x # ys \<and> ring (unat a mod NUM) = x \<and> ring_holds ring (a + 1) e ys"
proof -
  have l: "length xs = unat (e - a)" and h: "\<forall>n < length xs. ring ((unat a + n) mod NUM) = xs ! n" using assms(1) by (simp_all add: ring_holds_def)
  have "e - a \<noteq> 0" using assms(2) by simp
  then have "unat (e - a) \<noteq> 0" "unat (e - a - 1) = unat (e - a) - 1" by (simp_all add: unat_eq_zero unat_minus_one)
  moreover have "e - (a + 1) = e - a - 1" by simp
  ultimately obtain x ys where x: "xs = x # ys" "length ys = unat (e - (a + 1))" using l by (cases xs) auto
  have "unat (a + 1) mod NUM = (unat a + 1) mod NUM" using index_mod [of "a + 1" a] by simp
  then have "(unat (a + 1) + n) mod NUM = (unat a + Suc n) mod NUM" for n by (metis add.assoc mod_add_left_eq plus_1_eq_Suc)
  then have "ring_holds ring (a + 1) e ys" using h x by (auto simp: ring_holds_def)
  then show ?thesis using x h by (intro exI [of _ x] exI [of _ ys]) auto
qed

lemma ring_empty: "ring_holds ring a e xs \<Longrightarrow> xs = [] \<longleftrightarrow> a = e"
  by (auto simp: ring_holds_def unat_eq_zero)

section \<open>Effects of the operations\<close>

interpretation vc: kcell vd "\<lambda>d. vd_update (\<lambda>_. d)"
  by unfold_locales simp_all

interpretation vb: kcell bufs "\<lambda>b. bufs_update (\<lambda>_. b)"
  by unfold_locales simp_all

interpretation vl: spin_cell vlk_rd vlk_st
  by unfold_locales (simp_all add: vlk_rd_def vlk_st_def)

text \<open>A move of the driver: its structures and the buffers change as given, of the rest only sleepers that are woken.\<close>

definition vmove :: "nat \<Rightarrow> 'a vkern_scheme \<Rightarrow> 'a vkern_scheme \<Rightarrow> vdisk \<Rightarrow> (nat \<Rightarrow> buf) \<Rightarrow> bool" where
  "vmove c s s' d bs \<longleftrightarrow> kframe s s' \<and> quiet c s' \<and> vd s' = d \<and> bufs s' = bs \<and> disk s' = disk s"

lemma vmoveD: "vmove c s s' d bs \<Longrightarrow> quiet c s'" "vmove c s s' d bs \<Longrightarrow> vd s' = d" "vmove c s s' d bs \<Longrightarrow> bufs s' = bs"
  "vmove c s s' d bs \<Longrightarrow> disk s' = disk s"
  by (simp_all add: vmove_def)

lemma vmove_trans: "vmove c s s1 d1 b1 \<Longrightarrow> vmove c s1 s2 d2 b2 \<Longrightarrow> vmove c s s2 d2 b2"
  by (auto simp: vmove_def intro: kframe_trans)

lemma kframe_vd: "kframe s (s\<lparr>vd := d\<rparr>)" "kframe s (s\<lparr>bufs := b\<rparr>)"
  by (simp_all add: kframe_def krest_def woken_def)

lemma disk_vd: "disk (s\<lparr>vd := d\<rparr>) = disk s" "disk (s\<lparr>bufs := b\<rparr>) = disk s"
  by (simp_all add: disk_def)

lemma vmove_vd: "quiet c s \<Longrightarrow> vmove c s (s\<lparr>vd := d\<rparr>) d (bufs s)"
  by (simp add: vmove_def kframe_vd disk_vd)

lemma vmove_bufs: "quiet c s \<Longrightarrow> vmove c s (s\<lparr>bufs := b\<rparr>) (vd s) b"
  by (simp add: vmove_def kframe_vd disk_vd)

lemma wakeup_moves:
  fixes s :: "'a vkern_scheme"
  assumes "quiet c s"
  shows "\<exists>s'. wakeup c x s = Ok s' \<and> vmove c s s' (vd s) (bufs s)"
proof -
  let ?s = "settle c (wake_all (cpu_proc (cpus s c)) x s)"
  have "quiet c (wake_all (cpu_proc (cpus s c)) x s)" using assms unfolding wake_all_def by (intro quiet_procs) simp_all
  then have "vmove c s ?s (vd s) (bufs s)" using kframe_wake [OF kframe_refl] by (simp add: vmove_def)
  then show ?thesis using wakeup_effect [OF assms] by blast
qed

lemma free_desc_moves:
  fixes s :: "'a vkern_scheme"
  assumes "quiet c s" and "i < NUM" and "\<not> dk_free (vd s) i"
  shows "\<exists>s'. free_desc c i s = Ok s' \<and> vmove c s s' (clear_desc i (vd s)) (bufs s)"
proof -
  note m = vmove_vd [OF assms(1), of "clear_desc i (vd s)"]
  show ?thesis using wakeup_moves [OF vmoveD(1) [OF m], of DiskFreeChan] vmove_trans [OF m] assms(2,3) by (auto simp: free_desc_def)
qed

lemma free_descs_move:
  fixes s :: "'a vkern_scheme"
  shows "quiet c s \<Longrightarrow> distinct is \<Longrightarrow> \<forall>i \<in> set is. i < NUM \<and> \<not> dk_free (vd s) i \<Longrightarrow>
    \<exists>s'. foldR (free_desc c) is s = Ok s' \<and> vmove c s s' (fold clear_desc is (vd s)) (bufs s)"
proof (induction "is" arbitrary: s)
  case Nil
  then show ?case by (simp add: vmove_def)
next
  case (Cons i ls)
  obtain s1 where s1: "free_desc c i s = Ok s1" "vmove c s s1 (clear_desc i (vd s)) (bufs s)"
    using free_desc_moves [OF Cons.prems(1), of i] Cons.prems(3) by auto
  have "\<forall>j \<in> set ls. j < NUM \<and> \<not> dk_free (vd s1) j" using Cons.prems(2,3) vmoveD(2) [OF s1(2)] by (auto simp: clear_desc_def)
  then obtain s2 where "foldR (free_desc c) ls s1 = Ok s2" "vmove c s1 s2 (fold clear_desc ls (vd s1)) (bufs s1)"
    using Cons.IH [OF vmoveD(1) [OF s1(2)]] Cons.prems(2) by auto
  then show ?case using s1 vmove_trans [OF s1(2)] vmoveD(2,3) [OF s1(2)] by auto
qed

abbreviation no_desc :: virtq_desc where
  "no_desc \<equiv> \<lparr>vq_addr = NoAddr, vq_len = 0, vq_flags = 0, vq_next = 0\<rparr>"

lemma fold_clear_desc:
  "fold clear_desc is d = d\<lparr>dk_desc := (\<lambda>i. if i \<in> set is then no_desc else dk_desc d i), dk_free := (\<lambda>i. dk_free d i \<or> i \<in> set is)\<rparr>"
proof (induction "is" arbitrary: d)
  case (Cons i ls)
  show ?case unfolding fold_simps Cons by (auto simp: clear_desc_def fun_eq_iff intro!: vdisk.equality)
qed simp

text \<open>The descriptors \<open>l\<close> taken from \<open>d\<close>.\<close>

definition took :: "nat list \<Rightarrow> vdisk \<Rightarrow> vdisk" where
  "took l d = d\<lparr>dk_free := (\<lambda>i. dk_free d i \<and> i \<notin> set l)\<rparr>"

definition takable :: "nat list \<Rightarrow> vdisk \<Rightarrow> bool" where
  "takable l d \<longleftrightarrow> distinct l \<and> (\<forall>i \<in> set l. i < NUM \<and> dk_free d i)"

lemma alloc_desc_took:
  assumes "takable l d"
  shows "alloc_desc (took l d) = (None, took l d) \<or> (\<exists>i. alloc_desc (took l d) = (Some i, took (l @ [i]) d) \<and> takable (l @ [i]) d)"
proof (cases "find (dk_free (took l d)) [0..<NUM]")
  case None
  then show ?thesis by (simp add: alloc_desc_def)
next
  case (Some i)
  then have "i < NUM" "dk_free (took l d) i" by (auto simp: find_Some_iff)
  moreover have "(took l d)\<lparr>dk_free := (dk_free (took l d))(i := False)\<rparr> = took (l @ [i]) d"
    by (auto simp: took_def fun_eq_iff intro!: vdisk.equality)
  ultimately show ?thesis using Some assms by (simp add: alloc_desc_def takable_def took_def)
qed

lemma alloc_descs_moves:
  fixes s :: "'a vkern_scheme"
  shows "quiet c s \<Longrightarrow> vd s = took l d \<Longrightarrow> takable l d \<Longrightarrow>
    (\<exists>l' s'. alloc_descs n l c s = Ok (Some l', s') \<and> length l' = length l + n \<and> takable l' d \<and> vmove c s s' (took l' d) (bufs s)) \<or>
    (\<exists>s' D. alloc_descs n l c s = Ok (None, s') \<and> (\<forall>i. \<not> dk_free d i \<longrightarrow> D i = dk_desc d i) \<and> vmove c s s' (d\<lparr>dk_desc := D\<rparr>) (bufs s))"
proof (induction n arbitrary: l s)
  case 0
  then show ?case by (simp add: vmove_def)
next
  case (Suc n)
  from alloc_desc_took [OF Suc.prems(3)] show ?case
  proof (elim disjE exE conjE)
    assume none: "alloc_desc (took l d) = (None, took l d)"
    have "distinct l" "\<forall>i \<in> set l. i < NUM \<and> \<not> dk_free (vd s) i" using Suc.prems(2,3) by (auto simp: takable_def took_def)
    then obtain s' where s': "foldR (free_desc c) l s = Ok s'" "vmove c s s' (fold clear_desc l (vd s)) (bufs s)"
      using free_descs_move [OF Suc.prems(1)] by blast
    have "fold clear_desc l (vd s) = d\<lparr>dk_desc := (\<lambda>i. if i \<in> set l then no_desc else dk_desc d i)\<rparr>"
      using Suc.prems(2,3) by (auto simp: fold_clear_desc took_def takable_def fun_eq_iff intro!: vdisk.equality)
    then have "vmove c s s' (d\<lparr>dk_desc := (\<lambda>i. if i \<in> set l then no_desc else dk_desc d i)\<rparr>) (bufs s)" using s'(2) by simp
    moreover have "alloc_descs (Suc n) l c s = Ok (None, s')" using none s'(1) Suc.prems(2) by simp
    moreover have "\<forall>i. \<not> dk_free d i \<longrightarrow> (if i \<in> set l then no_desc else dk_desc d i) = dk_desc d i" using Suc.prems(3) by (auto simp: takable_def)
    ultimately show ?thesis by (intro disjI2 exI [of _ s'] exI [of _ "\<lambda>i. if i \<in> set l then no_desc else dk_desc d i"] conjI)
  next
    fix i assume i: "alloc_desc (took l d) = (Some i, took (l @ [i]) d)" "takable (l @ [i]) d"
    note m = vmove_vd [OF Suc.prems(1), of "took (l @ [i]) d"]
    have e: "alloc_descs (Suc n) l c s = alloc_descs n (l @ [i]) c (s\<lparr>vd := took (l @ [i]) d\<rparr>)" using i(1) Suc.prems(2) by simp
    from Suc.IH [OF vmoveD(1,2) [OF m] i(2)]
    show ?thesis
    proof (elim disjE exE conjE)
      fix l' s' assume "alloc_descs n (l @ [i]) c (s\<lparr>vd := took (l @ [i]) d\<rparr>) = Ok (Some l', s')" "length l' = length (l @ [i]) + n" "takable l' d"
        "vmove c (s\<lparr>vd := took (l @ [i]) d\<rparr>) s' (took l' d) (bufs (s\<lparr>vd := took (l @ [i]) d\<rparr>))"
      then show ?thesis unfolding e using vmove_trans [OF m] by (intro disjI1 exI [of _ l'] exI [of _ s']) simp
    next
      fix s' D assume "alloc_descs n (l @ [i]) c (s\<lparr>vd := took (l @ [i]) d\<rparr>) = Ok (None, s')" "\<forall>i. \<not> dk_free d i \<longrightarrow> D i = dk_desc d i"
        "vmove c (s\<lparr>vd := took (l @ [i]) d\<rparr>) s' (d\<lparr>dk_desc := D\<rparr>) (bufs (s\<lparr>vd := took (l @ [i]) d\<rparr>))"
      then show ?thesis unfolding e using vmove_trans [OF m] by (intro disjI2 exI [of _ s'] exI [of _ D]) simp
    qed
  qed
qed

lemma alloc3_moves:
  fixes s :: "'a vkern_scheme"
  assumes "quiet c s"
  shows "(\<exists>i j k s'. alloc3_desc c s = Ok (Some [i, j, k], s') \<and> takable [i, j, k] (vd s) \<and> vmove c s s' (took [i, j, k] (vd s)) (bufs s)) \<or>
    (\<exists>s' D. alloc3_desc c s = Ok (None, s') \<and> (\<forall>i. \<not> dk_free (vd s) i \<longrightarrow> D i = dk_desc (vd s) i) \<and> vmove c s s' ((vd s)\<lparr>dk_desc := D\<rparr>) (bufs s))"
proof -
  have t: "vd s = took [] (vd s)" "takable [] (vd s)" by (simp_all add: took_def takable_def)
  from alloc_descs_moves [OF assms t, of 3] show ?thesis
  proof (elim disjE exE conjE)
    fix l' s' assume a: "alloc_descs 3 [] c s = Ok (Some l', s')" "length l' = length [] + 3" "takable l' (vd s)" "vmove c s s' (took l' (vd s)) (bufs s)"
    then obtain i j k where "l' = [i, j, k]" by (auto simp: numeral_3_eq_3 length_Suc_conv)
    then show ?thesis using a by (auto simp: alloc3_desc_def)
  qed (auto simp: alloc3_desc_def)
qed

lemma free_chain_moves:
  fixes s :: "'a vkern_scheme"
  assumes "quiet c s" and "distinct [i, j, k]" and "i < NUM" "j < NUM" "k < NUM"
    and "\<not> dk_free (vd s) i" "\<not> dk_free (vd s) j" "\<not> dk_free (vd s) k"
    and "vq_flags (dk_desc (vd s) i) AND VRING_DESC_F_NEXT \<noteq> 0" "vq_next (dk_desc (vd s) i) = of_nat j"
    and "vq_flags (dk_desc (vd s) j) AND VRING_DESC_F_NEXT \<noteq> 0" "vq_next (dk_desc (vd s) j) = of_nat k"
    and "vq_flags (dk_desc (vd s) k) AND VRING_DESC_F_NEXT = 0"
  shows "\<exists>s'. free_chain c i s = Ok s' \<and> vmove c s s' (fold clear_desc [i, j, k] (vd s)) (bufs s)"
proof -
  obtain s1 where s1: "free_desc c i s = Ok s1" "vmove c s s1 (clear_desc i (vd s)) (bufs s)"
    using free_desc_moves [OF assms(1,3,6)] by blast
  note d1 = vmoveD [OF s1(2)]
  have "\<not> dk_free (vd s1) j" using assms(2,7) d1(2) by (simp add: clear_desc_def)
  then obtain s2 where s2: "free_desc c j s1 = Ok s2" "vmove c s1 s2 (clear_desc j (vd s1)) (bufs s1)"
    using free_desc_moves [OF d1(1) assms(4)] by blast
  note d2 = vmoveD [OF s2(2)]
  have "\<not> dk_free (vd s2) k" using assms(2,8) d1(2) d2(2) by (simp add: clear_desc_def)
  then obtain s3 where s3: "free_desc c k s2 = Ok s3" "vmove c s2 s3 (clear_desc k (vd s2)) (bufs s2)"
    using free_desc_moves [OF d2(1) assms(5)] by blast
  have u: "unat (of_nat j :: u16) = j" "unat (of_nat k :: u16) = k" using assms(4,5) by (simp_all add: NUM_def unat_of_nat)
  have ch: "dk_desc (vd s1) j = dk_desc (vd s) j" "dk_desc (vd s2) k = dk_desc (vd s) k"
    using assms(2) d1(2) d2(2) by (simp_all add: clear_desc_def)
  have "free_chain c i s = Ok s3"
    using s1 s2 s3 ch u assms(9-13) by (simp add: free_chain_def NUM_def numeral_eq_Suc Let_def)
  moreover have "vmove c s s3 (fold clear_desc [i, j, k] (vd s)) (bufs s)"
    using vmove_trans [OF vmove_trans [OF s1(2) s2(2)] s3(2)] d1 d2 by simp
  ultimately show ?thesis by blast
qed

section \<open>The interrupt\<close>

lemma kframe_quiet: "kframe s s' \<Longrightarrow> quiet c s' = quiet c s"
  using kframe_proc [of s s'] by (simp add: quiet_def hart_ok_def intr_get_def kframe_def krest_def)

definition seen :: "nat set \<Rightarrow> (nat \<Rightarrow> buf) \<Rightarrow> nat \<Rightarrow> buf" where
  "seen B bs = (\<lambda>b. if b \<in> B then (bs b)\<lparr>b_disk := False\<rparr> else bs b)"

lemma seen_insert: "seen B ((seen {b} bs)) = seen (insert b B) bs"
  by (auto simp: seen_def fun_eq_iff)

lemma intr_one_moves:
  fixes s :: "'a vkern_scheme"
  assumes "quiet c s" and "unat (us_ring (vd s) (unat (dk_used_idx (vd s)) mod NUM)) = h"
    and "if_status (dk_info (vd s) h) = 0" and "if_b (dk_info (vd s) h) = Some b"
  shows "\<exists>s'. intr_one c s = Ok s' \<and> vmove c s s' ((vd s)\<lparr>dk_used_idx := dk_used_idx (vd s) + 1\<rparr>) (seen {b} (bufs s))"
proof -
  have u: "upd_buf b (b_disk_update (\<lambda>_. False)) s = s\<lparr>bufs := seen {b} (bufs s)\<rparr>" by (simp add: upd_buf_def seen_def fun_upd_def cong: if_cong)
  note m = vmove_bufs [OF assms(1), of "seen {b} (bufs s)"]
  obtain s1 where s1: "wakeup c (DiskBufChan b) (s\<lparr>bufs := seen {b} (bufs s)\<rparr>) = Ok s1" "vmove c s s1 (vd s) (seen {b} (bufs s))"
    using wakeup_moves [OF vmoveD(1) [OF m], of "DiskBufChan b"] vmove_trans [OF m] by auto
  note d = vmoveD [OF s1(2)]
  have "vmove c s (s1\<lparr>vd := (vd s)\<lparr>dk_used_idx := dk_used_idx (vd s) + 1\<rparr>\<rparr>) ((vd s)\<lparr>dk_used_idx := dk_used_idx (vd s) + 1\<rparr>) (seen {b} (bufs s))"
    using vmove_trans [OF s1(2) vmove_vd [OF d(1)]] d(3) by metis
  then show ?thesis using assms(2-4) s1(1) u d(2) by (simp add: intr_one_def Let_def)
qed

lemma intr_loop_moves:
  fixes s :: "'a vkern_scheme"
  shows "quiet c s \<Longrightarrow> ring_holds (\<lambda>i. unat (us_ring (vd s) i)) (dk_used_idx (vd s)) (us_idx (vd s)) U \<Longrightarrow>
    \<forall>h \<in> set U. if_status (dk_info (vd s) h) = 0 \<and> if_b (dk_info (vd s) h) = Some (bf h) \<Longrightarrow>
    \<exists>s'. intr_loop (Suc (length U)) c s = Ok s' \<and> vmove c s s' ((vd s)\<lparr>dk_used_idx := us_idx (vd s)\<rparr>) (seen (bf ` set U) (bufs s))"
proof (induction U arbitrary: s)
  case Nil
  then have "dk_used_idx (vd s) = us_idx (vd s)" using ring_empty by blast
  then show ?case using Nil.prems(1) by (simp add: vmove_def seen_def flip: vdisk.surjective)
next
  case (Cons h U)
  let ?d = "(vd s)\<lparr>dk_used_idx := dk_used_idx (vd s) + 1\<rparr>"
  have ne: "dk_used_idx (vd s) \<noteq> us_idx (vd s)" using ring_empty [OF Cons.prems(2)] by simp
  have r: "unat (us_ring (vd s) (unat (dk_used_idx (vd s)) mod NUM)) = h" "ring_holds (\<lambda>i. unat (us_ring (vd s) i)) (dk_used_idx (vd s) + 1) (us_idx (vd s)) U"
    using ring_pop [OF Cons.prems(2) ne] by auto
  obtain s1 where s1: "intr_one c s = Ok s1" "vmove c s s1 ?d (seen {bf h} (bufs s))"
    using intr_one_moves [OF Cons.prems(1) r(1)] Cons.prems(3) by auto
  note d = vmoveD [OF s1(2)]
  obtain s' where s': "intr_loop (Suc (length U)) c s1 = Ok s'" "vmove c s1 s' ((vd s1)\<lparr>dk_used_idx := us_idx (vd s1)\<rparr>) (seen (bf ` set U) (bufs s1))"
    using Cons.IH [OF d(1)] r(2) Cons.prems(3) d(2) by (auto simp del: intr_loop.simps)
  have "vmove c s s' ((vd s)\<lparr>dk_used_idx := us_idx (vd s)\<rparr>) (seen (bf ` set (h # U)) (bufs s))"
    using vmove_trans [OF s1(2) s'(2)] d by (simp add: seen_insert)
  then show ?case using ne s1(1) s'(1) by (simp add: intr_loop.simps(2) [of "Suc (length U)"] del: intr_loop.simps)
qed

lemma disk_intr_moves:
  fixes s :: "'a vkern_scheme"
  assumes "quiet c s" and "lock_clean (vdisk_lock (vd s))"
    and "ring_holds (\<lambda>i. unat (us_ring (vd s) i)) (dk_used_idx (vd s)) (us_idx (vd s)) U"
    and "\<forall>h \<in> set U. if_status (dk_info (vd s) h) = 0 \<and> if_b (dk_info (vd s) h) = Some (bf h)"
  shows "\<exists>s'. virtio_disk_intr mm c s = Ok s' \<and> vmove c s s' ((vd s)\<lparr>dk_used_idx := us_idx (vd s)\<rparr>) (seen (bf ` set U) (bufs s))"
proof -
  let ?l = "vdisk_lock (vd s)" and ?p = "push_off c s"
  let ?s1 = "vlk_st (taken c ?l) ?p"
  let ?s2 = "reg_write 0x064 (reg_read mm 0x060 ?s1 AND 3) ?s1"
  have a: "acquire_at vlk_rd vlk_st c s = Ok ?s1" using vl.acquire_cell [of s c] assms(2) by (simp add: vlk_rd_def)
  have f: "vd ?s2 = (vd s)\<lparr>vdisk_lock := taken c ?l\<rparr>" "bufs ?s2 = bufs s" "disk ?s2 = disk s" by (simp_all add: reg_write_def vlk_st_def disk_def)
  have k2: "kframe ?p ?s2" by (simp add: kframe_def krest_def woken_def reg_write_def vlk_st_def)
  have q: "quiet c ?s2" using kframe_quiet [OF k2] assms(1) by simp
  have n: "length U = unat (us_idx (vd s) - dk_used_idx (vd s))" using assms(3) by (simp add: ring_holds_def)
  obtain u where u: "intr_loop (Suc (length U)) c ?s2 = Ok u" "vmove c ?s2 u ((vd ?s2)\<lparr>dk_used_idx := us_idx (vd ?s2)\<rparr>) (seen (bf ` set U) (bufs ?s2))"
    using intr_loop_moves [OF q, of U bf] assms(3,4) f by auto
  have "kframe ?p u" using kframe_trans [OF k2] u(2) by (simp add: vmove_def)
  then obtain t where t: "pop_off c u = Ok t" "kframe s t" "hw.more t = hw.more u" using pop_kframe [of c s] assms(1) by (auto simp: quiet_def)
  have r: "release_at vlk_rd vlk_st c u = Ok (vlk_st ?l t)"
    by (rule vl.release_after [OF _ assms(2) t(1)]) (simp add: vlk_rd_def vmoveD(2) [OF u(2)] f)
  have v: "vd t = vd u" "bufs t = bufs u" "disk t = disk u" using t(3) by (cases t; cases u; simp add: disk_def)+
  have k: "kframe s (vlk_st ?l t)" using t(2) by (simp add: vlk_st_def kframe_def krest_def)
  then have q': "quiet c (vlk_st ?l t)" using kframe_quiet assms(1) by blast
  have "vmove c s (vlk_st ?l t) ((vd s)\<lparr>dk_used_idx := us_idx (vd s)\<rparr>) (seen (bf ` set U) (bufs s))"
    using k q' vmoveD(2-4) [OF u(2)] v f by (auto simp: vmove_def vlk_st_def disk_def)
  moreover have "virtio_disk_intr mm c s = Ok (vlk_st ?l t)" using a u(1) r f n by (simp add: virtio_disk_intr_def Let_def del: intr_loop.simps)
  ultimately show ?thesis by blast
qed

section \<open>The device\<close>

text \<open>
  What the driver relies on of a virtio block device: for a chain of three descriptors, a command header,
  the data of one block and a byte for the status, it moves the block that starts at the sector of the
  command in the direction the command gives, sets the status to zero, and adds the head of the chain to
  the used ring.
\<close>

definition served :: "nat \<Rightarrow> nat \<Rightarrow> nat \<Rightarrow> bool \<Rightarrow> u32 \<Rightarrow> 'a vkern_scheme \<Rightarrow> 'a vkern_scheme" where
  "served h b y wr n s =
     (let d = vd s;
          s1 = s\<lparr>vd := d\<lparr>dk_info := (dk_info d)(y := (dk_info d y)\<lparr>if_status := 0\<rparr>),
                         us_ring := (us_ring d)(unat (us_idx d) mod NUM := of_nat h), us_idx := us_idx d + 1\<rparr>\<rparr>
      in if wr then s1\<lparr>dwrites := dwrites s @ [(n, b_data (bufs s b))]\<rparr>
         else s1\<lparr>bufs := (bufs s)(b := (bufs s b)\<lparr>b_data := disk s n\<rparr>)\<rparr>)"

definition virtio_device :: "(nat \<Rightarrow> 'a vkern_scheme \<Rightarrow> 'a vkern_scheme) \<Rightarrow> bool" where
  "virtio_device dev \<longleftrightarrow>
     (\<forall>s h j k x y b wr.
        vq_addr (dk_desc (vd s) h) = OpAddr x \<and> vq_flags (dk_desc (vd s) h) AND VRING_DESC_F_NEXT \<noteq> 0 \<and> unat (vq_next (dk_desc (vd s) h)) = j \<and>
        vq_addr (dk_desc (vd s) j) = DataAddr b \<and> vq_len (dk_desc (vd s) j) = of_nat BSIZE \<and>
        vq_flags (dk_desc (vd s) j) AND VRING_DESC_F_NEXT \<noteq> 0 \<and> unat (vq_next (dk_desc (vd s) j)) = k \<and>
        (vq_flags (dk_desc (vd s) j) AND VRING_DESC_F_WRITE \<noteq> 0 \<longleftrightarrow> \<not> wr) \<and>
        vq_addr (dk_desc (vd s) k) = StatusAddr y \<and> vq_flags (dk_desc (vd s) k) AND VRING_DESC_F_WRITE \<noteq> 0 \<and>
        rq_type (dk_ops (vd s) x) = (if wr then VIRTIO_BLK_T_OUT else VIRTIO_BLK_T_IN) \<longrightarrow>
        dev h s = served h b y wr (ucast (rq_sector (dk_ops (vd s) x) div 2)) s)"

section \<open>The protocol\<close>

datatype stage = Posted | Working | Done | Seen

text \<open>A request in flight, by the head of its chain; \<open>r_data\<close> is what the buffer held when it was made.\<close>

record vreq =
  r_mid :: nat
  r_tail :: nat
  r_buf :: nat
  r_wr :: bool
  r_data :: "u8 list"
  r_stage :: stage

type_synonym reqs = "nat \<Rightarrow> vreq option"

definition advance :: "reqs \<Rightarrow> reqs" where
  "advance g = (\<lambda>h. map_option (\<lambda>r. if r_stage r = Done then r\<lparr>r_stage := Seen\<rparr> else r) (g h))"

definition same_io :: "buf \<Rightarrow> buf \<Rightarrow> bool" where
  "same_io x y \<longleftrightarrow> b_data x = b_data y \<and> b_blockno x = b_blockno y \<and> b_disk x = b_disk y"

text \<open>
  The steps: a process finds three descriptors and posts a request, or finds too few; the device takes the
  next entry of the avail ring (\<open>l\<close> is how far it has looked) and completes any request it has taken; the
  interrupt handler runs; a process whose buffer is no longer marked finishes; and anything else that
  leaves the driver, but for its lock, and the contents of the buffers in flight alone. A process does not start a request for a block
  that is in flight: the buffer cache has one locked buffer for it.
\<close>

inductive vstep ::
  "(nat \<Rightarrow> 'a vkern_scheme \<Rightarrow> 'a vkern_scheme) \<Rightarrow> mmio \<Rightarrow> 'a vkern_scheme \<times> reqs \<times> u16 \<Rightarrow> 'a vkern_scheme \<times> reqs \<times> u16 \<Rightarrow> bool"
  for dev :: "nat \<Rightarrow> 'a vkern_scheme \<Rightarrow> 'a vkern_scheme" and mm :: mmio where
  post: "quiet c s \<Longrightarrow> alloc3_desc c s = Ok (Some [i, j, k], s1) \<Longrightarrow>
    \<forall>r \<in> ran g. r_buf r \<noteq> b \<and> b_blockno (bufs s (r_buf r)) \<noteq> b_blockno (bufs s b) \<Longrightarrow> b_blockno (bufs s b) < 2 ^ 31 \<Longrightarrow>
    vstep dev mm (s, g, l) (vrw_submit i j k b wr (vrw_sector b s) s1,
      g(i \<mapsto> \<lparr>r_mid = j, r_tail = k, r_buf = b, r_wr = wr, r_data = b_data (bufs s b), r_stage = Posted\<rparr>), l)"
| busy: "quiet c s \<Longrightarrow> alloc3_desc c s = Ok (None, s') \<Longrightarrow> vstep dev mm (s, g, l) (s', g, l)"
| fetch: "l \<noteq> av_idx (vd s) \<Longrightarrow> h = unat (av_ring (vd s) (unat l mod NUM)) \<Longrightarrow> g h = Some r \<Longrightarrow>
    vstep dev mm (s, g, l) (s, g(h \<mapsto> r\<lparr>r_stage := Working\<rparr>), l + 1)"
| serve: "g h = Some r \<Longrightarrow> r_stage r = Working \<Longrightarrow> vstep dev mm (s, g, l) (dev h s, g(h \<mapsto> r\<lparr>r_stage := Done\<rparr>), l)"
| intr: "quiet c s \<Longrightarrow> lock_clean (vdisk_lock (vd s)) \<Longrightarrow> virtio_disk_intr mm c s = Ok s' \<Longrightarrow> vstep dev mm (s, g, l) (s', advance g, l)"
| finish: "quiet c s \<Longrightarrow> g h = Some r \<Longrightarrow> \<not> b_disk (bufs s (r_buf r)) \<Longrightarrow> vrw_finish c h s = Ok s' \<Longrightarrow>
    vstep dev mm (s, g, l) (s', g(h := None), l)"
| other: "vd s' = (vd s)\<lparr>vdisk_lock := lk\<rparr> \<Longrightarrow> disk s' = disk s \<Longrightarrow> \<forall>r \<in> ran g. same_io (bufs s' (r_buf r)) (bufs s (r_buf r)) \<Longrightarrow>
    vstep dev mm (s, g, l) (s', g, l)"

inductive_cases vstepE: "vstep dev mm (s, g, l) x"

section \<open>The invariant\<close>

definition members :: "nat \<Rightarrow> vreq \<Rightarrow> nat set" where
  "members h r = {h, r_mid r, r_tail r}"

definition chain_ok :: "vdisk \<Rightarrow> nat \<Rightarrow> vreq \<Rightarrow> bool" where
  "chain_ok d h r \<longleftrightarrow> distinct [h, r_mid r, r_tail r] \<and> h < NUM \<and> r_mid r < NUM \<and> r_tail r < NUM \<and>
     dk_desc d h = \<lparr>vq_addr = OpAddr h, vq_len = 16, vq_flags = VRING_DESC_F_NEXT, vq_next = of_nat (r_mid r)\<rparr> \<and>
     dk_desc d (r_mid r) = \<lparr>vq_addr = DataAddr (r_buf r), vq_len = of_nat BSIZE,
       vq_flags = (if r_wr r then 0 else VRING_DESC_F_WRITE) OR VRING_DESC_F_NEXT, vq_next = of_nat (r_tail r)\<rparr> \<and>
     dk_desc d (r_tail r) = \<lparr>vq_addr = StatusAddr h, vq_len = 1, vq_flags = VRING_DESC_F_WRITE, vq_next = 0\<rparr> \<and>
     if_b (dk_info d h) = Some (r_buf r) \<and> rq_type (dk_ops d h) = (if r_wr r then VIRTIO_BLK_T_OUT else VIRTIO_BLK_T_IN)"

text \<open>The transfer of a request is done: the buffer and the block agree, and a write wrote what it was given.\<close>

definition transferred :: "'a vkern_scheme \<Rightarrow> vreq \<Rightarrow> bool" where
  "transferred s r \<longleftrightarrow> disk s (b_blockno (bufs s (r_buf r))) = b_data (bufs s (r_buf r)) \<and> (r_wr r \<longrightarrow> b_data (bufs s (r_buf r)) = r_data r)"

definition req_ok :: "'a vkern_scheme \<Rightarrow> nat \<Rightarrow> vreq \<Rightarrow> bool" where
  "req_ok s h r \<longleftrightarrow> chain_ok (vd s) h r \<and> rq_sector (dk_ops (vd s) h) = ucast (b_blockno (bufs s (r_buf r)) * 2) \<and>
     b_blockno (bufs s (r_buf r)) < 2 ^ 31 \<and> (b_disk (bufs s (r_buf r)) \<longleftrightarrow> r_stage r \<noteq> Seen) \<and>
     (r_wr r \<longrightarrow> b_data (bufs s (r_buf r)) = r_data r) \<and>
     (r_stage r = Done \<or> r_stage r = Seen \<longrightarrow> if_status (dk_info (vd s) h) = 0 \<and> transferred s r)"

definition apart_reqs :: "'a vkern_scheme \<Rightarrow> reqs \<Rightarrow> bool" where
  "apart_reqs s g \<longleftrightarrow> (\<forall>h r h' r'. g h = Some r \<and> g h' = Some r' \<and> h \<noteq> h' \<longrightarrow>
     members h r \<inter> members h' r' = {} \<and> r_buf r \<noteq> r_buf r' \<and> b_blockno (bufs s (r_buf r)) \<noteq> b_blockno (bufs s (r_buf r')))"

definition at_stage :: "reqs \<Rightarrow> stage \<Rightarrow> nat set" where
  "at_stage g p = {h. \<exists>r. g h = Some r \<and> r_stage r = p}"

definition in_ring :: "(nat \<Rightarrow> nat) \<Rightarrow> u16 \<Rightarrow> u16 \<Rightarrow> nat set \<Rightarrow> bool" where
  "in_ring ring a e H \<longleftrightarrow> (\<exists>xs. distinct xs \<and> set xs = H \<and> ring_holds ring a e xs)"

definition vinv :: "'a vkern_scheme \<times> reqs \<times> u16 \<Rightarrow> bool" where
  "vinv = (\<lambda>(s, g, l). (\<forall>h r. g h = Some r \<longrightarrow> req_ok s h r) \<and>
     (\<forall>i < NUM. dk_free (vd s) i \<longleftrightarrow> (\<forall>h r. g h = Some r \<longrightarrow> i \<notin> members h r)) \<and> apart_reqs s g \<and>
     in_ring (\<lambda>i. unat (av_ring (vd s) i)) l (av_idx (vd s)) (at_stage g Posted) \<and>
     in_ring (\<lambda>i. unat (us_ring (vd s) i)) (dk_used_idx (vd s)) (us_idx (vd s)) (at_stage g Done))"


lemma vinvI:
  assumes "\<And>h r. g h = Some r \<Longrightarrow> req_ok s h r"
    and "\<And>i. i < NUM \<Longrightarrow> dk_free (vd s) i \<longleftrightarrow> (\<forall>h r. g h = Some r \<longrightarrow> i \<notin> members h r)" and "apart_reqs s g"
    and "in_ring (\<lambda>i. unat (av_ring (vd s) i)) l (av_idx (vd s)) (at_stage g Posted)"
    and "in_ring (\<lambda>i. unat (us_ring (vd s) i)) (dk_used_idx (vd s)) (us_idx (vd s)) (at_stage g Done)"
  shows "vinv (s, g, l)"
  using assms by (simp add: vinv_def)

lemma vinvD:
  assumes "vinv (s, g, l)"
  shows "g h = Some r \<Longrightarrow> req_ok s h r"
    and "i < NUM \<Longrightarrow> dk_free (vd s) i \<longleftrightarrow> (\<forall>h r. g h = Some r \<longrightarrow> i \<notin> members h r)" and "apart_reqs s g"
    and "in_ring (\<lambda>i. unat (av_ring (vd s) i)) l (av_idx (vd s)) (at_stage g Posted)"
    and "in_ring (\<lambda>i. unat (us_ring (vd s) i)) (dk_used_idx (vd s)) (us_idx (vd s)) (at_stage g Done)"
  using assms by (simp_all add: vinv_def)

lemma req_members: "req_ok s h r \<Longrightarrow> i \<in> members h r \<Longrightarrow> i < NUM"
  by (auto simp: req_ok_def chain_ok_def members_def)

lemma not_free: "vinv (s, g, l) \<Longrightarrow> g h = Some r \<Longrightarrow> i \<in> members h r \<Longrightarrow> \<not> dk_free (vd s) i"
  using req_members [of s h r i] vinvD(1,2) [of s g l] by blast

lemma apart_reqsD:
  "apart_reqs s g \<Longrightarrow> g h = Some r \<Longrightarrow> g h' = Some r' \<Longrightarrow> h \<noteq> h' \<Longrightarrow>
   members h r \<inter> members h' r' = {} \<and> r_buf r \<noteq> r_buf r' \<and> b_blockno (bufs s (r_buf r)) \<noteq> b_blockno (bufs s (r_buf r'))"
  unfolding apart_reqs_def by blast

lemma apart_cong:
  assumes "apart_reqs s g" and "\<And>h r. g h = Some r \<Longrightarrow> b_blockno (bufs s' (r_buf r)) = b_blockno (bufs s (r_buf r))"
  shows "apart_reqs s' g"
  using assms unfolding apart_reqs_def by metis

lemma apart_stage:
  assumes "apart_reqs s g" and "g h = Some r"
  shows "apart_reqs s (g(h \<mapsto> r\<lparr>r_stage := p\<rparr>))"
  using assms unfolding apart_reqs_def by (auto simp: members_def split: if_splits)

text \<open>What a request rests on: its own descriptors, command, record and buffer, and its block.\<close>

lemma req_cong:
  assumes "req_ok s h r" and "\<And>i. i \<in> members h r \<Longrightarrow> dk_desc (vd s') i = dk_desc (vd s) i"
    and "dk_info (vd s') h = dk_info (vd s) h" and "dk_ops (vd s') h = dk_ops (vd s) h"
    and "same_io (bufs s' (r_buf r)) (bufs s (r_buf r))"
    and "disk s' (b_blockno (bufs s (r_buf r))) = disk s (b_blockno (bufs s (r_buf r)))"
  shows "req_ok s' h r"
  using assms by (simp add: req_ok_def chain_ok_def transferred_def members_def same_io_def)

lemma in_ring_push:
  assumes "in_ring ring a e H" and "H \<subseteq> {..<NUM} - {x}" and "x < NUM"
  shows "in_ring (ring(unat e mod NUM := x)) a (e + 1) (insert x H)"
proof -
  obtain xs where xs: "distinct xs" "set xs = H" "ring_holds ring a e xs" using assms(1) unfolding in_ring_def by blast
  have "card H \<le> card ({..<NUM} - {x})" using assms(2) by (intro card_mono) simp_all
  then have "length xs < NUM" using assms(3) xs(1,2) distinct_card [of xs] by simp
  then have "ring_holds (ring(unat e mod NUM := x)) a (e + 1) (xs @ [x])" using ring_push [OF xs(3)] by blast
  moreover have "distinct (xs @ [x])" "set (xs @ [x]) = insert x H" using xs(1,2) assms(2) by auto
  ultimately show ?thesis unfolding in_ring_def by blast
qed

lemma in_ring_pop:
  assumes "in_ring ring a e H" and "a \<noteq> e"
  shows "ring (unat a mod NUM) \<in> H" and "in_ring ring (a + 1) e (H - {ring (unat a mod NUM)})"
proof -
  obtain xs where xs: "distinct xs" "set xs = H" "ring_holds ring a e xs" using assms(1) unfolding in_ring_def by blast
  obtain x ys where y: "xs = x # ys" "ring (unat a mod NUM) = x" "ring_holds ring (a + 1) e ys" using ring_pop [OF xs(3) assms(2)] by blast
  then show "ring (unat a mod NUM) \<in> H" using xs(2) by auto
  have "distinct ys" "set ys = H - {x}" using xs(1,2) y(1) by auto
  then show "in_ring ring (a + 1) e (H - {ring (unat a mod NUM)})" unfolding in_ring_def y(2) using y(3) by blast
qed

lemma at_stage_new: "g h = None \<Longrightarrow> at_stage (g(h \<mapsto> r)) p = (if r_stage r = p then insert h (at_stage g p) else at_stage g p)"
  by (auto simp: at_stage_def split: if_splits)

lemma at_stage_move:
  "g h = Some r \<Longrightarrow> at_stage (g(h \<mapsto> r\<lparr>r_stage := q\<rparr>)) p = (if p = q then insert h (at_stage g p) else at_stage g p - {h})"
  by (auto simp: at_stage_def split: if_splits)

lemma at_stage_heads: "vinv (s, g, l) \<Longrightarrow> at_stage g p \<subseteq> {..<NUM}"
  using vinvD(1) [of s g l] req_members by (fastforce simp: at_stage_def members_def)

end
