(* ===== verification/Vsafe.thy ===== *)
theory Vsafe
  imports Vqueue Lines
begin

text \<open>
  The invariant of the disk driver's protocol is kept by every step, and what follows from it.
\<close>

section \<open>Every step keeps it\<close>

lemma vinv_other:
  assumes "vinv (s, g, l)" and "vd s' = (vd s)\<lparr>vdisk_lock := lk\<rparr>" and "disk s' = disk s"
    and "\<forall>r \<in> ran g. same_io (bufs s' (r_buf r)) (bufs s (r_buf r))"
  shows "vinv (s', g, l)"
proof -
  have io: "same_io (bufs s' (r_buf r)) (bufs s (r_buf r))" if "g h = Some r" for h r using assms(4) that by (auto simp: ran_def)
  have "req_ok s' h r" if "g h = Some r" for h r
    by (rule req_cong [OF vinvD(1) [OF assms(1) that]]) (simp_all add: assms(2,3) io [OF that])
  moreover have "apart_reqs s' g" by (rule apart_cong [OF vinvD(3) [OF assms(1)]]) (use io in \<open>auto simp: same_io_def\<close>)
  ultimately show ?thesis using vinvD(2,4,5) [OF assms(1)] by (intro vinvI) (simp_all add: assms(2))
qed

lemma vinv_busy:
  assumes "vinv (s, g, l)" and "\<forall>i. \<not> dk_free (vd s) i \<longrightarrow> D i = dk_desc (vd s) i" and "vmove c s s' ((vd s)\<lparr>dk_desc := D\<rparr>) (bufs s)"
  shows "vinv (s', g, l)"
proof -
  note d = vmoveD [OF assms(3)]
  have "req_ok s' h r" if "g h = Some r" for h r
    by (rule req_cong [OF vinvD(1) [OF assms(1) that]]) (simp_all add: d assms(2) not_free [OF assms(1) that] same_io_def)
  moreover have "apart_reqs s' g" by (rule apart_cong [OF vinvD(3) [OF assms(1)]]) (simp add: d)
  ultimately show ?thesis using vinvD(2,4,5) [OF assms(1)] by (intro vinvI) (simp_all add: d)
qed

lemma vinv_fetch:
  assumes "vinv (s, g, l)" and "l \<noteq> av_idx (vd s)" and "h = unat (av_ring (vd s) (unat l mod NUM))" and "g h = Some r"
  shows "vinv (s, g(h \<mapsto> r\<lparr>r_stage := Working\<rparr>), l + 1)"
proof -
  note p = in_ring_pop [OF vinvD(4) [OF assms(1)] assms(2), folded assms(3)]
  have st: "r_stage r = Posted" using p(1) assms(4) by (simp add: at_stage_def)
  have "req_ok s h (r\<lparr>r_stage := Working\<rparr>)" using vinvD(1) [OF assms(1,4)] st by (simp add: req_ok_def chain_ok_def)
  then have "req_ok s h' r'" if "(g(h \<mapsto> r\<lparr>r_stage := Working\<rparr>)) h' = Some r'" for h' r'
    using that vinvD(1) [OF assms(1)] by (auto split: if_splits)
  moreover have "(\<forall>h' r'. (g(h \<mapsto> r\<lparr>r_stage := Working\<rparr>)) h' = Some r' \<longrightarrow> i \<notin> members h' r') = (\<forall>h' r'. g h' = Some r' \<longrightarrow> i \<notin> members h' r')" for i
    using assms(4) by (auto simp: members_def)
  moreover have "h \<notin> at_stage g Done" using assms(4) st by (simp add: at_stage_def)
  ultimately show ?thesis using vinvD(2,5) [OF assms(1)] apart_stage [OF vinvD(3) [OF assms(1)] assms(4)] p(2)
    by (intro vinvI) (simp_all add: at_stage_move [of g, OF assms(4)])
qed

lemma sector_block: "n < 2 ^ 31 \<Longrightarrow> ucast ((ucast (n * 2 :: u32) :: u64) div 2) = n"
proof -
  assume "n < 2 ^ 31"
  then have n: "unat n < 2 ^ 31" by (simp add: word_less_nat_alt)
  then have "unat (n * 2) = unat n * 2" by (simp add: unat_word_ariths)
  then show ?thesis using n by (intro word_unat_eq_iff [THEN iffD2]) (simp add: unsigned_ucast_eq unat_div take_bit_eq_mod)
qed

lemma device_serves:
  assumes "virtio_device dev" and "req_ok s h r"
  shows "dev h s = served h (r_buf r) h (r_wr r) (b_blockno (bufs s (r_buf r))) s"
proof -
  have c: "chain_ok (vd s) h r" and sec: "rq_sector (dk_ops (vd s) h) = ucast (b_blockno (bufs s (r_buf r)) * 2)" and n: "b_blockno (bufs s (r_buf r)) < 2 ^ 31"
    using assms(2) by (simp_all add: req_ok_def)
  have "unat (of_nat (r_mid r) :: u16) = r_mid r" "unat (of_nat (r_tail r) :: u16) = r_tail r"
    using c by (simp_all add: chain_ok_def NUM_def unat_of_nat)
  then have "dev h s = served h (r_buf r) h (r_wr r) (ucast (rq_sector (dk_ops (vd s) h) div 2)) s"
    using c assms(1) [unfolded virtio_device_def, rule_format, of s h h "r_mid r" "r_buf r" "r_tail r" "r_wr r" h]
    by (simp add: chain_ok_def VRING_DESC_F_NEXT_def VRING_DESC_F_WRITE_def)
  then show ?thesis using sector_block [OF n] sec by simp
qed


lemma unat_upd: "n < NUM \<Longrightarrow> (\<lambda>i. unat ((f(p := of_nat n :: u16)) i)) = (\<lambda>i. unat (f i))(p := n)"
  "n < NUM \<Longrightarrow> (\<lambda>i. unat ((f'(p := of_nat n :: u32)) i)) = (\<lambda>i. unat (f' i))(p := n)"
  by (simp_all add: fun_eq_iff NUM_def unat_of_nat)

text \<open>The state after the device has served a request.\<close>

lemma served_vd: "vd (served h b y wr n s) = (vd s)\<lparr>dk_info := (dk_info (vd s))(y := (dk_info (vd s) y)\<lparr>if_status := 0\<rparr>),
    us_ring := (us_ring (vd s))(unat (us_idx (vd s)) mod NUM := of_nat h), us_idx := us_idx (vd s) + 1\<rparr>"
  by (simp add: served_def Let_def)

lemma served_bufs: "bufs (served h b y wr n s) = (if wr then bufs s else (bufs s)(b := (bufs s b)\<lparr>b_data := disk s n\<rparr>))"
  by (simp add: served_def Let_def)

lemma served_disk: "disk (served h b y wr n s) = (if wr then (disk s)(n := b_data (bufs s b)) else disk s)"
  by (simp add: served_def Let_def disk_def apply_writes_snoc)

lemma served_self:
  assumes "req_ok s h r" and "r_stage r = Working"
  shows "req_ok (served h (r_buf r) h (r_wr r) (b_blockno (bufs s (r_buf r))) s) h (r\<lparr>r_stage := Done\<rparr>)"
  using assms by (simp add: req_ok_def chain_ok_def transferred_def served_vd served_bufs served_disk)

lemma vinv_serve:
  assumes "vinv (s, g, l)" and "virtio_device dev" and "g h = Some r" and "r_stage r = Working"
  shows "vinv (dev h s, g(h \<mapsto> r\<lparr>r_stage := Done\<rparr>), l)"
proof -
  let ?g = "g(h \<mapsto> r\<lparr>r_stage := Done\<rparr>)" and ?s = "served h (r_buf r) h (r_wr r) (b_blockno (bufs s (r_buf r))) s"
  note ok = vinvD(1) [OF assms(1,3)]
  have h: "h < NUM" using req_members [OF ok] by (simp add: members_def)
  have "req_ok ?s h' r'" if g: "g h' = Some r'" and ne: "h' \<noteq> h" for h' r'
    by (rule req_cong [OF vinvD(1) [OF assms(1) g]])
      (use apart_reqsD [OF vinvD(3) [OF assms(1)] g assms(3) ne] ne in \<open>simp_all add: served_vd served_bufs served_disk same_io_def\<close>)
  then have req: "req_ok ?s h' r'" if "?g h' = Some r'" for h' r'
    using that served_self [OF ok assms(4)] by (auto split: if_splits)
  have blk: "b_blockno (bufs ?s b) = b_blockno (bufs s b)" for b by (simp add: served_bufs)
  then have ap: "apart_reqs ?s ?g" by (intro apart_cong [OF apart_stage [OF vinvD(3) [OF assms(1)] assms(3)]]) simp
  have mem: "(\<forall>h' r'. ?g h' = Some r' \<longrightarrow> i \<notin> members h' r') = (\<forall>h' r'. g h' = Some r' \<longrightarrow> i \<notin> members h' r')" for i
    using assms(3) by (auto simp: members_def)
  have "h \<notin> at_stage g Done" "h \<notin> at_stage g Posted" using assms(3,4) by (simp_all add: at_stage_def)
  then have us: "in_ring (\<lambda>i. unat (us_ring (vd ?s) i)) (dk_used_idx (vd ?s)) (us_idx (vd ?s)) (insert h (at_stage g Done))"
    and av: "at_stage ?g Posted = at_stage g Posted"
    using in_ring_push [OF vinvD(5) [OF assms(1)] _ h] at_stage_heads [OF assms(1), of Done]
    by (auto simp: served_vd unat_upd [OF h] at_stage_move [of g, OF assms(3)] simp del: fun_upd_apply)
  have "vinv (?s, ?g, l)"
    by (rule vinvI) (use req ap us av mem vinvD(2,4) [OF assms(1)] in \<open>simp_all add: served_vd at_stage_move [of g, OF assms(3)] del: fun_upd_apply\<close>)
  then show ?thesis using device_serves [OF assms(2) ok] by simp
qed

lemma advance_Some: "advance g h = Some r' \<longleftrightarrow> (\<exists>r. g h = Some r \<and> r' = (if r_stage r = Done then r\<lparr>r_stage := Seen\<rparr> else r))"
  by (cases "g h") (auto simp: advance_def)

lemma at_stage_advance: "at_stage (advance g) Posted = at_stage g Posted" "at_stage (advance g) Done = {}"
proof -
  have "(\<exists>r. advance g h = Some r \<and> r_stage r = p) \<longleftrightarrow> (\<exists>r. g h = Some r \<and> (if r_stage r = Done then Seen else r_stage r) = p)" for h p
    by (cases "g h") (simp_all add: advance_def)
  then have m: "at_stage (advance g) p = {h. \<exists>r. g h = Some r \<and> (if r_stage r = Done then Seen else r_stage r) = p}" for p
    unfolding at_stage_def by (simp only:)
  have "(if q = Done then Seen else q) = Posted \<longleftrightarrow> q = Posted" "(if q = Done then Seen else q) = Done \<longleftrightarrow> False" for q by simp_all
  then show "at_stage (advance g) Posted = at_stage g Posted" "at_stage (advance g) Done = {}"
    unfolding m by (simp_all only: at_stage_def simp_thms ex_simps empty_def)
qed

text \<open>The interrupt can always run, and what it does: the requests served so far are seen.\<close>

lemma intr_runs:
  fixes s :: "'a vkern_scheme"
  assumes "vinv (s, g, l)" and "quiet c s" and "lock_clean (vdisk_lock (vd s))"
  shows "\<exists>s'. virtio_disk_intr mm c s = Ok s' \<and>
    vmove c s s' ((vd s)\<lparr>dk_used_idx := us_idx (vd s)\<rparr>) (seen ((\<lambda>h. r_buf (the (g h))) ` at_stage g Done) (bufs s))"
proof -
  obtain U where U: "set U = at_stage g Done" "ring_holds (\<lambda>i. unat (us_ring (vd s) i)) (dk_used_idx (vd s)) (us_idx (vd s)) U"
    using vinvD(5) [OF assms(1)] unfolding in_ring_def by blast
  have "\<forall>h \<in> set U. if_status (dk_info (vd s) h) = 0 \<and> if_b (dk_info (vd s) h) = Some (r_buf (the (g h)))"
  proof
    fix h assume "h \<in> set U"
    then obtain r where r: "g h = Some r" "r_stage r = Done" unfolding U(1) at_stage_def by blast
    show "if_status (dk_info (vd s) h) = 0 \<and> if_b (dk_info (vd s) h) = Some (r_buf (the (g h)))"
      using vinvD(1) [OF assms(1) r(1)] r by (simp add: req_ok_def chain_ok_def)
  qed
  then show ?thesis using disk_intr_moves [OF assms(2,3) U(2), of "\<lambda>h. r_buf (the (g h))" mm] U(1) by simp
qed

lemma advance_members: "(\<forall>r. advance g h = Some r \<longrightarrow> i \<notin> members h r) = (\<forall>r. g h = Some r \<longrightarrow> i \<notin> members h r)"
  by (cases "g h") (simp_all add: advance_def members_def)

lemma apart_advance:
  assumes "apart_reqs s g"
  shows "apart_reqs s (advance g)"
  unfolding apart_reqs_def
proof (intro allI impI, elim conjE)
  fix h r h' r' assume "advance g h = Some r" "advance g h' = Some r'" and ne: "h \<noteq> h'"
  then obtain q q' where q: "g h = Some q" "g h' = Some q'" "members h r = members h q" "members h' r' = members h' q'" "r_buf r = r_buf q" "r_buf r' = r_buf q'"
    unfolding advance_Some by (auto simp: members_def)
  show "members h r \<inter> members h' r' = {} \<and> r_buf r \<noteq> r_buf r' \<and> b_blockno (bufs s (r_buf r)) \<noteq> b_blockno (bufs s (r_buf r'))"
    unfolding q(3-6) by (rule apart_reqsD [OF assms q(1,2) ne])
qed

lemma vinv_intr:
  assumes "vinv (s, g, l)" and "vmove c s s' ((vd s)\<lparr>dk_used_idx := us_idx (vd s)\<rparr>) (seen ((\<lambda>h. r_buf (the (g h))) ` at_stage g Done) (bufs s))"
  shows "vinv (s', advance g, l)"
proof -
  let ?B = "(\<lambda>h. r_buf (the (g h))) ` at_stage g Done"
  note d = vmoveD [OF assms(2)]
  have in_B: "r_buf r \<in> ?B \<longleftrightarrow> r_stage r = Done" if g: "g h = Some r" for h r
  proof
    assume "r_buf r \<in> ?B"
    then obtain h' r' where h': "g h' = Some r'" "r_stage r' = Done" "r_buf r = r_buf r'" by (auto simp: at_stage_def)
    then have "h' = h" using apart_reqsD [OF vinvD(3) [OF assms(1)] h'(1) g] by auto
    then show "r_stage r = Done" using h' g by simp
  next
    assume "r_stage r = Done"
    then show "r_buf r \<in> ?B" using g by (force simp: at_stage_def)
  qed
  have same: "b_blockno (seen B bs b) = b_blockno (bs b)" "b_data (seen B bs b) = b_data (bs b)"
    "b_disk (seen B bs b) \<longleftrightarrow> b_disk (bs b) \<and> b \<notin> B" for B bs b by (simp_all add: seen_def)
  have "req_ok s' h (if r_stage r = Done then r\<lparr>r_stage := Seen\<rparr> else r)" if "g h = Some r" for h r
    using vinvD(1) [OF assms(1) that] in_B [OF that] by (simp add: req_ok_def chain_ok_def transferred_def d same)
  then have "req_ok s' h r" if "advance g h = Some r" for h r using that by (auto simp: advance_Some)
  moreover have "(\<forall>h r. advance g h = Some r \<longrightarrow> i \<notin> members h r) = (\<forall>h r. g h = Some r \<longrightarrow> i \<notin> members h r)" for i
    by (simp only: advance_members)
  moreover have "apart_reqs s' (advance g)"
    by (rule apart_cong [OF apart_advance [OF vinvD(3) [OF assms(1)]]]) (simp add: d same)
  moreover have "in_ring ring a a {}" for ring a by (simp add: in_ring_def ring_holds_def)
  ultimately show ?thesis using vinvD(2,4) [OF assms(1)] by (intro vinvI) (simp_all add: d at_stage_advance)
qed

text \<open>A process whose buffer is no longer marked finds its request done and can free the chain.\<close>

lemma finish_runs:
  fixes s :: "'a vkern_scheme"
  assumes "vinv (s, g, l)" and "quiet c s" and "g h = Some r"
  shows "\<exists>s'. vrw_finish c h s = Ok s' \<and>
    vmove c s s' (fold clear_desc [h, r_mid r, r_tail r] ((vd s)\<lparr>dk_info := (dk_info (vd s))(h := (dk_info (vd s) h)\<lparr>if_b := None\<rparr>)\<rparr>)) (bufs s)"
proof -
  let ?d = "(vd s)\<lparr>dk_info := (dk_info (vd s))(h := (dk_info (vd s) h)\<lparr>if_b := None\<rparr>)\<rparr>"
  have c: "chain_ok (vd s) h r" using vinvD(1) [OF assms(1,3)] by (simp add: req_ok_def)
  have f: "\<not> dk_free (vd s) h" "\<not> dk_free (vd s) (r_mid r)" "\<not> dk_free (vd s) (r_tail r)"
    using not_free [OF assms(1,3)] by (simp_all add: members_def)
  note m = vmove_vd [OF assms(2), of ?d]
  have "\<exists>s'. free_chain c h (s\<lparr>vd := ?d\<rparr>) = Ok s' \<and> vmove c (s\<lparr>vd := ?d\<rparr>) s' (fold clear_desc [h, r_mid r, r_tail r] (vd (s\<lparr>vd := ?d\<rparr>))) (bufs (s\<lparr>vd := ?d\<rparr>))"
    by (rule free_chain_moves [OF vmoveD(1) [OF m]]) (use c f in \<open>simp_all add: chain_ok_def VRING_DESC_F_NEXT_def VRING_DESC_F_WRITE_def\<close>)
  then show ?thesis using vmove_trans [OF m] by (auto simp: vrw_finish_def)
qed


lemma vinv_finish:
  assumes "vinv (s, g, l)" and "g h = Some r" and "\<not> b_disk (bufs s (r_buf r))"
    and "vmove c s s' (fold clear_desc [h, r_mid r, r_tail r] ((vd s)\<lparr>dk_info := (dk_info (vd s))(h := (dk_info (vd s) h)\<lparr>if_b := None\<rparr>)\<rparr>)) (bufs s)"
  shows "vinv (s', g(h := None), l)"
proof -
  note d = vmoveD [OF assms(4), unfolded fold_clear_desc]
  have set: "set [h, r_mid r, r_tail r] = members h r" by (simp add: members_def)
  have st: "r_stage r = Seen" using vinvD(1) [OF assms(1,2)] assms(3) by (simp add: req_ok_def)
  have "req_ok s' h' r'" if g: "(g(h := None)) h' = Some r'" for h' r'
  proof -
    have g': "g h' = Some r'" "h' \<noteq> h" using g by (simp_all split: if_splits)
    have "members h' r' \<inter> members h r = {}" using apart_reqsD [OF vinvD(3) [OF assms(1)] g'(1) assms(2) g'(2)] by blast
    then show ?thesis by (intro req_cong [OF vinvD(1) [OF assms(1) g'(1)]]) (use g'(2) in \<open>auto simp: d(2-4) set same_io_def simp del: list.set\<close>)
  qed
  moreover have "dk_free (vd s') i \<longleftrightarrow> (\<forall>h' r'. (g(h := None)) h' = Some r' \<longrightarrow> i \<notin> members h' r')" if "i < NUM" for i
  proof (cases "i \<in> members h r")
    case True
    then have "i \<notin> members h' r'" if "g h' = Some r'" "h' \<noteq> h" for h' r' using apart_reqsD [OF vinvD(3) [OF assms(1)] that(1) assms(2) that(2)] by blast
    then show ?thesis using True by (simp add: d(2) set del: list.set)
  next
    case False
    then have "(\<forall>h' r'. (g(h := None)) h' = Some r' \<longrightarrow> i \<notin> members h' r') = (\<forall>h' r'. g h' = Some r' \<longrightarrow> i \<notin> members h' r')"
      by (metis assms(2) fun_upd_other fun_upd_same option.distinct(1) option.inject)
    then show ?thesis using False vinvD(2) [OF assms(1) that] by (simp add: d(2) set del: list.set)
  qed
  moreover have "apart_reqs s' (g(h := None))" using vinvD(3) [OF assms(1)] by (simp add: apart_reqs_def d(3))
  moreover have "at_stage (g(h := None)) p = at_stage g p" if "p \<noteq> Seen" for p using assms(2) st that by (auto simp: at_stage_def)
  ultimately show ?thesis using vinvD(4,5) [OF assms(1)] by (intro vinvI) (simp_all add: d(2))
qed

lemma submit_vd: "vd (vrw_submit i j k b wr n s) = format_req i j k b wr n (vd s)"
  by (simp add: vrw_submit_def reg_write_def upd_buf_def)

lemma submit_bufs: "bufs (vrw_submit i j k b wr n s) = (bufs s)(b := (bufs s b)\<lparr>b_disk := True\<rparr>)"
  by (simp add: vrw_submit_def reg_write_def upd_buf_def)

lemma submit_disk: "disk (vrw_submit i j k b wr n s) = disk s"
  by (simp add: vrw_submit_def reg_write_def upd_buf_def disk_def)

lemma apart_new:
  assumes "apart_reqs s g" and "\<And>h' r'. g h' = Some r' \<Longrightarrow>
    members h' r' \<inter> members h r = {} \<and> r_buf r' \<noteq> r_buf r \<and> b_blockno (bufs s (r_buf r')) \<noteq> b_blockno (bufs s (r_buf r))"
  shows "apart_reqs s (g(h \<mapsto> r))"
  unfolding apart_reqs_def
proof (intro allI impI, elim conjE)
  fix h1 r1 h2 r2 assume a: "(g(h \<mapsto> r)) h1 = Some r1" "(g(h \<mapsto> r)) h2 = Some r2" and ne: "h1 \<noteq> h2"
  show "members h1 r1 \<inter> members h2 r2 = {} \<and> r_buf r1 \<noteq> r_buf r2 \<and> b_blockno (bufs s (r_buf r1)) \<noteq> b_blockno (bufs s (r_buf r2))"
  proof (cases "h1 = h")
    case True
    then have e: "r1 = r" "g h2 = Some r2" using a ne by simp_all
    show ?thesis unfolding True e(1) using assms(2) [OF e(2)] by (metis Int_commute)
  next
    case False
    then have e: "g h1 = Some r1" using a(1) by simp
    show ?thesis
    proof (cases "h2 = h")
      case True
      then have "r2 = r" using a(2) by simp
      then show ?thesis unfolding True using assms(2) [OF e] by blast
    next
      case F: False
      then have "g h2 = Some r2" using a(2) by simp
      then show ?thesis by (rule apart_reqsD [OF assms(1) e _ ne])
    qed
  qed
qed

lemma vinv_post:
  assumes inv: "vinv (s, g, l)" and t: "takable [i, j, k] (vd s)" and m: "vmove c s s1 (took [i, j, k] (vd s)) (bufs s)"
    and b: "\<forall>r \<in> ran g. r_buf r \<noteq> b \<and> b_blockno (bufs s (r_buf r)) \<noteq> b_blockno (bufs s b)" and n: "b_blockno (bufs s b) < 2 ^ 31"
    and r: "r = \<lparr>r_mid = j, r_tail = k, r_buf = b, r_wr = wr, r_data = b_data (bufs s b), r_stage = Posted\<rparr>"
  shows "vinv (vrw_submit i j k b wr (vrw_sector b s) s1, g(i \<mapsto> r), l)"
proof -
  let ?s = "vrw_submit i j k b wr (vrw_sector b s) s1"
  have mem: "members i r = {i, j, k}" by (simp add: members_def r)
  have i: "i < NUM" "j < NUM" "k < NUM" "dk_free (vd s) i" "distinct [i, j, k]" using t by (simp_all add: takable_def)
  have vd: "vd ?s = format_req i j k b wr (ucast (b_blockno (bufs s b) * 2)) (took [i, j, k] (vd s))"
    and bufs: "bufs ?s = (bufs s)(b := (bufs s b)\<lparr>b_disk := True\<rparr>)" and dk: "disk ?s = disk s"
    by (simp_all add: submit_vd submit_bufs submit_disk vrw_sector_def BSIZE_def vmoveD(2-4) [OF m])
  have apart: "members h' r' \<inter> {i, j, k} = {}" if "g h' = Some r'" for h' r'
    using not_free [OF inv that] t by (auto simp: takable_def)
  have rb: "r_buf r' \<noteq> b" "b_blockno (bufs s (r_buf r')) \<noteq> b_blockno (bufs s b)" if "g h' = Some r'" for h' r' using b that by (auto simp: ran_def)
  have ne: "h' \<noteq> i" if "g h' = Some r'" for h' r' using apart [OF that] by (auto simp: members_def)
  have none: "g i = None" using ne by (cases "g i") auto
  have old: "req_ok ?s h' r'" if g: "g h' = Some r'" for h' r'
    by (rule req_cong [OF vinvD(1) [OF inv g]]) (use apart [OF g] ne [OF g] rb [OF g] in \<open>auto simp: vd bufs dk format_req_def took_def same_io_def\<close>)
  have new: "req_ok ?s i r" using i n by (simp add: req_ok_def chain_ok_def vd bufs submit_bufs vmoveD(3) [OF m] format_req_def took_def r)
  have "dk_free (vd ?s) q \<longleftrightarrow> (\<forall>h' r'. (g(i \<mapsto> r)) h' = Some r' \<longrightarrow> q \<notin> members h' r')" if "q < NUM" for q
    using vinvD(2) [OF inv that] mem none by (auto simp: vd format_req_def took_def)
  moreover have "apart_reqs ?s (g(i \<mapsto> r))"
    by (rule apart_new [OF apart_cong [OF vinvD(3) [OF inv]]]) (use apart rb in \<open>auto simp: bufs r members_def\<close>)
  moreover have "in_ring (\<lambda>q. unat (av_ring (vd ?s) q)) l (av_idx (vd ?s)) (insert i (at_stage g Posted))"
  proof -
    have "at_stage g Posted \<subseteq> {..<NUM} - {i}" using at_stage_heads [OF inv, of Posted] none by (auto simp: at_stage_def)
    from in_ring_push [OF vinvD(4) [OF inv] this i(1)] show ?thesis
      by (simp add: vd format_req_def took_def unat_upd [OF i(1)] del: fun_upd_apply)
  qed
  moreover have "req_ok ?s h' r'" if "(g(i \<mapsto> r)) h' = Some r'" for h' r' using old new that by (cases "h' = i") simp_all
  ultimately show ?thesis
    using vinvD(5) [OF inv] none by (intro vinvI) (simp_all add: at_stage_new r vd format_req_def took_def del: fun_upd_apply)
qed


section \<open>What the protocol guarantees\<close>

text \<open>The state after \<open>virtio_disk_init\<close>: every descriptor free and nothing in the rings.\<close>

definition disk_ready :: "vdisk \<Rightarrow> bool" where
  "disk_ready d \<longleftrightarrow> (\<forall>i < NUM. dk_free d i) \<and> us_idx d = dk_used_idx d"

lemma kalloc_vd:
  fixes s s' :: "'a vkern_scheme"
  assumes "kalloc c s = Ok (p, s')"
  shows "vd s' = vd s"
proof -
  have a: "vd t' = vd t" if "acquire c lk t = Ok (lk', t')" for lk lk' and t t' :: "'a vkern_scheme"
    using that by (auto simp: acquire_def push_off_def Let_def set_cpu_def intr_off_def split: if_splits)
  have r: "vd t' = vd t" if "release c lk t = Ok (lk', t')" for lk lk' and t t' :: "'a vkern_scheme"
    using that by (auto simp: release_def pop_off_def Let_def rbind_eq_Ok set_cpu_def intr_on_def split: if_splits)
  show ?thesis using assms by (auto simp: kalloc_def Let_def rbind_eq_Ok dest!: a r split: if_splits)
qed

lemma virtio_queue_vd:
  fixes s s' :: "'a vkern_scheme"
  assumes "virtio_queue c s = Ok s'"
  shows "av_idx (vd s') = 0 \<and> us_idx (vd s') = 0 \<and> dk_used_idx (vd s') = dk_used_idx (vd s) \<and> length (v_pages s') = 3 \<and> 0 \<notin> set (v_pages s')"
proof -
  obtain p1 s1 p2 s2 p3 s3 where k: "kalloc c s = Ok (p1, s1)" "kalloc c s1 = Ok (p2, s2)" "kalloc c s2 = Ok (p3, s3)"
    using assms by (auto simp: virtio_queue_def rbind_eq_Ok)
  have "vd s3 = vd s" using kalloc_vd [OF k(1)] kalloc_vd [OF k(2)] kalloc_vd [OF k(3)] by simp
  then show ?thesis using assms k by (auto simp: virtio_queue_def Let_def reg_write_def split: if_splits)
qed

lemma virtio_disk_init_ready:
  fixes s s' :: "'a vkern_scheme"
  assumes "virtio_disk_init mm c s = Ok s'" and "dk_used_idx (vd s) = 0"
  shows "disk_ready (vd s') \<and> av_idx (vd s') = 0 \<and> length (v_pages s') = 3 \<and> 0 \<notin> set (v_pages s')"
proof -
  obtain t u x where t: "virtio_queue c t = Ok u" "dk_used_idx (vd t) = 0" and s': "s' = reg_write 0x070 x (u\<lparr>vd := (vd u)\<lparr>dk_free := (\<lambda>i. i < NUM)\<rparr>\<rparr>)"
    using assms unfolding virtio_disk_init_def Let_def by (auto simp: rbind_eq_Ok reg_write_def vlk_st_def split: if_splits)
  show ?thesis using virtio_queue_vd [OF t(1)] t(2) by (simp add: s' disk_ready_def reg_write_def)
qed

lemma vinv_ready: "disk_ready (vd s) \<Longrightarrow> vinv (s, Map.empty, av_idx (vd s))"
  by (rule vinvI) (simp_all add: disk_ready_def apart_reqs_def at_stage_def in_ring_def ring_holds_def)

lemma vstep_vinv:
  assumes "vstep dev mm x y" and "virtio_device dev" and "vinv x"
  shows "vinv y"
  using assms(1,3)
proof cases
  case (post c s i j k s1 g b l wr)
  then have m: "takable [i, j, k] (vd s)" "vmove c s s1 (took [i, j, k] (vd s)) (bufs s)" using alloc3_moves [of c s] by auto
  show ?thesis using vinv_post [OF _ m post(5,6) refl] assms(3) post(1,2) by simp
next
  case (busy c s s' g l)
  then obtain D where "\<forall>i. \<not> dk_free (vd s) i \<longrightarrow> D i = dk_desc (vd s) i" "vmove c s s' ((vd s)\<lparr>dk_desc := D\<rparr>) (bufs s)"
    using alloc3_moves [of c s] by auto
  then show ?thesis using vinv_busy assms(3) busy(1,2) by blast
next
  case (fetch l s h g r)
  then show ?thesis using vinv_fetch [of s g l h r] assms(3) by simp
next
  case (serve g h r s l)
  then show ?thesis using vinv_serve [of s g l dev h r] assms(2,3) by simp
next
  case (intr c s s' g l)
  then show ?thesis using intr_runs [of s g l c mm] vinv_intr [of s g l c s'] assms(3) by auto
next
  case (finish c s g h r s' l)
  then show ?thesis using finish_runs [of s g l c h r] vinv_finish [of s g l h r c s'] assms(3) by auto
next
  case (other s' lk s g l)
  then show ?thesis using vinv_other [of s g l s' lk] assms(3) by simp
qed

lemma vsteps_vinv: "(vstep dev mm)\<^sup>*\<^sup>* x y \<Longrightarrow> virtio_device dev \<Longrightarrow> vinv x \<Longrightarrow> vinv y"
  by (induction rule: rtranclp_induct) (auto intro: vstep_vinv)

text \<open>A device that does what is required of one.\<close>

definition sample_device :: "nat \<Rightarrow> 'a vkern_scheme \<Rightarrow> 'a vkern_scheme" where
  "sample_device h s =
     (let D = dk_desc (vd s); j = unat (vq_next (D h)); k = unat (vq_next (D j))
      in case (vq_addr (D h), vq_addr (D j), vq_addr (D k)) of
           (OpAddr x, DataAddr b, StatusAddr y) \<Rightarrow>
             served h b y (rq_type (dk_ops (vd s) x) = VIRTIO_BLK_T_OUT) (ucast (rq_sector (dk_ops (vd s) x) div 2)) s
         | _ \<Rightarrow> s)"

lemma sample_device_ok: "virtio_device sample_device"
  unfolding virtio_device_def by (auto simp: sample_device_def Let_def VIRTIO_BLK_T_OUT_def VIRTIO_BLK_T_IN_def)

text \<open>
  C22: from a disk just initialised, whatever processes post, the device takes and completes in any order and
  interrupts handle: a descriptor is free exactly when no request in flight has it, so no two requests
  share one; the next entry of the avail ring is always a request posted and not yet taken; looking for
  descriptors and the interrupt handler never panic; and a process that finds its buffer no longer
  marked has its block and its buffer equal, a write having written what it was asked to, and gives
  back its three descriptors.
\<close>

theorem disk_requests_carried_out:
  fixes s0 s :: "'a vkern_scheme"
  assumes "virtio_device dev" and "disk_ready (vd s0)" and "(vstep dev mm)\<^sup>*\<^sup>* (s0, Map.empty, av_idx (vd s0)) (s, g, l)" and "quiet c s"
  shows "(\<forall>i < NUM. dk_free (vd s) i \<longleftrightarrow> (\<forall>h r. g h = Some r \<longrightarrow> i \<notin> members h r)) \<and>
    (\<forall>h r h' r'. g h = Some r \<and> g h' = Some r' \<and> h \<noteq> h' \<longrightarrow> members h r \<inter> members h' r' = {}) \<and>
    (l \<noteq> av_idx (vd s) \<longrightarrow> (\<exists>r. g (unat (av_ring (vd s) (unat l mod NUM))) = Some r \<and> r_stage r = Posted)) \<and>
    (\<exists>x s'. alloc3_desc c s = Ok (x, s')) \<and>
    (lock_clean (vdisk_lock (vd s)) \<longrightarrow> (\<exists>s'. virtio_disk_intr mm c s = Ok s')) \<and>
    (\<forall>h r. g h = Some r \<and> \<not> b_disk (bufs s (r_buf r)) \<longrightarrow>
      transferred s r \<and> (\<exists>s'. vrw_finish c h s = Ok s' \<and> (\<forall>i \<in> members h r. dk_free (vd s') i)))"
proof (intro conjI allI impI; (elim conjE)?)
  note inv = vsteps_vinv [OF assms(3,1) vinv_ready [OF assms(2)]]
  show "dk_free (vd s) i \<longleftrightarrow> (\<forall>h r. g h = Some r \<longrightarrow> i \<notin> members h r)" if "i < NUM" for i by (rule vinvD(2) [OF inv that])
  show "members h r \<inter> members h' r' = {}" if "g h = Some r" "g h' = Some r'" "h \<noteq> h'" for h r h' r' using apart_reqsD [OF vinvD(3) [OF inv] that] by blast
  show "\<exists>r. g (unat (av_ring (vd s) (unat l mod NUM))) = Some r \<and> r_stage r = Posted" if "l \<noteq> av_idx (vd s)"
    using in_ring_pop(1) [OF vinvD(4) [OF inv] that] by (simp add: at_stage_def)
  show "\<exists>x s'. alloc3_desc c s = Ok (x, s')" using alloc3_moves [OF assms(4)] by blast
  show "\<exists>s'. virtio_disk_intr mm c s = Ok s'" if "lock_clean (vdisk_lock (vd s))" using intr_runs [OF inv assms(4) that] by blast
  show "transferred s r" if "g h = Some r" "\<not> b_disk (bufs s (r_buf r))" for h r using vinvD(1) [OF inv that(1)] that(2) by (simp add: req_ok_def)
  show "\<exists>s'. vrw_finish c h s = Ok s' \<and> (\<forall>i \<in> members h r. dk_free (vd s') i)" if "g h = Some r" for h r
    using finish_runs [OF inv assms(4) that] by (auto simp: vmove_def clear_desc_def members_def)
qed

text \<open>A disk with no request, and a buffer of block 5 to be written.\<close>

definition vkern0 :: vkern where
  "vkern0 = (xkern.extend (ckern.extend ckern0
     \<lparr>stvec = (\<lambda>_. 0), sepc = (\<lambda>_. 0), scause = (\<lambda>_. 0), stval = (\<lambda>_. 0), satp = (\<lambda>_. 0), stimecmp = (\<lambda>_. 0),
      kernel_pagetable = 0, first = False, started = True, plic_claims = (\<lambda>_. 0), nclaims = 0, plic_out = []\<rparr>)
     \<lparr>vd = \<lparr>dk_desc = (\<lambda>_. no_desc), av_idx = 0, av_ring = (\<lambda>_. 0), us_idx = 0, us_ring = (\<lambda>_. 0), dk_free = (\<lambda>i. i < NUM), dk_used_idx = 0,
        dk_info = (\<lambda>_. \<lparr>if_b = None, if_status = 0\<rparr>), dk_ops = (\<lambda>_. \<lparr>rq_type = 0, rq_reserved = 0, rq_sector = 0\<rparr>), vdisk_lock = initlock ''virtio_disk''\<rparr>,
      v_out = [], v_pages = []\<rparr>)
     \<lparr>bufs := (\<lambda>_. zero_buf)(3 := zero_buf\<lparr>b_blockno := 5, b_data := replicate 1024 7\<rparr>)\<rparr>"

lemma vkern0_ok: "quiet 0 vkern0" "disk_ready (vd vkern0)" "lock_clean (vdisk_lock (vd vkern0))"
  by (simp_all add: vkern0_def ckern0_def pkern0_def lkern0_def bkern0_def kern.defs bkern.defs lkern.defs fkern.defs pkern.defs ckern.defs xkern.defs quiet_def hart_ok_def
      intr_get_def one_running_def boot_hw_def initlock_def lock_clean_def disk_ready_def)

lemma vkern0_alloc: "alloc3_desc 0 vkern0 = Ok (Some [0, 1, 2], vkern0\<lparr>vd := took [0, 1, 2] (vd vkern0)\<rparr>)"
proof -
  have f: "dk_free (vd vkern0) = (\<lambda>i. i < NUM)"
    by (simp add: vkern0_def xkern.defs)
  have u: "[0..<NUM] = [0, 1, 2, 3, 4, 5, 6, 7]" by (simp add: NUM_def upt_rec)
  have took_nil: "took [] d = d" for d by (simp add: took_def)
  have fst: "fst (alloc_desc d) = find (dk_free d) [0..<NUM]" for d by (simp add: alloc_desc_def split: option.split)
  have a: "alloc_desc (took l (vd vkern0)) = (Some i, took (l @ [i]) (vd vkern0))"
    if "takable l (vd vkern0)" "find (\<lambda>i. i < NUM \<and> i \<notin> set l) [0, 1, 2, 3, 4, 5, 6, 7] = Some i" for l i
    using alloc_desc_took [OF that(1)] fst [of "took l (vd vkern0)"] that(2) unfolding u by (auto simp: took_def f)
  have t: "alloc_desc (vd vkern0) = (Some 0, took [0] (vd vkern0))" "alloc_desc (took [0] (vd vkern0)) = (Some 1, took [0, 1] (vd vkern0))"
    "alloc_desc (took [0, 1] (vd vkern0)) = (Some 2, took [0, 1, 2] (vd vkern0))"
    using a [of "[]" 0] a [of "[0]" 1] a [of "[0, 1]" 2] by (simp_all add: took_nil takable_def f NUM_def)
  show ?thesis by (simp add: alloc3_desc_def numeral_3_eq_3 t [unfolded One_nat_def])
qed

lemma vkern0_run:
  obtains s :: vkern and g r where "(vstep sample_device (\<lambda>_ _. 0))\<^sup>*\<^sup>* (vkern0, Map.empty, av_idx (vd vkern0)) (s, g, 1)" and "quiet 0 s"
    and "g 0 = Some r" and "r_buf r = 3" and "r_wr r" and "r_data r = replicate 1024 7" and "\<not> b_disk (bufs s 3)" and "b_blockno (bufs s 3) = 5"
proof -
  let ?m = "\<lambda>_ _. 0 :: u32" and ?r = "\<lparr>r_mid = 1, r_tail = 2, r_buf = 3, r_wr = True, r_data = replicate 1024 7, r_stage = Posted\<rparr>"
  let ?s1 = "vkern0\<lparr>vd := took [0, 1, 2] (vd vkern0)\<rparr>"
  let ?s2 = "vrw_submit 0 1 2 3 True (vrw_sector 3 vkern0) ?s1" and ?g2 = "Map.empty(0 \<mapsto> ?r)" and ?g3 = "Map.empty(0 \<mapsto> ?r\<lparr>r_stage := Working\<rparr>)" and ?g4 = "Map.empty(0 \<mapsto> ?r\<lparr>r_stage := Done\<rparr>)"
  have b: "bufs vkern0 3 = zero_buf\<lparr>b_blockno := 5, b_data := replicate 1024 7\<rparr>" "av_idx (vd vkern0) = 0" by (simp_all add: vkern0_def xkern.defs)
  have p: "vstep sample_device ?m (vkern0, Map.empty, 0) (?s2, ?g2, 0)"
    using vstep.post [OF vkern0_ok(1) vkern0_alloc, of Map.empty 3] b by simp
  have v2: "av_idx (vd ?s2) = 1" "av_ring (vd ?s2) 0 = 0" by (simp_all add: submit_vd format_req_def took_def b NUM_def)
  have f: "vstep sample_device ?m (?s2, ?g2, 0) (?s2, ?g3, 1)"
    using vstep.fetch [of 0 ?s2 0 ?g2 ?r] v2 by (simp add: NUM_def)
  have d: "vstep sample_device ?m (?s2, ?g3, 1) (sample_device 0 ?s2, ?g4, 1)"
    using vstep.serve [of ?g3 0 "?r\<lparr>r_stage := Working\<rparr>"] by simp
  have st: "(vstep sample_device ?m)\<^sup>*\<^sup>* (vkern0, Map.empty, av_idx (vd vkern0)) (sample_device 0 ?s2, ?g4, 1)"
    using p f d unfolding b(2) by (meson converse_rtranclp_into_rtranclp rtranclp.rtrancl_refl)
  have "(vstep sample_device ?m)\<^sup>*\<^sup>* (vkern0, Map.empty, av_idx (vd vkern0)) (?s2, ?g3, 1)"
    using p f unfolding b(2) by (meson converse_rtranclp_into_rtranclp rtranclp.rtrancl_refl)
  from vsteps_vinv [OF this sample_device_ok vinv_ready [OF vkern0_ok(2)]] have "req_ok ?s2 0 (?r\<lparr>r_stage := Working\<rparr>)" by (rule vinvD(1)) simp
  from device_serves [OF sample_device_ok this] have s3: "sample_device 0 ?s2 = served 0 3 0 True (b_blockno (bufs ?s2 3)) ?s2" by simp
  have q: "quiet 0 (sample_device 0 ?s2)" "lock_clean (vdisk_lock (vd (sample_device 0 ?s2)))"
    using vkern0_ok unfolding s3 by (simp_all add: served_def Let_def vrw_submit_def reg_write_def upd_buf_def format_req_def took_def quiet_def hart_ok_def intr_get_def)
  note inv = vsteps_vinv [OF st sample_device_ok vinv_ready [OF vkern0_ok(2)]]
  obtain s4 where s4: "virtio_disk_intr ?m 0 (sample_device 0 ?s2) = Ok s4" "quiet 0 s4" "b_blockno (bufs s4 3) = b_blockno (bufs (sample_device 0 ?s2) 3)"
    using intr_runs [OF inv q, of ?m] by (auto simp: vmove_def seen_def)
  have st4: "(vstep sample_device ?m)\<^sup>*\<^sup>* (vkern0, Map.empty, av_idx (vd vkern0)) (s4, advance ?g4, 1)"
    by (rule rtranclp.rtrancl_into_rtrancl [OF st vstep.intr [OF q s4(1)]])
  have g: "advance ?g4 0 = Some (?r\<lparr>r_stage := Seen\<rparr>)" by (simp add: advance_def)
  from vinvD(1) [OF vsteps_vinv [OF st4 sample_device_ok vinv_ready [OF vkern0_ok(2)]] g] have "\<not> b_disk (bufs s4 3)" by (simp add: req_ok_def)
  moreover have "b_blockno (bufs s4 3) = 5" using s4(3) unfolding s3 by (simp add: served_bufs submit_bufs b)
  ultimately show ?thesis by (intro that [OF st4 s4(2) g]) simp_all
qed

theorem disk_requests_carried_out_witness:
  "virtio_device (sample_device :: nat \<Rightarrow> vkern \<Rightarrow> vkern) \<and> disk_ready (vd vkern0) \<and>
   (\<exists>(s :: vkern) g. (vstep sample_device (\<lambda>_ _. 0))\<^sup>*\<^sup>* (vkern0, Map.empty, av_idx (vd vkern0)) (s, g, 1) \<and> quiet 0 s \<and>
      disk s 5 = replicate 1024 7 \<and> (\<exists>s'. vrw_finish 0 0 s = Ok s' \<and> dk_free (vd s') 0))"
proof -
  obtain s :: vkern and g r where s: "(vstep sample_device (\<lambda>_ _. 0))\<^sup>*\<^sup>* (vkern0, Map.empty, av_idx (vd vkern0)) (s, g, 1)" "quiet 0 s"
    "g 0 = Some r" "r_buf r = 3" "r_wr r" "r_data r = replicate 1024 7" "\<not> b_disk (bufs s 3)" "b_blockno (bufs s 3) = 5" by (rule vkern0_run)
  have "transferred s r \<and> (\<exists>s'. vrw_finish 0 0 s = Ok s' \<and> (\<forall>i \<in> members 0 r. dk_free (vd s') i))"
    using disk_requests_carried_out [OF sample_device_ok vkern0_ok(2) s(1,2)] s(3,4,7) by auto
  then have "disk s 5 = replicate 1024 7" "\<exists>s'. vrw_finish 0 0 s = Ok s' \<and> dk_free (vd s') 0" using s(4-6,8) by (auto simp: transferred_def members_def)
  then show ?thesis using s(1,2) sample_device_ok vkern0_ok(2) by blast
qed

end
