(* ===== verification/Spec2Isabelle.thy ===== *)
theory Spec2Isabelle
  imports Sched Sleepwake Vmap Trap Names Files Lines Grep Utils Sh Vsafe
begin

text \<open>
  A verification development of the xv6 kernel with scheduling extensions, and of its user programs.

  \<^bold>\<open>The program\<close>

  xv6 is a small Unix for RISC-V. This version chooses at build time among five scheduling policies:
  round robin, first in first out, shortest job first, shortest time to completion first and a
  multi-level feedback queue. Every hart runs \<^verbatim>\<open>scheduler\<close> (\<^verbatim>\<open>kernel/proc.c\<close>), which picks a process and
  switches to it; the process comes back through \<^verbatim>\<open>sched\<close>, called by \<^verbatim>\<open>yield\<close>, \<^verbatim>\<open>sleep\<close> and \<^verbatim>\<open>kexit\<close>. Traps
  (\<^verbatim>\<open>trap.c\<close>) enter the kernel from user programs and devices; \<^verbatim>\<open>syscall.c\<close> dispatches system calls
  to \<^verbatim>\<open>sysproc.c\<close> and \<^verbatim>\<open>sysfile.c\<close>, which use processes (\<^verbatim>\<open>proc.c\<close>), memory (\<^verbatim>\<open>vm.c\<close> over \<^verbatim>\<open>kalloc.c\<close>), program
  loading (\<^verbatim>\<open>exec.c\<close>), files and pipes (\<^verbatim>\<open>file.c\<close>, \<^verbatim>\<open>pipe.c\<close>), the file system (\<^verbatim>\<open>fs.c\<close>) over a write-ahead log
  (\<^verbatim>\<open>log.c\<close>) over a buffer cache (\<^verbatim>\<open>bio.c\<close>) over the disk (\<^verbatim>\<open>virtio_disk.c\<close>), and the console (\<^verbatim>\<open>console.c\<close>,
  \<^verbatim>\<open>uart.c\<close>, \<^verbatim>\<open>printf.c\<close>). Spin locks (\<^verbatim>\<open>spinlock.c\<close>) and sleep locks (\<^verbatim>\<open>sleeplock.c\<close>) protect what the harts
  share. User programs (\<^verbatim>\<open>user/\<close>) are a shell, small utilities and a library over the system calls.

  \<^bold>\<open>State\<close>

  A routine that can fail returns a value of the type result: Ok, Panic with the message of the
  kernel's \<^verbatim>\<open>panic\<close>, or Hang, for a wait that the modelled thread cannot end itself. The state of the
  kernel is a chain of extensible records, one link for each component that adds fields: hw (harts,
  interrupt enable bits, clock), km (physical memory as a map from 64-bit addresses to bytes, the free
  list), kern (process table, process locks, wait_lock, ticks), bkern (buffers and disk), lkern (log),
  fkern (super block, inode table, what was printed), pkern (open files, pipes), ckern (console, UART),
  xkern (trap registers), vkern (disk driver). Operations are polymorphic in the rest of the record, so a
  lower component is used unchanged by the higher ones. C integers are words of their width, and wrap;
  plain int is used where the code keeps a count far from its bounds (the nesting depth of push_off,
  reference counts, the fuel of loops), and no theorem relies on wrap-around there.

  \<^bold>\<open>Theories and sources\<close>

  \<^item> Prelude: outcomes, counted loops, least elements of lists. Layout: \<^verbatim>\<open>param.h\<close>, \<^verbatim>\<open>memlayout.h\<close>, the
    page table macros of \<^verbatim>\<open>riscv.h\<close>. Cmem: \<^verbatim>\<open>string.c\<close> over byte-addressed memory. Bytes, Cstr:
    little-endian fields, C strings as byte lists.
  \<^item> Spinlock: \<^verbatim>\<open>spinlock.c\<close>, \<^verbatim>\<open>struct cpu\<close>. Kalloc: \<^verbatim>\<open>kalloc.c\<close>. Proc: process table, \<^verbatim>\<open>sched\<close>, \<^verbatim>\<open>yield\<close>,
    \<^verbatim>\<open>sleep\<close>, \<^verbatim>\<open>wakeup\<close>, \<^verbatim>\<open>kkill\<close> of \<^verbatim>\<open>proc.c\<close>. Sleepwake: \<^verbatim>\<open>sleep\<close> and \<^verbatim>\<open>wakeup\<close> again, as step relations of
    interleaved processes. Sched: the five policies and the loop of \<^verbatim>\<open>scheduler\<close>. Life: \<^verbatim>\<open>allocproc\<close>,
    \<^verbatim>\<open>freeproc\<close>, \<^verbatim>\<open>kfork\<close>, \<^verbatim>\<open>kexit\<close>, \<^verbatim>\<open>kwait\<close>, \<^verbatim>\<open>growproc\<close> and the rest of \<^verbatim>\<open>proc.c\<close>.
  \<^item> Vm: \<^verbatim>\<open>vm.c\<close>; Vmap: the meaning of page tables as maps; Ucopy: single bytes to user memory.
  \<^item> Sleeplock: \<^verbatim>\<open>sleeplock.c\<close>. Bio: \<^verbatim>\<open>bio.c\<close>; Blocks: the cache as the log and file system see it.
    Log, Txn: \<^verbatim>\<open>log.c\<close>. Fs: \<^verbatim>\<open>fs.c\<close>; Balloc, Files, Names: its allocation, contents and names.
    File: \<^verbatim>\<open>file.c\<close>, \<^verbatim>\<open>pipe.c\<close>. Exec: \<^verbatim>\<open>exec.c\<close>. Syscall, Sysfile, Trap: \<^verbatim>\<open>syscall.c\<close>, \<^verbatim>\<open>sysproc.c\<close>, \<^verbatim>\<open>sysfile.c\<close>,
    \<^verbatim>\<open>trap.c\<close>, \<^verbatim>\<open>plic.c\<close>, \<^verbatim>\<open>main.c\<close>.
  \<^item> Printf: \<^verbatim>\<open>kernel/printf.c\<close> and \<^verbatim>\<open>user/printf.c\<close>. Console: \<^verbatim>\<open>console.c\<close>, \<^verbatim>\<open>uart.c\<close>; Lines: its line
    discipline. Virtio: \<^verbatim>\<open>virtio_disk.c\<close>; Vqueue, Vsafe: the driver and its device as a protocol.
  \<^item> Ulib: \<^verbatim>\<open>user/ulib.c\<close>. Grep: \<^verbatim>\<open>user/grep.c\<close>. Utils: cat, wc, echo, kill, ln, mkdir, rm, ls.
    Sh: the parser of \<^verbatim>\<open>user/sh.c\<close>.

  Definitions keep the names of the functions they translate. A loop or a block of a function that
  needs a recursion is a definition of its own, named after the function. Jumps to an error label are
  calls of a definition for the label.

  \<^bold>\<open>What is shown\<close>

  \<^item> Scheduling. Whatever the policy, an iteration of the scheduler neither panics nor deadlocks and, if it
    ends, leaves every lock free. Round robin serves, in table order, exactly the slots that are RUNNABLE
    when it reaches them. The other policies run the least process in their order: creation time;
    hint or remaining time, then creation time, then pid; queue level after aging, then last run
    time. The feedback queue keeps levels within the table of quanta and, if the work is finite, ends with
    nothing left to run. Two lemmas say exactly what the accounting does, wrap-around and double
    charge included.
  \<^item> Synchronisation. A spin lock is held by one hart at a time, in every interleaving of its memory
    accesses. No wakeup is lost, in every interleaving of the statements of \<^verbatim>\<open>sleep\<close> and \<^verbatim>\<open>wakeup\<close>. \<^verbatim>\<open>wakeup\<close>,
    \<^verbatim>\<open>kkill\<close>, \<^verbatim>\<open>yield\<close>, \<^verbatim>\<open>push_off\<close> and \<^verbatim>\<open>pop_off\<close> do exactly what they promise, for every table.
  \<^item> Memory. The allocator neither loses nor duplicates a page over any sequence of calls; \<^verbatim>\<open>kinit\<close> frees
    exactly the pages up to \<^verbatim>\<open>PHYSTOP\<close>. \<^verbatim>\<open>memmove\<close> and \<^verbatim>\<open>safestrcpy\<close> are right for overlapping and for short
    buffers. \<^verbatim>\<open>mappages\<close> installs the translations asked for and no others, and \<^verbatim>\<open>walkaddr\<close> reads them back.
  \<^item> Storage. A buffer read is the block of the disk, the cache recycles the least recently used
    buffer, a transaction survives a crash at any point as a whole or not at all, the allocator
    of blocks takes the first free one and zeroes it, what \<^verbatim>\<open>writei\<close> puts into a file \<^verbatim>\<open>readi\<close> gives back,
    inodes and directory entries are found as they were stored, and paths are split at their
    slashes. The disk driver hands the device only well-formed requests, never panics, and a
    finished request has been carried out, in any interleaving with the device and its interrupts.
  \<^item> Console and output. The interrupt handler is an editor of lists of characters; a read takes what is
    ready, up to a line, to user memory. Both printers print what a format means; \<^verbatim>\<open>atoi\<close> reads a
    printed number back.
  \<^item> User programs. The matcher of grep decides the language of its pattern, grep prints the
    matching lines of its input, and the shell's parser accepts exactly the lines of its grammar and
    builds their commands.

  \<^bold>\<open>Interfaces\<close>

  Locales state what one component relies on in another and are interpreted on the model's own
  definitions: lock_field, kcell, spin_cell and sleep_cell (a lock in a field of the state and
  its operations), page_allocator (what clients of \<^verbatim>\<open>kalloc\<close> and \<^verbatim>\<open>kfree\<close> may assume), job_key and
  turn_policy (what the policies that pick a least process, and those that run one turn, share).

  \<^bold>\<open>Parameters and hypotheses\<close>

  What the sources do not contain is an argument. In Sched, run stands for \<^verbatim>\<open>swtch\<close> into a process until it
  switches back, intf and irq for other harts and interrupt handlers. The named hypotheses on them
  are: returns (a turn comes back holding the lock of its process, which is all the check in \<^verbatim>\<open>sched\<close>
  allows), harmless (others leave the locks and this hart as they were), writes_levels (the kernel
  writes queue level and priority only to reset them in a new process, to age and to demote; Life has
  the lemmas for \<^verbatim>\<open>freeproc\<close> and \<^verbatim>\<open>allocproc\<close>), finite_work (turns lower a measure), keeps_ready (a turn
  takes no other process out of RUNNABLE), logs (a ghost trace records the turns). In Proc and
  above, sw is what happens while a process is switched out. The device of Vqueue is constrained by
  virtio_device, the documented behaviour of a virtio block device; Bio uses the disk by the contract
  of \<^verbatim>\<open>virtio_disk_rw\<close>, a read or write of one block, and Virtio has the driver. User programs take the
  system calls as a record of functions; the theorems on grep assume streams: read delivers the input in
  pieces, write appends to the output. Linker symbols are arguments.

  \<^bold>\<open>Fuel and bounds\<close>

  Loops whose end depends on other code have fuel, and running out is Hang or None, never a result. The
  fuel given is enough in each theorem: the length of the table, list or line, the number of pages
  or blocks of a request, the length of the input for grep, four times the length of the line for the
  parser. The search of the feedback queue may run for ever; it is a partial function whose value
  None is not returning, and that it returns is proved from finite_work. Fs and above are one thread of
  control: a sleep lock taken by someone else, or a full log, is Hang.

  \<^bold>\<open>Not modelled\<close>

  Machine-mode start and assembly (\<^verbatim>\<open>start.c\<close>, \<^verbatim>\<open>entry.S\<close>, \<^verbatim>\<open>kernelvec.S\<close>, \<^verbatim>\<open>trampoline.S\<close>, \<^verbatim>\<open>swtch.S\<close>): registers
  only, seen here as saved and restored state. \<^verbatim>\<open>user/umalloc.c\<close>, \<^verbatim>\<open>user/init.c\<close>, the part of the shell that
  forks and executes, \<^verbatim>\<open>mkfs\<close> and the test programs: loops over system calls of several processes, or
  programs that are no part of the system. The memory ordering that fences enforce: memory is
  sequentially consistent. The spinning of \<^verbatim>\<open>uartputc_sync\<close> on the transmitter and the lock of \<^verbatim>\<open>printf\<close>: only
  the text is kept. The progress message of log recovery.
\<close>

end
